(* ===== verification/Prelude.thy ===== *)
theory Prelude
  imports Main "HOL-Library.Word"
begin

unbundle bit_operations_syntax

text \<open>
  Shared vocabulary of the development.

  The C code of the repository is compiled for a 64-bit little-endian platform (iOS on arm64):
  \<open>size_t\<close>, \<open>uintptr_t\<close> and pointers have 64 bits, \<open>bool\<close> and \<open>uint_fast8_t\<close> one byte.
  A byte is an 8-bit word and a buffer a list of bytes.  A pointer is a natural number, with 0
  for \<open>NULL\<close>; the address space is a function from addresses to bytes, which \<open>mload\<close> and
  \<open>mstore\<close> read and write.  Integers in memory are little-endian (\<open>le_val\<close>, \<open>le_bytes\<close>).

  A \<open>size_t\<close> that only moves under a guard is a \<open>nat\<close>; where the code relies on
  wrap-around it is reduced modulo \<open>size_mod\<close> or kept as a word.
\<close>

section \<open>Bytes, sizes and memory\<close>

type_synonym byte = "8 word"
type_synonym addr = nat
type_synonym mem = "nat \<Rightarrow> 8 word"

definition size_mod :: nat where
  "size_mod = 2 ^ 64"

text \<open>\<open>memcmp\<close> of the C library, for two areas of the same length: only the sign of the result is specified.\<close>

fun memcmp :: "byte list \<Rightarrow> byte list \<Rightarrow> int" where
  "memcmp (x # xs) (y # ys) = (if x < y then - 1 else if y < x then 1 else memcmp xs ys)"
| "memcmp _ _ = 0"

definition mload :: "mem \<Rightarrow> addr \<Rightarrow> nat \<Rightarrow> byte list" where
  "mload m a n = map m [a..<a + n]"

definition mstore :: "mem \<Rightarrow> addr \<Rightarrow> byte list \<Rightarrow> mem" where
  "mstore m a bs = (\<lambda>x. if a \<le> x \<and> x < a + length bs then bs ! (x - a) else m x)"

text \<open>Little-endian integers of \<open>n\<close> bytes.\<close>

fun le_bytes :: "nat \<Rightarrow> nat \<Rightarrow> byte list" where
  "le_bytes 0 v = []"
| "le_bytes (Suc n) v = word_of_nat (v mod 256) # le_bytes n (v div 256)"

fun le_val :: "byte list \<Rightarrow> nat" where
  "le_val [] = 0"
| "le_val (b # bs) = unat b + 256 * le_val bs"

definition rd_u :: "mem \<Rightarrow> addr \<Rightarrow> nat \<Rightarrow> nat" where
  "rd_u m a n = le_val (mload m a n)"

definition wr_u :: "mem \<Rightarrow> addr \<Rightarrow> nat \<Rightarrow> nat \<Rightarrow> mem" where
  "wr_u m a n v = mstore m a (le_bytes n v)"

text \<open>Two's complement reading of an unsigned value of \<open>w\<close> bits, and back.\<close>

definition to_signed :: "nat \<Rightarrow> nat \<Rightarrow> int" where
  "to_signed w v = (if v < 2 ^ (w - 1) then int v else int v - 2 ^ w)"

definition of_signed :: "nat \<Rightarrow> int \<Rightarrow> nat" where
  "of_signed w i = nat (i mod 2 ^ w)"

text \<open>Two memories agree outside the half-open range \<open>[a, a + n)\<close>.\<close>

definition same_outside :: "addr \<Rightarrow> nat \<Rightarrow> mem \<Rightarrow> mem \<Rightarrow> bool" where
  "same_outside a n m m' \<longleftrightarrow> (\<forall>x. x < a \<or> a + n \<le> x \<longrightarrow> m' x = m x)"

named_theorems mem_simps \<open>reading a memory after a write\<close>

section \<open>Lemmas on little-endian integers\<close>

lemma size_mod_pos [simp]: "0 < size_mod"
  by (simp add: size_mod_def)

lemma unat_byte_less [simp]: "unat (b :: byte) < 256"
  using unsigned_less [where 'a = nat, of b] by simp

lemma length_le_bytes [simp]: "length (le_bytes n v) = n"
  by (induction n arbitrary: v) auto

lemma le_val_le_bytes: "le_val (le_bytes n v) = v mod 256 ^ n"
proof (induction n arbitrary: v)
  case 0
  then show ?case by simp
next
  case (Suc n)
  have "v mod 256 ^ Suc n = v mod 256 + 256 * (v div 256 mod 256 ^ n)"
    by (simp add: mod_mult2_eq)
  with Suc show ?case
    by (simp add: unat_of_nat take_bit_eq_mod)
qed

lemma le_val_bound: "le_val bs < 256 ^ length bs"
proof (induction bs)
  case Nil
  then show ?case by simp
next
  case (Cons b bs)
  have "unat b < 256" by simp
  with Cons have "unat b + 256 * le_val bs < 256 * 256 ^ length bs" by linarith
  then show ?case by simp
qed

lemma le_bytes_le_val: "le_bytes (length bs) (le_val bs) = bs"
proof (induction bs)
  case Nil
  then show ?case by simp
next
  case (Cons b bs)
  have "unat b < 256" by simp
  then show ?case using Cons by simp
qed

section \<open>Lemmas on memory\<close>

lemma length_mload [simp]: "length (mload m a n) = n"
  by (simp add: mload_def)

lemma mload_0 [simp]: "mload m a 0 = []"
  by (simp add: mload_def)

lemma mload_1: "mload m a (Suc 0) = [m a]"
  by (simp add: mload_def)

lemma mstore_Nil [simp]: "mstore m a [] = m"
  by (rule ext) (auto simp: mstore_def)

lemma mload_mstore_same [mem_simps]: "mload (mstore m a bs) a (length bs) = bs"
  by (rule nth_equalityI) (auto simp: mload_def mstore_def)

lemma mload_mstore_other [mem_simps]:
  "b + n \<le> a \<or> a + length bs \<le> b \<Longrightarrow> mload (mstore m a bs) b n = mload m b n"
  by (auto simp: mload_def mstore_def)

lemma rd_u_wr_u_same [mem_simps]: "rd_u (wr_u m a n v) a n = v mod 256 ^ n"
  using mload_mstore_same [of m a "le_bytes n v"]
  by (simp add: rd_u_def wr_u_def le_val_le_bytes)

lemma rd_u_wr_u_other [mem_simps]:
  "b + k \<le> a \<or> a + n \<le> b \<Longrightarrow> rd_u (wr_u m a n v) b k = rd_u m b k"
  by (simp add: rd_u_def wr_u_def mload_mstore_other)

lemma rd_u_mstore_other [mem_simps]:
  "b + k \<le> a \<or> a + length bs \<le> b \<Longrightarrow> rd_u (mstore m a bs) b k = rd_u m b k"
  by (simp add: rd_u_def mload_mstore_other)

lemma rd_u_bound: "rd_u m a n < 256 ^ n"
  using le_val_bound [of "mload m a n"] by (simp add: rd_u_def)

lemma same_outside_refl [simp, intro]: "same_outside a n m m"
  by (simp add: same_outside_def)

lemma same_outside_trans:
  "same_outside a n m m' \<Longrightarrow> same_outside a n m' m'' \<Longrightarrow> same_outside a n m m''"
  by (simp add: same_outside_def)

lemma same_outside_mono:
  "same_outside b k m m' \<Longrightarrow> a \<le> b \<Longrightarrow> b + k \<le> a + n \<Longrightarrow> same_outside a n m m'"
  by (auto simp: same_outside_def)

lemma same_outside_mstore [intro]:
  "a \<le> b \<Longrightarrow> b + length bs \<le> a + n \<Longrightarrow> same_outside a n m (mstore m b bs)"
  by (auto simp: same_outside_def mstore_def)

lemma same_outside_wr_u [intro]:
  "a \<le> b \<Longrightarrow> b + k \<le> a + n \<Longrightarrow> same_outside a n m (wr_u m b k v)"
  unfolding wr_u_def by (rule same_outside_mstore) simp_all

section \<open>Lemmas on two's complement\<close>

lemma of_signed_to_signed:
  assumes "0 < w" and "v < 2 ^ w"
  shows "of_signed w (to_signed w v) = v"
proof (cases "v < 2 ^ (w - 1)")
  case True
  then show ?thesis using assms
    by (simp add: of_signed_def to_signed_def nat_mod_distrib nat_power_eq)
next
  case False
  have "(int v - 2 ^ w) mod 2 ^ w = int v mod 2 ^ w" by simp
  also have "\<dots> = int v" using assms(2) by (simp add: of_nat_less_iff [symmetric] del: of_nat_less_iff)
  finally show ?thesis using False by (simp add: of_signed_def to_signed_def)
qed

lemma to_signed_of_signed:
  assumes "0 < w" and "- (2 ^ (w - 1)) \<le> i" and "i < 2 ^ (w - 1)"
  shows "to_signed w (of_signed w i) = i"
proof -
  have two: "(2::int) ^ w = 2 * 2 ^ (w - 1)"
    using assms(1) by (cases w) auto
  show ?thesis
  proof (cases "0 \<le> i")
    case True
    then have "i mod 2 ^ w = i" using assms two by simp
    moreover have "nat i < 2 ^ (w - 1)"
      using assms(3) True by (simp add: nat_less_iff)
    ultimately show ?thesis using True by (simp add: of_signed_def to_signed_def)
  next
    case False
    have "i mod 2 ^ w = (i + 2 ^ w) mod 2 ^ w" by simp
    also have "\<dots> = i + 2 ^ w"
      by (rule mod_pos_pos_trivial) (use False assms two in linarith)+
    finally have m: "i mod 2 ^ w = i + 2 ^ w" .
    have "\<not> nat (i + 2 ^ w) < 2 ^ (w - 1)"
      using False assms two by (simp add: nat_less_iff)
    then show ?thesis using m False assms two by (simp add: of_signed_def to_signed_def)
  qed
qed

section \<open>The top bit of a byte\<close>

lemma bit_80: "bit (0x80 :: int) n \<longleftrightarrow> n = 7"
proof -
  have "(0x80 :: int) = 2 ^ 7" by simp
  then show ?thesis by (simp only: bit_exp_iff) auto
qed

lemma and_80: "(b :: byte) AND 0x80 \<noteq> 0 \<longleftrightarrow> bit b 7"
proof
  assume "b AND 0x80 \<noteq> 0"
  then obtain n where "bit (b AND 0x80) n" by (metis bit_eqI bit_0_eq bot_apply bot_bool_def)
  then show "bit b 7" by (auto simp: bit_simps bit_80)
next
  assume "bit b 7"
  then have "bit (b AND 0x80) 7" by (auto simp: bit_simps bit_80)
  then show "b AND 0x80 \<noteq> 0" by fastforce
qed

lemma and_80_eq: "(b :: byte) AND 0x80 = 0 \<longleftrightarrow> \<not> bit b 7"
  using and_80 by blast

lemma bit_7_iff: "bit (b :: byte) 7 \<longleftrightarrow> 128 \<le> unat b"
proof -
  have "unat b < 256" by simp
  have "bit b 7 \<longleftrightarrow> odd (unat b div 2 ^ 7)"
  proof -
    have "bit b 7 \<longleftrightarrow> bit (unat b) 7" by (simp add: bit_unsigned_iff)
    then show ?thesis by (simp only: bit_iff_odd)
  qed
  also have "\<dots> \<longleftrightarrow> 128 \<le> unat b"
  proof (cases "128 \<le> unat b")
    case True
    then have "unat b div 2 ^ 7 = 1" using \<open>unat b < 256\<close> by (simp add: div_nat_eqI)
    with True show ?thesis by simp
  next
    case False
    then have "unat b div 2 ^ 7 = 0" by simp
    with False show ?thesis by simp
  qed
  finally show ?thesis .
qed

lemma unat_and_7F: "unat ((b :: byte) AND 0x7F) = unat b mod 128"
proof -
  have "b AND 0x7F = take_bit 7 b" by (simp add: take_bit_eq_mask mask_numeral)
  then show ?thesis by (simp only: unsigned_take_bit_eq) (simp add: take_bit_eq_mod)
qed

section \<open>Results of partial functions\<close>

text \<open>
  A property of every result of a nested \<open>case\<close> expression, reduced to its leaves.
\<close>

named_theorems pred_option_intros \<open>a property of every result of an optional computation\<close>

lemma pred_option_if [pred_option_intros]:
  "(b \<Longrightarrow> pred_option P x) \<Longrightarrow> (\<not> b \<Longrightarrow> pred_option P y) \<Longrightarrow> pred_option P (if b then x else y)"
  by simp

lemma pred_option_case [pred_option_intros]:
  "(r = None \<Longrightarrow> pred_option P e) \<Longrightarrow> (\<And>v. r = Some v \<Longrightarrow> pred_option P (g v)) \<Longrightarrow>
   pred_option P (case r of None \<Rightarrow> e | Some v \<Rightarrow> g v)"
  by (cases r) simp_all

lemma pred_option_prod [pred_option_intros]:
  "(\<And>a b. p = (a, b) \<Longrightarrow> pred_option P (g a b)) \<Longrightarrow> pred_option P (case p of (a, b) \<Rightarrow> g a b)"
  by (cases p) simp

lemma pred_option_bool [pred_option_intros]:
  "(b \<Longrightarrow> pred_option P x) \<Longrightarrow> (\<not> b \<Longrightarrow> pred_option P y) \<Longrightarrow>
   pred_option P (case b of True \<Rightarrow> x | False \<Rightarrow> y)"
  by (cases b) simp_all

lemma pred_option_let [pred_option_intros]: "pred_option P (f x) \<Longrightarrow> pred_option P (let y = x in f y)"
  by simp

end
