(* ===== verification/Pb_Istream.thy ===== *)
theory Pb_Istream
  imports Prelude
begin

unbundle bit_operations_syntax

text \<open>
  The input side of nanopb (\<open>collection/Pods/nanopb/pb_decode.c\<close>): input streams, the wire-format
  readers and string substreams.

  A stream (\<open>pb_istream_t\<close>) is a record.  Its \<open>callback\<close> and \<open>state\<close> members are one value of
  type \<open>isource\<close>: \<open>Buf_source bs\<close> is the callback \<open>buf_read\<close> whose state points at the bytes
  \<open>bs\<close> that are left of the underlying array (not of the stream: \<open>bytes_left\<close> may be smaller),
  \<open>User_source f st\<close> a callback of the application with its own state.  \<open>buf_read\<close> does not
  check the length of the array; a read beyond it is undefined behaviour in C, and the model
  goes to the poison value \<open>Overrun\<close>, which the lemmas below show to be unreachable.

  A callback of the application sees its state and the number of bytes asked for, and returns whether it succeeded, the bytes
  and its new state.  In C it gets the whole stream and may also change its \<open>bytes_left\<close>, and one that
  fails may have stored part of the bytes; the model leaves both out, and no property about streams of the application depends on the bytes of a failed read.

  A function that returns \<open>true\<close> and stores a value gives \<open>Some\<close> of it, one that returns
  \<open>false\<close> gives \<open>None\<close>; the changed stream is returned in both cases, with the error message
  of \<open>PB_RETURN_ERROR\<close>.
\<close>

section \<open>Streams\<close>

datatype 's isource =
    Buf_source "byte list"
  | User_source "'s \<Rightarrow> nat \<Rightarrow> bool \<times> byte list \<times> 's" 's
  | Overrun

record 's pb_istream =
  is_src :: "'s isource"
  bytes_left :: nat
  is_errmsg :: "string option"

definition is_set_error :: "'s pb_istream \<Rightarrow> string \<Rightarrow> 's pb_istream" where
  "is_set_error s msg =
     s\<lparr>is_errmsg := (case is_errmsg s of None \<Rightarrow> Some msg | Some e \<Rightarrow> Some e)\<rparr>"

definition is_buf_read :: "'s isource \<Rightarrow> bool" where
  "is_buf_read src = (case src of User_source _ _ \<Rightarrow> False | _ \<Rightarrow> True)"

text \<open>The buffer that \<open>buf_read\<close> and the callbacks fill; short data leaves zeros.\<close>

definition fill_buffer :: "nat \<Rightarrow> byte list \<Rightarrow> byte list" where
  "fill_buffer n bs = take n (bs @ replicate n 0)"

fun is_callback :: "'s isource \<Rightarrow> nat \<Rightarrow> bool \<times> byte list \<times> 's isource" where
  "is_callback (Buf_source bs) n =
     (if n \<le> length bs then (True, take n bs, Buf_source (drop n bs))
      else (True, replicate n 0, Overrun))"
| "is_callback (User_source f st) n =
     (case f st n of (ok, bs, st') \<Rightarrow> (ok, fill_buffer n bs, User_source f st'))"
| "is_callback Overrun n = (True, replicate n 0, Overrun)"

definition pb_istream_from_buffer :: "byte list \<Rightarrow> nat \<Rightarrow> 's pb_istream" where
  "pb_istream_from_buffer buf bufsize =
     \<lparr>is_src = Buf_source buf, bytes_left = bufsize, is_errmsg = None\<rparr>"

section \<open>Reading bytes\<close>

text \<open>\<open>pb_read\<close> with a buffer.\<close>

definition pb_read :: "'s pb_istream \<Rightarrow> nat \<Rightarrow> byte list option \<times> 's pb_istream" where
  "pb_read s count =
     (if count = 0 then (Some [], s)
      else if bytes_left s < count then (None, is_set_error s ''end-of-stream'')
      else case is_callback (is_src s) count of
        (ok, bs, src) \<Rightarrow>
          if \<not> ok then (None, is_set_error (s\<lparr>is_src := src\<rparr>) ''io error'')
          else (Some bs, s\<lparr>is_src := src, bytes_left := bytes_left s - count\<rparr>))"

text \<open>
  \<open>pb_read\<close> with the buffer \<open>NULL\<close>: the bytes are skipped, 16 at a time through a temporary
  when the callback is not \<open>buf_read\<close>.
\<close>

fun pb_read_skip16 :: "'s pb_istream \<Rightarrow> nat \<Rightarrow> bool \<times> 's pb_istream" where
  "pb_read_skip16 s count =
     (if count > 16
      then (case pb_read s 16 of
              (None, s') \<Rightarrow> (False, s')
            | (Some _, s') \<Rightarrow> pb_read_skip16 s' (count - 16))
      else (case pb_read s count of (None, s') \<Rightarrow> (False, s') | (Some _, s') \<Rightarrow> (True, s')))"

definition pb_read_null :: "'s pb_istream \<Rightarrow> nat \<Rightarrow> bool \<times> 's pb_istream" where
  "pb_read_null s count =
     (if count = 0 then (True, s)
      else if \<not> is_buf_read (is_src s) then pb_read_skip16 s count
      else (case pb_read s count of (None, s') \<Rightarrow> (False, s') | (Some _, s') \<Rightarrow> (True, s')))"

definition pb_readbyte :: "'s pb_istream \<Rightarrow> byte option \<times> 's pb_istream" where
  "pb_readbyte s =
     (if bytes_left s = 0 then (None, is_set_error s ''end-of-stream'')
      else case is_callback (is_src s) 1 of
        (ok, bs, src) \<Rightarrow>
          if \<not> ok then (None, is_set_error (s\<lparr>is_src := src\<rparr>) ''io error'')
          else (Some (hd bs), s\<lparr>is_src := src, bytes_left := bytes_left s - 1\<rparr>))"

lemma pb_readbyte_less:
  "pb_readbyte s = (Some b, s') \<Longrightarrow> bytes_left s' < bytes_left s"
  by (auto simp: pb_readbyte_def split: if_splits prod.splits)

lemma pb_read_less:
  "pb_read s n = (Some bs, s') \<Longrightarrow> 0 < n \<Longrightarrow> bytes_left s' < bytes_left s"
  by (auto simp: pb_read_def split: if_splits prod.splits)

section \<open>Varints\<close>

text \<open>
  The loop of \<open>pb_decode_varint32_eof\<close> for values of more than one byte.  \<open>bitpos\<close> is a
  \<open>uint_fast8_t\<close>, so it is reduced modulo 256.  The result is the decoded word, the final
  \<open>bitpos\<close> and the last byte read.
\<close>

function varint32_loop ::
  "'s pb_istream \<Rightarrow> nat \<Rightarrow> 32 word \<Rightarrow> (32 word \<times> nat \<times> byte) option \<times> 's pb_istream" where
  "varint32_loop s bitpos result =
     (case pb_readbyte s of
        (None, s') \<Rightarrow> (None, s')
      | (Some b, s') \<Rightarrow>
          if 32 \<le> bitpos \<and> b AND 0x7F \<noteq> 0
             \<and> (drop_bit 31 result = 0 \<or> b \<noteq> (if bitpos < 63 then 0xFF else 0x01))
          then (None, is_set_error s' ''varint overflow'')
          else
            let result' = (if 32 \<le> bitpos then result
                           else result OR push_bit bitpos (ucast (b AND 0x7F)));
                bitpos' = (bitpos + 7) mod 256
            in if b AND 0x80 \<noteq> 0 then varint32_loop s' bitpos' result'
               else (Some (result', bitpos', b), s'))"
  by pat_completeness auto
termination
  by (relation "measure (\<lambda>(s, _, _). bytes_left s)") (auto dest: pb_readbyte_less [OF sym])

text \<open>The second component tells whether \<open>*eof\<close> is set to true.\<close>

definition pb_decode_varint32_eof ::
  "'s pb_istream \<Rightarrow> 32 word option \<times> bool \<times> 's pb_istream" where
  "pb_decode_varint32_eof s =
     (case pb_readbyte s of
        (None, s') \<Rightarrow> (None, bytes_left s' = 0, s')
      | (Some b, s') \<Rightarrow>
          if b AND 0x80 = 0 then (Some (ucast b), False, s')
          else (case varint32_loop s' 7 (ucast (b AND 0x7F)) of
                  (None, s'') \<Rightarrow> (None, False, s'')
                | (Some (result, bitpos, b'), s'') \<Rightarrow>
                    if bitpos = 35 \<and> b' AND 0x70 \<noteq> 0
                    then (None, False, is_set_error s'' ''varint overflow'')
                    else (Some result, False, s'')))"

definition pb_decode_varint32 :: "'s pb_istream \<Rightarrow> 32 word option \<times> 's pb_istream" where
  "pb_decode_varint32 s = (case pb_decode_varint32_eof s of (r, _, s') \<Rightarrow> (r, s'))"

function varint_loop ::
  "'s pb_istream \<Rightarrow> nat \<Rightarrow> 64 word \<Rightarrow> 64 word option \<times> 's pb_istream" where
  "varint_loop s bitpos result =
     (if 64 \<le> bitpos then (None, is_set_error s ''varint overflow'')
      else case pb_readbyte s of
        (None, s') \<Rightarrow> (None, s')
      | (Some b, s') \<Rightarrow>
          let result' = result OR push_bit bitpos (ucast (b AND 0x7F));
              bitpos' = (bitpos + 7) mod 256
          in if b AND 0x80 \<noteq> 0 then varint_loop s' bitpos' result' else (Some result', s'))"
  by pat_completeness auto
termination
  by (relation "measure (\<lambda>(s, _, _). bytes_left s)") (auto dest: pb_readbyte_less [OF sym])

declare pb_read_skip16.simps [simp del] varint32_loop.simps [simp del] varint_loop.simps [simp del]

definition pb_decode_varint :: "'s pb_istream \<Rightarrow> 64 word option \<times> 's pb_istream" where
  "pb_decode_varint s = varint_loop s 0 0"

section \<open>Skipping and raw values\<close>

function pb_skip_varint :: "'s pb_istream \<Rightarrow> bool \<times> 's pb_istream" where
  "pb_skip_varint s =
     (case pb_read s 1 of
        (None, s') \<Rightarrow> (False, s')
      | (Some bs, s') \<Rightarrow> if hd bs AND 0x80 \<noteq> 0 then pb_skip_varint s' else (True, s'))"
  by pat_completeness auto
termination
  by (relation "measure bytes_left") (auto dest: pb_read_less [OF sym])

declare pb_skip_varint.simps [simp del]

definition pb_skip_string :: "'s pb_istream \<Rightarrow> bool \<times> 's pb_istream" where
  "pb_skip_string s =
     (case pb_decode_varint32 s of
        (None, s') \<Rightarrow> (False, s')
      | (Some len, s') \<Rightarrow> pb_read_null s' (unat len))"

text \<open>Wire types (\<open>pb_wire_type_t\<close>); the cast from the wire can give any value below 8.\<close>

abbreviation (input) PB_WT_VARINT :: nat where "PB_WT_VARINT \<equiv> 0"
abbreviation (input) PB_WT_64BIT :: nat where "PB_WT_64BIT \<equiv> 1"
abbreviation (input) PB_WT_STRING :: nat where "PB_WT_STRING \<equiv> 2"
abbreviation (input) PB_WT_32BIT :: nat where "PB_WT_32BIT \<equiv> 5"

text \<open>\<open>pb_decode_tag\<close>: the wire type and the tag, whether \<open>*eof\<close> is set, the stream.\<close>

definition pb_decode_tag ::
  "'s pb_istream \<Rightarrow> (nat \<times> nat) option \<times> bool \<times> 's pb_istream" where
  "pb_decode_tag s =
     (case pb_decode_varint32_eof s of
        (None, eof, s') \<Rightarrow> (None, eof, s')
      | (Some temp, eof, s') \<Rightarrow>
          if temp = 0 then (None, True, s')
          else (Some (unat (temp AND 7), unat (drop_bit 3 temp)), eof, s'))"

definition pb_skip_field :: "'s pb_istream \<Rightarrow> nat \<Rightarrow> bool \<times> 's pb_istream" where
  "pb_skip_field s wire_type =
     (if wire_type = PB_WT_VARINT then pb_skip_varint s
      else if wire_type = PB_WT_64BIT then pb_read_null s 8
      else if wire_type = PB_WT_STRING then pb_skip_string s
      else if wire_type = PB_WT_32BIT then pb_read_null s 4
      else (False, is_set_error s ''invalid wire_type''))"

text \<open>
  The varint loop of \<open>read_raw_value\<close>: \<open>room\<close> is what is left of \<open>max_size\<close>, \<open>acc\<close> the
  bytes stored so far.  Running out of room returns \<open>false\<close> without a message.
\<close>

fun raw_varint_loop ::
  "nat \<Rightarrow> 's pb_istream \<Rightarrow> byte list \<Rightarrow> byte list option \<times> 's pb_istream" where
  "raw_varint_loop 0 s acc = (None, s)"
| "raw_varint_loop (Suc room) s acc =
     (case pb_read s 1 of
        (None, s') \<Rightarrow> (None, s')
      | (Some bs, s') \<Rightarrow>
          if hd bs AND 0x80 \<noteq> 0 then raw_varint_loop room s' (acc @ bs)
          else (Some (acc @ bs), s'))"

definition read_raw_value ::
  "'s pb_istream \<Rightarrow> nat \<Rightarrow> nat \<Rightarrow> byte list option \<times> 's pb_istream" where
  "read_raw_value s wire_type max_size =
     (if wire_type = PB_WT_VARINT then raw_varint_loop max_size s []
      else if wire_type = PB_WT_64BIT then pb_read s 8
      else if wire_type = PB_WT_32BIT then pb_read s 4
      else (None, is_set_error s ''invalid wire_type''))"

section \<open>String substreams\<close>

definition pb_make_string_substream ::
  "'s pb_istream \<Rightarrow> 's pb_istream option \<times> 's pb_istream" where
  "pb_make_string_substream s =
     (case pb_decode_varint32 s of
        (None, s') \<Rightarrow> (None, s')
      | (Some len, s') \<Rightarrow>
          if bytes_left s' < unat len then (None, is_set_error s' ''parent stream too short'')
          else (Some (s'\<lparr>bytes_left := unat len\<rparr>),
                s'\<lparr>bytes_left := bytes_left s' - unat len\<rparr>))"

definition pb_close_string_substream ::
  "'s pb_istream \<Rightarrow> 's pb_istream \<Rightarrow> bool \<times> 's pb_istream" where
  "pb_close_string_substream s sub =
     (let (ok, sub') = (if bytes_left sub \<noteq> 0 then pb_read_null sub (bytes_left sub)
                        else (True, sub))
      in if \<not> ok then (False, s)
         else (True, s\<lparr>is_src := is_src sub', is_errmsg := is_errmsg sub'\<rparr>))"

section \<open>Scalar values\<close>

definition pb_decode_bool :: "'s pb_istream \<Rightarrow> bool option \<times> 's pb_istream" where
  "pb_decode_bool s =
     (case pb_decode_varint32 s of
        (None, s') \<Rightarrow> (None, s') | (Some v, s') \<Rightarrow> (Some (v \<noteq> 0), s'))"

text \<open>The 64-bit pattern stored through the \<open>int64_t\<close> pointer.\<close>

definition pb_decode_svarint :: "'s pb_istream \<Rightarrow> 64 word option \<times> 's pb_istream" where
  "pb_decode_svarint s =
     (case pb_decode_varint s of
        (None, s') \<Rightarrow> (None, s')
      | (Some v, s') \<Rightarrow>
          (Some (if v AND 1 \<noteq> 0 then NOT (drop_bit 1 v) else drop_bit 1 v), s'))"

definition pb_decode_fixed32 :: "'s pb_istream \<Rightarrow> 32 word option \<times> 's pb_istream" where
  "pb_decode_fixed32 s =
     (case pb_read s 4 of
        (None, s') \<Rightarrow> (None, s')
      | (Some b, s') \<Rightarrow>
          (Some (push_bit 0 (ucast (b ! 0)) OR push_bit 8 (ucast (b ! 1))
                 OR push_bit 16 (ucast (b ! 2)) OR push_bit 24 (ucast (b ! 3))), s'))"

definition pb_decode_fixed64 :: "'s pb_istream \<Rightarrow> 64 word option \<times> 's pb_istream" where
  "pb_decode_fixed64 s =
     (case pb_read s 8 of
        (None, s') \<Rightarrow> (None, s')
      | (Some b, s') \<Rightarrow>
          (Some (push_bit 0 (ucast (b ! 0)) OR push_bit 8 (ucast (b ! 1))
                 OR push_bit 16 (ucast (b ! 2)) OR push_bit 24 (ucast (b ! 3))
                 OR push_bit 32 (ucast (b ! 4)) OR push_bit 40 (ucast (b ! 5))
                 OR push_bit 48 (ucast (b ! 6)) OR push_bit 56 (ucast (b ! 7))), s'))"

section \<open>Reading moves the stream forward and stays inside the array\<close>

text \<open>
  \<open>advanced s t\<close>: from \<open>s\<close> to \<open>t\<close> the stream only moved forward and, for a buffer whose array
  covers \<open>bytes_left\<close>, the state pointer moved by exactly the number of bytes by which
  \<open>bytes_left\<close> dropped.  \<open>within s t\<close> is the weaker fact that also holds on the error paths that
  drop a substream: the pointer moved by at most that number, so no byte beyond the stream's
  end was read.
\<close>

definition advanced :: "'s pb_istream \<Rightarrow> 's pb_istream \<Rightarrow> bool" where
  "advanced s t \<longleftrightarrow> bytes_left t \<le> bytes_left s \<and>
     (\<forall>bs. is_src s = Buf_source bs \<longrightarrow> bytes_left s \<le> length bs \<longrightarrow>
        is_src t = Buf_source (drop (bytes_left s - bytes_left t) bs))"

definition within :: "'s pb_istream \<Rightarrow> 's pb_istream \<Rightarrow> bool" where
  "within s t \<longleftrightarrow> bytes_left t \<le> bytes_left s \<and>
     (\<forall>bs. is_src s = Buf_source bs \<longrightarrow> bytes_left s \<le> length bs \<longrightarrow>
        (\<exists>j. is_src t = Buf_source (drop j bs) \<and> j + bytes_left t \<le> bytes_left s))"

definition istream_ok :: "'s pb_istream \<Rightarrow> bool" where
  "istream_ok s = (case is_src s of
     Buf_source bs \<Rightarrow> bytes_left s \<le> length bs | User_source _ _ \<Rightarrow> True | Overrun \<Rightarrow> False)"

lemma is_set_error_fields [simp]:
  "is_src (is_set_error s m) = is_src s" "bytes_left (is_set_error s m) = bytes_left s"
  by (simp_all add: is_set_error_def)

lemma advanced_refl [simp, intro]: "advanced s s"
  by (simp add: advanced_def)

lemma advanced_error [simp]: "advanced s (is_set_error t m) = advanced s t"
  by (simp add: advanced_def)

lemma within_error [simp]: "within s (is_set_error t m) = within s t"
  by (simp add: within_def)

lemma advanced_trans [trans]: "advanced s t \<Longrightarrow> advanced t u \<Longrightarrow> advanced s u"
  by (auto simp: advanced_def)

lemma within_refl [simp, intro]: "within s s"
  by (auto simp: within_def intro: exI [of _ 0])

lemma advanced_within: "advanced s t \<Longrightarrow> within s t"
  by (auto simp: advanced_def within_def)

lemma within_trans [trans]:
  assumes "within s t" and "within t u"
  shows "within s u"
  unfolding within_def
proof (intro conjI allI impI)
  show "bytes_left u \<le> bytes_left s" using assms by (auto simp: within_def)
next
  fix bs assume s: "is_src s = Buf_source bs" "bytes_left s \<le> length bs"
  then obtain j where j: "is_src t = Buf_source (drop j bs)" "j + bytes_left t \<le> bytes_left s"
    using assms(1) by (auto simp: within_def)
  then have "bytes_left t \<le> length (drop j bs)" using s(2) by simp
  with j(1) obtain k where k: "is_src u = Buf_source (drop k (drop j bs))"
      "k + bytes_left u \<le> bytes_left t"
    using assms(2) by (auto simp: within_def)
  show "\<exists>j. is_src u = Buf_source (drop j bs) \<and> j + bytes_left u \<le> bytes_left s"
    using j k by (intro exI [of _ "k + j"]) simp
qed

lemma within_ok:
  assumes "within s t" and "is_src s = Buf_source bs" and "istream_ok s"
  shows "istream_ok t"
  using assms by (fastforce simp: within_def istream_ok_def)

text \<open>
  The contract of an operation on streams, and what follows from it.  Every reader of this
  theory is an instance.
\<close>

locale stream_op =
  fixes run :: "'s pb_istream \<Rightarrow> 'r \<times> 's pb_istream"
  assumes run_advanced: "advanced s (snd (run s))"
begin

lemma advanced_result: "run s = (r, t) \<Longrightarrow> advanced s t"
  using run_advanced [of s] by simp

lemma within_result: "run s = (r, t) \<Longrightarrow> within s t"
  using run_advanced [of s] by (simp add: advanced_within)

lemma bytes_left_result: "run s = (r, t) \<Longrightarrow> bytes_left t \<le> bytes_left s"
  using run_advanced [of s] by (simp add: advanced_def)

lemma never_overruns:
  assumes "is_src s = Buf_source bs" and "bytes_left s \<le> length bs" and "run s = (r, t)"
  shows "\<exists>n. n \<le> bytes_left s \<and> bytes_left t = bytes_left s - n \<and> is_src t = Buf_source (drop n bs)"
  using run_advanced [of s] assms
  by (auto simp: advanced_def intro!: exI [of _ "bytes_left s - bytes_left t"])

end

lemma pb_read_advanced: "advanced s (snd (pb_read s n))"
  by (auto simp: pb_read_def advanced_def split: prod.splits)

lemma pb_readbyte_advanced: "advanced s (snd (pb_readbyte s))"
  by (auto simp: pb_readbyte_def advanced_def split: prod.splits)

interpretation read: stream_op "\<lambda>s. pb_read s n" for n
  by unfold_locales (rule pb_read_advanced)

interpretation readbyte: stream_op pb_readbyte
  by unfold_locales (rule pb_readbyte_advanced)

lemma pb_read_skip16_advanced: "advanced s (snd (pb_read_skip16 s n))"
proof (induction s n rule: pb_read_skip16.induct)
  case (1 s n)
  show ?case
    using 1 by (subst pb_read_skip16.simps)
      (auto split: prod.splits option.splits dest: read.advanced_result intro: advanced_trans)
qed

lemma pb_read_null_advanced: "advanced s (snd (pb_read_null s n))"
  using pb_read_skip16_advanced [of s n]
  by (auto simp: pb_read_null_def
      split: prod.splits option.splits dest: read.advanced_result)

lemma varint32_loop_advanced: "advanced s (snd (varint32_loop s p r))"
proof (induction s p r rule: varint32_loop.induct)
  case (1 s p r)
  show ?case
    using 1 by (subst varint32_loop.simps)
      (auto simp: Let_def split: prod.splits option.splits
        dest: readbyte.advanced_result intro: advanced_trans)
qed

lemma varint_loop_advanced: "advanced s (snd (varint_loop s p r))"
proof (induction s p r rule: varint_loop.induct)
  case (1 s p r)
  show ?case
    using 1 by (subst varint_loop.simps)
      (auto simp: Let_def split: prod.splits option.splits
        dest: readbyte.advanced_result intro: advanced_trans)
qed

lemma pb_skip_varint_advanced: "advanced s (snd (pb_skip_varint s))"
proof (induction s rule: pb_skip_varint.induct)
  case (1 s)
  show ?case
    using 1 by (subst pb_skip_varint.simps)
      (auto split: prod.splits option.splits dest: read.advanced_result intro: advanced_trans)
qed

lemma raw_varint_loop_advanced: "advanced s (snd (raw_varint_loop n s acc))"
  by (induction n s acc rule: raw_varint_loop.induct)
    (auto split: prod.splits option.splits dest: read.advanced_result intro: advanced_trans)

interpretation read_null: stream_op "\<lambda>s. pb_read_null s n" for n
  by unfold_locales (rule pb_read_null_advanced)

interpretation loop32: stream_op "\<lambda>s. varint32_loop s p r" for p r
  by unfold_locales (rule varint32_loop_advanced)

lemma pb_decode_varint32_eof_advanced: "pb_decode_varint32_eof s = (r, e, t) \<Longrightarrow> advanced s t"
  by (auto simp: pb_decode_varint32_eof_def split: prod.splits option.splits if_splits
      dest!: readbyte.advanced_result loop32.advanced_result intro: advanced_trans)

interpretation varint32: stream_op pb_decode_varint32
  by unfold_locales
    (auto simp: pb_decode_varint32_def split: prod.splits dest: pb_decode_varint32_eof_advanced)

interpretation varint: stream_op pb_decode_varint
  by unfold_locales (simp add: pb_decode_varint_def varint_loop_advanced)

interpretation decode_tag: stream_op "\<lambda>s. case pb_decode_tag s of (r, e, t) \<Rightarrow> ((r, e), t)"
  by unfold_locales
    (auto simp: pb_decode_tag_def split: prod.splits option.splits
      dest: pb_decode_varint32_eof_advanced)

interpretation skip_string: stream_op pb_skip_string
  by unfold_locales
    (auto simp: pb_skip_string_def split: prod.splits option.splits
      dest: varint32.advanced_result intro: pb_read_null_advanced advanced_trans)

interpretation skip_field: stream_op "\<lambda>s. pb_skip_field s wt" for wt
  by unfold_locales
    (simp add: pb_skip_field_def pb_skip_varint_advanced pb_read_null_advanced
      skip_string.run_advanced)

interpretation raw_value: stream_op "\<lambda>s. read_raw_value s wt n" for wt n
  by unfold_locales
    (simp add: read_raw_value_def raw_varint_loop_advanced pb_read_advanced)

interpretation decode_bool: stream_op pb_decode_bool
  by unfold_locales
    (auto simp: pb_decode_bool_def split: prod.splits option.splits dest: varint32.advanced_result)

interpretation svarint: stream_op pb_decode_svarint
  by unfold_locales
    (auto simp: pb_decode_svarint_def split: prod.splits option.splits dest: varint.advanced_result)

interpretation fixed32: stream_op pb_decode_fixed32
  by unfold_locales
    (auto simp: pb_decode_fixed32_def split: prod.splits option.splits dest: read.advanced_result)

interpretation fixed64: stream_op pb_decode_fixed64
  by unfold_locales
    (auto simp: pb_decode_fixed64_def split: prod.splits option.splits dest: read.advanced_result)

end
