(* ===== verification/Pb_Ostream.thy ===== *)
theory Pb_Ostream
  imports Prelude
begin

unbundle bit_operations_syntax

text \<open>
  The output side of nanopb (\<open>collection/Pods/nanopb/pb_encode.c\<close>): output streams and the
  wire-format writers.

  The \<open>callback\<close> and \<open>state\<close> members of \<open>pb_ostream_t\<close> are one value of type \<open>osink\<close>: \<open>Sizing\<close>
  is the null callback of \<open>PB_OSTREAM_SIZING\<close>, \<open>Buf_sink ws cap\<close> the callback \<open>buf_write\<close> after it
  stored the bytes \<open>ws\<close> in an array of \<open>cap\<close> bytes, \<open>User_sink f st\<close> a callback of the
  application.  \<open>buf_write\<close> itself does not check the array's size; a write beyond it is
  undefined behaviour in C and the model goes to the poison value \<open>Overflow\<close>.  \<open>size_t\<close>
  additions wrap modulo \<open>size_mod\<close>.
\<close>

section \<open>Streams\<close>

datatype 'o osink =
    Sizing
  | Buf_sink "byte list" nat
  | User_sink "'o \<Rightarrow> byte list \<Rightarrow> bool \<times> 'o" 'o
  | Overflow

record 'o pb_ostream =
  os_sink :: "'o osink"
  max_size :: nat
  bytes_written :: nat
  os_errmsg :: "string option"

definition os_set_error :: "'o pb_ostream \<Rightarrow> string \<Rightarrow> 'o pb_ostream" where
  "os_set_error s msg =
     s\<lparr>os_errmsg := (case os_errmsg s of None \<Rightarrow> Some msg | Some e \<Rightarrow> Some e)\<rparr>"

definition is_sizing :: "'o pb_ostream \<Rightarrow> bool" where
  "is_sizing s = (case os_sink s of Sizing \<Rightarrow> True | _ \<Rightarrow> False)"

definition PB_OSTREAM_SIZING :: "'o pb_ostream" where
  "PB_OSTREAM_SIZING =
     \<lparr>os_sink = Sizing, max_size = 0, bytes_written = 0, os_errmsg = None\<rparr>"

fun buf_write :: "byte list \<Rightarrow> nat \<Rightarrow> byte list \<Rightarrow> 'o osink" where
  "buf_write ws cap buf = (if length ws + length buf \<le> cap then Buf_sink (ws @ buf) cap else Overflow)"

fun os_callback :: "'o osink \<Rightarrow> byte list \<Rightarrow> bool \<times> 'o osink" where
  "os_callback Sizing buf = (True, Sizing)"
| "os_callback (Buf_sink ws cap) buf = (True, buf_write ws cap buf)"
| "os_callback (User_sink f st) buf = (case f st buf of (ok, st') \<Rightarrow> (ok, User_sink f st'))"
| "os_callback Overflow buf = (True, Overflow)"

definition pb_ostream_from_buffer :: "nat \<Rightarrow> nat \<Rightarrow> 'o pb_ostream" where
  "pb_ostream_from_buffer cap bufsize =
     \<lparr>os_sink = Buf_sink [] cap, max_size = bufsize, bytes_written = 0, os_errmsg = None\<rparr>"

text \<open>
  \<open>pb_write stream buf count\<close>.  The callers pass a buffer of at least \<open>count\<close> bytes, or \<open>NULL\<close>
  (here the empty list) to a sizing stream.
\<close>

definition pb_write :: "'o pb_ostream \<Rightarrow> byte list \<Rightarrow> nat \<Rightarrow> bool \<times> 'o pb_ostream" where
  "pb_write s buf count =
     (if 0 < count \<and> \<not> is_sizing s then
        if (bytes_written s + count) mod size_mod < bytes_written s
           \<or> (bytes_written s + count) mod size_mod > max_size s
        then (False, os_set_error s ''stream full'')
        else (case os_callback (os_sink s) (take count buf) of
                (ok, sink) \<Rightarrow>
                  if \<not> ok then (False, os_set_error (s\<lparr>os_sink := sink\<rparr>) ''io error'')
                  else (True, s\<lparr>os_sink := sink,
                                bytes_written := (bytes_written s + count) mod size_mod\<rparr>))
      else (True, s\<lparr>bytes_written := (bytes_written s + count) mod size_mod\<rparr>))"

section \<open>Wire-format writers\<close>

text \<open>
  The loop of \<open>pb_encode_varint\<close> that fills \<open>buffer\<close>, seven bits per byte with the top bit
  set, and the statement after it that clears the top bit of the last byte.
\<close>

lemma unat_drop_bit_less: "(v :: 64 word) \<noteq> 0 \<Longrightarrow> unat (drop_bit 7 v) < unat v"
proof -
  assume "v \<noteq> 0"
  then have "0 < unat v" by (simp add: unat_gt_0)
  moreover have "unat (drop_bit 7 v) = unat v div 128"
    unfolding unat_drop_bit_eq by (simp add: drop_bit_eq_div)
  ultimately show ?thesis by simp
qed

function varint_groups :: "64 word \<Rightarrow> byte list" where
  "varint_groups value =
     (if value = 0 then []
      else ucast ((value AND 0x7F) OR 0x80) # varint_groups (drop_bit 7 value))"
  by pat_completeness auto
termination
  by (relation "measure unat") (auto simp: unat_drop_bit_less)

declare varint_groups.simps [simp del]

definition varint_bytes :: "64 word \<Rightarrow> byte list" where
  "varint_bytes value =
     (if value \<le> 0x7F then [ucast value]
      else let buffer = varint_groups value
           in buffer[length buffer - 1 := (buffer ! (length buffer - 1)) AND 0x7F])"

definition pb_encode_varint :: "'o pb_ostream \<Rightarrow> 64 word \<Rightarrow> bool \<times> 'o pb_ostream" where
  "pb_encode_varint s value = pb_write s (varint_bytes value) (length (varint_bytes value))"

definition zigzag :: "64 word \<Rightarrow> 64 word" where
  "zigzag value = (if sint value < 0 then NOT (push_bit 1 value) else push_bit 1 value)"

definition pb_encode_svarint :: "'o pb_ostream \<Rightarrow> 64 word \<Rightarrow> bool \<times> 'o pb_ostream" where
  "pb_encode_svarint s value = pb_encode_varint s (zigzag value)"

definition fixed32_bytes :: "32 word \<Rightarrow> byte list" where
  "fixed32_bytes val =
     [ucast (val AND 0xFF), ucast (drop_bit 8 val AND 0xFF),
      ucast (drop_bit 16 val AND 0xFF), ucast (drop_bit 24 val AND 0xFF)]"

definition pb_encode_fixed32 :: "'o pb_ostream \<Rightarrow> 32 word \<Rightarrow> bool \<times> 'o pb_ostream" where
  "pb_encode_fixed32 s val = pb_write s (fixed32_bytes val) 4"

definition fixed64_bytes :: "64 word \<Rightarrow> byte list" where
  "fixed64_bytes val =
     [ucast (val AND 0xFF), ucast (drop_bit 8 val AND 0xFF),
      ucast (drop_bit 16 val AND 0xFF), ucast (drop_bit 24 val AND 0xFF),
      ucast (drop_bit 32 val AND 0xFF), ucast (drop_bit 40 val AND 0xFF),
      ucast (drop_bit 48 val AND 0xFF), ucast (drop_bit 56 val AND 0xFF)]"

definition pb_encode_fixed64 :: "'o pb_ostream \<Rightarrow> 64 word \<Rightarrow> bool \<times> 'o pb_ostream" where
  "pb_encode_fixed64 s val = pb_write s (fixed64_bytes val) 8"

definition tag_word :: "nat \<Rightarrow> 32 word \<Rightarrow> 64 word" where
  "tag_word wiretype field_number = push_bit 3 (ucast field_number) OR word_of_nat wiretype"

definition pb_encode_tag :: "'o pb_ostream \<Rightarrow> nat \<Rightarrow> 32 word \<Rightarrow> bool \<times> 'o pb_ostream" where
  "pb_encode_tag s wiretype field_number = pb_encode_varint s (tag_word wiretype field_number)"

definition pb_encode_string :: "'o pb_ostream \<Rightarrow> byte list \<Rightarrow> nat \<Rightarrow> bool \<times> 'o pb_ostream" where
  "pb_encode_string s buffer sz =
     (case pb_encode_varint s (word_of_nat sz) of
        (False, s') \<Rightarrow> (False, s')
      | (True, s') \<Rightarrow> pb_write s' buffer sz)"

section \<open>Writing appends, within the array and within the limit\<close>

text \<open>
  \<open>room_ok\<close>: a buffer stream may still write at most as many bytes as its array has left.
  \<open>appends s t\<close>: from \<open>s\<close> to \<open>t\<close> the stream kept its limit, and a buffer stream stored exactly
  the bytes by which \<open>bytes_written\<close> grew, never passing \<open>max_size\<close>.
\<close>

definition room_ok :: "'o pb_ostream \<Rightarrow> bool" where
  "room_ok s \<longleftrightarrow> bytes_written s \<le> max_size s \<and> max_size s < size_mod \<and>
     (case os_sink s of
        Buf_sink ws cap \<Rightarrow> length ws + (max_size s - bytes_written s) \<le> cap
      | Overflow \<Rightarrow> False
      | _ \<Rightarrow> True)"

definition appends :: "'o pb_ostream \<Rightarrow> 'o pb_ostream \<Rightarrow> bool" where
  "appends s t \<longleftrightarrow>
     (\<forall>ws cap. room_ok s \<longrightarrow> os_sink s = Buf_sink ws cap \<longrightarrow>
        max_size t = max_size s \<and> bytes_written s \<le> bytes_written t \<and> bytes_written t \<le> max_size t \<and>
        (\<exists>vs. os_sink t = Buf_sink (ws @ vs) cap \<and>
              length vs = bytes_written t - bytes_written s))"

lemma os_set_error_fields [simp]:
  "os_sink (os_set_error s m) = os_sink s" "max_size (os_set_error s m) = max_size s"
  "bytes_written (os_set_error s m) = bytes_written s"
  "is_sizing (os_set_error s m) = is_sizing s"
  by (simp_all add: os_set_error_def is_sizing_def)

lemma is_sizing_iff: "is_sizing s \<longleftrightarrow> os_sink s = Sizing"
  by (simp add: is_sizing_def split: osink.splits)

lemma appends_refl [simp, intro]: "appends s s"
  by (auto simp: appends_def room_ok_def)

lemma appends_error [simp]: "appends s (os_set_error t m) = appends s t"
  by (simp add: appends_def)

lemma appends_room:
  "appends s t \<Longrightarrow> room_ok s \<Longrightarrow> os_sink s = Buf_sink ws cap \<Longrightarrow> room_ok t"
  by (fastforce simp: appends_def room_ok_def)

lemma appends_trans [trans]:
  assumes "appends s t" and "appends t u"
  shows "appends s u"
  unfolding appends_def
proof (intro allI impI)
  fix ws cap assume s: "room_ok s" "os_sink s = Buf_sink ws cap"
  then have "room_ok t" by (rule appends_room [OF assms(1)])
  with s assms show "max_size u = max_size s \<and> bytes_written s \<le> bytes_written u \<and>
      bytes_written u \<le> max_size u \<and>
      (\<exists>vs. os_sink u = Buf_sink (ws @ vs) cap \<and> length vs = bytes_written u - bytes_written s)"
    by (fastforce simp: appends_def)
qed

lemma add_mod_size_cases:
  assumes "w < size_mod" and "c < size_mod" and "\<not> (w + c) mod size_mod < w"
  shows "(w + c) mod size_mod = w + c"
proof (rule ccontr)
  assume "(w + c) mod size_mod \<noteq> w + c"
  then have "size_mod \<le> w + c" by (metis mod_less not_le)
  moreover from this have "(w + c) mod size_mod = w + c - size_mod"
    using assms(1,2) by (simp add: mod_if)
  ultimately show False using assms by linarith
qed

lemma pb_write_appends:
  assumes "length buf = count" and "count < size_mod"
  shows "appends s (snd (pb_write s buf count))"
proof (cases "0 < count \<and> \<not> is_sizing s")
  case True
  let ?w = "(bytes_written s + count) mod size_mod"
  show ?thesis
  proof (cases "?w < bytes_written s \<or> ?w > max_size s")
    case full: True
    with True show ?thesis by (simp add: pb_write_def)
  next
    case False
    show ?thesis
      unfolding appends_def
    proof (intro allI impI)
      fix ws cap assume s: "room_ok s" "os_sink s = Buf_sink ws cap"
      then have "bytes_written s < size_mod" by (simp add: room_ok_def)
      then have w: "?w = bytes_written s + count"
        using False assms(2) add_mod_size_cases by blast
      have "length ws + count \<le> cap"
        using s False w by (auto simp: room_ok_def)
      then show "max_size (snd (pb_write s buf count)) = max_size s
          \<and> bytes_written s \<le> bytes_written (snd (pb_write s buf count))
          \<and> bytes_written (snd (pb_write s buf count)) \<le> max_size (snd (pb_write s buf count))
          \<and> (\<exists>vs. os_sink (snd (pb_write s buf count)) = Buf_sink (ws @ vs) cap \<and>
                length vs = bytes_written (snd (pb_write s buf count)) - bytes_written s)"
        using True False w s assms(1) by (simp add: pb_write_def)
    qed
  qed
next
  case False
  then show ?thesis
    by (auto simp: pb_write_def appends_def room_ok_def is_sizing_iff)
qed

end
