(* ===== verification/Pb_Wire.thy ===== *)
theory Pb_Wire
  imports Pb_Istream Pb_Ostream
begin

unbundle bit_operations_syntax

text \<open>
  The wire format of nanopb: what the writers of \<open>Pb_Ostream\<close> produce is what the readers of
  \<open>Pb_Istream\<close> accept.  The locale \<open>wire_codec\<close> is the contract between an encoder of a scalar and
  its decoder; it is interpreted on the varint, zigzag and fixed-width codecs, and its lemmas
  carry a single value to a sequence of values, as a packed repeated field stores them.
\<close>

section \<open>Codecs\<close>

definition advance :: "'s pb_istream \<Rightarrow> byte list \<Rightarrow> nat \<Rightarrow> 's pb_istream" where
  "advance s rest n = s\<lparr>is_src := Buf_source rest, bytes_left := bytes_left s - n\<rparr>"

text \<open>Decode a fixed number of values one after the other.\<close>

fun decode_many ::
  "('s pb_istream \<Rightarrow> 'v option \<times> 's pb_istream) \<Rightarrow> nat \<Rightarrow> 's pb_istream
     \<Rightarrow> 'v list option \<times> 's pb_istream" where
  "decode_many dec 0 s = (Some [], s)"
| "decode_many dec (Suc n) s =
     (case dec s of
        (None, s') \<Rightarrow> (None, s')
      | (Some v, s') \<Rightarrow>
          (case decode_many dec n s' of
             (None, s'') \<Rightarrow> (None, s'')
           | (Some vs, s'') \<Rightarrow> (Some (v # vs), s'')))"

lemma advance_fields [simp]:
  "is_src (advance s rest n) = Buf_source rest"
  "bytes_left (advance s rest n) = bytes_left s - n"
  "is_errmsg (advance s rest n) = is_errmsg s"
  by (simp_all add: advance_def)

lemma advance_advance [simp]: "advance (advance s r n) r' n' = advance s r' (n + n')"
  by (simp add: advance_def)

locale wire_codec =
  fixes enc :: "'v \<Rightarrow> byte list"
    and dec :: "'s pb_istream \<Rightarrow> 'v option \<times> 's pb_istream"
    and valid :: "'v \<Rightarrow> bool"
  assumes dec_enc: "valid v \<Longrightarrow> is_src s = Buf_source (enc v @ rest) \<Longrightarrow>
      length (enc v) \<le> bytes_left s \<Longrightarrow> dec s = (Some v, advance s rest (length (enc v)))"
    and enc_nonempty: "valid v \<Longrightarrow> enc v \<noteq> []"
begin

lemma enc_inj: "valid v \<Longrightarrow> valid w \<Longrightarrow> enc v = enc w \<Longrightarrow> v = w"
  using dec_enc [of v "pb_istream_from_buffer (enc v) (length (enc v))" "[]"]
    dec_enc [of w "pb_istream_from_buffer (enc v) (length (enc v))" "[]"]
  by (simp add: pb_istream_from_buffer_def)

lemma prefix_free:
  assumes "valid v" and "valid w" and "enc v @ r = enc w @ r'"
  shows "v = w \<and> r = r'"
proof -
  let ?s = "pb_istream_from_buffer (enc v @ r) (length (enc v) + length (enc w))"
  have "dec ?s = (Some v, advance ?s r (length (enc v)))"
    by (rule dec_enc) (simp_all add: assms pb_istream_from_buffer_def)
  moreover have "dec ?s = (Some w, advance ?s r' (length (enc w)))"
    by (rule dec_enc) (simp_all add: assms pb_istream_from_buffer_def)
  ultimately have "v = w" by simp
  with assms(3) show ?thesis by simp
qed

lemma decode_many_enc:
  "\<forall>v \<in> set vs. valid v \<Longrightarrow> is_src s = Buf_source (concat (map enc vs) @ rest) \<Longrightarrow>
   length (concat (map enc vs)) \<le> bytes_left s \<Longrightarrow>
   decode_many dec (length vs) s = (Some vs, advance s rest (length (concat (map enc vs))))"
proof (induction vs arbitrary: s)
  case Nil
  then show ?case by (cases s) (simp add: advance_def)
next
  case (Cons v vs)
  let ?s = "advance s (concat (map enc vs) @ rest) (length (enc v))"
  have "dec s = (Some v, ?s)"
    using Cons.prems by (intro dec_enc) auto
  moreover have "decode_many dec (length vs) ?s =
      (Some vs, advance ?s rest (length (concat (map enc vs))))"
    using Cons.prems by (intro Cons.IH) auto
  ultimately show ?case by simp
qed

end

section \<open>Bits of varints\<close>

text \<open>The byte list as one recursion, without the in-place update of the last byte.\<close>

function varint_spec :: "64 word \<Rightarrow> byte list" where
  "varint_spec v =
     (if drop_bit 7 v = 0 then [ucast v]
      else ucast ((v AND 0x7F) OR 0x80) # varint_spec (drop_bit 7 v))"
  by pat_completeness auto
termination
proof (relation "measure unat", goal_cases)
  case (2 v)
  then have "v \<noteq> 0" by auto
  then show ?case by (simp add: unat_drop_bit_less)
qed simp

declare varint_spec.simps [simp del]

lemma and_7F: "(v :: 64 word) AND 0x7F = take_bit 7 v" "(b :: byte) AND 0x7F = take_bit 7 b"
  by (simp_all add: take_bit_eq_mask mask_numeral)

lemma le_7F_iff: "(v :: 64 word) \<le> 0x7F \<longleftrightarrow> drop_bit 7 v = 0"
proof -
  have "unat (drop_bit 7 v) = unat v div 128"
    unfolding unat_drop_bit_eq by (simp add: drop_bit_eq_div)
  then have "drop_bit 7 v = 0 \<longleftrightarrow> unat v div 128 = 0"
    by (metis unat_0 unat_eq_zero)
  moreover have "v \<le> 0x7F \<longleftrightarrow> unat v \<le> 127" by (simp add: word_le_nat_alt)
  ultimately show ?thesis by auto
qed

lemma cont_byte_bit: "bit (ucast ((v AND 0x7F) OR 0x80 :: 64 word) :: byte) 7"
  by (simp add: bit_simps bit_80)

lemma cont_byte_low: "take_bit 7 (ucast ((v AND 0x7F) OR 0x80 :: 64 word) :: byte) = ucast (take_bit 7 v)"
  by (rule bit_word_eqI) (auto simp: bit_simps and_7F bit_80)

lemma last_byte_bit: "drop_bit 7 (v :: 64 word) = 0 \<Longrightarrow> \<not> bit (ucast v :: byte) n" if "7 \<le> n" for n
proof -
  assume "drop_bit 7 v = 0"
  then have "\<not> bit (drop_bit 7 v) (n - 7)" by simp
  then show ?thesis using that by (simp add: bit_simps)
qed

lemma last_byte_low:
  "drop_bit 7 (v :: 64 word) = 0 \<Longrightarrow> take_bit 7 (ucast v :: byte) = ucast (take_bit 7 v)"
  by (rule bit_word_eqI) (auto simp: bit_simps)

lemma take_bit_7_add:
  "take_bit k v OR push_bit k (ucast (ucast (take_bit 7 (drop_bit k v)) :: byte)) =
   (take_bit (k + 7) v :: 64 word)"
  by (rule bit_word_eqI) (auto simp: bit_simps)

lemma varint_groups_spec:
  "v \<noteq> 0 \<Longrightarrow> varint_groups v \<noteq> [] \<and>
   (varint_groups v)[length (varint_groups v) - 1 :=
      (varint_groups v ! (length (varint_groups v) - 1)) AND 0x7F] = varint_spec v"
proof (induction v rule: varint_groups.induct)
  case (1 v)
  show ?case
  proof (cases "drop_bit 7 v = 0")
    case True
    have g: "varint_groups v = [ucast ((v AND 0x7F) OR 0x80)]"
      using 1(2) True by (simp add: varint_groups.simps [of v] varint_groups.simps [of 0])
    have "ucast (take_bit 7 v) = (ucast v :: byte)"
    proof (rule bit_word_eqI)
      fix n
      show "bit (ucast (take_bit 7 v) :: byte) n = bit (ucast v :: byte) n"
        using last_byte_bit [OF _ True, of n] by (cases "n < 7") (auto simp: bit_simps)
    qed
    with g True show ?thesis
      by (simp add: varint_spec.simps [of v] and_7F cont_byte_low [unfolded and_7F])
  next
    case False
    then have IH: "varint_groups (drop_bit 7 v) \<noteq> []" and
      IH': "(varint_groups (drop_bit 7 v))[length (varint_groups (drop_bit 7 v)) - 1 :=
        (varint_groups (drop_bit 7 v) ! (length (varint_groups (drop_bit 7 v)) - 1)) AND 0x7F]
        = varint_spec (drop_bit 7 v)"
      using 1 by auto
    have g: "varint_groups v = ucast ((v AND 0x7F) OR 0x80) # varint_groups (drop_bit 7 v)"
      using 1(2) by (simp add: varint_groups.simps [of v])
    obtain n where n: "length (varint_groups (drop_bit 7 v)) = Suc n"
      using IH by (cases "varint_groups (drop_bit 7 v)") auto
    show ?thesis using g n IH' False by (simp add: varint_spec.simps [of v])
  qed
qed

lemma varint_bytes_spec: "varint_bytes v = varint_spec v"
proof (cases "drop_bit 7 v = 0")
  case True
  then show ?thesis by (simp add: varint_bytes_def le_7F_iff varint_spec.simps [of v])
next
  case False
  then have "v \<noteq> 0" by auto
  with False show ?thesis
    using varint_groups_spec [of v] by (simp add: varint_bytes_def le_7F_iff Let_def)
qed

lemma varint_spec_nonempty: "varint_spec v \<noteq> []"
  by (subst varint_spec.simps) simp

lemma length_varint_spec:
  "drop_bit n v = 0 \<Longrightarrow> 1 \<le> k \<Longrightarrow> n \<le> 7 * k \<Longrightarrow> length (varint_spec v) \<le> k"
proof (induction v arbitrary: n k rule: varint_spec.induct)
  case (1 v)
  show ?case
  proof (cases "drop_bit 7 v = 0")
    case True
    with 1(3) show ?thesis by (simp add: varint_spec.simps [of v])
  next
    case False
    have n: "7 < n"
    proof (rule ccontr)
      assume "\<not> 7 < n"
      then have "drop_bit 7 v = drop_bit (7 - n) (drop_bit n v)" by simp
      with 1(2) False show False by simp
    qed
    then have "drop_bit (n - 7) (drop_bit 7 v) = 0" using 1(2) by simp
    moreover have "1 \<le> k - 1" "n - 7 \<le> 7 * (k - 1)" using n 1(4) by auto
    ultimately have "length (varint_spec (drop_bit 7 v)) \<le> k - 1"
      using 1(1) False by blast
    with False n 1(4) show ?thesis by (simp add: varint_spec.simps [of v])
  qed
qed

lemma pb_readbyte_buf:
  "is_src s = Buf_source (b # rest) \<Longrightarrow> 0 < bytes_left s \<Longrightarrow>
   pb_readbyte s = (Some b, advance s rest 1)"
  by (simp add: pb_readbyte_def advance_def)

lemma varint_loop_spec:
  assumes "v = drop_bit p V" and "p < 64" and "is_src s = Buf_source (varint_spec v @ rest)"
    and "length (varint_spec v) \<le> bytes_left s"
  shows "varint_loop s p (take_bit p V) = (Some V, advance s rest (length (varint_spec v)))"
  using assms
proof (induction v arbitrary: p s rule: varint_spec.induct)
  case (1 v)
  note lo = take_bit_7_add [of p V]
  show ?case
  proof (cases "drop_bit 7 v = 0")
    case True
    have "take_bit (p + 7) V = V"
    proof (rule bit_word_eqI)
      fix n assume "n < LENGTH(64)"
      have "bit (drop_bit (p + 7) V) (n - (p + 7)) = False" using True 1(2) by (simp add: add.commute)
      then show "bit (take_bit (p + 7) V) n = bit V n"
        by (cases "n < p + 7") (auto simp: bit_simps)
    qed
    moreover have "pb_readbyte s = (Some (ucast v), advance s rest 1)"
      using 1(4,5) True by (intro pb_readbyte_buf) (simp_all add: varint_spec.simps [of v])
    moreover have "\<not> bit (ucast v :: byte) 7" using last_byte_bit [OF _ True] by simp
    moreover have "length (varint_spec v) = 1" using True by (simp add: varint_spec.simps [of v])
    ultimately show ?thesis
      using True 1(2,3) lo last_byte_low [OF True]
      by (simp add: varint_loop.simps [of s] and_80 and_7F Let_def)
  next
    case False
    let ?b = "ucast ((v AND 0x7F) OR 0x80) :: byte"
    let ?s = "advance s (varint_spec (drop_bit 7 v) @ rest) 1"
    have p: "p + 7 < 64"
    proof (rule ccontr)
      assume "\<not> p + 7 < 64"
      then have "drop_bit 7 v = 0" unfolding 1(2)
        by (intro bit_word_eqI) (auto simp: bit_simps dest: bit_imp_le_length)
      with False show False by simp
    qed
    have sp: "varint_spec v = ?b # varint_spec (drop_bit 7 v)"
      using False by (simp add: varint_spec.simps [of v])
    have r: "pb_readbyte s = (Some ?b, ?s)"
      by (rule pb_readbyte_buf) (use 1(4,5) sp in simp_all)
    have "drop_bit 7 v = drop_bit (p + 7) V" unfolding 1(2) by (simp add: add.commute)
    then have "varint_loop ?s (p + 7) (take_bit (p + 7) V) =
        (Some V, advance ?s rest (length (varint_spec (drop_bit 7 v))))"
      by (rule 1(1) [OF False]) (use p 1(5) sp in simp_all)
    moreover have "take_bit p V OR push_bit p (ucast (take_bit 7 ?b)) = take_bit (p + 7) V"
      using lo 1(2) by (simp add: cont_byte_low)
    ultimately show ?thesis
      using r p sp cont_byte_bit [of v]
      by (simp add: varint_loop.simps [of s] and_80 and_7F(2) Let_def)
  qed
qed

interpretation varint_codec: wire_codec varint_bytes pb_decode_varint "\<lambda>_. True"
proof unfold_locales
  fix v :: "64 word" and s :: "'a pb_istream" and rest
  assume "is_src s = Buf_source (varint_bytes v @ rest)" "length (varint_bytes v) \<le> bytes_left s"
  then show "pb_decode_varint s = (Some v, advance s rest (length (varint_bytes v)))"
    using varint_loop_spec [of v 0 v s rest]
    by (simp add: pb_decode_varint_def varint_bytes_spec)
qed (simp add: varint_bytes_spec varint_spec_nonempty)

section \<open>32-bit varints\<close>

lemma take_bit_7_add32:
  "take_bit k v OR push_bit k (ucast (ucast (take_bit 7 (ucast (drop_bit k v) :: 64 word)) :: byte)) =
   (take_bit (k + 7) v :: 32 word)"
  by (rule bit_word_eqI) (auto simp: bit_simps)

lemma ucast_drop_bit_32: "drop_bit 7 (ucast (drop_bit p V) :: 64 word) = ucast (drop_bit (p + 7) (V :: 32 word))"
  by (rule bit_word_eqI) (auto simp: bit_simps add.commute add.left_commute dest: bit_imp_le_length)

lemma and_70:
  "(b :: byte) AND 0x70 = 0" if "\<And>n. 4 \<le> n \<Longrightarrow> \<not> bit b n"
proof (rule bit_word_eqI)
  fix n
  have "(0x70 :: int) = push_bit 4 (mask 3)" by (simp add: push_bit_eq_mult mask_eq_exp_minus_1)
  then have "bit (0x70 :: int) n \<longleftrightarrow> 4 \<le> n \<and> n < 7"
    by (simp only: bit_push_bit_iff bit_mask_iff) auto
  then show "bit (b AND 0x70) n = bit (0 :: byte) n" using that by (auto simp: bit_simps)
qed

lemma varint32_loop_spec:
  assumes "v = ucast (drop_bit p V)" and "p < 32" and "is_src s = Buf_source (varint_spec v @ rest)"
    and "length (varint_spec v) \<le> bytes_left s"
  shows "\<exists>q b. varint32_loop s p (take_bit p V) =
           (Some (V, q, b), advance s rest (length (varint_spec v))) \<and> (q = 35 \<longrightarrow> b AND 0x70 = 0)"
  using assms
proof (induction v arbitrary: p s rule: varint_spec.induct)
  case (1 v)
  note lo = take_bit_7_add32 [of p V]
  have next_0: "drop_bit 7 v = ucast (drop_bit (p + 7) V)" unfolding 1(2) by (rule ucast_drop_bit_32)
  show ?case
  proof (cases "drop_bit 7 v = 0")
    case True
    have "take_bit (p + 7) V = V"
    proof (rule bit_word_eqI)
      fix n assume n: "n < LENGTH(32)"
      have "\<not> bit (ucast (drop_bit (p + 7) V) :: 64 word) (n - (p + 7))" using True next_0 by simp
      then show "bit (take_bit (p + 7) V) n = bit V n"
        using n by (cases "n < p + 7") (auto simp: bit_simps)
    qed
    moreover have "pb_readbyte s = (Some (ucast v), advance s rest 1)"
      using 1(4,5) True by (intro pb_readbyte_buf) (simp_all add: varint_spec.simps [of v])
    moreover have "\<not> bit (ucast v :: byte) 7" using last_byte_bit [OF _ True] by simp
    moreover have "length (varint_spec v) = 1" using True by (simp add: varint_spec.simps [of v])
    ultimately have "varint32_loop s p (take_bit p V) =
        (Some (V, p + 7, ucast v), advance s rest (length (varint_spec v)))"
      using True 1(2,3) lo last_byte_low [OF True]
      by (simp add: varint32_loop.simps [of s] and_80 and_7F Let_def)
    moreover have "(ucast v :: byte) AND 0x70 = 0" if "p + 7 = 35"
      using that unfolding 1(2) by (intro and_70) (auto simp: bit_simps dest: bit_imp_le_length)
    ultimately show ?thesis by blast
  next
    case False
    let ?b = "ucast ((v AND 0x7F) OR 0x80) :: byte"
    let ?s = "advance s (varint_spec (drop_bit 7 v) @ rest) 1"
    have p: "p + 7 < 32"
    proof (rule ccontr)
      assume "\<not> p + 7 < 32"
      then have "drop_bit 7 v = 0" unfolding next_0
        by (intro bit_word_eqI) (auto simp: bit_simps dest: bit_imp_le_length)
      with False show False by simp
    qed
    have sp: "varint_spec v = ?b # varint_spec (drop_bit 7 v)"
      using False by (simp add: varint_spec.simps [of v])
    have r: "pb_readbyte s = (Some ?b, ?s)"
      by (rule pb_readbyte_buf) (use 1(4,5) sp in simp_all)
    have l: "length (varint_spec (drop_bit 7 v)) \<le> bytes_left ?s"
      using 1(5) sp by simp
    obtain q c where "varint32_loop ?s (p + 7) (take_bit (p + 7) V) =
        (Some (V, q, c), advance ?s rest (length (varint_spec (drop_bit 7 v))))"
      and c: "q = 35 \<longrightarrow> c AND 0x70 = 0"
      using 1(1) [OF False next_0 p _ l] by auto
    moreover have "take_bit p V OR push_bit p (ucast (take_bit 7 ?b)) = take_bit (p + 7) V"
      using lo 1(2) by (simp add: cont_byte_low)
    ultimately show ?thesis
      using r p sp cont_byte_bit [of v] c
      by (simp add: varint32_loop.simps [of s] and_80 and_7F(2) Let_def)
  qed
qed

lemma pb_decode_varint32_eof_enc:
  assumes s: "is_src s = Buf_source (varint_bytes (ucast V) @ rest)"
    and len: "length (varint_bytes (ucast V)) \<le> bytes_left s"
  shows "pb_decode_varint32_eof s = (Some V, False, advance s rest (length (varint_bytes (ucast V))))"
proof -
  let ?v = "ucast V :: 64 word"
  show ?thesis
  proof (cases "drop_bit 7 ?v = 0")
    case True
    have "pb_readbyte s = (Some (ucast ?v), advance s rest 1)"
      using s len True by (intro pb_readbyte_buf) (simp_all add: varint_bytes_spec varint_spec.simps [of ?v])
    moreover have "\<not> bit (ucast ?v :: byte) 7" using last_byte_bit [OF _ True] by simp
    moreover have "ucast (ucast ?v :: byte) = V"
    proof (rule bit_word_eqI)
      fix n assume n: "n < LENGTH(32)"
      have "7 \<le> n \<Longrightarrow> \<not> bit (drop_bit 7 ?v) (n - 7)" using True by simp
      with n show "bit (ucast (ucast ?v :: byte) :: 32 word) n = bit V n"
        by (cases "n < 7") (auto simp: bit_simps)
    qed
    ultimately show ?thesis
      using True by (simp add: pb_decode_varint32_eof_def and_80_eq varint_bytes_spec varint_spec.simps [of ?v])
  next
    case False
    let ?b = "ucast ((?v AND 0x7F) OR 0x80) :: byte"
    let ?s = "advance s (varint_spec (drop_bit 7 ?v) @ rest) 1"
    have sp: "varint_spec ?v = ?b # varint_spec (drop_bit 7 ?v)"
      using False by (simp add: varint_spec.simps [of ?v])
    have r: "pb_readbyte s = (Some ?b, ?s)"
      by (rule pb_readbyte_buf) (use s len sp in \<open>simp_all add: varint_bytes_spec\<close>)
    have n: "drop_bit 7 ?v = ucast (drop_bit 7 V)"
      using ucast_drop_bit_32 [of 0 V] by simp
    have l: "length (varint_spec (drop_bit 7 ?v)) \<le> bytes_left ?s"
      using len sp by (simp add: varint_bytes_spec)
    obtain q c where "varint32_loop ?s 7 (take_bit 7 V) =
        (Some (V, q, c), advance ?s rest (length (varint_spec (drop_bit 7 ?v))))"
      and c: "q = 35 \<longrightarrow> c AND 0x70 = 0"
      using varint32_loop_spec [OF n _ _ l] by auto
    moreover have "ucast (take_bit 7 ?b) = take_bit 7 V"
      using take_bit_7_add32 [of 0 V] by (simp add: cont_byte_low)
    moreover have "bit ?b 7" by (rule cont_byte_bit)
    ultimately show ?thesis
      using r sp c by (simp add: pb_decode_varint32_eof_def and_80_eq and_7F(2) varint_bytes_spec)
  qed
qed

interpretation varint32_codec: wire_codec "\<lambda>v. varint_bytes (ucast v)" pb_decode_varint32 "\<lambda>_. True"
  by unfold_locales
    (simp_all add: pb_decode_varint32_def pb_decode_varint32_eof_enc varint_bytes_spec
      varint_spec_nonempty)

section \<open>Zigzag and fixed-width codecs\<close>

lemma bit_shl1: "bit (push_bit 1 (v :: 64 word)) (Suc n) \<longleftrightarrow> n < 63 \<and> bit v n"
  by (simp only: bit_push_bit_iff possible_bit_word) auto

lemma unzigzag_zigzag:
  "(if zigzag v AND 1 \<noteq> 0 then NOT (drop_bit 1 (zigzag v)) else drop_bit 1 (zigzag v)) = v"
proof -
  have neg: "sint v < 0 \<longleftrightarrow> bit v 63"
    using bit_last_iff [of v] by simp
  have odd: "w AND 1 \<noteq> 0 \<longleftrightarrow> bit w 0" for w :: "64 word"
    by (simp add: and_one_eq mod_2_eq_odd bit_0)
  show ?thesis
  proof (cases "sint v < 0")
    case True
    have "NOT (drop_bit 1 (NOT (push_bit 1 v))) = v"
    proof (rule bit_word_eqI)
      fix n assume "n < LENGTH(64)"
      then consider "n = 63" | "n < 63" by fastforce
      then show "bit (NOT (drop_bit 1 (NOT (push_bit 1 v)))) n = bit v n"
        by cases (use True neg in \<open>simp_all only: bit_not_iff bit_drop_bit_eq comp_apply possible_bit_word plus_1_eq_Suc bit_shl1, simp_all\<close>)
    qed
    with True show ?thesis by (simp add: zigzag_def odd bit_simps bit_0)
  next
    case False
    have "drop_bit 1 (push_bit 1 v) = v"
    proof (rule bit_word_eqI)
      fix n assume "n < LENGTH(64)"
      then consider "n = 63" | "n < 63" by fastforce
      then show "bit (drop_bit 1 (push_bit 1 v)) n = bit v n"
        by cases (use False neg in \<open>simp_all only: bit_drop_bit_eq comp_apply plus_1_eq_Suc bit_shl1, simp_all\<close>)
    qed
    with False show ?thesis by (simp add: zigzag_def odd bit_simps bit_0)
  qed
qed

interpretation svarint_codec: wire_codec "\<lambda>v. varint_bytes (zigzag v)" pb_decode_svarint "\<lambda>_. True"
  by unfold_locales
    (simp_all add: pb_decode_svarint_def varint_codec.dec_enc unzigzag_zigzag varint_codec.enc_nonempty)

lemma and_FF: "(v :: 64 word) AND 0xFF = take_bit 8 v" "(w :: 32 word) AND 0xFF = take_bit 8 w"
  by (simp_all add: take_bit_eq_mask mask_numeral)

lemma take_bit_8_add64:
  "take_bit k v OR push_bit k (take_bit 8 (drop_bit k v)) = (take_bit (k + 8) v :: 64 word)"
  by (rule bit_word_eqI) (auto simp: bit_simps)

lemma take_bit_8_add32:
  "take_bit k v OR push_bit k (take_bit 8 (drop_bit k v)) = (take_bit (k + 8) v :: 32 word)"
  by (rule bit_word_eqI) (auto simp: bit_simps)

lemma ucast_byte_take_bit:
  "ucast (ucast (take_bit 8 v) :: byte) = take_bit 8 (v :: 64 word)"
  "ucast (ucast (take_bit 8 w) :: byte) = take_bit 8 (w :: 32 word)"
  by (rule bit_word_eqI, auto simp: bit_simps)+

lemmas add64_steps = take_bit_8_add64 [of 8, simplified]
  take_bit_8_add64 [of 16, simplified] take_bit_8_add64 [of 24, simplified]
  take_bit_8_add64 [of 32, simplified] take_bit_8_add64 [of 40, simplified]
  take_bit_8_add64 [of 48, simplified] take_bit_8_add64 [of 56, simplified]

lemmas add32_steps = take_bit_8_add32 [of 8, simplified]
  take_bit_8_add32 [of 16, simplified] take_bit_8_add32 [of 24, simplified]

lemma pb_read_buf:
  "is_src s = Buf_source (xs @ rest) \<Longrightarrow> length xs = n \<Longrightarrow> n \<le> bytes_left s \<Longrightarrow> 0 < n \<Longrightarrow>
   pb_read s n = (Some xs, advance s rest n)"
  by (auto simp: pb_read_def advance_def)

lemma pb_read_null_buf:
  "is_src s = Buf_source (xs @ rest) \<Longrightarrow> length xs = n \<Longrightarrow> n \<le> bytes_left s \<Longrightarrow>
   pb_read_null s n = (True, advance s rest n)"
  by (cases "n = 0") (auto simp: pb_read_null_def pb_read_buf is_buf_read_def advance_def)

interpretation fixed32_codec: wire_codec fixed32_bytes pb_decode_fixed32 "\<lambda>_. True"
proof unfold_locales
  fix v :: "32 word" and s :: "'a pb_istream" and rest
  assume s: "is_src s = Buf_source (fixed32_bytes v @ rest)" "length (fixed32_bytes v) \<le> bytes_left s"
  have "pb_read s 4 = (Some (fixed32_bytes v), advance s rest 4)"
    by (rule pb_read_buf [OF s(1)]) (use s(2) in \<open>simp_all add: fixed32_bytes_def\<close>)
  moreover have "push_bit 0 (ucast (ucast (take_bit 8 v) :: byte))
      OR push_bit 8 (ucast (ucast (take_bit 8 (drop_bit 8 v)) :: byte))
      OR push_bit 16 (ucast (ucast (take_bit 8 (drop_bit 16 v)) :: byte))
      OR push_bit 24 (ucast (ucast (take_bit 8 (drop_bit 24 v)) :: byte)) = v"
    by (simp only: or.assoc [symmetric] push_bit_0_id id_apply ucast_byte_take_bit add32_steps) (simp add: take_bit_word_eq_self)
  ultimately show "pb_decode_fixed32 s = (Some v, advance s rest (length (fixed32_bytes v)))"
    by (simp add: pb_decode_fixed32_def fixed32_bytes_def and_FF)
qed (simp add: fixed32_bytes_def)

interpretation fixed64_codec: wire_codec fixed64_bytes pb_decode_fixed64 "\<lambda>_. True"
proof unfold_locales
  fix v :: "64 word" and s :: "'a pb_istream" and rest
  assume s: "is_src s = Buf_source (fixed64_bytes v @ rest)" "length (fixed64_bytes v) \<le> bytes_left s"
  have "pb_read s 8 = (Some (fixed64_bytes v), advance s rest 8)"
    by (rule pb_read_buf [OF s(1)]) (use s(2) in \<open>simp_all add: fixed64_bytes_def\<close>)
  moreover have "push_bit 0 (ucast (ucast (take_bit 8 v) :: byte))
      OR push_bit 8 (ucast (ucast (take_bit 8 (drop_bit 8 v)) :: byte))
      OR push_bit 16 (ucast (ucast (take_bit 8 (drop_bit 16 v)) :: byte))
      OR push_bit 24 (ucast (ucast (take_bit 8 (drop_bit 24 v)) :: byte))
      OR push_bit 32 (ucast (ucast (take_bit 8 (drop_bit 32 v)) :: byte))
      OR push_bit 40 (ucast (ucast (take_bit 8 (drop_bit 40 v)) :: byte))
      OR push_bit 48 (ucast (ucast (take_bit 8 (drop_bit 48 v)) :: byte))
      OR push_bit 56 (ucast (ucast (take_bit 8 (drop_bit 56 v)) :: byte)) = v"
    by (simp only: or.assoc [symmetric] push_bit_0_id id_apply ucast_byte_take_bit add64_steps) (simp add: take_bit_word_eq_self)
  ultimately show "pb_decode_fixed64 s = (Some v, advance s rest (length (fixed64_bytes v)))"
    by (simp add: pb_decode_fixed64_def fixed64_bytes_def and_FF)
qed (simp add: fixed64_bytes_def)

section \<open>Tags and skipping\<close>

lemma tag_word_32:
  assumes "wt < 8" and "tag < 2 ^ 29"
  defines "T \<equiv> push_bit 3 (word_of_nat tag) OR word_of_nat wt :: 32 word"
  shows "tag_word wt (word_of_nat tag) = ucast T" "T AND 7 = word_of_nat wt"
    "drop_bit 3 T = word_of_nat tag"
proof -
  have "take_bit 29 (word_of_nat tag :: 32 word) = word_of_nat tag"
    using assms(2) by (simp add: take_bit_of_nat take_bit_nat_eq_self)
  then have tag: "bit (word_of_nat tag :: 32 word) n \<Longrightarrow> n < 29" for n
    by (metis bit_take_bit_iff)
  have "take_bit 3 (word_of_nat wt :: 32 word) = word_of_nat wt"
    "take_bit 3 (word_of_nat wt :: 64 word) = word_of_nat wt"
    using assms(1) by (simp_all add: take_bit_of_nat take_bit_nat_eq_self)
  then have wt: "bit (word_of_nat wt :: 32 word) n \<Longrightarrow> n < 3"
    "bit (word_of_nat wt :: 64 word) n \<Longrightarrow> n < 3" for n
    by (metis bit_take_bit_iff)+
  have wt64: "bit (word_of_nat wt :: 64 word) n = bit (word_of_nat wt :: 32 word) n" for n
    using wt [of n] by (auto simp: bit_simps)
  show "tag_word wt (word_of_nat tag) = ucast T"
    unfolding T_def tag_word_def
    by (rule bit_word_eqI) (auto simp only: bit_or_iff bit_push_bit_iff bit_ucast_iff wt64
        possible_bit_word dest: wt tag bit_imp_le_length, auto dest: wt tag bit_imp_le_length)
  have "T AND 7 = take_bit 3 T" by (simp add: take_bit_eq_mask mask_numeral)
  also have "\<dots> = word_of_nat wt"
    unfolding T_def
    by (rule bit_word_eqI) (auto simp only: bit_or_iff bit_push_bit_iff bit_take_bit_iff dest: wt)
  finally show "T AND 7 = word_of_nat wt" .
  show "drop_bit 3 T = word_of_nat tag"
    unfolding T_def
  proof (rule bit_word_eqI)
    fix n
    have "\<not> bit (word_of_nat wt :: 32 word) (3 + n)" using wt(1) [of "3 + n"] by auto
    then show "bit (drop_bit 3 (push_bit 3 (word_of_nat tag) OR word_of_nat wt :: 32 word)) n =
        bit (word_of_nat tag :: 32 word) n"
      using tag [of n]
      by (auto simp only: bit_or_iff bit_push_bit_iff bit_drop_bit_eq comp_apply possible_bit_word) auto
  qed
qed

interpretation tag_codec: wire_codec "\<lambda>(wt, tag). varint_bytes (tag_word wt (word_of_nat tag))"
  "\<lambda>s. case pb_decode_tag s of (r, e, t) \<Rightarrow> (r, t)" "\<lambda>(wt, tag). wt < 8 \<and> 0 < tag \<and> tag < 2 ^ 29"
proof unfold_locales
  fix v :: "nat \<times> nat" and s :: "'a pb_istream" and rest
  obtain wt tag where v: "v = (wt, tag)" by (cases v)
  assume "case v of (wt, tag) \<Rightarrow> wt < 8 \<and> 0 < tag \<and> tag < 2 ^ 29"
  then have wt: "wt < 8" and tag: "0 < tag" "tag < 2 ^ 29" using v by auto
  assume s: "is_src s = Buf_source ((case v of (wt, tag) \<Rightarrow> varint_bytes (tag_word wt (word_of_nat tag))) @ rest)"
    "length (case v of (wt, tag) \<Rightarrow> varint_bytes (tag_word wt (word_of_nat tag))) \<le> bytes_left s"
  let ?T = "push_bit 3 (word_of_nat tag) OR word_of_nat wt :: 32 word"
  note T = tag_word_32 [OF wt tag(2)]
  have d: "pb_decode_varint32_eof s = (Some ?T, False, advance s rest (length (varint_bytes (ucast ?T))))"
    by (rule pb_decode_varint32_eof_enc) (use s v T(1) in simp_all)
  have un: "unat (word_of_nat tag :: 32 word) = tag" "unat (word_of_nat wt :: 32 word) = wt"
    using wt tag by (simp_all add: unat_of_nat take_bit_nat_eq_self)
  then have "drop_bit 3 ?T \<noteq> 0" using tag T(3) by auto
  then have "?T \<noteq> 0" by (metis drop_bit_of_0)
  with d un T(2,3) show "(case pb_decode_tag s of (r, e, t) \<Rightarrow> (r, t)) =
      (Some v, advance s rest (length (case v of (wt, tag) \<Rightarrow> varint_bytes (tag_word wt (word_of_nat tag)))))"
    by (simp add: pb_decode_tag_def v T(1))
qed (auto simp: varint_codec.enc_nonempty)

lemma pb_skip_varint_enc:
  "is_src s = Buf_source (varint_spec v @ rest) \<Longrightarrow> length (varint_spec v) \<le> bytes_left s \<Longrightarrow>
   pb_skip_varint s = (True, advance s rest (length (varint_spec v)))"
proof (induction v arbitrary: s rule: varint_spec.induct)
  case (1 v)
  show ?case
  proof (cases "drop_bit 7 v = 0")
    case True
    have "pb_read s 1 = (Some [ucast v], advance s rest 1)"
      by (rule pb_read_buf) (use 1(2,3) True in \<open>simp_all add: varint_spec.simps [of v]\<close>)
    then show ?thesis
      using True last_byte_bit [OF _ True, of 7]
      by (simp add: pb_skip_varint.simps [of s] and_80_eq varint_spec.simps [of v])
  next
    case False
    let ?s = "advance s (varint_spec (drop_bit 7 v) @ rest) 1"
    let ?b = "ucast ((v AND 0x7F) OR 0x80) :: byte"
    have sp: "varint_spec v = ?b # varint_spec (drop_bit 7 v)"
      using False by (simp add: varint_spec.simps [of v])
    have "pb_read s 1 = (Some [?b], ?s)"
      by (rule pb_read_buf) (use 1(2,3) sp in simp_all)
    moreover have "pb_skip_varint ?s = (True, advance ?s rest (length (varint_spec (drop_bit 7 v))))"
      by (rule 1(1) [OF False]) (use 1(3) sp in simp_all)
    ultimately show ?thesis
      using sp cont_byte_bit [of v] by (simp add: pb_skip_varint.simps [of s] and_80)
  qed
qed

lemma pb_skip_string_enc:
  assumes "is_src s = Buf_source (varint_bytes (word_of_nat (length bs)) @ bs @ rest)"
    and "length bs < 2 ^ 32"
    and "length (varint_bytes (word_of_nat (length bs))) + length bs \<le> bytes_left s"
  shows "pb_skip_string s =
    (True, advance s rest (length (varint_bytes (word_of_nat (length bs))) + length bs))"
proof -
  let ?n = "word_of_nat (length bs) :: 32 word"
  have n: "ucast ?n = (word_of_nat (length bs) :: 64 word)" "unat ?n = length bs"
    using assms(2) by (simp_all add: unsigned_of_nat take_bit_nat_eq_self)
  have "pb_decode_varint32 s = (Some ?n, advance s (bs @ rest) (length (varint_bytes (ucast ?n))))"
    by (rule varint32_codec.dec_enc) (use assms n in simp_all)
  then show ?thesis
    using pb_read_null_buf [of "advance s (bs @ rest) (length (varint_bytes (ucast ?n)))" bs rest]
      assms(3) n by (simp add: pb_skip_string_def)
qed

section \<open>Properties of the wire format\<close>

lemma pb_write_stored:
  assumes "room_ok s" and "os_sink s = Buf_sink ws cap" and "length buf < size_mod"
    and "pb_write s buf (length buf) = (True, t)"
  shows "os_sink t = Buf_sink (ws @ buf) cap" "bytes_written t = bytes_written s + length buf"
    "max_size t = max_size s" "room_ok t"
proof -
  have "appends s t" using pb_write_appends [of buf "length buf" s] assms(3,4) by simp
  then show "room_ok t" using assms(1,2) by (rule appends_room)
  have b: "bytes_written s < size_mod" using assms(1) by (simp add: room_ok_def)
  show "os_sink t = Buf_sink (ws @ buf) cap" "bytes_written t = bytes_written s + length buf"
    "max_size t = max_size s"
    using assms b add_mod_size_cases [of "bytes_written s" "length buf"]
    by (auto simp: pb_write_def is_sizing_iff room_ok_def split: if_splits)
qed

lemma varint_bytes_length: "1 \<le> length (varint_bytes v) \<and> length (varint_bytes v) \<le> 10"
proof -
  have "drop_bit 64 v = 0" by (simp add: bit_eq_iff bit_simps)
  then have "length (varint_spec v) \<le> 10" by (rule length_varint_spec) simp_all
  then show ?thesis
    using varint_spec_nonempty [of v] by (cases "varint_spec v") (auto simp: varint_bytes_spec)
qed

text \<open>C7. Varint round trip, end to end. When \<open>pb_encode_varint\<close> reports success on a buffer stream,
  it appended bytes \<open>xs\<close> to the array such that \<open>pb_decode_varint\<close>, run on any stream whose
  next bytes are \<open>xs\<close>, succeeds with the encoded 64-bit value and stops right behind them.\<close>

theorem varint_roundtrip:
  assumes "room_ok s" and "os_sink s = Buf_sink ws cap" and "pb_encode_varint s v = (True, t)"
  shows "\<exists>xs. os_sink t = Buf_sink (ws @ xs) cap \<and> bytes_written t = bytes_written s + length xs \<and>
    (\<forall>r rest. is_src r = Buf_source (xs @ rest) \<longrightarrow> length xs \<le> bytes_left r \<longrightarrow>
       pb_decode_varint r = (Some v, advance r rest (length xs)))"
proof (intro exI [of _ "varint_bytes v"] conjI allI impI)
  have l: "length (varint_bytes v) < size_mod" using varint_bytes_length [of v] by (simp add: size_mod_def)
  note w = pb_write_stored [OF assms(1,2) l assms(3) [unfolded pb_encode_varint_def]]
  show "os_sink t = Buf_sink (ws @ varint_bytes v) cap" by (rule w(1))
  show "bytes_written t = bytes_written s + length (varint_bytes v)" by (rule w(2))
qed (rule varint_codec.dec_enc, simp_all)

theorem varint_roundtrip_witness:
  "\<exists>xs. os_sink (snd (pb_encode_varint (pb_ostream_from_buffer 4 4 :: unit pb_ostream) 300)) = Buf_sink xs 4
     \<and> pb_decode_varint (pb_istream_from_buffer (xs @ [9]) 4 :: unit pb_istream)
         = (Some 300, pb_istream_from_buffer [9] 2)"
proof -
  let ?s = "pb_ostream_from_buffer 4 4 :: unit pb_ostream"
  have b: "varint_bytes 300 = [172, 2]" by code_simp
  then have e: "pb_encode_varint ?s 300 = (True, snd (pb_encode_varint ?s 300))"
    by (simp add: pb_encode_varint_def pb_write_def pb_ostream_from_buffer_def
        is_sizing_def size_mod_def)
  have r: "room_ok ?s" "os_sink ?s = Buf_sink [] 4"
    by (simp_all add: room_ok_def pb_ostream_from_buffer_def size_mod_def)
  obtain xs where xs: "os_sink (snd (pb_encode_varint ?s 300)) = Buf_sink xs 4"
    "bytes_written (snd (pb_encode_varint ?s 300)) = length xs"
    "\<And>(r :: unit pb_istream) rest. is_src r = Buf_source (xs @ rest) \<Longrightarrow> length xs \<le> bytes_left r \<Longrightarrow>
       pb_decode_varint r = (Some 300, advance r rest (length xs))"
    using varint_roundtrip [OF r e] by (auto simp: pb_ostream_from_buffer_def)
  have l: "length xs = 2"
    using xs(2) b by (simp add: pb_encode_varint_def pb_write_def pb_ostream_from_buffer_def
        is_sizing_def size_mod_def)
  show ?thesis
    using xs(1) xs(3) [of "pb_istream_from_buffer (xs @ [9]) 4" "[9]"] l
    by (auto simp: pb_istream_from_buffer_def advance_def)
qed

text \<open>The fixed array \<open>pb_byte_t buffer[10]\<close> of \<open>pb_encode_varint\<close> is large enough: every value takes
  between one and ten bytes, and a 32-bit value at most five.\<close>

theorem varint_buffer_bound:
  "1 \<le> length (varint_bytes v) \<and> length (varint_bytes v) \<le> 10
   \<and> length (varint_bytes (ucast (w :: 32 word))) \<le> 5"
proof -
  have "drop_bit 32 (ucast w :: 64 word) = 0"
    by (simp add: bit_eq_iff bit_simps) (auto dest: bit_imp_le_length)
  then have "length (varint_spec (ucast w)) \<le> 5" by (rule length_varint_spec) simp_all
  then show ?thesis using varint_bytes_length [of v] by (simp add: varint_bytes_spec)
qed

text \<open>The two varint decoders agree on every 32-bit value the encoder produces: both return
  the value and leave the stream in the same place.\<close>

theorem varint32_agrees_with_varint:
  assumes "is_src s = Buf_source (varint_bytes (ucast v) @ rest)"
    and "length (varint_bytes (ucast v)) \<le> bytes_left s"
  shows "pb_decode_varint32 s = (Some v, advance s rest (length (varint_bytes (ucast v))))
    \<and> pb_decode_varint s = (Some (ucast v), snd (pb_decode_varint32 s))"
  using varint32_codec.dec_enc [OF TrueI assms] varint_codec.dec_enc [OF TrueI assms] by simp

theorem varint32_agrees_with_varint_witness:
  "fst (pb_decode_varint (pb_istream_from_buffer [0xAC, 2, 9] 3 :: unit pb_istream)) = Some 300
   \<and> pb_decode_varint32 (pb_istream_from_buffer [0xAC, 2, 9] 3 :: unit pb_istream)
     = (Some 300, pb_istream_from_buffer [9] 1)"
proof -
  have b: "varint_bytes (ucast (300 :: 32 word)) = [172, 2]" by code_simp
  show ?thesis
    using varint32_agrees_with_varint
      [of "pb_istream_from_buffer [0xAC, 2, 9] 3 :: unit pb_istream" 300 "[9]"] b
    by (simp add: pb_istream_from_buffer_def advance_def)
qed

text \<open>C8. Round trips of the other scalar encodings: zigzag varints for signed values and the
  little-endian fixed 32-bit and 64-bit values, each read back from any stream that starts with
  the encoded bytes, for whole sequences of values as a packed array holds them.\<close>

theorem scalar_sequences_roundtrip:
  "(is_src s = Buf_source (concat (map (varint_bytes \<circ> zigzag) vs) @ rest) \<longrightarrow>
      length (concat (map (varint_bytes \<circ> zigzag) vs)) \<le> bytes_left s \<longrightarrow>
      fst (decode_many pb_decode_svarint (length vs) s) = Some vs)
   \<and> (is_src s = Buf_source (concat (map fixed32_bytes ws) @ rest) \<longrightarrow>
      length (concat (map fixed32_bytes ws)) \<le> bytes_left s \<longrightarrow>
      fst (decode_many pb_decode_fixed32 (length ws) s) = Some ws)
   \<and> (is_src s = Buf_source (concat (map fixed64_bytes xs) @ rest) \<longrightarrow>
      length (concat (map fixed64_bytes xs)) \<le> bytes_left s \<longrightarrow>
      fst (decode_many pb_decode_fixed64 (length xs) s) = Some xs)"
  using svarint_codec.decode_many_enc [of vs s rest] fixed32_codec.decode_many_enc [of ws s rest]
    fixed64_codec.decode_many_enc [of xs s rest]
  by (simp add: comp_def)

theorem scalar_sequences_roundtrip_witness:
  "fst (decode_many pb_decode_svarint 2 (pb_istream_from_buffer [3, 4] 2 :: unit pb_istream)) = Some [-2, 2]"
proof -
  have "concat (map (varint_bytes \<circ> zigzag) [-2, 2]) = [3, 4]" by code_simp
  then show ?thesis
    using scalar_sequences_roundtrip
      [of "pb_istream_from_buffer [3, 4] 2 :: unit pb_istream" "[-2, 2]" "[]" "[]" "[]"]
    by (simp add: pb_istream_from_buffer_def numeral_2_eq_2 del: decode_many.simps)
qed

text \<open>Field tags round trip: for a wire type below 8 and a field number between 1 and
  \<open>2 ^ 29 - 1\<close> (the range of protobuf field numbers), \<open>pb_decode_tag\<close> reads back what
  \<open>pb_encode_tag\<close> writes and does not report the end of the message.\<close>

theorem tag_roundtrip:
  assumes "wt < 8" and "0 < tag" and "tag < 2 ^ 29"
    and "is_src s = Buf_source (varint_bytes (tag_word wt (word_of_nat tag)) @ rest)"
    and "length (varint_bytes (tag_word wt (word_of_nat tag))) \<le> bytes_left s"
  shows "\<exists>eof. pb_decode_tag s =
    (Some (wt, tag), eof, advance s rest (length (varint_bytes (tag_word wt (word_of_nat tag)))))"
  using tag_codec.dec_enc [of "(wt, tag)" s rest] assms by (auto split: prod.splits)

theorem tag_roundtrip_witness:
  "fst (pb_decode_tag (pb_istream_from_buffer [10, 7] 2 :: unit pb_istream)) = Some (2, 1)"
proof -
  have "varint_bytes (tag_word 2 (word_of_nat 1)) = [10]" by code_simp
  then show ?thesis
    using tag_roundtrip [of 2 1 "pb_istream_from_buffer [10, 7] 2 :: unit pb_istream" "[7]"]
    by (auto simp: pb_istream_from_buffer_def)
qed

text \<open>C9. Skipping is exact: \<open>pb_skip_field\<close> on an unknown varint, length-delimited or fixed-width field
  consumes exactly the bytes the encoder wrote for its value and nothing of what follows; the length of a length-delimited
  field is below \<open>2 ^ 32\<close>, the range of \<open>pb_decode_varint32\<close>.\<close>

theorem skip_field_exact:
  assumes "length bs < 2 ^ 32"
  shows "(is_src s = Buf_source (varint_bytes v @ rest) \<longrightarrow> length (varint_bytes v) \<le> bytes_left s \<longrightarrow>
      pb_skip_field s PB_WT_VARINT = (True, advance s rest (length (varint_bytes v))))
    \<and> (is_src s = Buf_source (varint_bytes (word_of_nat (length bs)) @ bs @ rest) \<longrightarrow>
      length (varint_bytes (word_of_nat (length bs))) + length bs \<le> bytes_left s \<longrightarrow>
      pb_skip_field s PB_WT_STRING =
        (True, advance s rest (length (varint_bytes (word_of_nat (length bs))) + length bs)))
    \<and> (is_src s = Buf_source (fixed64_bytes x @ rest) \<longrightarrow> 8 \<le> bytes_left s \<longrightarrow>
      pb_skip_field s PB_WT_64BIT = (True, advance s rest 8))
    \<and> (is_src s = Buf_source (fixed32_bytes y @ rest) \<longrightarrow> 4 \<le> bytes_left s \<longrightarrow>
      pb_skip_field s PB_WT_32BIT = (True, advance s rest 4))"
  using pb_skip_varint_enc [of s v rest] pb_skip_string_enc [of s bs rest]
    pb_read_null_buf [of s "fixed64_bytes x" rest 8] pb_read_null_buf [of s "fixed32_bytes y" rest 4] assms
  by (simp add: pb_skip_field_def varint_bytes_spec fixed64_bytes_def fixed32_bytes_def)

theorem skip_field_exact_witness:
  "pb_skip_field (pb_istream_from_buffer [2, 65, 66, 7] 4 :: unit pb_istream) PB_WT_STRING
     = (True, pb_istream_from_buffer [7] 1)"
proof -
  have b: "varint_bytes (word_of_nat (length [65, 66 :: byte])) = [2]" by code_simp
  show ?thesis
    using skip_field_exact [of "[65, 66]" "pb_istream_from_buffer [2, 65, 66, 7] 4 :: unit pb_istream" _ "[7]"] b
    by (simp add: pb_istream_from_buffer_def advance_def)
qed

text \<open>No reader leaves the array. Run on a buffer stream whose array covers \<open>bytes_left\<close>,
  \<open>pb_skip_field\<close> consumes some \<open>n\<close> bytes of the stream, on success and on failure: \<open>bytes_left\<close> drops by
  \<open>n\<close>, the read pointer moves by \<open>n\<close>, and no byte behind the end of the stream is read.\<close>

theorem skip_field_in_bounds:
  assumes "is_src s = Buf_source bs" and "bytes_left s \<le> length bs"
    and "pb_skip_field s wt = (ok, t)"
  shows "\<exists>n. n \<le> bytes_left s \<and> bytes_left t = bytes_left s - n \<and> is_src t = Buf_source (drop n bs)"
  using assms by (rule skip_field.never_overruns)

theorem skip_field_in_bounds_witness:
  "\<exists>n. n \<le> 2 \<and> is_src (snd (pb_skip_field (pb_istream_from_buffer [5, 1, 9] 2 :: unit pb_istream) 2))
      = Buf_source (drop n [5, 1, 9])"
  using skip_field_in_bounds [of "pb_istream_from_buffer [5, 1, 9] 2 :: unit pb_istream" "[5, 1, 9]" 2]
  by (cases "pb_skip_field (pb_istream_from_buffer [5, 1, 9] 2 :: unit pb_istream) 2")
    (auto simp: pb_istream_from_buffer_def)

text \<open>\<open>pb_write\<close> never writes past the limit of the stream or the end of the array: started with
  room, it keeps \<open>bytes_written\<close> at most \<open>max_size\<close> and stores exactly the bytes it counts, whatever
  it returns; and it does not report success when the data does not fit.\<close>

theorem pb_write_in_bounds:
  assumes "room_ok s" and "os_sink s = Buf_sink ws cap" and "length buf < size_mod"
    and "pb_write s buf (length buf) = (ok, t)"
  shows "bytes_written t \<le> max_size s \<and> room_ok t
    \<and> (\<exists>vs. os_sink t = Buf_sink (ws @ vs) cap \<and> length (ws @ vs) \<le> cap
          \<and> length vs = bytes_written t - bytes_written s)
    \<and> (ok \<longleftrightarrow> bytes_written s + length buf \<le> max_size s)"
proof -
  have a: "appends s t" using pb_write_appends [of buf "length buf" s] assms(3,4) by simp
  have b: "bytes_written s \<le> max_size s" "max_size s < size_mod"
    using assms(1) by (simp_all add: room_ok_def)
  have "ok \<longleftrightarrow> bytes_written s + length buf \<le> max_size s"
    using assms(2-4) b add_mod_size_cases [of "bytes_written s" "length buf"]
    by (auto simp: pb_write_def is_sizing_iff split: if_splits)
  moreover have "room_ok t" using a assms(1,2) by (rule appends_room)
  ultimately show ?thesis
    using a assms(1,2) by (fastforce simp: appends_def room_ok_def)
qed

theorem pb_write_in_bounds_witness:
  "\<not> fst (pb_write (pb_ostream_from_buffer 2 2 :: unit pb_ostream) [1, 2, 3] 3)"
  using pb_write_in_bounds [of "pb_ostream_from_buffer 2 2 :: unit pb_ostream" "[]" 2 "[1, 2, 3]"]
  by (cases "pb_write (pb_ostream_from_buffer 2 2 :: unit pb_ostream) [1, 2, 3] 3")
    (simp add: room_ok_def pb_ostream_from_buffer_def size_mod_def numeral_3_eq_3)

section \<open>Overlong varints\<close>

lemma readbyte_cons:
  "pb_readbyte \<lparr>is_src = Buf_source (b # bs), bytes_left = Suc n, is_errmsg = e\<rparr> =
     (Some b, \<lparr>is_src = Buf_source bs, bytes_left = n, is_errmsg = e\<rparr>)"
  by (simp add: pb_readbyte_def)

lemma high_bit_clear: "b < 0x80 \<Longrightarrow> b AND 0x80 = 0 \<and> b AND 0x7F = (b :: byte)"
proof -
  have "\<forall>v \<in> set [0..127]. (word_of_int v :: byte) AND 0x80 = 0 \<and> word_of_int v AND 0x7F = (word_of_int v :: byte)" by code_simp
  moreover assume "b < 0x80"
  then have "uint b \<in> set [0..127]" by (simp add: word_less_def)
  ultimately show ?thesis by (metis word_of_int_uint)
qed

lemma padding_byte: "(0x80 :: byte) AND 0x7F = 0" "(0x80 :: byte) AND 0x80 \<noteq> 0"
  by code_simp+

lemma padding_step:
  "varint32_loop \<lparr>is_src = Buf_source (0x80 # bs), bytes_left = Suc n, is_errmsg = e\<rparr> p 0 =
     varint32_loop \<lparr>is_src = Buf_source bs, bytes_left = n, is_errmsg = e\<rparr> ((p + 7) mod 256) 0"
  "r < 64 \<Longrightarrow> varint_loop \<lparr>is_src = Buf_source (0x80 # bs), bytes_left = Suc n, is_errmsg = e\<rparr> r 0 =
     varint_loop \<lparr>is_src = Buf_source bs, bytes_left = n, is_errmsg = e\<rparr> ((r + 7) mod 256) 0"
  using padding_byte
  by (subst varint32_loop.simps varint_loop.simps, simp add: readbyte_cons Let_def)+

text \<open>The loop of the 32-bit decoder on padding: the 8-bit counter goes on, modulo 256.\<close>

lemma varint32_loop_padding:
  assumes "b < 0x80" "p < 256"
  shows "varint32_loop \<lparr>is_src = Buf_source (replicate j 0x80 @ b # rest), bytes_left = Suc (j + n), is_errmsg = e\<rparr> p 0 =
    (let q = (p + 7 * j) mod 256;
         s = \<lparr>is_src = Buf_source rest, bytes_left = n, is_errmsg = e\<rparr>
     in if 32 \<le> q \<and> b \<noteq> 0 then (None, is_set_error s ''varint overflow'')
        else (Some (if 32 \<le> q then 0 else push_bit q (ucast b), (q + 7) mod 256, b), s))"
  using assms(2)
proof (induction j arbitrary: p)
  case 0
  then show ?case
    using high_bit_clear [OF assms(1)] by (subst varint32_loop.simps) (simp add: readbyte_cons Let_def)
next
  case (Suc j)
  have q: "((p + 7) mod 256 + 7 * j) mod 256 = (p + 7 * Suc j) mod 256" by (simp add: mod_add_left_eq add.assoc)
  have "(p + 7) mod 256 < 256" by simp
  from Suc.IH [OF this] show ?case unfolding replicate_Suc append_Cons add_Suc padding_step q .
qed

lemma varint_loop_padding:
  assumes "10 \<le> j + k" "k \<le> 10"
  shows "\<exists>t. varint_loop \<lparr>is_src = Buf_source (replicate j 0x80 @ rest), bytes_left = j + n, is_errmsg = e\<rparr> (7 * k) 0 =
    (None, is_set_error t ''varint overflow'') \<and> is_errmsg t = e"
  using assms
proof (induction "10 - k" arbitrary: j k)
  case 0
  then have "k = 10" by simp
  then show ?case by (subst varint_loop.simps) auto
next
  case (Suc m)
  then obtain i where i: "j = Suc i" "k < 10" by (cases j) auto
  have k: "7 * k < 64" "(7 * k + 7) mod 256 = 7 * Suc k" using i(2) by simp_all
  have "m = 10 - Suc k" "10 \<le> i + Suc k" "Suc k \<le> 10" using Suc.prems Suc.hyps(2) i by simp_all
  from Suc.hyps(1) [OF this] show ?case unfolding i(1) replicate_Suc append_Cons add_Suc padding_step(2) [OF k(1)] k(2) .
qed

text \<open>C10. Overlong 32-bit varints.  \<open>pb_decode_varint32\<close> has no limit on the number of padding bytes \<open>0x80\<close>, and
  its \<open>bitpos\<close> is an 8-bit counter that wraps.  On \<open>k\<close> padding bytes and a last byte \<open>b\<close>, for any \<open>k\<close> from 10
  on, it returns \<open>b\<close> shifted by \<open>7 * k mod 256\<close> whenever that is below 32 (or \<open>b\<close> is 0), though the byte has
  the weight \<open>2 ^ (7 * k)\<close>; the overflow check for the last byte applies only to the shift 28.  The 64-bit decoder rejects
  every one of these inputs with \<open>varint overflow\<close>.\<close>

theorem varint32_overlong_accepted:
  assumes "10 \<le> k" "b < 0x80" "q = 7 * k mod 256"
    and "s = \<lparr>is_src = Buf_source (replicate k 0x80 @ b # rest), bytes_left = k + 1 + n, is_errmsg = None\<rparr>"
    and "s' = \<lparr>is_src = Buf_source rest, bytes_left = n, is_errmsg = None\<rparr>"
  shows "pb_decode_varint32 s =
      (if b = 0 \<or> q < 32 \<and> \<not> (q = 28 \<and> b AND 0x70 \<noteq> 0) then (Some (push_bit q (ucast b)), s')
       else (None, is_set_error s' ''varint overflow''))
    \<and> (\<exists>t. pb_decode_varint s = (None, t) \<and> is_errmsg t = Some ''varint overflow'')"
proof
  obtain j where j: "k = Suc j" using assms(1) by (cases k) auto
  let ?s1 = "s\<lparr>is_src := Buf_source (replicate j 0x80 @ b # rest), bytes_left := Suc (j + n)\<rparr>"
  have rb: "pb_readbyte s = (Some 0x80, ?s1)" using assms(4) j by (simp add: readbyte_cons)
  have q: "(7 + 7 * j) mod 256 = q" using assms(3) j by simp
  have q7: "(q + 7) mod 256 = 35 \<longleftrightarrow> q = 28"
  proof
    assume a: "(q + 7) mod 256 = 35"
    have lt: "q < 256" using assms(3) by simp
    show "q = 28"
    proof (cases "q + 7 < 256")
      case True
      then show ?thesis using a by simp
    next
      case False
      then have "(q + 7) mod 256 = q + 7 - 256" using lt by (simp add: le_mod_geq)
      then show ?thesis using a lt by simp
    qed
  qed simp
  have "varint32_loop ?s1 7 0 =
    (if 32 \<le> q \<and> b \<noteq> 0 then (None, is_set_error s' ''varint overflow'')
     else (Some (if 32 \<le> q then 0 else push_bit q (ucast b), (q + 7) mod 256, b), s'))"
    using varint32_loop_padding [OF assms(2), of 7 j rest n None] unfolding q assms(4, 5) by (simp add: Let_def)
  then show "pb_decode_varint32 s =
      (if b = 0 \<or> q < 32 \<and> \<not> (q = 28 \<and> b AND 0x70 \<noteq> 0) then (Some (push_bit q (ucast b)), s')
       else (None, is_set_error s' ''varint overflow''))"
    using q7 by (auto simp: pb_decode_varint32_def pb_decode_varint32_eof_def rb)
  show "\<exists>t. pb_decode_varint s = (None, t) \<and> is_errmsg t = Some ''varint overflow''"
    using varint_loop_padding [of k 0 "b # rest" "1 + n" None] assms(1, 4)
    by (auto simp: pb_decode_varint_def is_set_error_def add.assoc)
qed

theorem varint32_overlong_accepted_witness:
  "fst (pb_decode_varint32 (pb_istream_from_buffer (replicate 37 0x80 @ [0x01]) 38 :: unit pb_istream)) = Some 8"
proof -
  let ?s = "pb_istream_from_buffer (replicate 37 0x80 @ [0x01]) 38 :: unit pb_istream"
  have s: "?s = \<lparr>is_src = Buf_source (replicate 37 0x80 @ 0x01 # []), bytes_left = 37 + 1 + 0, is_errmsg = None\<rparr>"
    by (simp add: pb_istream_from_buffer_def)
  have h: "10 \<le> (37 :: nat)" "(1 :: byte) < 0x80" "3 = 7 * 37 mod (256 :: nat)" by simp_all
  have c: "(1 :: byte) = 0 \<or> 3 < (32 :: nat) \<and> \<not> (3 = (28 :: nat) \<and> (1 :: byte) AND 0x70 \<noteq> 0)" by simp
  have "pb_decode_varint32 ?s = (Some (push_bit 3 (ucast (1 :: byte))), \<lparr>is_src = Buf_source [], bytes_left = 0, is_errmsg = None\<rparr>)"
    using conjunct1 [OF varint32_overlong_accepted [OF h s refl]] unfolding if_P [OF c] .
  moreover have "push_bit 3 (ucast (1 :: byte)) = (8 :: 32 word)" by code_simp
  ultimately show ?thesis by (simp only: fst_conv)
qed

end
