(* ===== verification/Pb_Field.thy ===== *)
theory Pb_Field
  imports Prelude
begin

unbundle bit_operations_syntax

text \<open>
  Field descriptors and the field iterator of nanopb (\<open>pb.h\<close>, \<open>pb_common.c\<close>), in the configuration
  the project builds (\<open>PB_FIELD_32BIT\<close>, \<open>PB_ENABLE_MALLOC\<close>).

  A descriptor array is the list of its \<open>pb_field_t\<close> entries without the terminating
  \<open>PB_LAST_FIELD\<close>; \<open>field_at\<close> reads an entry, and the terminator behind the end.  The iterator's
  \<open>pos\<close> is an index.  \<open>pSize\<close> points into memory (\<open>Size_at\<close>) or at the variable
  \<open>fixed_count_size\<close> of \<open>pb_decode_noinit\<close> (\<open>Size_local\<close>), whose value travels with the iterator
  in the extra component \<open>local_count\<close>.

  The lemmas relate the incremental pointer arithmetic of \<open>pb_field_iter_next\<close> to a closed
  description of the field's place in the structure (\<open>iter_at\<close>) and show that a search from any
  position ends, and finds the tag exactly when the descriptor has it.
\<close>

section \<open>Descriptors\<close>

record pb_field =
  f_tag :: nat
  f_type :: "8 word"
  data_offset :: nat
  size_offset :: int
  data_size :: nat
  array_size :: nat
  f_ptr :: addr

definition PB_LAST_FIELD :: pb_field where
  "PB_LAST_FIELD = \<lparr>f_tag = 0, f_type = 0, data_offset = 0, size_offset = 0, data_size = 0,
     array_size = 0, f_ptr = 0\<rparr>"

definition PB_ATYPE :: "8 word \<Rightarrow> 8 word" where "PB_ATYPE x = x AND 0xC0"
definition PB_HTYPE :: "8 word \<Rightarrow> 8 word" where "PB_HTYPE x = x AND 0x30"
definition PB_LTYPE :: "8 word \<Rightarrow> 8 word" where "PB_LTYPE x = x AND 0x0F"

abbreviation (input) PB_LTYPE_BOOL :: "8 word" where "PB_LTYPE_BOOL \<equiv> 0x00"
abbreviation (input) PB_LTYPE_VARINT :: "8 word" where "PB_LTYPE_VARINT \<equiv> 0x01"
abbreviation (input) PB_LTYPE_UVARINT :: "8 word" where "PB_LTYPE_UVARINT \<equiv> 0x02"
abbreviation (input) PB_LTYPE_SVARINT :: "8 word" where "PB_LTYPE_SVARINT \<equiv> 0x03"
abbreviation (input) PB_LTYPE_FIXED32 :: "8 word" where "PB_LTYPE_FIXED32 \<equiv> 0x04"
abbreviation (input) PB_LTYPE_FIXED64 :: "8 word" where "PB_LTYPE_FIXED64 \<equiv> 0x05"
abbreviation (input) PB_LTYPE_LAST_PACKABLE :: "8 word" where "PB_LTYPE_LAST_PACKABLE \<equiv> 0x05"
abbreviation (input) PB_LTYPE_BYTES :: "8 word" where "PB_LTYPE_BYTES \<equiv> 0x06"
abbreviation (input) PB_LTYPE_STRING :: "8 word" where "PB_LTYPE_STRING \<equiv> 0x07"
abbreviation (input) PB_LTYPE_SUBMESSAGE :: "8 word" where "PB_LTYPE_SUBMESSAGE \<equiv> 0x08"
abbreviation (input) PB_LTYPE_EXTENSION :: "8 word" where "PB_LTYPE_EXTENSION \<equiv> 0x09"
abbreviation (input) PB_LTYPE_FIXED_LENGTH_BYTES :: "8 word" where
  "PB_LTYPE_FIXED_LENGTH_BYTES \<equiv> 0x0A"
abbreviation (input) PB_HTYPE_REQUIRED :: "8 word" where "PB_HTYPE_REQUIRED \<equiv> 0x00"
abbreviation (input) PB_HTYPE_OPTIONAL :: "8 word" where "PB_HTYPE_OPTIONAL \<equiv> 0x10"
abbreviation (input) PB_HTYPE_REPEATED :: "8 word" where "PB_HTYPE_REPEATED \<equiv> 0x20"
abbreviation (input) PB_HTYPE_ONEOF :: "8 word" where "PB_HTYPE_ONEOF \<equiv> 0x30"
abbreviation (input) PB_ATYPE_STATIC :: "8 word" where "PB_ATYPE_STATIC \<equiv> 0x00"
abbreviation (input) PB_ATYPE_POINTER :: "8 word" where "PB_ATYPE_POINTER \<equiv> 0x80"
abbreviation (input) PB_ATYPE_CALLBACK :: "8 word" where "PB_ATYPE_CALLBACK \<equiv> 0x40"

definition PB_SIZE_MAX :: nat where "PB_SIZE_MAX = 2 ^ 32 - 1"

definition field_at :: "pb_field list \<Rightarrow> nat \<Rightarrow> pb_field" where
  "field_at fs i = (if i < length fs then fs ! i else PB_LAST_FIELD)"

section \<open>The iterator\<close>

datatype psize = Size_at addr | Size_local

record pb_field_iter =
  it_start :: "pb_field list"
  it_pos :: nat
  required_field_index :: nat
  dest_struct :: addr
  pData :: addr
  pSize :: psize
  local_count :: nat

definition cur_field :: "pb_field_iter \<Rightarrow> pb_field" where
  "cur_field it = field_at (it_start it) (it_pos it)"

definition ptr_offset :: "addr \<Rightarrow> int \<Rightarrow> addr" where
  "ptr_offset a d = nat (int a + d)"

text \<open>\<open>cnt\<close> is the unchanged value of \<open>fixed_count_size\<close>.\<close>

definition pb_field_iter_begin :: "pb_field list \<Rightarrow> addr \<Rightarrow> nat \<Rightarrow> bool \<times> pb_field_iter" where
  "pb_field_iter_begin fs dest cnt =
     (let f = field_at fs 0;
          data = (if dest = 0 then 0 else dest + data_offset f);
          sz = (if dest = 0 then 0 else ptr_offset data (size_offset f))
      in (f_tag f \<noteq> 0,
          \<lparr>it_start = fs, it_pos = 0, required_field_index = 0, dest_struct = dest,
           pData = data, pSize = Size_at sz, local_count = cnt\<rparr>))"

definition pb_field_iter_next :: "pb_field_iter \<Rightarrow> bool \<times> pb_field_iter" where
  "pb_field_iter_next it =
     (let prev = cur_field it in
      if f_tag prev = 0 then (False, it)
      else
        let pos = it_pos it + 1;
            cur = field_at (it_start it) pos
        in if f_tag cur = 0
           then (False, snd (pb_field_iter_begin (it_start it) (dest_struct it) (local_count it)))
           else if PB_HTYPE (f_type prev) = PB_HTYPE_ONEOF \<and> PB_HTYPE (f_type cur) = PB_HTYPE_ONEOF
                   \<and> data_offset cur = PB_SIZE_MAX
           then (True, it\<lparr>it_pos := pos\<rparr>)
           else
             let prev_size =
                   (if PB_ATYPE (f_type prev) = PB_ATYPE_STATIC
                       \<and> PB_HTYPE (f_type prev) = PB_HTYPE_REPEATED
                    then data_size prev * array_size prev
                    else if PB_ATYPE (f_type prev) = PB_ATYPE_POINTER then 8
                    else data_size prev);
                 req = (if PB_HTYPE (f_type prev) = PB_HTYPE_REQUIRED
                        then required_field_index it + 1 else required_field_index it);
                 data = pData it + prev_size + data_offset cur
             in (True, it\<lparr>it_pos := pos, required_field_index := req, pData := data,
                          pSize := Size_at (ptr_offset data (size_offset cur))\<rparr>))"

text \<open>
  The loop shared by \<open>pb_field_iter_find\<close> and \<open>find_extension_field\<close>: advance until the current
  field satisfies \<open>p\<close> or the position is \<open>start\<close> again.  It is not clear from the text of the
  loop that \<open>start\<close> comes round; the fuel bounds the number of steps, and \<open>None\<close> would be a
  search that does not end.
\<close>

fun iter_scan ::
  "nat \<Rightarrow> (pb_field \<Rightarrow> bool) \<Rightarrow> nat \<Rightarrow> pb_field_iter \<Rightarrow> (bool \<times> pb_field_iter) option" where
  "iter_scan 0 p start it = None"
| "iter_scan (Suc n) p start it =
     (if p (cur_field it) then Some (True, it)
      else let it' = snd (pb_field_iter_next it)
           in if it_pos it' = start then Some (False, it') else iter_scan n p start it')"

definition pb_field_iter_find :: "pb_field_iter \<Rightarrow> nat \<Rightarrow> (bool \<times> pb_field_iter) option" where
  "pb_field_iter_find it tag =
     iter_scan (length (it_start it) + 1)
       (\<lambda>f. f_tag f = tag \<and> PB_LTYPE (f_type f) \<noteq> PB_LTYPE_EXTENSION) (it_pos it) it"

definition find_extension_field :: "pb_field_iter \<Rightarrow> (bool \<times> pb_field_iter) option" where
  "find_extension_field it =
     iter_scan (length (it_start it) + 1)
       (\<lambda>f. PB_LTYPE (f_type f) = PB_LTYPE_EXTENSION) (it_pos it) it"

section \<open>The place of a field in the structure\<close>

text \<open>A descriptor array has no entry with tag 0 before its terminator.\<close>

definition fields_wf :: "pb_field list \<Rightarrow> bool" where
  "fields_wf fs \<longleftrightarrow> (\<forall>f \<in> set fs. f_tag f \<noteq> 0)"

definition stored_size :: "pb_field \<Rightarrow> nat" where
  "stored_size f =
     (if PB_ATYPE (f_type f) = PB_ATYPE_STATIC \<and> PB_HTYPE (f_type f) = PB_HTYPE_REPEATED
      then data_size f * array_size f
      else if PB_ATYPE (f_type f) = PB_ATYPE_POINTER then 8 else data_size f)"

definition same_union :: "pb_field \<Rightarrow> pb_field \<Rightarrow> bool" where
  "same_union f g \<longleftrightarrow> PB_HTYPE (f_type f) = PB_HTYPE_ONEOF \<and> PB_HTYPE (f_type g) = PB_HTYPE_ONEOF
     \<and> data_offset g = PB_SIZE_MAX"

text \<open>Offsets of field \<open>i\<close>: the sum of the sizes and paddings before it, members of a union shared.\<close>

fun field_offset :: "pb_field list \<Rightarrow> nat \<Rightarrow> nat" where
  "field_offset fs 0 = data_offset (field_at fs 0)"
| "field_offset fs (Suc i) =
     (if same_union (fs ! i) (fs ! Suc i) then field_offset fs i
      else field_offset fs i + stored_size (fs ! i) + data_offset (fs ! Suc i))"

text \<open>The member of the union that carries the offset of the \<open>which\<close> variable.\<close>

fun union_head :: "pb_field list \<Rightarrow> nat \<Rightarrow> nat" where
  "union_head fs 0 = 0"
| "union_head fs (Suc i) =
     (if same_union (fs ! i) (fs ! Suc i) then union_head fs i else Suc i)"

definition required_before :: "pb_field list \<Rightarrow> nat \<Rightarrow> nat" where
  "required_before fs i =
     length (filter (\<lambda>f. PB_HTYPE (f_type f) = PB_HTYPE_REQUIRED) (take i fs))"

definition iter_at :: "pb_field list \<Rightarrow> addr \<Rightarrow> nat \<Rightarrow> nat \<Rightarrow> pb_field_iter" where
  "iter_at fs dest cnt i =
     \<lparr>it_start = fs, it_pos = i, required_field_index = required_before fs i,
      dest_struct = dest, pData = dest + field_offset fs i,
      pSize = Size_at (ptr_offset (dest + field_offset fs (union_head fs i))
                        (size_offset (field_at fs (union_head fs i)))),
      local_count = cnt\<rparr>"

lemma iter_at_sel [simp]:
  "it_start (iter_at fs d c i) = fs" "it_pos (iter_at fs d c i) = i"
  "dest_struct (iter_at fs d c i) = d" "local_count (iter_at fs d c i) = c"
  "pData (iter_at fs d c i) = d + field_offset fs i"
  "required_field_index (iter_at fs d c i) = required_before fs i"
  by (simp_all add: iter_at_def)

lemma cur_field_iter_at [simp]: "cur_field (iter_at fs d c i) = field_at fs i"
  by (simp add: cur_field_def)

lemma fields_wf_nth: "fields_wf fs \<Longrightarrow> i < length fs \<Longrightarrow> f_tag (fs ! i) \<noteq> 0"
  by (simp add: fields_wf_def)

lemma begin_iter_at:
  "0 < d \<Longrightarrow> fields_wf fs \<Longrightarrow> pb_field_iter_begin fs d c = (fs \<noteq> [], iter_at fs d c 0)"
  by (auto simp: pb_field_iter_begin_def iter_at_def field_at_def PB_LAST_FIELD_def required_before_def
      fields_wf_def Let_def)

lemma pb_field_iter_next_fold:
  "pb_field_iter_next it =
     (let prev = cur_field it; cur = field_at (it_start it) (it_pos it + 1) in
      if f_tag prev = 0 then (False, it)
      else if f_tag cur = 0
        then (False, snd (pb_field_iter_begin (it_start it) (dest_struct it) (local_count it)))
      else if same_union prev cur then (True, it\<lparr>it_pos := it_pos it + 1\<rparr>)
      else (True, it\<lparr>it_pos := it_pos it + 1,
        required_field_index := required_field_index it +
          (if PB_HTYPE (f_type prev) = PB_HTYPE_REQUIRED then 1 else 0),
        pData := pData it + stored_size prev + data_offset cur,
        pSize := Size_at (ptr_offset (pData it + stored_size prev + data_offset cur) (size_offset cur))\<rparr>))"
  by (simp add: pb_field_iter_next_def same_union_def stored_size_def Let_def)

text \<open>
  One step of the iterator from the description of field \<open>i\<close> leads to the description of the
  next one.  A \<open>pSize\<close> redirected to \<open>fixed_count_size\<close> (only repeated fs are) is repaired.
\<close>

lemma next_iter_at_size:
  assumes "0 < d" and "fields_wf fs" and "i < length fs"
    and "PB_HTYPE (f_type (fs ! i)) = PB_HTYPE_REPEATED
      \<or> p = Size_at (ptr_offset (d + field_offset fs (union_head fs i))
               (size_offset (field_at fs (union_head fs i))))"
  shows "pb_field_iter_next ((iter_at fs d c i)\<lparr>pSize := p\<rparr>) =
    (if Suc i < length fs then (True, iter_at fs d c (Suc i)) else (False, iter_at fs d c 0))"
proof -
  have prev: "cur_field ((iter_at fs d c i)\<lparr>pSize := p\<rparr>) = fs ! i"
    using assms(3) by (simp add: cur_field_def field_at_def)
  have tag: "f_tag (fs ! i) \<noteq> 0" using assms(2,3) by (rule fields_wf_nth)
  show ?thesis
  proof (cases "Suc i < length fs")
    case False
    then have "f_tag (field_at fs (Suc i)) = 0" by (simp add: field_at_def PB_LAST_FIELD_def)
    with False prev tag assms show ?thesis
      by (simp add: pb_field_iter_next_def begin_iter_at)
  next
    case True
    then have cur: "field_at fs (Suc i) = fs ! Suc i" and "f_tag (fs ! Suc i) \<noteq> 0"
      using assms(2) by (simp_all add: field_at_def fields_wf_nth)
    moreover have "required_before fs (Suc i) = required_before fs i +
        (if PB_HTYPE (f_type (fs ! i)) = PB_HTYPE_REQUIRED then 1 else 0)"
      using assms(3) by (simp add: required_before_def take_Suc_conv_app_nth)
    moreover have "same_union (fs ! i) (fs ! Suc i) \<Longrightarrow>
        p = Size_at (ptr_offset (d + field_offset fs (union_head fs i))
              (size_offset (field_at fs (union_head fs i))))"
      using assms(4) by (auto simp: same_union_def)
    moreover have "same_union (fs ! i) (fs ! Suc i) \<Longrightarrow> PB_HTYPE (f_type (fs ! i)) \<noteq> PB_HTYPE_REQUIRED"
      by (auto simp: same_union_def)
    ultimately show ?thesis
      using True prev tag
      by (cases "same_union (fs ! i) (fs ! Suc i)")
        (simp_all add: pb_field_iter_next_fold, simp_all add: iter_at_def add.assoc field_at_def Let_def)
  qed
qed

lemma next_iter_at:
  "0 < d \<Longrightarrow> fields_wf fs \<Longrightarrow> i < length fs \<Longrightarrow> pb_field_iter_next (iter_at fs d c i) =
    (if Suc i < length fs then (True, iter_at fs d c (Suc i)) else (False, iter_at fs d c 0))"
  using next_iter_at_size [of d fs i "pSize (iter_at fs d c i)" c] by (simp add: iter_at_def)

section \<open>Searching\<close>

text \<open>
  The scan visits \<open>i, i + 1, \<dots>\<close> cyclically; \<open>k\<close> positions are left before it is back at \<open>start\<close>.
\<close>

lemma iter_scan_visits:
  assumes "0 < d" and "fields_wf fs" and "k \<le> length fs" and "0 < k" and "k \<le> n"
    and "start < length fs" and "i < length fs" and "(i + k) mod length fs = start"
  shows "\<exists>j. iter_scan n p start (iter_at fs d c i) =
      Some (\<exists>m < k. p (fs ! ((i + m) mod length fs)), iter_at fs d c j)
    \<and> j < length fs
    \<and> ((\<exists>m < k. p (fs ! ((i + m) mod length fs))) \<longrightarrow> p (fs ! j))"
  using assms
proof (induction n arbitrary: i k)
  case 0
  then show ?case by simp
next
  case (Suc n)
  let ?l = "length fs"
  have cur: "field_at fs i = fs ! i" using Suc.prems by (simp add: field_at_def)
  show ?case
  proof (cases "p (fs ! i)")
    case True
    then have "\<exists>m < k. p (fs ! ((i + m) mod ?l))" using Suc.prems by (intro exI [of _ 0]) simp
    with True cur Suc.prems show ?thesis by (intro exI [of _ i]) simp
  next
    case False
    define i' where "i' = Suc i mod ?l"
    have i': "i' < ?l" and i'_if: "i' = (if Suc i < ?l then Suc i else 0)"
      using Suc.prems(7) by (auto simp: i'_def mod_Suc)
    have nxt: "snd (pb_field_iter_next (iter_at fs d c i)) = iter_at fs d c i'"
      using Suc.prems by (simp add: next_iter_at i'_if)
    have shift: "(i' + m) mod ?l = (i + Suc m) mod ?l" for m
      by (simp add: i'_def mod_add_left_eq)
    have ex: "(\<exists>m < k. p (fs ! ((i + m) mod ?l))) \<longleftrightarrow> (\<exists>m < k - 1. p (fs ! ((i' + m) mod ?l)))"
    proof
      assume "\<exists>m < k. p (fs ! ((i + m) mod ?l))"
      then obtain m where m: "m < k" "p (fs ! ((i + m) mod ?l))" by blast
      with False Suc.prems(7) obtain j where "m = Suc j" by (cases m) auto
      with m show "\<exists>m < k - 1. p (fs ! ((i' + m) mod ?l))"
        unfolding shift by (intro exI [of _ j]) auto
    next
      assume "\<exists>m < k - 1. p (fs ! ((i' + m) mod ?l))"
      then obtain m where "m < k - 1" "p (fs ! ((i + Suc m) mod ?l))" unfolding shift by blast
      then show "\<exists>m < k. p (fs ! ((i + m) mod ?l))" by (intro exI [of _ "Suc m"]) auto
    qed
    show ?thesis
    proof (cases "i' = start")
      case True
      have "k = 1"
      proof (rule ccontr)
        assume "k \<noteq> 1"
        then have "1 < k" using Suc.prems(4) by simp
        have "(i' + (k - 1)) mod ?l = start" using Suc.prems(8) Suc.prems(4) shift [of "k - 1"] by simp
        with True i' have "(i' + (k - 1)) mod ?l = i' mod ?l" by simp
        then have "(k - 1) mod ?l = 0" by (metis add_0_right add_diff_cancel_left' mod_add_cong mod_eq_dvd_iff_nat le_add1 dvd_eq_mod_eq_0)
        moreover have "k - 1 < ?l" using Suc.prems(3,4) by simp
        ultimately show False using \<open>1 < k\<close> by simp
      qed
      then have "\<not> (\<exists>m < k. p (fs ! ((i + m) mod ?l)))" using False Suc.prems(7) by simp
      with True nxt cur False i' show ?thesis by (intro exI [of _ i']) auto
    next
      case neq: False
      have "1 < k"
      proof (rule ccontr)
        assume "\<not> 1 < k"
        then have "k = 1" using Suc.prems(4) by simp
        then have "i' = start" using Suc.prems(8) by (simp add: i'_def)
        with neq show False ..
      qed
      have k: "k - 1 \<le> ?l" "0 < k - 1" "k - 1 \<le> n" "(i' + (k - 1)) mod ?l = start"
        using \<open>1 < k\<close> Suc.prems(3,5,8) shift [of "k - 1"] by simp_all
      obtain j where "iter_scan n p start (iter_at fs d c i') =
          Some (\<exists>m < k - 1. p (fs ! ((i' + m) mod ?l)), iter_at fs d c j)" "j < ?l"
        "(\<exists>m < k - 1. p (fs ! ((i' + m) mod ?l))) \<longrightarrow> p (fs ! j)"
        using Suc.IH [OF Suc.prems(1,2) k(1-3) Suc.prems(6) i' k(4)] by blast
      with neq nxt cur False show ?thesis unfolding ex by (intro exI [of _ j]) simp
    qed
  qed
qed

lemma ex_cyclic:
  assumes "i < length fs"
  shows "(\<exists>m < length fs. p (fs ! ((i + m) mod length fs))) \<longleftrightarrow> (\<exists>f \<in> set fs. p f)"
proof
  assume "\<exists>m < length fs. p (fs ! ((i + m) mod length fs))"
  then show "\<exists>f \<in> set fs. p f" using assms by (metis mod_less_divisor nth_mem less_nat_zero_code gr0I)
next
  assume "\<exists>f \<in> set fs. p f"
  then obtain j where j: "j < length fs" "p (fs ! j)" by (auto simp: in_set_conv_nth)
  let ?m = "if i \<le> j then j - i else j + length fs - i"
  have "(i + ?m) mod length fs = j" using j(1) assms by simp
  with j show "\<exists>m < length fs. p (fs ! ((i + m) mod length fs))"
    using assms by (intro exI [of _ ?m]) auto
qed

lemma iter_scan_all:
  assumes "0 < d" and "fields_wf fs" and "i < length fs"
  shows "\<exists>j. iter_scan (length fs + 1) p i (iter_at fs d c i) =
      Some (\<exists>f \<in> set fs. p f, iter_at fs d c j)
    \<and> j < length fs \<and> ((\<exists>f \<in> set fs. p f) \<longrightarrow> p (fs ! j))"
proof -
  have "0 < length fs" using assms(3) by (cases fs) auto
  then show ?thesis
    using iter_scan_visits [OF assms(1,2) order_refl, of "length fs + 1" i i p c] assms(3)
    unfolding ex_cyclic [OF assms(3)] by (simp del: iter_scan.simps)
qed

text \<open>C6. The field iterator's search is total and correct. From any position \<open>i\<close> of a descriptor
  array, \<open>pb_field_iter_find\<close> ends after at most one round; it returns true exactly when some
  non-extension field has the tag, and then the iterator stands on such a field with \<open>pData\<close>,
  \<open>pSize\<close> and \<open>required_field_index\<close> those of that field, independent of where the search began.\<close>

theorem iter_find_correct:
  assumes "0 < d" and "fields_wf fs" and "i < length fs"
  shows "\<exists>j found. pb_field_iter_find (iter_at fs d c i) tag = Some (found, iter_at fs d c j)
    \<and> j < length fs
    \<and> (found \<longleftrightarrow> (\<exists>f \<in> set fs. f_tag f = tag \<and> PB_LTYPE (f_type f) \<noteq> PB_LTYPE_EXTENSION))
    \<and> (found \<longrightarrow> f_tag (fs ! j) = tag \<and> PB_LTYPE (f_type (fs ! j)) \<noteq> PB_LTYPE_EXTENSION)"
  using iter_scan_all [OF assms, of "\<lambda>f. f_tag f = tag \<and> PB_LTYPE (f_type f) \<noteq> PB_LTYPE_EXTENSION" c]
  by (auto simp: pb_field_iter_find_def)

theorem iter_find_correct_witness:
  "\<exists>j. pb_field_iter_find
      (iter_at [\<lparr>f_tag = 1, f_type = 0x11, data_offset = 1, size_offset = -1, data_size = 4,
                 array_size = 0, f_ptr = 0\<rparr>,
                \<lparr>f_tag = 5, f_type = 0x02, data_offset = 3, size_offset = 0, data_size = 8,
                 array_size = 0, f_ptr = 0\<rparr>] 100 0 1) 1
    = Some (True, iter_at [\<lparr>f_tag = 1, f_type = 0x11, data_offset = 1, size_offset = -1, data_size = 4,
                 array_size = 0, f_ptr = 0\<rparr>,
                \<lparr>f_tag = 5, f_type = 0x02, data_offset = 3, size_offset = 0, data_size = 8,
                 array_size = 0, f_ptr = 0\<rparr>] 100 0 j)"
  using iter_find_correct [of 100
      "[\<lparr>f_tag = 1, f_type = 0x11, data_offset = 1, size_offset = -1, data_size = 4,
         array_size = 0, f_ptr = 0\<rparr>,
        \<lparr>f_tag = 5, f_type = 0x02, data_offset = 3, size_offset = 0, data_size = 8,
         array_size = 0, f_ptr = 0\<rparr>]" 1 0 1]
  by (auto simp: fields_wf_def PB_LTYPE_def)

end
