(* ===== verification/Pb_Encode.thy ===== *)
theory Pb_Encode
  imports Pb_Ostream Pb_Field
begin

unbundle bit_operations_syntax

text \<open>
  The message encoder of nanopb (\<open>pb_encode.c\<close>).

  The message structure lies in a memory \<open>m\<close> that encoding only reads.  What the code reaches
  through pointers to other translation units is in the environment \<open>enc_env\<close>: the descriptor
  array at an address, and the functions of the application that a callback field or an
  extension type points to.

  \<open>pb_encode\<close> is recursive through the table \<open>PB_ENCODERS\<close> and \<open>pb_encode_submessage\<close>.  The
  functions below \<open>pb_encode\<close> take the recursive call as the argument \<open>rec\<close>; \<open>pb_encode\<close> ties the
  knot with a bound on the nesting depth.  The result \<open>None\<close> stands for a run that does not
  return: nesting deeper than the bound, an extension list longer than the bound, or a call
  through a null entry of the table.
\<close>

section \<open>Environment and memory accessors\<close>

type_synonym 'o enc_result = "(bool \<times> 'o pb_ostream) option"

record 'o enc_env =
  ee_desc :: "addr \<Rightarrow> pb_field list"
  ee_callback :: "addr \<Rightarrow> 'o pb_ostream \<Rightarrow> pb_field \<Rightarrow> addr \<Rightarrow> bool \<times> 'o pb_ostream"
  ee_ext_encode :: "addr \<Rightarrow> 'o pb_ostream \<Rightarrow> addr \<Rightarrow> bool \<times> 'o pb_ostream"

definition rd_ptr :: "mem \<Rightarrow> addr \<Rightarrow> addr" where
  "rd_ptr m a = rd_u m a 8"

text \<open>\<open>pb_size_t\<close> is 32 bits wide.\<close>

definition rd_size :: "mem \<Rightarrow> addr \<Rightarrow> nat" where
  "rd_size m a = rd_u m a 4"

definition safe_read_bool :: "mem \<Rightarrow> addr \<Rightarrow> bool" where
  "safe_read_bool m p = (m p \<noteq> 0)"

text \<open>Members of \<open>pb_extension_t\<close> and \<open>pb_extension_type_t\<close>.\<close>

definition ext_type :: "mem \<Rightarrow> addr \<Rightarrow> addr" where "ext_type m e = rd_ptr m e"
definition ext_dest :: "mem \<Rightarrow> addr \<Rightarrow> addr" where "ext_dest m e = rd_ptr m (e + 8)"
definition ext_next :: "mem \<Rightarrow> addr \<Rightarrow> addr" where "ext_next m e = rd_ptr m (e + 16)"
definition ext_type_decode :: "mem \<Rightarrow> addr \<Rightarrow> addr" where "ext_type_decode m t = rd_ptr m t"
definition ext_type_encode :: "mem \<Rightarrow> addr \<Rightarrow> addr" where "ext_type_encode m t = rd_ptr m (t + 8)"
definition ext_type_arg :: "mem \<Rightarrow> addr \<Rightarrow> addr" where "ext_type_arg m t = rd_ptr m (t + 16)"

section \<open>Scalar field encoders\<close>

definition pb_enc_bool :: "mem \<Rightarrow> 'o pb_ostream \<Rightarrow> pb_field \<Rightarrow> addr \<Rightarrow> bool \<times> 'o pb_ostream" where
  "pb_enc_bool m s f src = pb_encode_varint s (if safe_read_bool m src then 1 else 0)"

text \<open>The signed or unsigned integer of \<open>data_size\<close> bytes at \<open>src\<close>, extended to 64 bits.\<close>

definition read_signed :: "mem \<Rightarrow> addr \<Rightarrow> nat \<Rightarrow> 64 word option" where
  "read_signed m src n =
     (if n \<in> {1, 2, 4, 8} then Some (word_of_int (to_signed (8 * n) (rd_u m src n))) else None)"

definition read_unsigned :: "mem \<Rightarrow> addr \<Rightarrow> nat \<Rightarrow> 64 word option" where
  "read_unsigned m src n = (if n \<in> {1, 2, 4, 8} then Some (word_of_nat (rd_u m src n)) else None)"

definition pb_enc_varint :: "mem \<Rightarrow> 'o pb_ostream \<Rightarrow> pb_field \<Rightarrow> addr \<Rightarrow> bool \<times> 'o pb_ostream" where
  "pb_enc_varint m s f src =
     (case read_signed m src (data_size f) of
        None \<Rightarrow> (False, os_set_error s ''invalid data_size'')
      | Some v \<Rightarrow> pb_encode_varint s v)"

definition pb_enc_uvarint :: "mem \<Rightarrow> 'o pb_ostream \<Rightarrow> pb_field \<Rightarrow> addr \<Rightarrow> bool \<times> 'o pb_ostream" where
  "pb_enc_uvarint m s f src =
     (case read_unsigned m src (data_size f) of
        None \<Rightarrow> (False, os_set_error s ''invalid data_size'')
      | Some v \<Rightarrow> pb_encode_varint s v)"

definition pb_enc_svarint :: "mem \<Rightarrow> 'o pb_ostream \<Rightarrow> pb_field \<Rightarrow> addr \<Rightarrow> bool \<times> 'o pb_ostream" where
  "pb_enc_svarint m s f src =
     (case read_signed m src (data_size f) of
        None \<Rightarrow> (False, os_set_error s ''invalid data_size'')
      | Some v \<Rightarrow> pb_encode_svarint s v)"

definition pb_enc_fixed64 :: "mem \<Rightarrow> 'o pb_ostream \<Rightarrow> pb_field \<Rightarrow> addr \<Rightarrow> bool \<times> 'o pb_ostream" where
  "pb_enc_fixed64 m s f src = pb_encode_fixed64 s (word_of_nat (rd_u m src 8))"

definition pb_enc_fixed32 :: "mem \<Rightarrow> 'o pb_ostream \<Rightarrow> pb_field \<Rightarrow> addr \<Rightarrow> bool \<times> 'o pb_ostream" where
  "pb_enc_fixed32 m s f src = pb_encode_fixed32 s (word_of_nat (rd_u m src 4))"

text \<open>
  \<open>pb_bytes_array_t\<close>: a \<open>pb_size_t\<close> and then the bytes.  The subtraction in the bounds check is on
  \<open>size_t\<close>.
\<close>

definition pb_enc_bytes :: "mem \<Rightarrow> 'o pb_ostream \<Rightarrow> pb_field \<Rightarrow> addr \<Rightarrow> bool \<times> 'o pb_ostream" where
  "pb_enc_bytes m s f src =
     (if src = 0 then pb_encode_string s [] 0
      else if PB_ATYPE (f_type f) = PB_ATYPE_STATIC
              \<and> rd_size m src > (data_size f + size_mod - 4) mod size_mod
      then (False, os_set_error s ''bytes size exceeded'')
      else pb_encode_string s (mload m (src + 4) (rd_size m src)) (rd_size m src))"

function strnlen_loop :: "mem \<Rightarrow> addr \<Rightarrow> nat \<Rightarrow> nat \<Rightarrow> nat" where
  "strnlen_loop m p sz mx = (if sz < mx \<and> m p \<noteq> 0 then strnlen_loop m (p + 1) (sz + 1) mx else sz)"
  by pat_completeness auto
termination
  by (relation "measure (\<lambda>(m, p, sz, mx). mx - sz)") auto

declare strnlen_loop.simps [simp del]

definition pb_enc_string :: "mem \<Rightarrow> 'o pb_ostream \<Rightarrow> pb_field \<Rightarrow> addr \<Rightarrow> bool \<times> 'o pb_ostream" where
  "pb_enc_string m s f src =
     (let mx = (if PB_ATYPE (f_type f) = PB_ATYPE_POINTER then size_mod - 1 else data_size f);
          sz = (if src = 0 then 0 else strnlen_loop m src 0 mx)
      in pb_encode_string s (mload m src sz) sz)"

definition pb_enc_fixed_length_bytes ::
  "mem \<Rightarrow> 'o pb_ostream \<Rightarrow> pb_field \<Rightarrow> addr \<Rightarrow> bool \<times> 'o pb_ostream" where
  "pb_enc_fixed_length_bytes m s f src =
     pb_encode_string s (mload m src (data_size f)) (data_size f)"

definition pb_encode_tag_for_field :: "'o pb_ostream \<Rightarrow> pb_field \<Rightarrow> bool \<times> 'o pb_ostream" where
  "pb_encode_tag_for_field s f =
     (let lt = PB_LTYPE (f_type f) in
      if lt \<in> {PB_LTYPE_BOOL, PB_LTYPE_VARINT, PB_LTYPE_UVARINT, PB_LTYPE_SVARINT}
      then pb_encode_tag s 0 (word_of_nat (f_tag f))
      else if lt = PB_LTYPE_FIXED32 then pb_encode_tag s 5 (word_of_nat (f_tag f))
      else if lt = PB_LTYPE_FIXED64 then pb_encode_tag s 1 (word_of_nat (f_tag f))
      else if lt \<in> {PB_LTYPE_BYTES, PB_LTYPE_STRING, PB_LTYPE_SUBMESSAGE, PB_LTYPE_FIXED_LENGTH_BYTES}
      then pb_encode_tag s 2 (word_of_nat (f_tag f))
      else (False, os_set_error s ''invalid field type''))"

section \<open>Proto3 default values\<close>

text \<open>\<open>pb_check_proto3_default_value\<close> and its loop over the fields of a submessage.\<close>

fun pb_check_proto3_default_value ::
    "(addr \<Rightarrow> pb_field list) \<Rightarrow> nat \<Rightarrow> mem \<Rightarrow> pb_field \<Rightarrow> addr \<Rightarrow> bool option"
  and check_default_loop ::
    "(addr \<Rightarrow> pb_field list) \<Rightarrow> nat \<Rightarrow> mem \<Rightarrow> pb_field_iter \<Rightarrow> bool option" where
  "pb_check_proto3_default_value D 0 m f p = None"
| "pb_check_proto3_default_value D (Suc n) m f p =
     (let ty = f_type f;
          ps = ptr_offset p (size_offset f);
          rest =
            (if PB_ATYPE ty = PB_ATYPE_STATIC \<and> PB_LTYPE ty = PB_LTYPE_BYTES
             then Some (rd_size m p = 0)
             else if PB_ATYPE ty = PB_ATYPE_STATIC \<and> PB_LTYPE ty = PB_LTYPE_STRING
             then Some (m p = 0)
             else if PB_ATYPE ty = PB_ATYPE_STATIC \<and> PB_LTYPE ty = PB_LTYPE_FIXED_LENGTH_BYTES
             then Some (data_size f = 0)
             else if PB_ATYPE ty = PB_ATYPE_STATIC \<and> PB_LTYPE ty = PB_LTYPE_SUBMESSAGE
             then (case pb_field_iter_begin (D (f_ptr f)) p 0 of
                     (False, _) \<Rightarrow> Some True
                   | (True, it) \<Rightarrow> check_default_loop D n m it)
             else if PB_ATYPE ty = PB_ATYPE_POINTER \<and> PB_LTYPE ty > PB_LTYPE_LAST_PACKABLE
             then Some (rd_ptr m p = 0)
             else Some (list_all (\<lambda>b. b = 0) (mload m p (data_size f))))
      in if PB_HTYPE ty = PB_HTYPE_REQUIRED then Some False
         else if PB_HTYPE ty = PB_HTYPE_REPEATED then
           if size_offset f \<noteq> 0 then Some (rd_size m ps = 0)
           else if PB_ATYPE ty = PB_ATYPE_STATIC then Some False
           else rest
         else if PB_HTYPE ty = PB_HTYPE_ONEOF then Some (rd_size m ps = 0)
         else if PB_HTYPE ty = PB_HTYPE_OPTIONAL \<and> size_offset f \<noteq> 0
         then Some (\<not> safe_read_bool m ps)
         else rest)"
| "check_default_loop D 0 m it = None"
| "check_default_loop D (Suc n) m it =
     (case pb_check_proto3_default_value D n m (cur_field it) (pData it) of
        None \<Rightarrow> None
      | Some False \<Rightarrow> Some False
      | Some True \<Rightarrow>
          (case pb_field_iter_next it of
             (True, it') \<Rightarrow> check_default_loop D n m it'
           | (False, _) \<Rightarrow> Some True))"

section \<open>Submessages, arrays, fields\<close>

definition pb_encode_submessage ::
  "('o pb_ostream \<Rightarrow> pb_field list \<Rightarrow> addr \<Rightarrow> 'o enc_result)
     \<Rightarrow> 'o pb_ostream \<Rightarrow> pb_field list \<Rightarrow> addr \<Rightarrow> 'o enc_result" where
  "pb_encode_submessage rec s fs src =
     (case rec PB_OSTREAM_SIZING fs src of
        None \<Rightarrow> None
      | Some (False, sub) \<Rightarrow> Some (False, s\<lparr>os_errmsg := os_errmsg sub\<rparr>)
      | Some (True, sub) \<Rightarrow>
          let sz = bytes_written sub in
          case pb_encode_varint s (word_of_nat sz) of
            (False, s') \<Rightarrow> Some (False, s')
          | (True, s') \<Rightarrow>
              if is_sizing s' then Some (pb_write s' [] sz)
              else if (bytes_written s' + sz) mod size_mod > max_size s'
              then Some (False, os_set_error s' ''stream full'')
              else (case rec \<lparr>os_sink = os_sink s', max_size = sz, bytes_written = 0,
                              os_errmsg = None\<rparr> fs src of
                      None \<Rightarrow> None
                    | Some (status, sub') \<Rightarrow>
                        let s'' = s'\<lparr>bytes_written :=
                                       (bytes_written s' + bytes_written sub') mod size_mod,
                                     os_sink := os_sink sub', os_errmsg := os_errmsg sub'\<rparr>
                        in if bytes_written sub' \<noteq> sz
                           then Some (False, os_set_error s'' ''submsg size changed'')
                           else Some (status, s'')))"

definition pb_enc_submessage ::
  "'o enc_env \<Rightarrow> ('o pb_ostream \<Rightarrow> pb_field list \<Rightarrow> addr \<Rightarrow> 'o enc_result)
     \<Rightarrow> 'o pb_ostream \<Rightarrow> pb_field \<Rightarrow> addr \<Rightarrow> 'o enc_result" where
  "pb_enc_submessage E rec s f src =
     (if f_ptr f = 0 then Some (False, os_set_error s ''invalid field descriptor'')
      else pb_encode_submessage rec s (ee_desc E (f_ptr f)) src)"

text \<open>\<open>PB_ENCODERS[PB_LTYPE(type)]\<close>; the entry for extensions is \<open>NULL\<close>.\<close>

definition PB_ENCODERS ::
  "'o enc_env \<Rightarrow> ('o pb_ostream \<Rightarrow> pb_field list \<Rightarrow> addr \<Rightarrow> 'o enc_result) \<Rightarrow> mem \<Rightarrow> 8 word
     \<Rightarrow> 'o pb_ostream \<Rightarrow> pb_field \<Rightarrow> addr \<Rightarrow> 'o enc_result" where
  "PB_ENCODERS E rec m lt s f src =
     (if lt = PB_LTYPE_BOOL then Some (pb_enc_bool m s f src)
      else if lt = PB_LTYPE_VARINT then Some (pb_enc_varint m s f src)
      else if lt = PB_LTYPE_UVARINT then Some (pb_enc_uvarint m s f src)
      else if lt = PB_LTYPE_SVARINT then Some (pb_enc_svarint m s f src)
      else if lt = PB_LTYPE_FIXED32 then Some (pb_enc_fixed32 m s f src)
      else if lt = PB_LTYPE_FIXED64 then Some (pb_enc_fixed64 m s f src)
      else if lt = PB_LTYPE_BYTES then Some (pb_enc_bytes m s f src)
      else if lt = PB_LTYPE_STRING then Some (pb_enc_string m s f src)
      else if lt = PB_LTYPE_SUBMESSAGE then pb_enc_submessage E rec s f src
      else if lt = PB_LTYPE_FIXED_LENGTH_BYTES then Some (pb_enc_fixed_length_bytes m s f src)
      else None)"

text \<open>The two loops of \<open>encode_array\<close>: packed entries, and entries with a tag each.\<close>

fun encode_items ::
  "('o pb_ostream \<Rightarrow> pb_field \<Rightarrow> addr \<Rightarrow> 'o enc_result) \<Rightarrow> 'o pb_ostream \<Rightarrow> pb_field \<Rightarrow> addr
     \<Rightarrow> nat \<Rightarrow> 'o enc_result" where
  "encode_items func s f p 0 = Some (True, s)"
| "encode_items func s f p (Suc count) =
     (case func s f p of
        None \<Rightarrow> None
      | Some (False, s') \<Rightarrow> Some (False, s')
      | Some (True, s') \<Rightarrow> encode_items func s' f (p + data_size f) count)"

fun encode_tagged_items ::
  "('o pb_ostream \<Rightarrow> pb_field \<Rightarrow> addr \<Rightarrow> 'o enc_result) \<Rightarrow> mem \<Rightarrow> 'o pb_ostream \<Rightarrow> pb_field \<Rightarrow> addr
     \<Rightarrow> nat \<Rightarrow> 'o enc_result" where
  "encode_tagged_items func m s f p 0 = Some (True, s)"
| "encode_tagged_items func m s f p (Suc count) =
     (case pb_encode_tag_for_field s f of
        (False, s') \<Rightarrow> Some (False, s')
      | (True, s') \<Rightarrow>
          (case func s' f
                  (if PB_ATYPE (f_type f) = PB_ATYPE_POINTER
                      \<and> (PB_LTYPE (f_type f) = PB_LTYPE_STRING \<or> PB_LTYPE (f_type f) = PB_LTYPE_BYTES)
                   then rd_ptr m p else p) of
             None \<Rightarrow> None
           | Some (False, s'') \<Rightarrow> Some (False, s'')
           | Some (True, s'') \<Rightarrow> encode_tagged_items func m s'' f (p + data_size f) count))"

definition encode_array ::
  "('o pb_ostream \<Rightarrow> pb_field \<Rightarrow> addr \<Rightarrow> 'o enc_result) \<Rightarrow> mem \<Rightarrow> 'o pb_ostream \<Rightarrow> pb_field \<Rightarrow> addr
     \<Rightarrow> nat \<Rightarrow> 'o enc_result" where
  "encode_array func m s f p count =
     (if count = 0 then Some (True, s)
      else if PB_ATYPE (f_type f) \<noteq> PB_ATYPE_POINTER \<and> count > array_size f
      then Some (False, os_set_error s ''array max size exceeded'')
      else if PB_LTYPE (f_type f) \<le> PB_LTYPE_LAST_PACKABLE then
        (case pb_encode_tag s 2 (word_of_nat (f_tag f)) of
           (False, s') \<Rightarrow> Some (False, s')
         | (True, s') \<Rightarrow>
             (case (if PB_LTYPE (f_type f) = PB_LTYPE_FIXED32 then Some (True, 4 * count)
                    else if PB_LTYPE (f_type f) = PB_LTYPE_FIXED64 then Some (True, 8 * count)
                    else (case encode_items func PB_OSTREAM_SIZING f p count of
                            None \<Rightarrow> None
                          | Some (ok, ss) \<Rightarrow> Some (ok, bytes_written ss))) of
                None \<Rightarrow> None
              | Some (False, _) \<Rightarrow> Some (False, s')
              | Some (True, sz) \<Rightarrow>
                  (case pb_encode_varint s' (word_of_nat sz) of
                     (False, s'') \<Rightarrow> Some (False, s'')
                   | (True, s'') \<Rightarrow>
                       if is_sizing s'' then Some (pb_write s'' [] sz)
                       else encode_items func s'' f p count)))
      else encode_tagged_items func m s f p count)"

text \<open>\<open>encode_basic_field\<close>; \<open>pSize\<close> is \<open>None\<close> while it points at \<open>implicit_has\<close>.\<close>

definition encode_tagged ::
  "('o pb_ostream \<Rightarrow> pb_field \<Rightarrow> addr \<Rightarrow> 'o enc_result) \<Rightarrow> 'o pb_ostream \<Rightarrow> pb_field \<Rightarrow> addr
     \<Rightarrow> 'o enc_result" where
  "encode_tagged func s f data =
     (case pb_encode_tag_for_field s f of
        (False, s') \<Rightarrow> Some (False, s')
      | (True, s') \<Rightarrow> func s' f data)"

definition encode_basic_field ::
  "'o enc_env \<Rightarrow> nat \<Rightarrow> ('o pb_ostream \<Rightarrow> pb_field list \<Rightarrow> addr \<Rightarrow> 'o enc_result) \<Rightarrow> mem
     \<Rightarrow> 'o pb_ostream \<Rightarrow> pb_field \<Rightarrow> addr \<Rightarrow> 'o enc_result" where
  "encode_basic_field E n rec m s f p =
     (let ty = f_type f;
          func = PB_ENCODERS E rec m (PB_LTYPE ty);
          ps = ptr_offset p (size_offset f)
      in case (if size_offset f \<noteq> 0 then Some False
               else if PB_HTYPE ty = PB_HTYPE_OPTIONAL
               then map_option Not (pb_check_proto3_default_value (ee_desc E) n m f p)
               else Some True) of
           None \<Rightarrow> None
         | Some has0 \<Rightarrow>
             let data = (if PB_ATYPE ty = PB_ATYPE_POINTER then rd_ptr m p else p);
                 implicit_has = (if PB_ATYPE ty = PB_ATYPE_POINTER then data \<noteq> 0 else has0);
                 has = (if size_offset f \<noteq> 0 then safe_read_bool m ps else implicit_has)
             in if PB_HTYPE ty = PB_HTYPE_REQUIRED then
                  if data = 0 then Some (False, os_set_error s ''missing required field'')
                  else encode_tagged func s f data
                else if PB_HTYPE ty = PB_HTYPE_OPTIONAL then
                  if has then encode_tagged func s f data else Some (True, s)
                else if PB_HTYPE ty = PB_HTYPE_REPEATED then
                  encode_array func m s f data
                    (if size_offset f \<noteq> 0 then rd_size m ps else array_size f)
                else if rd_size m ps = f_tag f
                then encode_tagged func s f data else Some (True, s))"

definition encode_callback_field ::
  "'o enc_env \<Rightarrow> mem \<Rightarrow> 'o pb_ostream \<Rightarrow> pb_field \<Rightarrow> addr \<Rightarrow> bool \<times> 'o pb_ostream" where
  "encode_callback_field E m s f p =
     (if rd_ptr m p \<noteq> 0
      then (case ee_callback E (rd_ptr m p) s f (p + 8) of
              (False, s') \<Rightarrow> (False, os_set_error s' ''callback error'')
            | (True, s') \<Rightarrow> (True, s'))
      else (True, s))"

definition encode_field ::
  "'o enc_env \<Rightarrow> nat \<Rightarrow> ('o pb_ostream \<Rightarrow> pb_field list \<Rightarrow> addr \<Rightarrow> 'o enc_result) \<Rightarrow> mem
     \<Rightarrow> 'o pb_ostream \<Rightarrow> pb_field \<Rightarrow> addr \<Rightarrow> 'o enc_result" where
  "encode_field E n rec m s f p =
     (if PB_ATYPE (f_type f) = PB_ATYPE_STATIC \<or> PB_ATYPE (f_type f) = PB_ATYPE_POINTER
      then encode_basic_field E n rec m s f p
      else if PB_ATYPE (f_type f) = PB_ATYPE_CALLBACK then Some (encode_callback_field E m s f p)
      else Some (False, os_set_error s ''invalid field type''))"

text \<open>The descriptor of an extension is the first entry of the array that \<open>type->arg\<close> points to.\<close>

definition default_extension_encoder ::
  "'o enc_env \<Rightarrow> nat \<Rightarrow> ('o pb_ostream \<Rightarrow> pb_field list \<Rightarrow> addr \<Rightarrow> 'o enc_result) \<Rightarrow> mem
     \<Rightarrow> 'o pb_ostream \<Rightarrow> addr \<Rightarrow> 'o enc_result" where
  "default_extension_encoder E n rec m s ext =
     (let f = field_at (ee_desc E (ext_type_arg m (ext_type m ext))) 0
      in encode_field E n rec m s f
           (if PB_ATYPE (f_type f) = PB_ATYPE_POINTER then ext + 8 else ext_dest m ext))"

fun encode_extensions ::
  "'o enc_env \<Rightarrow> nat \<Rightarrow> nat \<Rightarrow> ('o pb_ostream \<Rightarrow> pb_field list \<Rightarrow> addr \<Rightarrow> 'o enc_result) \<Rightarrow> mem
     \<Rightarrow> 'o pb_ostream \<Rightarrow> addr \<Rightarrow> 'o enc_result" where
  "encode_extensions E n 0 rec m s ext = (if ext = 0 then Some (True, s) else None)"
| "encode_extensions E n (Suc k) rec m s ext =
     (if ext = 0 then Some (True, s)
      else let enc = ext_type_encode m (ext_type m ext) in
           case (if enc \<noteq> 0 then Some (ee_ext_encode E enc s ext)
                 else default_extension_encoder E n rec m s ext) of
             None \<Rightarrow> None
           | Some (False, s') \<Rightarrow> Some (False, s')
           | Some (True, s') \<Rightarrow> encode_extensions E n k rec m s' (ext_next m ext))"

definition encode_extension_field ::
  "'o enc_env \<Rightarrow> nat \<Rightarrow> ('o pb_ostream \<Rightarrow> pb_field list \<Rightarrow> addr \<Rightarrow> 'o enc_result) \<Rightarrow> mem
     \<Rightarrow> 'o pb_ostream \<Rightarrow> pb_field \<Rightarrow> addr \<Rightarrow> 'o enc_result" where
  "encode_extension_field E n rec m s f p = encode_extensions E n n rec m s (rd_ptr m p)"

section \<open>Messages\<close>

text \<open>The loop of \<open>pb_encode\<close>; the first bound is the number of fields left.\<close>

fun encode_fields ::
  "'o enc_env \<Rightarrow> nat \<Rightarrow> ('o pb_ostream \<Rightarrow> pb_field list \<Rightarrow> addr \<Rightarrow> 'o enc_result) \<Rightarrow> mem \<Rightarrow> nat
     \<Rightarrow> 'o pb_ostream \<Rightarrow> pb_field_iter \<Rightarrow> 'o enc_result" where
  "encode_fields E n rec m 0 s it = None"
| "encode_fields E n rec m (Suc k) s it =
     (let f = cur_field it in
      case (if PB_LTYPE (f_type f) = PB_LTYPE_EXTENSION
            then encode_extension_field E n rec m s f (pData it)
            else encode_field E n rec m s f (pData it)) of
        None \<Rightarrow> None
      | Some (False, s') \<Rightarrow> Some (False, s')
      | Some (True, s') \<Rightarrow>
          (case pb_field_iter_next it of
             (True, it') \<Rightarrow> encode_fields E n rec m k s' it'
           | (False, _) \<Rightarrow> Some (True, s')))"

fun pb_encode ::
  "'o enc_env \<Rightarrow> nat \<Rightarrow> mem \<Rightarrow> 'o pb_ostream \<Rightarrow> pb_field list \<Rightarrow> addr \<Rightarrow> 'o enc_result" where
  "pb_encode E 0 m s fs src = None"
| "pb_encode E (Suc n) m s fs src =
     (case pb_field_iter_begin fs src 0 of
        (False, _) \<Rightarrow> Some (True, s)
      | (True, it) \<Rightarrow> encode_fields E n (\<lambda>s fs src. pb_encode E n m s fs src) m (length fs) s it)"

definition pb_encode_delimited ::
  "'o enc_env \<Rightarrow> nat \<Rightarrow> mem \<Rightarrow> 'o pb_ostream \<Rightarrow> pb_field list \<Rightarrow> addr \<Rightarrow> 'o enc_result" where
  "pb_encode_delimited E n m s fs src = pb_encode_submessage (pb_encode E n m) s fs src"

definition pb_encode_nullterminated ::
  "'o enc_env \<Rightarrow> nat \<Rightarrow> mem \<Rightarrow> 'o pb_ostream \<Rightarrow> pb_field list \<Rightarrow> addr \<Rightarrow> 'o enc_result" where
  "pb_encode_nullterminated E n m s fs src =
     (case pb_encode E n m s fs src of
        None \<Rightarrow> None
      | Some (False, s') \<Rightarrow> Some (False, s')
      | Some (True, s') \<Rightarrow> Some (pb_write s' [0] 1))"

text \<open>\<open>Some None\<close> is the result \<open>false\<close>.\<close>

definition pb_get_encoded_size ::
  "'o enc_env \<Rightarrow> nat \<Rightarrow> mem \<Rightarrow> pb_field list \<Rightarrow> addr \<Rightarrow> nat option option" where
  "pb_get_encoded_size E n m fs src =
     (case pb_encode E n m PB_OSTREAM_SIZING fs src of
        None \<Rightarrow> None
      | Some (False, _) \<Rightarrow> Some None
      | Some (True, s) \<Rightarrow> Some (Some (bytes_written s)))"

end
