(* ===== verification/Pb_Encode_Size.thy ===== *)
theory Pb_Encode_Size
  imports Pb_Encode
begin

text \<open>
  The two passes of the encoder agree.  nanopb computes the size of a submessage, of a packed
  array and of a whole message (\<open>pb_get_encoded_size\<close>) by running the encoder on a sizing stream,
  and writes the length before it runs the encoder again on the real stream.  The lemmas show
  that a successful sizing run predicts the writing run: the same bytes, exactly as many as were
  counted, and success on a buffer exactly when they fit.

  \<open>emits enc bs\<close> says that the encoder \<open>enc\<close> amounts to writing the bytes \<open>bs\<close>, whatever the
  stream; \<open>predictable enc\<close> that a sizing run which returns true is followed by such behaviour.
  Both compose over \<open>enc_seq\<close>, the \<open>if (!f(stream)) return false;\<close> of the source.
\<close>

section \<open>Encoders that write a fixed sequence of bytes\<close>

definition emits :: "('o pb_ostream \<Rightarrow> 'o enc_result) \<Rightarrow> byte list \<Rightarrow> bool" where
  "emits enc bs \<longleftrightarrow>
     (\<forall>s. is_sizing s \<longrightarrow> bytes_written s < size_mod \<longrightarrow>
        (\<exists>t. enc s = Some (True, t) \<and> is_sizing t
           \<and> bytes_written t = (bytes_written s + length bs) mod size_mod))
   \<and> (\<forall>s ws cap. room_ok s \<longrightarrow> os_sink s = Buf_sink ws cap \<longrightarrow>
        bytes_written s + length bs \<le> max_size s \<longrightarrow>
        (\<exists>t. enc s = Some (True, t) \<and> os_sink t = Buf_sink (ws @ bs) cap
           \<and> bytes_written t = bytes_written s + length bs \<and> max_size t = max_size s))
   \<and> (\<forall>s ws cap. room_ok s \<longrightarrow> os_sink s = Buf_sink ws cap \<longrightarrow>
        max_size s < bytes_written s + length bs \<longrightarrow> max_size s + length bs < size_mod \<longrightarrow>
        (\<exists>t. enc s = Some (False, t) \<and> appends s t))"

definition predictable :: "('o pb_ostream \<Rightarrow> 'o enc_result) \<Rightarrow> bool" where
  "predictable enc \<longleftrightarrow>
     (\<forall>s t. is_sizing s \<longrightarrow> bytes_written s < size_mod \<longrightarrow> enc s = Some (True, t) \<longrightarrow>
        (\<exists>bs. emits enc bs))"

definition enc_seq ::
  "('o pb_ostream \<Rightarrow> 'o enc_result) \<Rightarrow> ('o pb_ostream \<Rightarrow> 'o enc_result) \<Rightarrow> 'o pb_ostream
     \<Rightarrow> 'o enc_result" where
  "enc_seq e1 e2 s =
     (case e1 s of
        None \<Rightarrow> None
      | Some (False, s') \<Rightarrow> Some (False, s')
      | Some (True, s') \<Rightarrow> e2 s')"

named_theorems predictable_intros \<open>encoders whose sizing run predicts the writing run\<close>

lemma emits_sizing:
  assumes "emits enc bs" and "is_sizing s" and "bytes_written s < size_mod"
  obtains t where "enc s = Some (True, t)" "is_sizing t"
    "bytes_written t = (bytes_written s + length bs) mod size_mod"
  using assms unfolding emits_def by blast

lemma emits_fits:
  assumes "emits enc bs" and "room_ok s" and "os_sink s = Buf_sink ws cap"
    and "bytes_written s + length bs \<le> max_size s"
  obtains t where "enc s = Some (True, t)" "os_sink t = Buf_sink (ws @ bs) cap"
    "bytes_written t = bytes_written s + length bs" "max_size t = max_size s"
  using assms unfolding emits_def by blast

lemma emits_full:
  assumes "emits enc bs" and "room_ok s" and "os_sink s = Buf_sink ws cap"
    and "max_size s < bytes_written s + length bs" and "max_size s + length bs < size_mod"
  obtains t where "enc s = Some (False, t)" and "appends s t"
  using assms unfolding emits_def by blast

lemma room_ok_after:
  assumes "room_ok s" and "os_sink s = Buf_sink ws cap" and "bytes_written s + length bs \<le> max_size s"
    and "os_sink t = Buf_sink (ws @ bs) cap" and "bytes_written t = bytes_written s + length bs"
    and "max_size t = max_size s"
  shows "room_ok t" and "appends s t"
  using assms by (auto simp: room_ok_def appends_def)

lemma is_sizing_update [simp]:
  "is_sizing (s\<lparr>bytes_written := n\<rparr>) = is_sizing s" "is_sizing (s\<lparr>os_errmsg := e\<rparr>) = is_sizing s"
  by (simp_all add: is_sizing_def)

lemma emits_write: "emits (\<lambda>s. Some (pb_write s buf (length buf))) buf"
  unfolding emits_def
proof (intro conjI allI impI)
  fix s :: "'a pb_ostream" and ws cap
  assume s: "room_ok s" "os_sink s = Buf_sink ws cap"
  { assume fit: "bytes_written s + length buf \<le> max_size s"
    then have m: "(bytes_written s + length buf) mod size_mod = bytes_written s + length buf"
      and c: "length ws + length buf \<le> cap"
      using s by (auto simp: room_ok_def)
    show "\<exists>t. Some (pb_write s buf (length buf)) = Some (True, t) \<and> os_sink t = Buf_sink (ws @ buf) cap
        \<and> bytes_written t = bytes_written s + length buf \<and> max_size t = max_size s"
      using s fit m c by (cases "buf = []") (simp_all add: pb_write_def is_sizing_iff) }
  { assume "max_size s < bytes_written s + length buf" "max_size s + length buf < size_mod"
    moreover from this have "(bytes_written s + length buf) mod size_mod = bytes_written s + length buf"
      using s by (simp add: room_ok_def)
    moreover have "buf \<noteq> []" using calculation(1) s by (auto simp: room_ok_def)
    ultimately show "\<exists>t. Some (pb_write s buf (length buf)) = Some (False, t) \<and> appends s t"
      using s by (intro exI [of _ "os_set_error s ''stream full''"])
        (simp add: pb_write_def is_sizing_iff room_ok_def) }
qed (simp add: pb_write_def)

lemma emits_True: "emits (\<lambda>s. Some (True, s)) []"
  unfolding emits_def by (auto simp: room_ok_def)

lemma emits_seq:
  assumes "emits e1 b1" and "emits e2 b2"
  shows "emits (enc_seq e1 e2) (b1 @ b2)"
  unfolding emits_def
proof (intro conjI allI impI)
  fix s :: "'a pb_ostream" assume s: "is_sizing s" "bytes_written s < size_mod"
  obtain t where t: "e1 s = Some (True, t)" "is_sizing t"
    "bytes_written t = (bytes_written s + length b1) mod size_mod"
    by (rule emits_sizing [OF assms(1) s])
  have "bytes_written t < size_mod" using t(3) by simp
  then obtain u where "e2 t = Some (True, u)" "is_sizing u"
    "bytes_written u = (bytes_written t + length b2) mod size_mod"
    by (rule emits_sizing [OF assms(2) t(2)])
  with t show "\<exists>t. enc_seq e1 e2 s = Some (True, t) \<and> is_sizing t
      \<and> bytes_written t = (bytes_written s + length (b1 @ b2)) mod size_mod"
    by (simp add: enc_seq_def mod_add_left_eq add.assoc)
next
  fix s :: "'a pb_ostream" and ws cap
  assume s: "room_ok s" "os_sink s = Buf_sink ws cap"
    and fit: "bytes_written s + length (b1 @ b2) \<le> max_size s"
  have f1: "bytes_written s + length b1 \<le> max_size s" using fit by simp
  obtain t where t: "e1 s = Some (True, t)" "os_sink t = Buf_sink (ws @ b1) cap"
    "bytes_written t = bytes_written s + length b1" "max_size t = max_size s"
    by (rule emits_fits [OF assms(1) s f1])
  have f2: "bytes_written t + length b2 \<le> max_size t" using t fit by simp
  obtain u where "e2 t = Some (True, u)" "os_sink u = Buf_sink ((ws @ b1) @ b2) cap"
    "bytes_written u = bytes_written t + length b2" "max_size u = max_size t"
    by (rule emits_fits [OF assms(2) room_ok_after(1) [OF s f1 t(2-4)] t(2) f2])
  with t show "\<exists>t. enc_seq e1 e2 s = Some (True, t) \<and> os_sink t = Buf_sink (ws @ b1 @ b2) cap
      \<and> bytes_written t = bytes_written s + length (b1 @ b2) \<and> max_size t = max_size s"
    by (simp add: enc_seq_def)
next
  fix s :: "'a pb_ostream" and ws cap
  assume s: "room_ok s" "os_sink s = Buf_sink ws cap"
    and full: "max_size s < bytes_written s + length (b1 @ b2)" "max_size s + length (b1 @ b2) < size_mod"
  show "\<exists>t. enc_seq e1 e2 s = Some (False, t) \<and> appends s t"
  proof (cases "max_size s < bytes_written s + length b1")
    case True
    obtain t where "e1 s = Some (False, t)" "appends s t"
      by (rule emits_full [OF assms(1) s True]) (use full in simp_all)
    then show ?thesis by (simp add: enc_seq_def)
  next
    case False
    then have f1: "bytes_written s + length b1 \<le> max_size s" by simp
    obtain t where t: "e1 s = Some (True, t)" "os_sink t = Buf_sink (ws @ b1) cap"
      "bytes_written t = bytes_written s + length b1" "max_size t = max_size s"
      by (rule emits_fits [OF assms(1) s f1])
    note after = room_ok_after [OF s f1 t(2-4)]
    obtain u where "e2 t = Some (False, u)" and "appends t u"
      by (rule emits_full [OF assms(2) after(1) t(2)]) (use full t in simp_all)
    with t after(2) show ?thesis
      by (auto simp: enc_seq_def intro: appends_trans)
  qed
qed

lemma emits_predictable: "emits enc bs \<Longrightarrow> predictable enc"
  by (auto simp: predictable_def)

lemma predictable_seq [predictable_intros]:
  assumes "predictable e1" and "predictable e2"
  shows "predictable (enc_seq e1 e2)"
  unfolding predictable_def
proof (intro allI impI)
  fix s t :: "'a pb_ostream"
  assume s: "is_sizing s" "bytes_written s < size_mod" and r: "enc_seq e1 e2 s = Some (True, t)"
  then obtain s' where s': "e1 s = Some (True, s')" "e2 s' = Some (True, t)"
    by (auto simp: enc_seq_def split: option.splits prod.splits bool.splits)
  then obtain b1 where b1: "emits e1 b1" using assms(1) s by (auto simp: predictable_def)
  obtain u where "e1 s = Some (True, u)" "is_sizing u"
    "bytes_written u = (bytes_written s + length b1) mod size_mod"
    by (rule emits_sizing [OF b1 s])
  with s'(1) have "is_sizing s'" "bytes_written s' < size_mod" by simp_all
  then obtain b2 where "emits e2 b2" using assms(2) s'(2) unfolding predictable_def by blast
  with b1 show "\<exists>bs. emits (enc_seq e1 e2) bs" using emits_seq by blast
qed

lemma predictable_sizing:
  assumes "predictable enc" and "enc PB_OSTREAM_SIZING = Some (True, ss)"
  shows "\<exists>bs. emits enc bs \<and> bytes_written ss = length bs mod size_mod"
proof -
  let ?s = "PB_OSTREAM_SIZING :: 'a pb_ostream"
  have z: "is_sizing ?s" "bytes_written ?s < size_mod" "bytes_written ?s = 0"
    by (simp_all add: PB_OSTREAM_SIZING_def is_sizing_def)
  then obtain bs where bs: "emits enc bs" using assms unfolding predictable_def by blast
  obtain u where "enc ?s = Some (True, u)" "bytes_written u = (bytes_written ?s + length bs) mod size_mod"
    by (rule emits_sizing [OF bs z(1,2)])
  with bs assms(2) z(3) show ?thesis by auto
qed

lemma predictable_fail [predictable_intros]: "predictable (\<lambda>s. Some (False, g s))"
  by (simp add: predictable_def)

lemma predictable_None [predictable_intros]: "predictable (\<lambda>s. None)"
  by (simp add: predictable_def)

lemma predictable_True [predictable_intros]: "predictable (\<lambda>s. Some (True, s))"
  using emits_True by (rule emits_predictable)

lemma predictable_option [predictable_intros]:
  "(\<And>v. x = Some v \<Longrightarrow> predictable (\<lambda>s. e v s)) \<Longrightarrow>
   predictable (\<lambda>s. case x of None \<Rightarrow> None | Some v \<Rightarrow> e v s)"
  by (cases x) (simp_all add: predictable_None)

lemma predictable_if [predictable_intros]:
  "(b \<Longrightarrow> predictable e1) \<Longrightarrow> (\<not> b \<Longrightarrow> predictable e2) \<Longrightarrow> predictable (\<lambda>s. if b then e1 s else e2 s)"
  by (cases b) simp_all

section \<open>Scalar encoders\<close>

lemma emits_varint: "emits (\<lambda>s. Some (pb_encode_varint s v)) (varint_bytes v)"
  unfolding pb_encode_varint_def by (rule emits_write)

lemma emits_fixed32: "emits (\<lambda>s. Some (pb_encode_fixed32 s v)) (fixed32_bytes v)"
proof -
  have "length (fixed32_bytes v) = 4" by (simp add: fixed32_bytes_def)
  then show ?thesis using emits_write [of "fixed32_bytes v"] by (simp add: pb_encode_fixed32_def)
qed

lemma emits_fixed64: "emits (\<lambda>s. Some (pb_encode_fixed64 s v)) (fixed64_bytes v)"
proof -
  have "length (fixed64_bytes v) = 8" by (simp add: fixed64_bytes_def)
  then show ?thesis using emits_write [of "fixed64_bytes v"] by (simp add: pb_encode_fixed64_def)
qed

lemma emits_string:
  assumes "length buf = n"
  shows "emits (\<lambda>s. Some (pb_encode_string s buf n)) (varint_bytes (word_of_nat n) @ buf)"
    (is "emits ?enc _")
proof -
  have "?enc =
      enc_seq (\<lambda>s. Some (pb_encode_varint s (word_of_nat n))) (\<lambda>s. Some (pb_write s buf n))"
    by (rule ext) (simp add: enc_seq_def pb_encode_string_def split: prod.splits bool.splits)
  then show ?thesis
    using emits_seq [OF emits_varint [of "word_of_nat n"] emits_write [of buf]] assms by (simp only:)
qed

lemmas predictable_varint [predictable_intros] = emits_varint [THEN emits_predictable]
lemmas predictable_fixed32 [predictable_intros] = emits_fixed32 [THEN emits_predictable]
lemmas predictable_fixed64 [predictable_intros] = emits_fixed64 [THEN emits_predictable]
lemmas predictable_string [predictable_intros] = emits_string [THEN emits_predictable]

lemma predictable_pair_if [predictable_intros]:
  "(b \<Longrightarrow> predictable (\<lambda>s. Some (e1 s))) \<Longrightarrow> (\<not> b \<Longrightarrow> predictable (\<lambda>s. Some (e2 s))) \<Longrightarrow>
   predictable (\<lambda>s. Some (if b then e1 s else e2 s))"
  by (cases b) simp_all

lemma predictable_pair_option [predictable_intros]:
  "(x = None \<Longrightarrow> predictable (\<lambda>s. Some (e1 s))) \<Longrightarrow> (\<And>v. x = Some v \<Longrightarrow> predictable (\<lambda>s. Some (e2 v s))) \<Longrightarrow>
   predictable (\<lambda>s. Some (case x of None \<Rightarrow> e1 s | Some v \<Rightarrow> e2 v s))"
  by (cases x) simp_all

lemma predictable_tag_for_field [predictable_intros]:
  "predictable (\<lambda>s. Some (pb_encode_tag_for_field s f))"
  unfolding pb_encode_tag_for_field_def pb_encode_tag_def Let_def
  by (intro predictable_intros)

lemmas scalar_encoder_defs = pb_enc_bool_def pb_enc_varint_def pb_enc_uvarint_def pb_enc_svarint_def
  pb_enc_fixed32_def pb_enc_fixed64_def pb_enc_bytes_def pb_enc_string_def
  pb_enc_fixed_length_bytes_def pb_encode_svarint_def Let_def

section \<open>Submessages\<close>

lemma word_of_nat_size_mod: "(word_of_nat (n mod size_mod) :: 64 word) = word_of_nat n"
  by (rule word_unat_eq_iff [THEN iffD2]) (simp add: unsigned_of_nat size_mod_def take_bit_eq_mod)

lemma room_ok_substream:
  assumes "room_ok s" and "os_sink s = Buf_sink ws cap" and "bytes_written s + sz \<le> max_size s"
  shows "room_ok \<lparr>os_sink = Buf_sink ws cap, max_size = sz, bytes_written = 0, os_errmsg = None\<rparr>"
  using assms by (auto simp: room_ok_def)

lemma emits_submessage:
  assumes "emits (\<lambda>s. rec s fs src) bs"
  shows "emits (\<lambda>s. pb_encode_submessage rec s fs src) (varint_bytes (word_of_nat (length bs)) @ bs)"
proof -
  obtain sub where sub: "rec PB_OSTREAM_SIZING fs src = Some (True, sub)" "bytes_written sub = length bs mod size_mod"
    by (rule emits_sizing [OF assms, of PB_OSTREAM_SIZING])
      (simp_all add: PB_OSTREAM_SIZING_def is_sizing_def)
  let ?sz = "bytes_written sub"
  let ?hdr = "\<lambda>s. Some (pb_encode_varint s (word_of_nat ?sz))"
  define tail where "tail s' =
    (if is_sizing s' then Some (pb_write s' [] ?sz)
     else if (bytes_written s' + ?sz) mod size_mod > max_size s'
     then Some (False, os_set_error s' ''stream full'')
     else (case rec \<lparr>os_sink = os_sink s', max_size = ?sz, bytes_written = 0, os_errmsg = None\<rparr> fs src of
             None \<Rightarrow> None
           | Some (status, sub') \<Rightarrow>
               let s'' = s'\<lparr>bytes_written := (bytes_written s' + bytes_written sub') mod size_mod,
                            os_sink := os_sink sub', os_errmsg := os_errmsg sub'\<rparr>
               in if bytes_written sub' \<noteq> ?sz
                  then Some (False, os_set_error s'' ''submsg size changed'')
                  else Some (status, s'')))" for s' :: "'a pb_ostream"
  have split: "(\<lambda>s. pb_encode_submessage rec s fs src) = enc_seq ?hdr tail"
    by (rule ext) (simp add: pb_encode_submessage_def sub(1) enc_seq_def tail_def Let_def
        split: prod.splits bool.splits)
  have "emits tail bs"
    unfolding emits_def
  proof (intro conjI allI impI)
    fix s :: "'a pb_ostream" assume "is_sizing s" "bytes_written s < size_mod"
    then show "\<exists>t. tail s = Some (True, t) \<and> is_sizing t
        \<and> bytes_written t = (bytes_written s + length bs) mod size_mod"
      by (simp add: tail_def pb_write_def mod_add_right_eq sub(2))
  next
    fix s :: "'a pb_ostream" and ws cap
    assume s: "room_ok s" "os_sink s = Buf_sink ws cap" and fit: "bytes_written s + length bs \<le> max_size s"
    have lt: "bytes_written s + length bs < size_mod" "length bs < size_mod"
      using s fit by (simp_all add: room_ok_def)
    then have sz: "?sz = length bs" by (simp add: sub(2))
    obtain u where "rec \<lparr>os_sink = Buf_sink ws cap, max_size = length bs, bytes_written = 0,
        os_errmsg = None\<rparr> fs src = Some (True, u)" "os_sink u = Buf_sink (ws @ bs) cap"
      "bytes_written u = length bs"
      by (rule emits_fits [OF assms room_ok_substream [OF s fit]]) simp_all
    with s fit lt show "\<exists>t. tail s = Some (True, t) \<and> os_sink t = Buf_sink (ws @ bs) cap
        \<and> bytes_written t = bytes_written s + length bs \<and> max_size t = max_size s"
      by (simp add: tail_def is_sizing_iff sz)
  next
    fix s :: "'a pb_ostream" and ws cap
    assume s: "room_ok s" "os_sink s = Buf_sink ws cap"
      and full: "max_size s < bytes_written s + length bs" "max_size s + length bs < size_mod"
    then have "(bytes_written s + ?sz) mod size_mod = bytes_written s + length bs"
      by (simp add: room_ok_def sub(2))
    with s full show "\<exists>t. tail s = Some (False, t) \<and> appends s t"
      by (simp add: tail_def is_sizing_iff)
  qed
  then show ?thesis unfolding split
    using emits_seq [OF emits_varint [of "word_of_nat ?sz"]] by (simp add: sub(2) word_of_nat_size_mod)
qed

lemma predictable_submessage:
  assumes "predictable (\<lambda>s. rec s fs src)"
  shows "predictable (\<lambda>s. pb_encode_submessage rec s fs src)"
  unfolding predictable_def
proof (intro allI impI)
  fix s t assume "pb_encode_submessage rec s fs src = Some (True, t)"
  then obtain sub where "rec PB_OSTREAM_SIZING fs src = Some (True, sub)"
    by (auto simp: pb_encode_submessage_def split: option.splits prod.splits bool.splits)
  then obtain bs where "emits (\<lambda>s. rec s fs src) bs"
    using assms by (force simp: predictable_def PB_OSTREAM_SIZING_def is_sizing_def)
  then show "\<exists>bs. emits (\<lambda>s. pb_encode_submessage rec s fs src) bs"
    using emits_submessage by blast
qed

lemma predictable_encoders:
  assumes "\<And>fs src. predictable (\<lambda>s. rec s fs src)"
  shows "predictable (\<lambda>s. PB_ENCODERS E rec m lt s f src)"
  unfolding PB_ENCODERS_def scalar_encoder_defs pb_enc_submessage_def
  by (intro predictable_intros predictable_submessage assms; simp)

section \<open>Arrays\<close>

lemma encode_items_seq:
  "(\<lambda>s. encode_items func s f p (Suc k)) =
   enc_seq (\<lambda>s. func s f p) (\<lambda>s. encode_items func s f (p + data_size f) k)"
  by (rule ext) (simp add: enc_seq_def)

lemma predictable_items:
  assumes "\<And>src. predictable (\<lambda>s. func s f src)"
  shows "predictable (\<lambda>s. encode_items func s f p k)"
proof (induction k arbitrary: p)
  case 0
  show ?case by (simp add: predictable_intros)
next
  case (Suc k)
  show ?case unfolding encode_items_seq by (rule predictable_seq [OF assms Suc])
qed

lemma emits_items_fixed:
  assumes "\<And>src. \<exists>b. length b = w \<and> emits (\<lambda>s. func s f src) b"
  shows "\<exists>bs. length bs = w * k \<and> emits (\<lambda>s. encode_items func s f p k) bs"
proof (induction k arbitrary: p)
  case 0
  show ?case using emits_True by (intro exI [of _ "[]"]) simp
next
  case (Suc k)
  obtain b where b: "length b = w" "emits (\<lambda>s. func s f p) b" using assms by blast
  obtain bs where "length bs = w * k" "emits (\<lambda>s. encode_items func s f (p + data_size f) k) bs"
    using Suc by blast
  then show ?case unfolding encode_items_seq
    using b emits_seq [OF b(2)] by (intro exI [of _ "b @ bs"]) auto
qed

lemma predictable_tagged_items:
  assumes "\<And>src. predictable (\<lambda>s. func s f src)"
  shows "predictable (\<lambda>s. encode_tagged_items func m s f p k)"
proof (induction k arbitrary: p)
  case 0
  show ?case by (simp add: predictable_intros)
next
  case (Suc k)
  let ?q = "if PB_ATYPE (f_type f) = PB_ATYPE_POINTER
      \<and> (PB_LTYPE (f_type f) = PB_LTYPE_STRING \<or> PB_LTYPE (f_type f) = PB_LTYPE_BYTES)
    then rd_ptr m p else p"
  have "(\<lambda>s. encode_tagged_items func m s f p (Suc k)) =
      enc_seq (\<lambda>s. Some (pb_encode_tag_for_field s f))
        (enc_seq (\<lambda>s. func s f ?q) (\<lambda>s. encode_tagged_items func m s f (p + data_size f) k))"
    by (rule ext) (simp add: enc_seq_def split: prod.splits bool.splits)
  then show ?case by (simp only:) (intro predictable_intros assms Suc)
qed

text \<open>A packed array: tag, length, then the entries.  For the fixed-size types the length is not
  the result of a sizing run but \<open>4 * count\<close> or \<open>8 * count\<close>.\<close>

lemma emits_packed_tail:
  assumes "emits items bs" and "sz mod size_mod = length bs mod size_mod"
  shows "emits (\<lambda>s. if is_sizing s then Some (pb_write s [] sz) else items s) bs"
proof -
  have "(x + sz) mod size_mod = (x + length bs) mod size_mod" for x
    using assms(2) by (rule mod_add_cong [OF refl])
  then show ?thesis
    using assms(1) unfolding emits_def by (auto simp: is_sizing_iff pb_write_def)
qed

definition fixed_width :: "pb_field \<Rightarrow> nat" where
  "fixed_width f = (if PB_LTYPE (f_type f) = PB_LTYPE_FIXED32 then 4
     else if PB_LTYPE (f_type f) = PB_LTYPE_FIXED64 then 8 else 0)"

lemma packed_array_seq:
  assumes "packed_size = (if PB_LTYPE (f_type f) = PB_LTYPE_FIXED32 then Some (True, 4 * count)
      else if PB_LTYPE (f_type f) = PB_LTYPE_FIXED64 then Some (True, 8 * count)
      else (case encode_items func PB_OSTREAM_SIZING f p count of
              None \<Rightarrow> None
            | Some (ok, ss) \<Rightarrow> Some (ok, bytes_written ss)))"
    and "count \<noteq> 0" and "\<not> (PB_ATYPE (f_type f) \<noteq> PB_ATYPE_POINTER \<and> count > array_size f)"
    and "PB_LTYPE (f_type f) \<le> PB_LTYPE_LAST_PACKABLE"
  shows "(\<lambda>s. encode_array func m s f p count) =
    enc_seq (\<lambda>s. Some (pb_encode_tag s 2 (word_of_nat (f_tag f))))
      (case packed_size of
         None \<Rightarrow> (\<lambda>s. None)
       | Some (False, _) \<Rightarrow> (\<lambda>s. Some (False, s))
       | Some (True, sz) \<Rightarrow> enc_seq (\<lambda>s. Some (pb_encode_varint s (word_of_nat sz)))
           (\<lambda>s. if is_sizing s then Some (pb_write s [] sz) else encode_items func s f p count))"
  unfolding encode_array_def enc_seq_def assms(1) [symmetric]
  by (rule ext) (use assms(2-4) in \<open>auto split: prod.splits bool.splits option.splits\<close>)

lemma predictable_array:
  assumes "\<And>src. predictable (\<lambda>s. func s f src)"
    and "\<And>src. fixed_width f \<noteq> 0 \<Longrightarrow> \<exists>b. length b = fixed_width f \<and> emits (\<lambda>s. func s f src) b"
  shows "predictable (\<lambda>s. encode_array func m s f p count)"
proof -
  let ?packed = "PB_LTYPE (f_type f) \<le> PB_LTYPE_LAST_PACKABLE"
  consider (zero) "count = 0"
    | (big) "count \<noteq> 0" "PB_ATYPE (f_type f) \<noteq> PB_ATYPE_POINTER \<and> count > array_size f"
    | (tagged) "count \<noteq> 0" "\<not> (PB_ATYPE (f_type f) \<noteq> PB_ATYPE_POINTER \<and> count > array_size f)" "\<not> ?packed"
    | (packed) "count \<noteq> 0" "\<not> (PB_ATYPE (f_type f) \<noteq> PB_ATYPE_POINTER \<and> count > array_size f)" "?packed"
    by blast
  then show ?thesis
  proof cases
    case zero
    then show ?thesis by (simp add: encode_array_def predictable_True)
  next
    case big
    then show ?thesis by (simp add: encode_array_def predictable_fail)
  next
    case tagged
    then have "(\<lambda>s. encode_array func m s f p count) = (\<lambda>s. encode_tagged_items func m s f p count)"
      by (intro ext) (auto simp: encode_array_def)
    then show ?thesis by (simp only: predictable_tagged_items [where func = func and f = f, OF assms(1)])
  next
    case packed
    note items = predictable_items [where func = func and f = f, OF assms(1), of p count]
    have tail: "predictable
        (\<lambda>s. if is_sizing s then Some (pb_write s [] sz) else encode_items func s f p count)"
      if "emits (\<lambda>s. encode_items func s f p count) bs" and "sz mod size_mod = length bs mod size_mod"
      for sz bs
      by (rule emits_predictable [OF emits_packed_tail [OF that]])
    have fixed: "predictable (\<lambda>s. if is_sizing s then Some (pb_write s [] (w * count))
        else encode_items func s f p count)" if w: "fixed_width f = w" "w \<noteq> 0" for w
    proof -
      have "fixed_width f \<noteq> 0" using w by simp
      note emits_items_fixed [where func = func and f = f, OF assms(2) [OF this], of count p]
      then obtain bs where "length bs = w * count" "emits (\<lambda>s. encode_items func s f p count) bs"
        unfolding w(1) by blast
      then show ?thesis using tail [of bs "w * count"] by (simp only:)
    qed
    have sized: "predictable (\<lambda>s. if is_sizing s then Some (pb_write s [] (bytes_written ss))
        else encode_items func s f p count)"
      if run: "encode_items func PB_OSTREAM_SIZING f p count = Some (True, ss)" for ss
    proof -
      obtain bs where "emits (\<lambda>s. encode_items func s f p count) bs"
        "bytes_written ss = length bs mod size_mod"
        using predictable_sizing [OF items run] by blast
      then show ?thesis using tail [of bs "bytes_written ss"] by simp
    qed
    show ?thesis
      unfolding packed_array_seq [OF refl packed]
      by (auto simp: pb_encode_tag_def split: option.splits prod.splits bool.splits
          intro!: predictable_seq [OF predictable_varint] predictable_None predictable_fail sized fixed
          simp: fixed_width_def)
  qed
qed

section \<open>Fields and messages\<close>

text \<open>The application's functions are held to the same contract.\<close>

definition env_predictable :: "'o enc_env \<Rightarrow> bool" where
  "env_predictable E \<longleftrightarrow>
     (\<forall>cb f a. predictable (\<lambda>s. Some (ee_callback E cb s f a)))
   \<and> (\<forall>cb e. predictable (\<lambda>s. Some (ee_ext_encode E cb s e)))"

lemma encoders_fixed_width:
  assumes "fixed_width f \<noteq> 0"
  shows "\<exists>b. length b = fixed_width f \<and> emits (\<lambda>s. PB_ENCODERS E rec m (PB_LTYPE (f_type f)) s f src) b"
proof (cases "PB_LTYPE (f_type f) = PB_LTYPE_FIXED32")
  case True
  then show ?thesis
    using emits_fixed32 [of "word_of_nat (rd_u m src 4)"]
    by (intro exI [of _ "fixed32_bytes (word_of_nat (rd_u m src 4))"])
      (simp add: fixed_width_def PB_ENCODERS_def pb_enc_fixed32_def, simp add: fixed32_bytes_def)
next
  case False
  with assms have "PB_LTYPE (f_type f) = PB_LTYPE_FIXED64"
    by (simp add: fixed_width_def split: if_splits)
  then show ?thesis
    using emits_fixed64 [of "word_of_nat (rd_u m src 8)"]
    by (intro exI [of _ "fixed64_bytes (word_of_nat (rd_u m src 8))"])
      (simp add: fixed_width_def PB_ENCODERS_def pb_enc_fixed64_def, simp add: fixed64_bytes_def)
qed

lemma predictable_tagged:
  assumes "predictable (\<lambda>s. func s f data)"
  shows "predictable (\<lambda>s. encode_tagged func s f data)"
proof -
  have "(\<lambda>s. encode_tagged func s f data) =
      enc_seq (\<lambda>s. Some (pb_encode_tag_for_field s f)) (\<lambda>s. func s f data)"
    by (rule ext) (simp add: encode_tagged_def enc_seq_def split: prod.splits bool.splits)
  then show ?thesis by (simp only:) (intro predictable_intros assms)
qed

lemma predictable_basic_field:
  assumes "\<And>fs src. predictable (\<lambda>s. rec s fs src)"
  shows "predictable (\<lambda>s. encode_basic_field E n rec m s f p)"
proof -
  let ?func = "PB_ENCODERS E rec m (PB_LTYPE (f_type f))"
  have func: "predictable (\<lambda>s. ?func s f src)" for src
    by (rule predictable_encoders [OF assms])
  have tagged: "predictable (\<lambda>s. encode_tagged ?func s f data)" for data
    by (rule predictable_tagged [where func = ?func, OF func])
  have array: "predictable (\<lambda>s. encode_array ?func m s f data count)" for data count
    by (rule predictable_array [where func = ?func, OF func encoders_fixed_width])
  show ?thesis
    unfolding encode_basic_field_def Let_def
    by (intro predictable_intros tagged array)
qed

lemma emits_error:
  assumes "emits enc bs"
    and "\<And>s. enc' s = map_option (\<lambda>(ok, s'). (ok, if ok then s' else os_set_error s' msg)) (enc s)"
  shows "emits enc' bs"
  unfolding emits_def
proof (intro conjI allI impI)
  fix s :: "'a pb_ostream" assume s: "is_sizing s" "bytes_written s < size_mod"
  show "\<exists>t. enc' s = Some (True, t) \<and> is_sizing t
      \<and> bytes_written t = (bytes_written s + length bs) mod size_mod"
    by (rule emits_sizing [OF assms(1) s]) (simp add: assms(2))
next
  fix s :: "'a pb_ostream" and ws cap
  assume s: "room_ok s" "os_sink s = Buf_sink ws cap" "bytes_written s + length bs \<le> max_size s"
  show "\<exists>t. enc' s = Some (True, t) \<and> os_sink t = Buf_sink (ws @ bs) cap
      \<and> bytes_written t = bytes_written s + length bs \<and> max_size t = max_size s"
    by (rule emits_fits [OF assms(1) s]) (simp add: assms(2))
next
  fix s :: "'a pb_ostream" and ws cap
  assume s: "room_ok s" "os_sink s = Buf_sink ws cap" "max_size s < bytes_written s + length bs"
    "max_size s + length bs < size_mod"
  show "\<exists>t. enc' s = Some (False, t) \<and> appends s t"
    by (rule emits_full [OF assms(1) s]) (simp add: assms(2))
qed

lemma predictable_callback:
  assumes "env_predictable E"
  shows "predictable (\<lambda>s. Some (encode_callback_field E m s f p))"
proof (cases "rd_ptr m p = 0")
  case True
  then show ?thesis by (simp add: encode_callback_field_def predictable_True)
next
  case False
  let ?cb = "\<lambda>s. ee_callback E (rd_ptr m p) s f (p + 8)"
  have eq: "encode_callback_field E m s f p =
      (case ?cb s of (ok, s') \<Rightarrow> (ok, if ok then s' else os_set_error s' ''callback error''))" for s
    using False by (simp add: encode_callback_field_def split: prod.splits bool.splits)
  have "emits (\<lambda>s. Some (encode_callback_field E m s f p)) bs" if "emits (\<lambda>s. Some (?cb s)) bs" for bs
    by (rule emits_error [OF that, where msg = "''callback error''"])
      (simp add: eq split: prod.splits)
  moreover have "predictable (\<lambda>s. Some (?cb s))" using assms by (simp add: env_predictable_def)
  ultimately show ?thesis
    unfolding predictable_def by (auto simp: eq split: prod.splits bool.splits) blast
qed

lemma predictable_field:
  assumes "env_predictable E" and "\<And>fs src. predictable (\<lambda>s. rec s fs src)"
  shows "predictable (\<lambda>s. encode_field E n rec m s f p)"
  unfolding encode_field_def
  by (intro predictable_intros predictable_basic_field predictable_callback assms)

lemma predictable_extensions:
  assumes "env_predictable E" and "\<And>fs src. predictable (\<lambda>s. rec s fs src)"
  shows "predictable (\<lambda>s. encode_extensions E n k rec m s ext)"
proof (induction k arbitrary: ext)
  case 0
  show ?case by (simp add: predictable_intros)
next
  case (Suc k)
  let ?enc = "ext_type_encode m (ext_type m ext)"
  let ?one = "\<lambda>s. if ?enc \<noteq> 0 then Some (ee_ext_encode E ?enc s ext)
    else default_extension_encoder E n rec m s ext"
  have "predictable (\<lambda>s. default_extension_encoder E n rec m s ext)"
    unfolding default_extension_encoder_def Let_def by (rule predictable_field [OF assms])
  moreover have "predictable (\<lambda>s. Some (ee_ext_encode E ?enc s ext))"
    using assms(1) by (simp add: env_predictable_def)
  ultimately have one: "predictable ?one" by (intro predictable_if)
  have "(\<lambda>s. encode_extensions E n (Suc k) rec m s ext) =
      (\<lambda>s. if ext = 0 then Some (True, s)
           else enc_seq ?one (\<lambda>s. encode_extensions E n k rec m s (ext_next m ext)) s)"
    by (rule ext) (simp add: enc_seq_def Let_def)
  then show ?case by (simp only:) (intro predictable_if predictable_True predictable_seq one Suc)
qed

lemma predictable_fields:
  assumes "env_predictable E" and "\<And>fs src. predictable (\<lambda>s. rec s fs src)"
  shows "predictable (\<lambda>s. encode_fields E n rec m k s it)"
proof (induction k arbitrary: it)
  case 0
  show ?case by (simp add: predictable_None)
next
  case (Suc k)
  let ?f = "cur_field it"
  let ?one = "\<lambda>s. if PB_LTYPE (f_type ?f) = PB_LTYPE_EXTENSION
    then encode_extension_field E n rec m s ?f (pData it)
    else encode_field E n rec m s ?f (pData it)"
  let ?rest = "case pb_field_iter_next it of
      (True, it') \<Rightarrow> (\<lambda>s. encode_fields E n rec m k s it') | (False, _) \<Rightarrow> (\<lambda>s. Some (True, s))"
  have "(\<lambda>s. encode_fields E n rec m (Suc k) s it) = enc_seq ?one ?rest"
    by (rule ext) (simp add: enc_seq_def Let_def split: prod.splits bool.splits option.splits)
  moreover have "predictable ?one"
    unfolding encode_extension_field_def
    by (intro predictable_if predictable_extensions predictable_field assms)
  moreover have "predictable ?rest"
    using Suc by (simp add: predictable_True split: prod.splits bool.splits)
  ultimately show ?case by (simp only: predictable_seq)
qed

lemma predictable_encode:
  assumes "env_predictable E"
  shows "predictable (\<lambda>s. pb_encode E n m s fs src)"
proof (induction n arbitrary: fs src)
  case 0
  show ?case by (simp add: predictable_None)
next
  case (Suc n)
  have "(\<lambda>s. pb_encode E (Suc n) m s fs src) =
      (case pb_field_iter_begin fs src 0 of
         (False, _) \<Rightarrow> (\<lambda>s. Some (True, s))
       | (True, it) \<Rightarrow> (\<lambda>s. encode_fields E n (\<lambda>s fs src. pb_encode E n m s fs src) m (length fs) s it))"
    by (rule ext) (simp split: prod.splits bool.splits)
  then show ?case
    using predictable_fields [OF assms Suc] by (simp add: predictable_True split: prod.splits bool.splits)
qed

section \<open>Properties\<close>

text \<open>C4. The size computed by \<open>pb_get_encoded_size\<close> is the size of the encoding. When it returns a
  size, there is one byte string of that length (modulo \<open>2 ^ 64\<close>) such that \<open>pb_encode\<close> on every
  buffer stream with room for it returns true and stores exactly that string, and on every buffer
  stream with less room returns false, having stored only bytes within its limit, provided the size of the
  buffer and that of the string together stay below \<open>2 ^ 64\<close>. Callbacks of the
  application are assumed to keep the same contract (\<open>env_predictable\<close>).\<close>

theorem encoded_size_predicts_encode:
  assumes "env_predictable E" and "pb_get_encoded_size E n m fs src = Some (Some sz)"
  shows "\<exists>bs. sz = length bs mod size_mod \<and>
    (\<forall>cap bufsize. bufsize \<le> cap \<longrightarrow> bufsize < size_mod \<longrightarrow>
       (length bs \<le> bufsize \<longrightarrow>
          (\<exists>t. pb_encode E n m (pb_ostream_from_buffer cap bufsize) fs src = Some (True, t)
             \<and> os_sink t = Buf_sink bs cap \<and> bytes_written t = length bs)) \<and>
       (bufsize < length bs \<longrightarrow> bufsize + length bs < size_mod \<longrightarrow>
          (\<exists>t ws. pb_encode E n m (pb_ostream_from_buffer cap bufsize) fs src = Some (False, t)
             \<and> os_sink t = Buf_sink ws cap \<and> length ws \<le> bufsize)))"
proof -
  let ?enc = "\<lambda>s. pb_encode E n m s fs src"
  let ?s = "\<lambda>cap bufsize. pb_ostream_from_buffer cap bufsize :: 'a pb_ostream"
  obtain t where t: "?enc PB_OSTREAM_SIZING = Some (True, t)" "bytes_written t = sz"
    using assms(2) by (auto simp: pb_get_encoded_size_def split: option.splits bool.splits)
  obtain bs where bs: "emits ?enc bs" "sz = length bs mod size_mod"
    using predictable_sizing [OF predictable_encode [OF assms(1)] t(1)] t(2) by blast
  have sink: "os_sink (?s cap bufsize) = Buf_sink [] cap" for cap bufsize
    by (simp add: pb_ostream_from_buffer_def)
  have room: "room_ok (?s cap bufsize)" "bytes_written (?s cap bufsize) = 0"
    "max_size (?s cap bufsize) = bufsize" if "bufsize \<le> cap" "bufsize < size_mod" for cap bufsize
    using that by (simp_all add: pb_ostream_from_buffer_def room_ok_def)
  show ?thesis
  proof (intro exI [of _ bs] conjI allI impI)
    fix cap bufsize assume b: "bufsize \<le> cap" "bufsize < size_mod"
    note r = room [OF b]
    { assume "length bs \<le> bufsize"
      then show "\<exists>t. ?enc (?s cap bufsize) = Some (True, t) \<and> os_sink t = Buf_sink bs cap
          \<and> bytes_written t = length bs"
        using emits_fits [OF bs(1) r(1) sink] r(2,3) by force }
    { assume "bufsize < length bs" "bufsize + length bs < size_mod"
      then obtain t where "?enc (?s cap bufsize) = Some (False, t)" "appends (?s cap bufsize) t"
        using emits_full [OF bs(1) r(1) sink] r(2,3) by force
      then show "\<exists>t ws. ?enc (?s cap bufsize) = Some (False, t) \<and> os_sink t = Buf_sink ws cap
          \<and> length ws \<le> bufsize"
        using r sink [of cap bufsize] by (auto simp: appends_def) }
  qed (rule bs(2))
qed

text \<open>
  A message with one required submessage, itself one required \<open>uint32\<close> field of value 300 at
  address 100.
\<close>

definition sample_inner :: pb_field where
  "sample_inner = \<lparr>f_tag = 1, f_type = 0x02, data_offset = 0, size_offset = 0, data_size = 4,
     array_size = 0, f_ptr = 0\<rparr>"

definition sample_outer :: pb_field where
  "sample_outer = \<lparr>f_tag = 1, f_type = 0x08, data_offset = 0, size_offset = 0, data_size = 4,
     array_size = 0, f_ptr = 7\<rparr>"

definition sample_env :: "unit enc_env" where
  "sample_env = \<lparr>ee_desc = (\<lambda>a. if a = 7 then [sample_inner] else []),
     ee_callback = (\<lambda>cb s f a. (True, s)), ee_ext_encode = (\<lambda>cb s e. (True, s))\<rparr>"

definition sample_mem :: mem where
  "sample_mem a = (if a = 100 then 44 else if a = 101 then 1 else 0)"

lemma sample_env_predictable: "env_predictable sample_env"
  by (simp add: env_predictable_def sample_env_def predictable_True)

lemma varint_bytes_8: "varint_bytes 8 = [8]" and varint_bytes_10: "varint_bytes 10 = [10]"
  and varint_bytes_300: "varint_bytes 300 = [172, 2]" and varint_bytes_3: "varint_bytes 3 = [3]"
  by code_simp+

lemma tag_words: "tag_word 0 1 = 8" "tag_word 2 1 = 10"
  by code_simp+

lemma sample_rd: "rd_u sample_mem 100 4 = 300"
  by (simp add: rd_u_def mload_def sample_mem_def upt_conv_Cons)

lemma sample_encoded_size:
  "pb_get_encoded_size sample_env (Suc (Suc 0)) sample_mem [sample_outer] 100 = Some (Some 5)"
  by (simp add: pb_get_encoded_size_def pb_field_iter_begin_def pb_field_iter_next_def
      cur_field_def field_at_def sample_outer_def PB_LAST_FIELD_def PB_LTYPE_def PB_HTYPE_def
      PB_ATYPE_def encode_field_def encode_basic_field_def encode_tagged_def PB_ENCODERS_def
      pb_encode_tag_for_field_def pb_encode_tag_def pb_encode_varint_def pb_enc_submessage_def
      pb_encode_submessage_def sample_env_def sample_inner_def pb_enc_uvarint_def read_unsigned_def
      sample_rd pb_write_def PB_OSTREAM_SIZING_def is_sizing_def size_mod_def Let_def
      varint_bytes_8 varint_bytes_10 varint_bytes_300 varint_bytes_3 tag_words)

theorem encoded_size_predicts_encode_witness:
  "\<exists>bs. 5 = length bs mod size_mod \<and>
    (\<forall>cap bufsize. bufsize \<le> cap \<longrightarrow> bufsize < size_mod \<longrightarrow>
       (length bs \<le> bufsize \<longrightarrow>
          (\<exists>t. pb_encode sample_env (Suc (Suc 0)) sample_mem (pb_ostream_from_buffer cap bufsize) [sample_outer] 100
             = Some (True, t)
             \<and> os_sink t = Buf_sink bs cap \<and> bytes_written t = length bs)) \<and>
       (bufsize < length bs \<longrightarrow> bufsize + length bs < size_mod \<longrightarrow>
          (\<exists>t ws. pb_encode sample_env (Suc (Suc 0)) sample_mem (pb_ostream_from_buffer cap bufsize) [sample_outer] 100
             = Some (False, t)
             \<and> os_sink t = Buf_sink ws cap \<and> length ws \<le> bufsize)))"
  by (rule encoded_size_predicts_encode [OF sample_env_predictable sample_encoded_size])

end
