(* ===== verification/Pb_Decode.thy ===== *)
theory Pb_Decode
  imports Pb_Istream Pb_Encode
begin

unbundle bit_operations_syntax

text \<open>
  The message decoder of nanopb (\<open>pb_decode.c\<close>, built with \<open>PB_ENABLE_MALLOC\<close>).

  The decoder writes to memory, allocates and frees.  Its state \<open>cmem\<close> is the memory and the
  live blocks of the C heap (base address to size).  What it reaches through pointers to other
  translation units is in the environment \<open>dec_env\<close>: the descriptor array at an address, the
  placement policy of \<open>realloc\<close> (0 when it fails) and the functions of the application that a
  callback field or an extension type points to.

  \<open>pb_decode_noinit\<close> is recursive through the table \<open>PB_DECODERS\<close> and \<open>pb_dec_submessage\<close>; the
  functions below it take the recursive call as the argument \<open>rec\<close>.  The fuel \<open>n\<close> bounds the
  nesting depth, the length of an extension list and the repetitions of a callback.  A run
  that does not return or is undefined in C is \<open>Stuck\<close> (fuel exhausted, a null entry of the table
  called, a division by zero, a block released that is not live) and keeps the stream as it was at
  that point, so that what was read up to there can still be talked about; the functions on memory
  alone return \<open>None\<close> instead.

  \<open>pb_size_t\<close> is 32 bits wide, so \<open>data_size * *size\<close> is computed modulo \<open>2 ^ 32\<close>.
\<close>

section \<open>State and environment\<close>

record cmem =
  cm_mem :: mem
  cm_heap :: "addr \<Rightarrow> nat option"

text \<open>A run that returns is \<open>Done\<close>; one that stops before is \<open>Stuck\<close>, with the stream that it was working on.\<close>

datatype ('s, 'a) run = Stuck "'s pb_istream" | Done 'a

type_synonym 's dec_result = "('s, bool \<times> 's pb_istream \<times> cmem) run"
type_synonym 's dec_iter_result = "('s, bool \<times> 's pb_istream \<times> cmem \<times> pb_field_iter) run"

record 's dec_env =
  de_desc :: "addr \<Rightarrow> pb_field list"
  de_realloc :: "(addr \<Rightarrow> nat option) \<Rightarrow> addr \<Rightarrow> nat \<Rightarrow> addr"
  de_callback :: "addr \<Rightarrow> 's pb_istream \<Rightarrow> pb_field \<Rightarrow> addr \<Rightarrow> cmem \<Rightarrow> bool \<times> 's pb_istream \<times> cmem"
  de_ext_decode :: "addr \<Rightarrow> 's pb_istream \<Rightarrow> addr \<Rightarrow> nat \<Rightarrow> nat \<Rightarrow> cmem \<Rightarrow> bool \<times> 's pb_istream \<times> cmem"

abbreviation cm_store :: "cmem \<Rightarrow> addr \<Rightarrow> byte list \<Rightarrow> cmem" where
  "cm_store c a bs \<equiv> c\<lparr>cm_mem := mstore (cm_mem c) a bs\<rparr>"

abbreviation cm_wr :: "cmem \<Rightarrow> addr \<Rightarrow> nat \<Rightarrow> nat \<Rightarrow> cmem" where
  "cm_wr c a n v \<equiv> c\<lparr>cm_mem := wr_u (cm_mem c) a n v\<rparr>"

text \<open>\<open>*(pb_size_t*)iter->pSize\<close>, read and written, and \<open>*(bool*)iter->pSize\<close>, written.  Only
  repeated fields have \<open>pSize\<close> redirected, so the boolean is always in memory.\<close>

definition rd_count :: "mem \<Rightarrow> pb_field_iter \<Rightarrow> nat" where
  "rd_count m it = (case pSize it of Size_at a \<Rightarrow> rd_size m a | Size_local \<Rightarrow> local_count it)"

definition wr_count :: "cmem \<Rightarrow> pb_field_iter \<Rightarrow> nat \<Rightarrow> cmem \<times> pb_field_iter" where
  "wr_count c it v =
     (case pSize it of
        Size_at a \<Rightarrow> (cm_wr c a 4 v, it)
      | Size_local \<Rightarrow> (c, it\<lparr>local_count := v mod 2 ^ 32\<rparr>))"

definition wr_has :: "mem \<Rightarrow> pb_field_iter \<Rightarrow> bool \<Rightarrow> mem" where
  "wr_has m it b =
     (case pSize it of Size_at a \<Rightarrow> mstore m a [if b then 1 else 0] | Size_local \<Rightarrow> m)"

definition ext_found :: "addr \<Rightarrow> addr" where "ext_found e = e + 24"

definition item_addr :: "addr \<Rightarrow> pb_field \<Rightarrow> nat \<Rightarrow> addr" where
  "item_addr base f i = base + (data_size f * i) mod 2 ^ 32"

section \<open>Default values\<close>

definition iter_from_extension :: "(addr \<Rightarrow> pb_field list) \<Rightarrow> mem \<Rightarrow> addr \<Rightarrow> pb_field_iter" where
  "iter_from_extension D m e =
     (let fs = D (ext_type_arg m (ext_type m e));
          it = snd (pb_field_iter_begin fs (ext_dest m e) 0)
      in it\<lparr>pData := (if PB_ATYPE (f_type (field_at fs 0)) = PB_ATYPE_POINTER
                     then e + 8 else ext_dest m e),
            pSize := Size_at (ext_found e)\<rparr>)"

text \<open>The loop of \<open>pb_message_set_to_defaults\<close>; \<open>recf\<close> is \<open>pb_field_set_to_default\<close>.\<close>

fun defaults_loop ::
  "(mem \<Rightarrow> pb_field_iter \<Rightarrow> mem option) \<Rightarrow> nat \<Rightarrow> mem \<Rightarrow> pb_field_iter \<Rightarrow> mem option" where
  "defaults_loop recf 0 m it = None"
| "defaults_loop recf (Suc k) m it =
     (case recf m it of
        None \<Rightarrow> None
      | Some m' \<Rightarrow>
          (case pb_field_iter_next it of
             (True, it') \<Rightarrow> defaults_loop recf k m' it'
           | (False, _) \<Rightarrow> Some m'))"

definition message_defaults ::
  "(mem \<Rightarrow> pb_field_iter \<Rightarrow> mem option) \<Rightarrow> mem \<Rightarrow> pb_field list \<Rightarrow> addr \<Rightarrow> mem option" where
  "message_defaults recf m fs dest =
     (case pb_field_iter_begin fs dest 0 of
        (False, _) \<Rightarrow> Some m
      | (True, it) \<Rightarrow> defaults_loop recf (length fs) m it)"

fun ext_defaults_loop ::
  "(addr \<Rightarrow> pb_field list) \<Rightarrow> (mem \<Rightarrow> pb_field_iter \<Rightarrow> mem option) \<Rightarrow> nat \<Rightarrow> mem \<Rightarrow> addr
     \<Rightarrow> mem option" where
  "ext_defaults_loop D recf 0 m e = (if e = 0 then Some m else None)"
| "ext_defaults_loop D recf (Suc k) m e =
     (if e = 0 then Some m
      else let m1 = mstore m (ext_found e) [0] in
           case recf m1 (iter_from_extension D m1 e) of
             None \<Rightarrow> None
           | Some m2 \<Rightarrow> ext_defaults_loop D recf k m2 (ext_next m2 e))"

fun pb_field_set_to_default ::
  "(addr \<Rightarrow> pb_field list) \<Rightarrow> nat \<Rightarrow> mem \<Rightarrow> pb_field_iter \<Rightarrow> mem option" where
  "pb_field_set_to_default D 0 m it = None"
| "pb_field_set_to_default D (Suc n) m it =
     (let f = cur_field it; ty = f_type f in
      if PB_LTYPE ty = PB_LTYPE_EXTENSION
      then ext_defaults_loop D (\<lambda>m it. pb_field_set_to_default D n m it) n m (rd_ptr m (pData it))
      else if PB_ATYPE ty = PB_ATYPE_STATIC then
        let counted = PB_HTYPE ty = PB_HTYPE_REPEATED \<or> PB_HTYPE ty = PB_HTYPE_ONEOF;
            m1 = (if PB_HTYPE ty = PB_HTYPE_OPTIONAL \<and> pSize it \<noteq> Size_at (pData it)
                  then wr_has m it False
                  else if counted then cm_mem (fst (wr_count \<lparr>cm_mem = m, cm_heap = Map.empty\<rparr> it 0))
                  else m)
        in if counted then Some m1
           else if PB_LTYPE ty = PB_LTYPE_SUBMESSAGE
           then message_defaults (\<lambda>m it. pb_field_set_to_default D n m it) m1 (D (f_ptr f)) (pData it)
           else if f_ptr f \<noteq> 0
           then Some (mstore m1 (pData it) (mload m1 (f_ptr f) (data_size f)))
           else Some (mstore m1 (pData it) (replicate (data_size f) 0))
      else if PB_ATYPE ty = PB_ATYPE_POINTER then
        let m1 = wr_u m (pData it) 8 0
        in if PB_HTYPE ty = PB_HTYPE_REPEATED \<or> PB_HTYPE ty = PB_HTYPE_ONEOF
           then Some (cm_mem (fst (wr_count \<lparr>cm_mem = m1, cm_heap = Map.empty\<rparr> it 0)))
           else Some m1
      else Some m)"

definition pb_message_set_to_defaults ::
  "(addr \<Rightarrow> pb_field list) \<Rightarrow> nat \<Rightarrow> mem \<Rightarrow> pb_field list \<Rightarrow> addr \<Rightarrow> mem option" where
  "pb_message_set_to_defaults D n m fs dest = message_defaults (pb_field_set_to_default D n) m fs dest"

section \<open>Releasing\<close>

definition pb_free :: "cmem \<Rightarrow> addr \<Rightarrow> cmem option" where
  "pb_free c p =
     (if p = 0 then Some c
      else if cm_heap c p = None then None
      else Some (c\<lparr>cm_heap := (cm_heap c)(p := None)\<rparr>))"

fun release_loop ::
  "(cmem \<Rightarrow> pb_field_iter \<Rightarrow> cmem option) \<Rightarrow> nat \<Rightarrow> cmem \<Rightarrow> pb_field_iter \<Rightarrow> cmem option" where
  "release_loop recf 0 c it = None"
| "release_loop recf (Suc k) c it =
     (case recf c it of
        None \<Rightarrow> None
      | Some c' \<Rightarrow>
          (case pb_field_iter_next it of
             (True, it') \<Rightarrow> release_loop recf k c' it'
           | (False, _) \<Rightarrow> Some c'))"

definition release_message ::
  "(cmem \<Rightarrow> pb_field_iter \<Rightarrow> cmem option) \<Rightarrow> cmem \<Rightarrow> pb_field list \<Rightarrow> addr \<Rightarrow> cmem option" where
  "release_message recf c fs dest =
     (if dest = 0 then Some c
      else case pb_field_iter_begin fs dest 0 of
             (False, _) \<Rightarrow> Some c
           | (True, it) \<Rightarrow> release_loop recf (length fs) c it)"

text \<open>The three inner loops of \<open>pb_release_single_field\<close>.\<close>

fun release_ext_loop ::
  "(addr \<Rightarrow> pb_field list) \<Rightarrow> (cmem \<Rightarrow> pb_field_iter \<Rightarrow> cmem option) \<Rightarrow> nat \<Rightarrow> cmem \<Rightarrow> addr
     \<Rightarrow> cmem option" where
  "release_ext_loop D recf 0 c e = (if e = 0 then Some c else None)"
| "release_ext_loop D recf (Suc k) c e =
     (if e = 0 then Some c
      else case recf c (iter_from_extension D (cm_mem c) e) of
             None \<Rightarrow> None
           | Some c' \<Rightarrow> release_ext_loop D recf k c' (ext_next (cm_mem c') e))"

fun release_items ::
  "(cmem \<Rightarrow> pb_field_iter \<Rightarrow> cmem option) \<Rightarrow> pb_field list \<Rightarrow> nat \<Rightarrow> cmem \<Rightarrow> addr \<Rightarrow> nat
     \<Rightarrow> cmem option" where
  "release_items recf fs dsz c p 0 = Some c"
| "release_items recf fs dsz c p (Suc count) =
     (case release_message recf c fs p of
        None \<Rightarrow> None
      | Some c' \<Rightarrow> release_items recf fs dsz c' (p + dsz) count)"

fun release_strings :: "cmem \<Rightarrow> addr \<Rightarrow> nat \<Rightarrow> cmem option" where
  "release_strings c p 0 = Some c"
| "release_strings c p (Suc count) =
     (case pb_free c (rd_ptr (cm_mem c) p) of
        None \<Rightarrow> None
      | Some c' \<Rightarrow> release_strings (cm_wr c' p 8 0) (p + 8) count)"

text \<open>The last part of \<open>pb_release_single_field\<close>: the pointer itself.\<close>

definition release_pointer :: "cmem \<Rightarrow> pb_field_iter \<Rightarrow> cmem option" where
  "release_pointer c it =
     (let ty = f_type (cur_field it);
          repeated = PB_HTYPE ty = PB_HTYPE_REPEATED
      in case (if repeated \<and> (PB_LTYPE ty = PB_LTYPE_STRING \<or> PB_LTYPE ty = PB_LTYPE_BYTES)
               then release_strings c (rd_ptr (cm_mem c) (pData it)) (rd_count (cm_mem c) it)
               else Some c) of
           None \<Rightarrow> None
         | Some c1 \<Rightarrow>
             let c2 = (if repeated then fst (wr_count c1 it 0) else c1) in
             case pb_free c2 (rd_ptr (cm_mem c2) (pData it)) of
               None \<Rightarrow> None
             | Some c3 \<Rightarrow> Some (cm_wr c3 (pData it) 8 0))"

fun pb_release_single_field ::
  "(addr \<Rightarrow> pb_field list) \<Rightarrow> nat \<Rightarrow> cmem \<Rightarrow> pb_field_iter \<Rightarrow> cmem option" where
  "pb_release_single_field D 0 c it = None"
| "pb_release_single_field D (Suc n) c it =
     (let f = cur_field it; ty = f_type f; m = cm_mem c in
      if PB_HTYPE ty = PB_HTYPE_ONEOF \<and> rd_count m it \<noteq> f_tag f then Some c
      else
        case (if PB_LTYPE ty = PB_LTYPE_EXTENSION
              then release_ext_loop D (\<lambda>c it. pb_release_single_field D n c it) n c (rd_ptr m (pData it))
              else if PB_LTYPE ty = PB_LTYPE_SUBMESSAGE \<and> PB_ATYPE ty \<noteq> PB_ATYPE_CALLBACK then
                let pItem = (if PB_ATYPE ty = PB_ATYPE_POINTER then rd_ptr m (pData it) else pData it);
                    count0 = (if PB_ATYPE ty = PB_ATYPE_STATIC \<and> pSize it = Size_at (pData it)
                              then array_size f else rd_count m it);
                    count = (if PB_HTYPE ty = PB_HTYPE_REPEATED
                             then if PB_ATYPE ty = PB_ATYPE_STATIC \<and> count0 > array_size f
                                  then array_size f else count0
                             else 1)
                in if pItem \<noteq> 0
                   then release_items (\<lambda>c it. pb_release_single_field D n c it) (D (f_ptr f)) (data_size f)
                          c pItem count
                   else Some c
              else Some c) of
          None \<Rightarrow> None
        | Some c' \<Rightarrow> if PB_ATYPE ty = PB_ATYPE_POINTER then release_pointer c' it else Some c')"

definition pb_release ::
  "(addr \<Rightarrow> pb_field list) \<Rightarrow> nat \<Rightarrow> cmem \<Rightarrow> pb_field list \<Rightarrow> addr \<Rightarrow> cmem option" where
  "pb_release D n c fs dest = release_message (pb_release_single_field D n) c fs dest"

text \<open>Releasing the old member of a union.  The search moves the iterator, and restores it.\<close>

definition pb_release_union_field ::
  "(addr \<Rightarrow> pb_field list) \<Rightarrow> nat \<Rightarrow> 's pb_istream \<Rightarrow> cmem \<Rightarrow> pb_field_iter \<Rightarrow> 's dec_iter_result" where
  "pb_release_union_field D n s c it =
     (let old_tag = rd_count (cm_mem c) it; new_tag = f_tag (cur_field it) in
      if old_tag = 0 \<or> old_tag = new_tag then Done (True, s, c, it)
      else case pb_field_iter_find it old_tag of
        None \<Rightarrow> Stuck s
      | Some (False, it1) \<Rightarrow> Done (False, is_set_error s ''invalid union tag'', c, it1)
      | Some (True, it1) \<Rightarrow>
          (case pb_release_single_field D n c it1 of
             None \<Rightarrow> Stuck s
           | Some c' \<Rightarrow>
               (case pb_field_iter_find it1 new_tag of
                  None \<Rightarrow> Stuck s
                | Some (False, it2) \<Rightarrow> Done (False, is_set_error s ''iterator error'', c', it2)
                | Some (True, it2) \<Rightarrow>
                    Done (True, s,
                      if PB_ATYPE (f_type (cur_field it2)) = PB_ATYPE_POINTER
                      then cm_wr c' (pData it2) 8 0 else c', it2))))"

section \<open>Allocation\<close>

text \<open>
  \<open>realloc\<close>: the new block holds the old contents up to the smaller size and the old block is
  gone; when it fails everything is unchanged.
\<close>

definition pb_realloc :: "'s dec_env \<Rightarrow> cmem \<Rightarrow> addr \<Rightarrow> nat \<Rightarrow> (addr \<times> cmem) option" where
  "pb_realloc E c p sz =
     (if p \<noteq> 0 \<and> cm_heap c p = None then None
      else let q = de_realloc E (cm_heap c) p sz;
               old = (case cm_heap c p of None \<Rightarrow> 0 | Some k \<Rightarrow> k)
           in if q = 0 then Some (0, c)
              else Some (q, \<lparr>cm_mem = mstore (cm_mem c) q (mload (cm_mem c) p (min old sz)),
                             cm_heap = (cm_heap c)(p := None, q := Some sz)\<rparr>))"

definition allocate_field ::
  "'s dec_env \<Rightarrow> 's pb_istream \<Rightarrow> cmem \<Rightarrow> addr \<Rightarrow> nat \<Rightarrow> nat \<Rightarrow> 's dec_result" where
  "allocate_field E s c p dsz asz =
     (if dsz = 0 \<or> asz = 0 then Done (False, is_set_error s ''invalid size'', c)
      else if (dsz \<ge> 2 ^ 32 \<or> asz \<ge> 2 ^ 32) \<and> (size_mod - 1) div asz < dsz
      then Done (False, is_set_error s ''size too large'', c)
      else case pb_realloc E c (rd_ptr (cm_mem c) p) ((asz * dsz) mod size_mod) of
             None \<Rightarrow> Stuck s
           | Some (q, c') \<Rightarrow>
               if q = 0 then Done (False, is_set_error s ''realloc failed'', c')
               else Done (True, s, cm_wr c' p 8 q))"

definition initialize_pointer_field ::
  "(addr \<Rightarrow> pb_field list) \<Rightarrow> nat \<Rightarrow> cmem \<Rightarrow> addr \<Rightarrow> pb_field \<Rightarrow> cmem option" where
  "initialize_pointer_field D n c p f =
     (let lt = PB_LTYPE (f_type f) in
      if lt = PB_LTYPE_STRING \<or> lt = PB_LTYPE_BYTES then Some (cm_wr c p 8 0)
      else if lt = PB_LTYPE_SUBMESSAGE
      then map_option (\<lambda>m. c\<lparr>cm_mem := m\<rparr>)
             (pb_message_set_to_defaults D n (mstore (cm_mem c) p (replicate (data_size f) 0))
               (D (f_ptr f)) p)
      else Some c)"

section \<open>Field decoders\<close>

definition pb_dec_bool :: "'s pb_istream \<Rightarrow> pb_field \<Rightarrow> addr \<Rightarrow> cmem \<Rightarrow> bool \<times> 's pb_istream \<times> cmem" where
  "pb_dec_bool s f dest c =
     (case pb_decode_varint32 s of
        (None, s') \<Rightarrow> (False, s', c)
      | (Some v, s') \<Rightarrow> (True, s', cm_store c dest [if v \<noteq> 0 then 1 else 0]))"

text \<open>
  Storing a value of \<open>n\<close> bytes and comparing it with the value before the cast.
\<close>

definition store_signed ::
  "'s pb_istream \<Rightarrow> nat \<Rightarrow> addr \<Rightarrow> int \<Rightarrow> cmem \<Rightarrow> bool \<times> 's pb_istream \<times> cmem" where
  "store_signed s n dest v c =
     (if n \<notin> {1, 2, 4, 8} then (False, is_set_error s ''invalid data_size'', c)
      else let c' = cm_wr c dest n (of_signed (8 * n) v) in
           if to_signed (8 * n) (of_signed (8 * n) v) \<noteq> v
           then (False, is_set_error s ''integer too large'', c')
           else (True, s, c'))"

definition pb_dec_varint :: "'s pb_istream \<Rightarrow> pb_field \<Rightarrow> addr \<Rightarrow> cmem \<Rightarrow> bool \<times> 's pb_istream \<times> cmem" where
  "pb_dec_varint s f dest c =
     (case pb_decode_varint s of
        (None, s') \<Rightarrow> (False, s', c)
      | (Some v, s') \<Rightarrow>
          store_signed s' (data_size f) dest
            (if data_size f = 8 then sint v else sint (ucast v :: 32 word)) c)"

definition pb_dec_uvarint :: "'s pb_istream \<Rightarrow> pb_field \<Rightarrow> addr \<Rightarrow> cmem \<Rightarrow> bool \<times> 's pb_istream \<times> cmem" where
  "pb_dec_uvarint s f dest c =
     (case pb_decode_varint s of
        (None, s') \<Rightarrow> (False, s', c)
      | (Some v, s') \<Rightarrow>
          if data_size f \<notin> {1, 2, 4, 8} then (False, is_set_error s' ''invalid data_size'', c)
          else let c' = cm_wr c dest (data_size f) (unat v) in
               if unat v mod 256 ^ data_size f \<noteq> unat v
               then (False, is_set_error s' ''integer too large'', c')
               else (True, s', c'))"

definition pb_dec_svarint :: "'s pb_istream \<Rightarrow> pb_field \<Rightarrow> addr \<Rightarrow> cmem \<Rightarrow> bool \<times> 's pb_istream \<times> cmem" where
  "pb_dec_svarint s f dest c =
     (case pb_decode_svarint s of
        (None, s') \<Rightarrow> (False, s', c)
      | (Some v, s') \<Rightarrow> store_signed s' (data_size f) dest (sint v) c)"

definition pb_dec_fixed32 :: "'s pb_istream \<Rightarrow> pb_field \<Rightarrow> addr \<Rightarrow> cmem \<Rightarrow> bool \<times> 's pb_istream \<times> cmem" where
  "pb_dec_fixed32 s f dest c =
     (case pb_decode_fixed32 s of
        (None, s') \<Rightarrow> (False, s', c)
      | (Some v, s') \<Rightarrow> (True, s', cm_wr c dest 4 (unat v)))"

definition pb_dec_fixed64 :: "'s pb_istream \<Rightarrow> pb_field \<Rightarrow> addr \<Rightarrow> cmem \<Rightarrow> bool \<times> 's pb_istream \<times> cmem" where
  "pb_dec_fixed64 s f dest c =
     (case pb_decode_fixed64 s of
        (None, s') \<Rightarrow> (False, s', c)
      | (Some v, s') \<Rightarrow> (True, s', cm_wr c dest 8 (unat v)))"

text \<open>
  \<open>pb_read\<close> into memory.  A failing read leaves the destination as it was (\<open>buf_read\<close> is not
  called; a failing callback of the application is taken to store nothing).
\<close>

definition pb_read_to :: "'s pb_istream \<Rightarrow> cmem \<Rightarrow> addr \<Rightarrow> nat \<Rightarrow> bool \<times> 's pb_istream \<times> cmem" where
  "pb_read_to s c dest count =
     (case pb_read s count of
        (None, s') \<Rightarrow> (False, s', c)
      | (Some bs, s') \<Rightarrow> (True, s', cm_store c dest bs))"

definition pb_dec_bytes ::
  "'s dec_env \<Rightarrow> 's pb_istream \<Rightarrow> pb_field \<Rightarrow> addr \<Rightarrow> cmem \<Rightarrow> 's dec_result" where
  "pb_dec_bytes E s f dest c =
     (case pb_decode_varint32 s of
        (None, s') \<Rightarrow> Done (False, s', c)
      | (Some v, s') \<Rightarrow>
          let size = unat v; alloc_size = (size + 4) mod size_mod in
          if size > PB_SIZE_MAX then Done (False, is_set_error s' ''bytes overflow'', c)
          else if size > alloc_size then Done (False, is_set_error s' ''size too large'', c)
          else if PB_ATYPE (f_type f) = PB_ATYPE_POINTER then
            if bytes_left s' < size then Done (False, is_set_error s' ''end-of-stream'', c)
            else (case allocate_field E s' c dest alloc_size 1 of
                    Stuck t \<Rightarrow> Stuck t
                  | Done (False, s'', c') \<Rightarrow> Done (False, s'', c')
                  | Done (True, s'', c') \<Rightarrow>
                      let b = rd_ptr (cm_mem c') dest
                      in Done (pb_read_to s'' (cm_wr c' b 4 size) (b + 4) size))
          else if alloc_size > data_size f then Done (False, is_set_error s' ''bytes overflow'', c)
          else Done (pb_read_to s' (cm_wr c dest 4 size) (dest + 4) size))"

text \<open>\<open>size + 1\<close> is computed on 32 bits.  The terminator is stored whether the read succeeds or not.\<close>

definition read_string_to ::
  "'s pb_istream \<Rightarrow> cmem \<Rightarrow> addr \<Rightarrow> nat \<Rightarrow> bool \<times> 's pb_istream \<times> cmem" where
  "read_string_to s c dest sz =
     (case pb_read_to s c dest sz of (ok, s', c') \<Rightarrow> (ok, s', cm_store c' (dest + sz) [0]))"

definition pb_dec_string ::
  "'s dec_env \<Rightarrow> 's pb_istream \<Rightarrow> pb_field \<Rightarrow> addr \<Rightarrow> cmem \<Rightarrow> 's dec_result" where
  "pb_dec_string E s f dest c =
     (case pb_decode_varint32 s of
        (None, s') \<Rightarrow> Done (False, s', c)
      | (Some v, s') \<Rightarrow>
          let size = unat v; alloc_size = unat (v + 1) in
          if alloc_size < size then Done (False, is_set_error s' ''size too large'', c)
          else if PB_ATYPE (f_type f) = PB_ATYPE_POINTER then
            if bytes_left s' < size then Done (False, is_set_error s' ''end-of-stream'', c)
            else (case allocate_field E s' c dest alloc_size 1 of
                    Stuck t \<Rightarrow> Stuck t
                  | Done (False, s'', c') \<Rightarrow> Done (False, s'', c')
                  | Done (True, s'', c') \<Rightarrow> Done (read_string_to s'' c' (rd_ptr (cm_mem c') dest) size))
          else if alloc_size > data_size f then Done (False, is_set_error s' ''string overflow'', c)
          else Done (read_string_to s' c dest size))"

definition pb_dec_fixed_length_bytes ::
  "'s pb_istream \<Rightarrow> pb_field \<Rightarrow> addr \<Rightarrow> cmem \<Rightarrow> bool \<times> 's pb_istream \<times> cmem" where
  "pb_dec_fixed_length_bytes s f dest c =
     (case pb_decode_varint32 s of
        (None, s') \<Rightarrow> (False, s', c)
      | (Some v, s') \<Rightarrow>
          if unat v > PB_SIZE_MAX then (False, is_set_error s' ''bytes overflow'', c)
          else if v = 0 then (True, s', cm_store c dest (replicate (data_size f) 0))
          else if unat v \<noteq> data_size f
          then (False, is_set_error s' ''incorrect fixed length bytes size'', c)
          else pb_read_to s' c dest (data_size f))"

text \<open>\<open>pb_decode\<close>, given \<open>pb_decode_noinit\<close> as \<open>rec\<close>.\<close>

definition decode_init ::
  "'s dec_env \<Rightarrow> nat \<Rightarrow> ('s pb_istream \<Rightarrow> cmem \<Rightarrow> pb_field list \<Rightarrow> addr \<Rightarrow> 's dec_result)
     \<Rightarrow> 's pb_istream \<Rightarrow> cmem \<Rightarrow> pb_field list \<Rightarrow> addr \<Rightarrow> 's dec_result" where
  "decode_init E n rec s c fs dest =
     (case pb_message_set_to_defaults (de_desc E) n (cm_mem c) fs dest of
        None \<Rightarrow> Stuck s
      | Some m \<Rightarrow>
          (case rec s (c\<lparr>cm_mem := m\<rparr>) fs dest of
             Stuck t \<Rightarrow> Stuck t
           | Done (True, s', c') \<Rightarrow> Done (True, s', c')
           | Done (False, s', c') \<Rightarrow>
               (case pb_release (de_desc E) n c' fs dest of
                  None \<Rightarrow> Stuck s'
                | Some c'' \<Rightarrow> Done (False, s', c''))))"

text \<open>
  A parser run on a length-delimited substream, which is closed afterwards: the frame of
  \<open>pb_dec_submessage\<close> and of the delimited decoders.  A failing close returns \<open>false\<close>.
\<close>

definition close_after ::
  "'s pb_istream \<Rightarrow> 's dec_result \<Rightarrow> 's dec_result" where
  "close_after s r =
     (case r of
        Stuck t \<Rightarrow> Stuck t
      | Done (status, sub, c) \<Rightarrow>
          (case pb_close_string_substream s sub of
             (False, s') \<Rightarrow> Done (False, s', c)
           | (True, s') \<Rightarrow> Done (status, s', c)))"

definition pb_dec_submessage ::
  "'s dec_env \<Rightarrow> nat \<Rightarrow> ('s pb_istream \<Rightarrow> cmem \<Rightarrow> pb_field list \<Rightarrow> addr \<Rightarrow> 's dec_result)
     \<Rightarrow> 's pb_istream \<Rightarrow> pb_field \<Rightarrow> addr \<Rightarrow> cmem \<Rightarrow> 's dec_result" where
  "pb_dec_submessage E n rec s f dest c =
     (case pb_make_string_substream s of
        (None, s') \<Rightarrow> Done (False, s', c)
      | (Some sub, s') \<Rightarrow>
          if f_ptr f = 0 then Done (False, is_set_error s' ''invalid field descriptor'', c)
          else close_after s'
                 (if PB_HTYPE (f_type f) = PB_HTYPE_REPEATED
                  then decode_init E n rec sub c (de_desc E (f_ptr f)) dest
                  else rec sub c (de_desc E (f_ptr f)) dest))"

text \<open>\<open>PB_DECODERS[PB_LTYPE(type)]\<close>; the entry for extensions is \<open>NULL\<close>.\<close>

definition PB_DECODERS ::
  "'s dec_env \<Rightarrow> nat \<Rightarrow> ('s pb_istream \<Rightarrow> cmem \<Rightarrow> pb_field list \<Rightarrow> addr \<Rightarrow> 's dec_result) \<Rightarrow> 8 word
     \<Rightarrow> 's pb_istream \<Rightarrow> pb_field \<Rightarrow> addr \<Rightarrow> cmem \<Rightarrow> 's dec_result" where
  "PB_DECODERS E n rec lt s f dest c =
     (if lt = PB_LTYPE_BOOL then Done (pb_dec_bool s f dest c)
      else if lt = PB_LTYPE_VARINT then Done (pb_dec_varint s f dest c)
      else if lt = PB_LTYPE_UVARINT then Done (pb_dec_uvarint s f dest c)
      else if lt = PB_LTYPE_SVARINT then Done (pb_dec_svarint s f dest c)
      else if lt = PB_LTYPE_FIXED32 then Done (pb_dec_fixed32 s f dest c)
      else if lt = PB_LTYPE_FIXED64 then Done (pb_dec_fixed64 s f dest c)
      else if lt = PB_LTYPE_BYTES then pb_dec_bytes E s f dest c
      else if lt = PB_LTYPE_STRING then pb_dec_string E s f dest c
      else if lt = PB_LTYPE_SUBMESSAGE then pb_dec_submessage E n rec s f dest c
      else if lt = PB_LTYPE_FIXED_LENGTH_BYTES then Done (pb_dec_fixed_length_bytes s f dest c)
      else Stuck s)"

section \<open>Decoding one field\<close>

text \<open>
  The packed loop of \<open>decode_static_field\<close>.  The fuel is one more than the bytes of the
  substream; every entry takes at least one byte.
\<close>

fun static_packed_loop ::
  "('s pb_istream \<Rightarrow> pb_field \<Rightarrow> addr \<Rightarrow> cmem \<Rightarrow> 's dec_result) \<Rightarrow> nat \<Rightarrow> 's pb_istream
     \<Rightarrow> cmem \<Rightarrow> pb_field_iter \<Rightarrow> 's dec_iter_result" where
  "static_packed_loop func 0 sub c it = Stuck sub"
| "static_packed_loop func (Suc k) sub c it =
     (let f = cur_field it; sz = rd_count (cm_mem c) it in
      if bytes_left sub > 0 \<and> sz < array_size f then
        (case func sub f (item_addr (pData it) f sz) c of
           Stuck t \<Rightarrow> Stuck t
         | Done (False, sub', c') \<Rightarrow> Done (False, sub', c', it)
         | Done (True, sub', c') \<Rightarrow>
             (case wr_count c' it (rd_count (cm_mem c') it + 1) of
                (c'', it'') \<Rightarrow> static_packed_loop func k sub' c'' it''))
      else Done (True, sub, c, it))"

definition decode_static_field ::
  "'s dec_env \<Rightarrow> nat \<Rightarrow> ('s pb_istream \<Rightarrow> cmem \<Rightarrow> pb_field list \<Rightarrow> addr \<Rightarrow> 's dec_result)
     \<Rightarrow> 's pb_istream \<Rightarrow> nat \<Rightarrow> cmem \<Rightarrow> pb_field_iter \<Rightarrow> 's dec_iter_result" where
  "decode_static_field E n rec s wt c it =
     (let f = cur_field it; ty = f_type f;
          func = PB_DECODERS E n rec (PB_LTYPE ty);
          keep = (\<lambda>it r. map_run (\<lambda>(ok, s', c'). (ok, s', c', it)) r)
      in if PB_HTYPE ty = PB_HTYPE_REQUIRED then keep it (func s f (pData it) c)
         else if PB_HTYPE ty = PB_HTYPE_OPTIONAL then
           keep it (func s f (pData it)
             (if pSize it \<noteq> Size_at (pData it) then c\<lparr>cm_mem := wr_has (cm_mem c) it True\<rparr> else c))
         else if PB_HTYPE ty = PB_HTYPE_REPEATED then
           if wt = PB_WT_STRING \<and> PB_LTYPE ty \<le> PB_LTYPE_LAST_PACKABLE then
             (case pb_make_string_substream s of
                (None, s') \<Rightarrow> Done (False, s', c, it)
              | (Some sub, s') \<Rightarrow>
                  (case static_packed_loop func (Suc (bytes_left sub)) sub c it of
                     Stuck t \<Rightarrow> Stuck t
                   | Done (status, sub', c', it') \<Rightarrow>
                       if bytes_left sub' \<noteq> 0
                       then Done (False, is_set_error s' ''array overflow'', c', it')
                       else keep it' (close_after s' (Done (status, sub', c')))))
           else
             let sz = rd_count (cm_mem c) it in
             (case wr_count c it (sz + 1) of
                (c', it') \<Rightarrow>
                  if sz \<ge> array_size f then Done (False, is_set_error s ''array overflow'', c', it')
                  else keep it' (func s f (item_addr (pData it) f sz) c'))
         else
           (case (if PB_LTYPE ty = PB_LTYPE_SUBMESSAGE \<and> rd_count (cm_mem c) it \<noteq> f_tag f
                  then map_option (\<lambda>m. c\<lparr>cm_mem := m\<rparr>)
                         (pb_message_set_to_defaults (de_desc E) n
                           (mstore (cm_mem c) (pData it) (replicate (data_size f) 0))
                           (de_desc E (f_ptr f)) (pData it))
                  else Some c) of
              None \<Rightarrow> Stuck s
            | Some c1 \<Rightarrow>
                (case wr_count c1 it (f_tag f) of
                   (c2, it2) \<Rightarrow> keep it2 (func s f (pData it) c2))))"

text \<open>
  Growing the array before an entry of a packed field is decoded: \<open>allocated_size\<close> is raised by
  a guess at the number of remaining entries.  A \<open>data_size\<close> of 0 divides by zero.
\<close>

definition grow_array ::
  "'s dec_env \<Rightarrow> nat \<Rightarrow> 's pb_istream \<Rightarrow> cmem \<Rightarrow> pb_field_iter
     \<Rightarrow> ('s, bool \<times> 's pb_istream \<times> cmem \<times> nat) run" where
  "grow_array E allocated sub c it =
     (let f = cur_field it; sz = rd_count (cm_mem c) it in
      if sz + 1 > allocated then
        if data_size f = 0 then Stuck sub
        else let remain = (bytes_left sub - 1) div data_size f + 1;
                 allocated' = (if remain < (PB_SIZE_MAX + size_mod - allocated) mod size_mod
                               then (allocated + remain) mod size_mod
                               else (allocated + 1) mod size_mod)
             in map_run (\<lambda>(ok, sub', c'). (ok, sub', c', allocated'))
                  (allocate_field E sub c (pData it) (data_size f) allocated')
      else Done (True, sub, c, allocated))"

text \<open>
  The packed loop of \<open>decode_pointer_field\<close>.  The flag in the result says that the loop stopped
  with \<open>too many array entries\<close>, a message that goes to the parent stream.
\<close>

fun pointer_packed_loop ::
  "'s dec_env \<Rightarrow> nat \<Rightarrow> ('s pb_istream \<Rightarrow> pb_field \<Rightarrow> addr \<Rightarrow> cmem \<Rightarrow> 's dec_result) \<Rightarrow> nat
     \<Rightarrow> nat \<Rightarrow> 's pb_istream \<Rightarrow> cmem \<Rightarrow> pb_field_iter
     \<Rightarrow> ('s, bool \<times> bool \<times> 's pb_istream \<times> cmem \<times> pb_field_iter) run" where
  "pointer_packed_loop E n func 0 allocated sub c it = Stuck sub"
| "pointer_packed_loop E n func (Suc k) allocated sub c it =
     (if bytes_left sub = 0 then Done (True, False, sub, c, it)
      else if rd_count (cm_mem c) it = PB_SIZE_MAX then Done (False, True, sub, c, it)
      else
        case grow_array E allocated sub c it of
          Stuck t \<Rightarrow> Stuck t
        | Done (False, sub1, c1, _) \<Rightarrow> Done (False, False, sub1, c1, it)
        | Done (True, sub1, c1, allocated') \<Rightarrow>
            let f = cur_field it;
                pItem = item_addr (rd_ptr (cm_mem c1) (pData it)) f (rd_count (cm_mem c1) it) in
            if pItem = 0 then Done (False, False, sub1, c1, it)
            else (case initialize_pointer_field (de_desc E) n c1 pItem f of
                    None \<Rightarrow> Stuck sub1
                  | Some c2 \<Rightarrow>
                      (case func sub1 f pItem c2 of
                         Stuck t \<Rightarrow> Stuck t
                       | Done (False, sub3, c3) \<Rightarrow> Done (False, False, sub3, c3, it)
                       | Done (True, sub3, c3) \<Rightarrow>
                           (case wr_count c3 it (rd_count (cm_mem c3) it + 1) of
                              (c4, it4) \<Rightarrow>
                                pointer_packed_loop E n func k allocated' sub3 c4 it4))))"

text \<open>Allocating an entry, clearing it and decoding into it.\<close>

definition decode_pointer_single ::
  "'s dec_env \<Rightarrow> nat \<Rightarrow> ('s pb_istream \<Rightarrow> pb_field \<Rightarrow> addr \<Rightarrow> cmem \<Rightarrow> 's dec_result)
     \<Rightarrow> 's pb_istream \<Rightarrow> cmem \<Rightarrow> pb_field_iter \<Rightarrow> 's dec_iter_result" where
  "decode_pointer_single E n func s c it =
     (let f = cur_field it; ty = f_type f;
          keep = (\<lambda>it r. map_run (\<lambda>(ok, s', c'). (ok, s', c', it)) r)
      in case (if PB_LTYPE ty = PB_LTYPE_SUBMESSAGE \<and> rd_ptr (cm_mem c) (pData it) \<noteq> 0
               then pb_release_single_field (de_desc E) n c it else Some c) of
           None \<Rightarrow> Stuck s
         | Some c1 \<Rightarrow>
             (case (if PB_HTYPE ty = PB_HTYPE_ONEOF then wr_count c1 it (f_tag f) else (c1, it)) of
                (c2, it2) \<Rightarrow>
                  if PB_LTYPE ty = PB_LTYPE_STRING \<or> PB_LTYPE ty = PB_LTYPE_BYTES
                  then keep it2 (func s f (pData it) c2)
                  else (case allocate_field E s c2 (pData it) (data_size f) 1 of
                          Stuck t \<Rightarrow> Stuck t
                        | Done (False, s3, c3) \<Rightarrow> Done (False, s3, c3, it2)
                        | Done (True, s3, c3) \<Rightarrow>
                            (case initialize_pointer_field (de_desc E) n c3
                                    (rd_ptr (cm_mem c3) (pData it)) f of
                               None \<Rightarrow> Stuck s3
                             | Some c4 \<Rightarrow>
                                 keep it2 (func s3 f (rd_ptr (cm_mem c4) (pData it)) c4)))))"

definition decode_pointer_field ::
  "'s dec_env \<Rightarrow> nat \<Rightarrow> ('s pb_istream \<Rightarrow> cmem \<Rightarrow> pb_field list \<Rightarrow> addr \<Rightarrow> 's dec_result)
     \<Rightarrow> 's pb_istream \<Rightarrow> nat \<Rightarrow> cmem \<Rightarrow> pb_field_iter \<Rightarrow> 's dec_iter_result" where
  "decode_pointer_field E n rec s wt c it =
     (let f = cur_field it; ty = f_type f;
          func = PB_DECODERS E n rec (PB_LTYPE ty);
          keep = (\<lambda>it r. map_run (\<lambda>(ok, s', c'). (ok, s', c', it)) r)
      in if PB_HTYPE ty \<noteq> PB_HTYPE_REPEATED then decode_pointer_single E n func s c it
         else if wt = PB_WT_STRING \<and> PB_LTYPE ty \<le> PB_LTYPE_LAST_PACKABLE then
           (case pb_make_string_substream s of
              (None, s') \<Rightarrow> Done (False, s', c, it)
            | (Some sub, s') \<Rightarrow>
                (case pointer_packed_loop E n func (Suc (bytes_left sub)) (rd_count (cm_mem c) it) sub c it of
                   Stuck t \<Rightarrow> Stuck t
                 | Done (status, too_many, sub', c', it') \<Rightarrow>
                     keep it' (close_after
                       (if too_many then s'\<lparr>is_errmsg := Some ''too many array entries''\<rparr> else s')
                       (Done (status, sub', c')))))
         else
           let sz = rd_count (cm_mem c) it in
           if sz = PB_SIZE_MAX then Done (False, is_set_error s ''too many array entries'', c, it)
           else (case allocate_field E s c (pData it) (data_size f) (sz + 1) of
                   Stuck t \<Rightarrow> Stuck t
                 | Done (False, s1, c1) \<Rightarrow> Done (False, s1, c1, it)
                 | Done (True, s1, c1) \<Rightarrow>
                     let pItem = item_addr (rd_ptr (cm_mem c1) (pData it)) f (rd_count (cm_mem c1) it) in
                     (case wr_count c1 it (rd_count (cm_mem c1) it + 1) of
                        (c2, it2) \<Rightarrow>
                          (case initialize_pointer_field (de_desc E) n c2 pItem f of
                             None \<Rightarrow> Stuck s1
                           | Some c3 \<Rightarrow> keep it2 (func s1 f pItem c3)))))"

text \<open>The \<open>do \<dots> while\<close> of \<open>decode_callback_field\<close>, bounded by the fuel.\<close>

fun callback_loop ::
  "'s dec_env \<Rightarrow> nat \<Rightarrow> addr \<Rightarrow> 's pb_istream \<Rightarrow> pb_field \<Rightarrow> addr \<Rightarrow> cmem \<Rightarrow> 's dec_result" where
  "callback_loop E 0 cb sub f arg c = Stuck sub"
| "callback_loop E (Suc k) cb sub f arg c =
     (case de_callback E cb sub f arg c of
        (False, sub', c') \<Rightarrow> Done (False, sub', c')
      | (True, sub', c') \<Rightarrow>
          if bytes_left sub' \<noteq> 0 then callback_loop E k (rd_ptr (cm_mem c') (arg - 8)) sub' f arg c'
          else Done (True, sub', c'))"

definition decode_callback_field ::
  "'s dec_env \<Rightarrow> nat \<Rightarrow> 's pb_istream \<Rightarrow> nat \<Rightarrow> cmem \<Rightarrow> pb_field_iter \<Rightarrow> 's dec_result" where
  "decode_callback_field E n s wt c it =
     (let cb = rd_ptr (cm_mem c) (pData it); arg = pData it + 8; f = cur_field it in
      if pData it = 0 \<or> cb = 0
      then (case pb_skip_field s wt of (ok, s') \<Rightarrow> Done (ok, s', c))
      else if wt = PB_WT_STRING then
        (case pb_make_string_substream s of
           (None, s') \<Rightarrow> Done (False, s', c)
         | (Some sub, s') \<Rightarrow>
             (case callback_loop E n cb sub f arg c of
                Stuck t \<Rightarrow> Stuck t
              | Done (False, sub', c') \<Rightarrow> Done (False, is_set_error s' ''callback failed'', c')
              | Done (True, sub', c') \<Rightarrow> close_after s' (Done (True, sub', c'))))
      else
        (case read_raw_value s wt 10 of
           (None, s') \<Rightarrow> Done (False, s', c)
         | (Some bs, s') \<Rightarrow>
             (case de_callback E cb (pb_istream_from_buffer bs (length bs)) f arg c of
                (ok, _, c') \<Rightarrow> Done (ok, s', c'))))"

definition decode_field ::
  "'s dec_env \<Rightarrow> nat \<Rightarrow> ('s pb_istream \<Rightarrow> cmem \<Rightarrow> pb_field list \<Rightarrow> addr \<Rightarrow> 's dec_result)
     \<Rightarrow> 's pb_istream \<Rightarrow> nat \<Rightarrow> cmem \<Rightarrow> pb_field_iter \<Rightarrow> 's dec_iter_result" where
  "decode_field E n rec s wt c it =
     (case (if PB_HTYPE (f_type (cur_field it)) = PB_HTYPE_ONEOF
            then pb_release_union_field (de_desc E) n s c it else Done (True, s, c, it)) of
        Stuck t \<Rightarrow> Stuck t
      | Done (False, s', c', it') \<Rightarrow> Done (False, s', c', it')
      | Done (True, s', c', it') \<Rightarrow>
          let at = PB_ATYPE (f_type (cur_field it')) in
          if at = PB_ATYPE_STATIC then decode_static_field E n rec s' wt c' it'
          else if at = PB_ATYPE_POINTER then decode_pointer_field E n rec s' wt c' it'
          else if at = PB_ATYPE_CALLBACK
          then map_run (\<lambda>(ok, s'', c''). (ok, s'', c'', it')) (decode_callback_field E n s' wt c' it')
          else Done (False, is_set_error s' ''invalid field type'', c', it'))"

section \<open>Extensions\<close>

definition default_extension_decoder ::
  "'s dec_env \<Rightarrow> nat \<Rightarrow> ('s pb_istream \<Rightarrow> cmem \<Rightarrow> pb_field list \<Rightarrow> addr \<Rightarrow> 's dec_result)
     \<Rightarrow> 's pb_istream \<Rightarrow> addr \<Rightarrow> nat \<Rightarrow> nat \<Rightarrow> cmem \<Rightarrow> 's dec_result" where
  "default_extension_decoder E n rec s e tag wt c =
     (let f = field_at (de_desc E (ext_type_arg (cm_mem c) (ext_type (cm_mem c) e))) 0 in
      if f_tag f \<noteq> tag then Done (True, s, c)
      else map_run (\<lambda>(ok, s', c', _). (ok, s', c'))
             (decode_field E n rec s wt (cm_store c (ext_found e) [1])
               (iter_from_extension (de_desc E) (cm_mem c) e)))"

fun decode_extension_loop ::
  "'s dec_env \<Rightarrow> nat \<Rightarrow> ('s pb_istream \<Rightarrow> cmem \<Rightarrow> pb_field list \<Rightarrow> addr \<Rightarrow> 's dec_result) \<Rightarrow> nat
     \<Rightarrow> nat \<Rightarrow> 's pb_istream \<Rightarrow> addr \<Rightarrow> nat \<Rightarrow> nat \<Rightarrow> cmem \<Rightarrow> 's dec_result" where
  "decode_extension_loop E n rec 0 pos s e tag wt c =
     (if e \<noteq> 0 \<and> pos = bytes_left s then Stuck s else Done (True, s, c))"
| "decode_extension_loop E n rec (Suc k) pos s e tag wt c =
     (if e \<noteq> 0 \<and> pos = bytes_left s then
        let dec = ext_type_decode (cm_mem c) (ext_type (cm_mem c) e) in
        (case (if dec \<noteq> 0 then Done (de_ext_decode E dec s e tag wt c)
               else default_extension_decoder E n rec s e tag wt c) of
           Stuck t \<Rightarrow> Stuck t
         | Done (False, s', c') \<Rightarrow> Done (False, s', c')
         | Done (True, s', c') \<Rightarrow>
             decode_extension_loop E n rec k pos s' (ext_next (cm_mem c') e) tag wt c')
      else Done (True, s, c))"

definition decode_extension ::
  "'s dec_env \<Rightarrow> nat \<Rightarrow> ('s pb_istream \<Rightarrow> cmem \<Rightarrow> pb_field list \<Rightarrow> addr \<Rightarrow> 's dec_result)
     \<Rightarrow> 's pb_istream \<Rightarrow> nat \<Rightarrow> nat \<Rightarrow> cmem \<Rightarrow> pb_field_iter \<Rightarrow> 's dec_result" where
  "decode_extension E n rec s tag wt c it =
     decode_extension_loop E n rec n (bytes_left s) s (rd_ptr (cm_mem c) (pData it)) tag wt c"

section \<open>Messages\<close>

abbreviation (input) PB_MAX_REQUIRED_FIELDS :: nat where "PB_MAX_REQUIRED_FIELDS \<equiv> 64"

text \<open>
  The local variables of \<open>pb_decode_noinit\<close>; \<open>fixed_count_size\<close> is the component
  \<open>local_count\<close> of the iterator, \<open>fixed_count_field\<close> a position in the descriptor array.
\<close>

record noinit_vars =
  fields_seen :: "32 word list"
  extension_range_start :: nat
  fixed_count_field :: "nat option"

definition mark_seen :: "32 word list \<Rightarrow> nat \<Rightarrow> 32 word list" where
  "mark_seen seen i = seen[i div 32 := (seen ! (i div 32)) OR push_bit (i mod 32) 1]"

text \<open>
  A tag that no field has: try the extensions, else skip.  The result carries the updated
  \<open>extension_range_start\<close>.
\<close>

definition decode_unknown ::
  "'s dec_env \<Rightarrow> nat \<Rightarrow> ('s pb_istream \<Rightarrow> cmem \<Rightarrow> pb_field list \<Rightarrow> addr \<Rightarrow> 's dec_result)
     \<Rightarrow> 's pb_istream \<Rightarrow> nat \<Rightarrow> nat \<Rightarrow> cmem \<Rightarrow> pb_field_iter \<Rightarrow> nat
     \<Rightarrow> ('s, bool \<times> 's pb_istream \<times> cmem \<times> pb_field_iter \<times> nat) run" where
  "decode_unknown E n rec s tag wt c it rng =
     (let skip = (\<lambda>s c it rng.
            case pb_skip_field s wt of (ok, s') \<Rightarrow> Done (ok, s', c, it, rng))
      in if tag \<ge> rng then
           (case find_extension_field it of
              None \<Rightarrow> Stuck s
            | Some (found, it') \<Rightarrow>
                let rng' = (if found then f_tag (cur_field it') else 2 ^ 32 - 1) in
                if tag \<ge> rng' then
                  (case decode_extension E n rec s tag wt c it' of
                     Stuck t \<Rightarrow> Stuck t
                   | Done (False, s', c') \<Rightarrow> Done (False, s', c', it', rng')
                   | Done (True, s', c') \<Rightarrow>
                       if bytes_left s \<noteq> bytes_left s' then Done (True, s', c', it', rng')
                       else skip s' c' it' rng')
                else skip s c it' rng')
         else skip s c it rng)"

text \<open>
  The preparation of a known field: the counter of a fixed-count array and the bit in
  \<open>fields_seen\<close>.  \<open>None\<close> is the error \<open>wrong size for fixed count field\<close>.
\<close>

definition fixed_count_done :: "noinit_vars \<Rightarrow> pb_field_iter \<Rightarrow> bool" where
  "fixed_count_done v it =
     (case fixed_count_field v of
        None \<Rightarrow> True
      | Some p \<Rightarrow> local_count it = array_size (field_at (it_start it) p))"

definition prepare_field :: "noinit_vars \<Rightarrow> pb_field_iter \<Rightarrow> (noinit_vars \<times> pb_field_iter) option" where
  "prepare_field v it =
     (let f = cur_field it;
          mark = (\<lambda>v it.
            if PB_HTYPE (f_type f) = PB_HTYPE_REQUIRED \<and> required_field_index it < PB_MAX_REQUIRED_FIELDS
            then v\<lparr>fields_seen := mark_seen (fields_seen v) (required_field_index it)\<rparr> else v)
      in if PB_HTYPE (f_type f) = PB_HTYPE_REPEATED \<and> pSize it = Size_at (pData it) then
           if fixed_count_field v \<noteq> Some (it_pos it) then
             if \<not> fixed_count_done v it then None
             else let it' = it\<lparr>local_count := 0, pSize := Size_local\<rparr>
                  in Some (mark (v\<lparr>fixed_count_field := Some (it_pos it)\<rparr>) it', it')
           else let it' = it\<lparr>pSize := Size_local\<rparr> in Some (mark v it', it')
         else Some (mark v it, it))"

text \<open>Seeking to the end of the descriptor: the last \<open>req_field_count\<close> and \<open>last_type\<close>.\<close>

fun seek_last :: "nat \<Rightarrow> pb_field_iter \<Rightarrow> (nat \<times> 8 word \<times> pb_field_iter) option" where
  "seek_last 0 it = None"
| "seek_last (Suc k) it =
     (case pb_field_iter_next it of
        (True, it') \<Rightarrow> seek_last k it'
      | (False, it') \<Rightarrow> Some (required_field_index it, f_type (cur_field it), it'))"

definition all_seen :: "32 word list \<Rightarrow> nat \<Rightarrow> bool" where
  "all_seen seen cnt \<longleftrightarrow>
     (\<forall>i \<in> set [0..<cnt div 32]. seen ! i = - 1) \<and>
     (cnt mod 32 \<noteq> 0 \<longrightarrow> seen ! (cnt div 32) = drop_bit (32 - cnt mod 32) (- 1))"

definition check_required :: "32 word list \<Rightarrow> pb_field_iter \<Rightarrow> bool option" where
  "check_required seen it =
     (case seek_last (Suc (length (it_start it))) it of
        None \<Rightarrow> None
      | Some (cnt, last_type, it') \<Rightarrow>
          let cnt1 = (if PB_HTYPE last_type = PB_HTYPE_REQUIRED \<and> f_tag (cur_field it') \<noteq> 0
                      then cnt + 1 else cnt);
              cnt2 = min cnt1 PB_MAX_REQUIRED_FIELDS
          in Some (cnt2 > 0 \<longrightarrow> all_seen seen cnt2))"

text \<open>The end of \<open>pb_decode_noinit\<close>, after the loop.\<close>

definition finish_message ::
  "'s pb_istream \<Rightarrow> cmem \<Rightarrow> noinit_vars \<Rightarrow> pb_field_iter \<Rightarrow> 's dec_result" where
  "finish_message s c v it =
     (if \<not> fixed_count_done v it
      then Done (False, is_set_error s ''wrong size for fixed count field'', c)
      else case check_required (fields_seen v) it of
             None \<Rightarrow> Stuck s
           | Some ok \<Rightarrow> if ok then Done (True, s, c)
                        else Done (False, is_set_error s ''missing required field'', c))"

text \<open>The main loop; every round reads a tag, so one more than the bytes left is enough fuel.\<close>

fun noinit_loop ::
  "'s dec_env \<Rightarrow> nat \<Rightarrow> ('s pb_istream \<Rightarrow> cmem \<Rightarrow> pb_field list \<Rightarrow> addr \<Rightarrow> 's dec_result) \<Rightarrow> nat
     \<Rightarrow> 's pb_istream \<Rightarrow> cmem \<Rightarrow> noinit_vars \<Rightarrow> pb_field_iter \<Rightarrow> 's dec_result" where
  "noinit_loop E n rec 0 s c v it = Stuck s"
| "noinit_loop E n rec (Suc k) s c v it =
     (if bytes_left s = 0 then finish_message s c v it
      else case pb_decode_tag s of
        (None, eof, s1) \<Rightarrow> if eof then finish_message s1 c v it else Done (False, s1, c)
      | (Some (wt, tag), _, s1) \<Rightarrow>
          (case pb_field_iter_find it tag of
             None \<Rightarrow> Stuck s1
           | Some (False, it1) \<Rightarrow>
               (case decode_unknown E n rec s1 tag wt c it1 (extension_range_start v) of
                  Stuck t \<Rightarrow> Stuck t
                | Done (False, s2, c2, _, _) \<Rightarrow> Done (False, s2, c2)
                | Done (True, s2, c2, it2, rng) \<Rightarrow>
                    noinit_loop E n rec k s2 c2 (v\<lparr>extension_range_start := rng\<rparr>) it2)
           | Some (True, it1) \<Rightarrow>
               (case prepare_field v it1 of
                  None \<Rightarrow> Done (False, is_set_error s1 ''wrong size for fixed count field'', c)
                | Some (v2, it2) \<Rightarrow>
                    (case decode_field E n rec s1 wt c it2 of
                       Stuck t \<Rightarrow> Stuck t
                     | Done (False, s3, c3, _) \<Rightarrow> Done (False, s3, c3)
                     | Done (True, s3, c3, it3) \<Rightarrow> noinit_loop E n rec k s3 c3 v2 it3))))"

fun pb_decode_noinit ::
  "'s dec_env \<Rightarrow> nat \<Rightarrow> 's pb_istream \<Rightarrow> cmem \<Rightarrow> pb_field list \<Rightarrow> addr \<Rightarrow> 's dec_result" where
  "pb_decode_noinit E 0 s c fs dest = Stuck s"
| "pb_decode_noinit E (Suc n) s c fs dest =
     noinit_loop E n (\<lambda>s c fs dest. pb_decode_noinit E n s c fs dest) (Suc (bytes_left s)) s c
       \<lparr>fields_seen = [0, 0], extension_range_start = 0, fixed_count_field = None\<rparr>
       (snd (pb_field_iter_begin fs dest 0))"

definition pb_decode ::
  "'s dec_env \<Rightarrow> nat \<Rightarrow> 's pb_istream \<Rightarrow> cmem \<Rightarrow> pb_field list \<Rightarrow> addr \<Rightarrow> 's dec_result" where
  "pb_decode E n s c fs dest = decode_init E n (pb_decode_noinit E n) s c fs dest"

definition decode_delimited_with ::
  "('s pb_istream \<Rightarrow> 's dec_result) \<Rightarrow> 's pb_istream \<Rightarrow> cmem \<Rightarrow> 's dec_result" where
  "decode_delimited_with dec s c =
     (case pb_make_string_substream s of
        (None, s') \<Rightarrow> Done (False, s', c)
      | (Some sub, s') \<Rightarrow> close_after s' (dec sub))"

definition pb_decode_delimited_noinit ::
  "'s dec_env \<Rightarrow> nat \<Rightarrow> 's pb_istream \<Rightarrow> cmem \<Rightarrow> pb_field list \<Rightarrow> addr \<Rightarrow> 's dec_result" where
  "pb_decode_delimited_noinit E n s c fs dest =
     decode_delimited_with (\<lambda>sub. pb_decode_noinit E n sub c fs dest) s c"

definition pb_decode_delimited ::
  "'s dec_env \<Rightarrow> nat \<Rightarrow> 's pb_istream \<Rightarrow> cmem \<Rightarrow> pb_field list \<Rightarrow> addr \<Rightarrow> 's dec_result" where
  "pb_decode_delimited E n s c fs dest =
     decode_delimited_with (\<lambda>sub. pb_decode E n sub c fs dest) s c"

definition pb_decode_nullterminated ::
  "'s dec_env \<Rightarrow> nat \<Rightarrow> 's pb_istream \<Rightarrow> cmem \<Rightarrow> pb_field list \<Rightarrow> addr \<Rightarrow> 's dec_result" where
  "pb_decode_nullterminated E n s c fs dest = pb_decode E n s c fs dest"

declare static_packed_loop.simps [simp del] pointer_packed_loop.simps [simp del]
  callback_loop.simps [simp del] decode_extension_loop.simps [simp del] noinit_loop.simps [simp del]
  defaults_loop.simps [simp del] release_loop.simps [simp del] ext_defaults_loop.simps [simp del]
  release_ext_loop.simps [simp del] pb_field_set_to_default.simps [simp del]
  pb_release_single_field.simps [simp del] seek_last.simps [simp del]

end
