(* ===== verification/Pb_Decode_Stream.thy ===== *)
theory Pb_Decode_Stream
  imports Pb_Decode
begin

text \<open>
  The decoder never reads past the end of its stream.  Every function of \<open>Pb_Decode\<close> that takes
  a stream moves it \<open>within\<close> the bytes it may read, through substreams, arrays, unions,
  extensions, callbacks and submessages, on success and on every error path.
\<close>

section \<open>Results that stay within the stream\<close>

text \<open>Where a run that returns, or stops, has left its stream: \<open>p\<close> selects the stream of a result.\<close>

definition run_within :: "'s pb_istream \<Rightarrow> ('a \<Rightarrow> 's pb_istream) \<Rightarrow> ('s, 'a) run \<Rightarrow> bool" where
  "run_within s p r \<longleftrightarrow> (case r of Stuck t \<Rightarrow> within s t | Done x \<Rightarrow> within s (p x))"

abbreviation stays :: "'s pb_istream \<Rightarrow> ('s, bool \<times> 's pb_istream \<times> 'c) run \<Rightarrow> bool" where
  "stays s r \<equiv> run_within s (\<lambda>(_, t, _). t) r"

named_theorems run_intros \<open>every outcome of a run stays within the stream\<close>

lemma run_within_simps [simp]:
  "run_within s p (Stuck t) \<longleftrightarrow> within s t" "stays s (Done (b, t, c)) \<longleftrightarrow> within s t"
  "run_within s (\<lambda>(_, _, t, _). t) (Done (b, b', t, c')) \<longleftrightarrow> within s t"
  by (simp_all add: run_within_def)

lemma run_within_option [run_intros]:
  "(v = None \<Longrightarrow> run_within s p e) \<Longrightarrow> (\<And>x. v = Some x \<Longrightarrow> run_within s p (g x)) \<Longrightarrow>
   run_within s p (case v of None \<Rightarrow> e | Some x \<Rightarrow> g x)"
  by (cases v) simp_all

lemma run_within_run [run_intros]:
  "(\<And>t. r = Stuck t \<Longrightarrow> run_within s p (f t)) \<Longrightarrow> (\<And>x. r = Done x \<Longrightarrow> run_within s p (g x)) \<Longrightarrow>
   run_within s p (case r of Stuck t \<Rightarrow> f t | Done x \<Rightarrow> g x)"
  by (cases r) simp_all

lemma run_within_prod [run_intros]:
  "(\<And>a b. v = (a, b) \<Longrightarrow> run_within s p (g a b)) \<Longrightarrow> run_within s p (case v of (a, b) \<Rightarrow> g a b)"
  by (cases v) simp

lemma run_within_bool [run_intros]:
  "(b \<Longrightarrow> run_within s p x) \<Longrightarrow> (\<not> b \<Longrightarrow> run_within s p y) \<Longrightarrow> run_within s p (case b of True \<Rightarrow> x | False \<Rightarrow> y)"
  "(b \<Longrightarrow> run_within s p x) \<Longrightarrow> (\<not> b \<Longrightarrow> run_within s p y) \<Longrightarrow> run_within s p (if b then x else y)"
  by (cases b; simp)+

lemma run_within_let [run_intros]: "run_within s p (f x) \<Longrightarrow> run_within s p (let y = x in f y)"
  by simp

definition env_within :: "'s dec_env \<Rightarrow> bool" where
  "env_within E \<longleftrightarrow>
     (\<forall>cb s f a c. within s (fst (snd (de_callback E cb s f a c))))
   \<and> (\<forall>cb s e tag wt c. within s (fst (snd (de_ext_decode E cb s e tag wt c))))"

lemma stays_map [simp]:
  "stays s (map_run (\<lambda>(ok, t, c). (ok, t, c, x)) r) \<longleftrightarrow> stays s r"
  "stays s (map_run (\<lambda>(ok, t, c, _). (ok, t, c)) r') \<longleftrightarrow> stays s r'"
  by (cases r; cases r'; auto)+

lemma run_withinD:
  "run_within s p r \<Longrightarrow> r = Done x \<Longrightarrow> within s (p x)" "run_within s p r \<Longrightarrow> r = Stuck t \<Longrightarrow> within s t"
  by (simp_all add: run_within_def)

lemma staysD: "stays s r \<Longrightarrow> r = Done (b, t, c) \<Longrightarrow> within s t" "stays s r \<Longrightarrow> r = Stuck t \<Longrightarrow> within s t"
  by simp_all

lemma run_within_trans: "within s t \<Longrightarrow> run_within t p r \<Longrightarrow> run_within s p r"
  by (cases r) (auto simp: run_within_def intro: within_trans)

lemmas stays_trans = run_within_trans [where p = "\<lambda>(_, t, _). t"]

lemma callback_within: "env_within E \<Longrightarrow> de_callback E cb s f a c = (b, t, c') \<Longrightarrow> within s t"
  unfolding env_within_def by (metis fst_conv snd_conv)

lemma ext_decode_within: "env_within E \<Longrightarrow> de_ext_decode E cb s e tag wt c = (b, t, c') \<Longrightarrow> within s t"
  unfolding env_within_def by (metis fst_conv snd_conv)

section \<open>Substreams\<close>

lemma make_substream_within:
  assumes "pb_make_string_substream s = (r, s')"
  shows "within s s'"
proof -
  obtain v t where v: "pb_decode_varint32 s = (v, t)" by force
  then have "within s t" by (rule varint32.within_result)
  moreover have "within t s'" using assms v
    by (auto simp: pb_make_string_substream_def within_def split: option.splits if_splits intro: exI [of _ 0])
  ultimately show ?thesis by (rule within_trans)
qed

lemma substream_within:
  assumes "pb_make_string_substream s = (Some sub, s')"
  shows "within s sub"
proof -
  obtain len u where u: "pb_decode_varint32 s = (Some len, u)" "\<not> bytes_left u < unat len" "sub = u\<lparr>bytes_left := unat len\<rparr>"
    using assms by (auto simp: pb_make_string_substream_def split: option.splits prod.splits if_splits)
  have "within u sub" using u(2, 3) by (auto simp: within_def intro: exI [of _ 0])
  with varint32.within_result [OF u(1)] show ?thesis by (rule within_trans)
qed

lemma close_substream_within:
  assumes make: "pb_make_string_substream s = (Some sub, s')" and sub: "within sub sub'"
    and close: "pb_close_string_substream s' sub' = (ok, t)"
  shows "within s t"
proof (cases ok)
  case False
  then have "t = s'" using close by (auto simp: pb_close_string_substream_def split: prod.splits if_splits)
  with make_substream_within [OF make] show ?thesis by simp
next
  case True
  obtain len u where u: "pb_decode_varint32 s = (Some len, u)" "\<not> bytes_left u < unat len"
    "sub = u\<lparr>bytes_left := unat len\<rparr>" "s' = u\<lparr>bytes_left := bytes_left u - unat len\<rparr>"
    using make by (auto simp: pb_make_string_substream_def split: option.splits prod.splits if_splits)
  obtain x where x: "within sub x" "t = s'\<lparr>is_src := is_src x, is_errmsg := is_errmsg x\<rparr>"
  proof (cases "bytes_left sub' = 0")
    case True
    then show ?thesis using that [of sub'] sub close
      by (simp add: pb_close_string_substream_def)
  next
    case False
    obtain k x where k: "pb_read_null sub' (bytes_left sub') = (k, x)" by force
    then have "within sub x" using sub read_null.within_result within_trans by blast
    with k False True show ?thesis using that [of x] close
      by (auto simp: pb_close_string_substream_def split: if_splits)
  qed
  have "within u t"
    unfolding within_def
  proof (intro conjI allI impI)
    show "bytes_left t \<le> bytes_left u" using x u by simp
    fix bs assume "is_src u = Buf_source bs" "bytes_left u \<le> length bs"
    then obtain j where "is_src x = Buf_source (drop j bs)" "j + bytes_left x \<le> unat len"
      using x(1) u by (auto simp: within_def)
    then show "\<exists>j. is_src t = Buf_source (drop j bs) \<and> j + bytes_left t \<le> bytes_left u"
      using x(2) u by (intro exI [of _ j]) auto
  qed
  with varint32.within_result [OF u(1)] show ?thesis by (rule within_trans)
qed

lemma close_after_stays:
  assumes "pb_make_string_substream s = (Some sub, s')" and "stays sub r"
  shows "stays s (close_after (s'\<lparr>is_errmsg := e\<rparr>) r)"
proof -
  have eq: "pb_close_string_substream (s'\<lparr>is_errmsg := e\<rparr>) x =
      (case pb_close_string_substream s' x of (ok, t) \<Rightarrow> (ok, if ok then t else t\<lparr>is_errmsg := e\<rparr>))" for x
    by (auto simp: pb_close_string_substream_def Let_def split: prod.splits)
  have err: "within s (t\<lparr>is_errmsg := e\<rparr>) = within s t" for t by (simp add: within_def)
  show ?thesis
    using assms(2) close_substream_within [OF assms(1)] within_trans [OF substream_within [OF assms(1)]]
    by (cases r) (auto simp: close_after_def eq err split: prod.splits bool.splits)
qed

lemma close_after_stays':
  "pb_make_string_substream s = (Some sub, s') \<Longrightarrow> stays sub r \<Longrightarrow> stays s (close_after s' r)"
  using close_after_stays [of s sub s' r "is_errmsg s'"] by simp

section \<open>Field decoders\<close>

lemma store_signed_stays [simp]: "within s t \<Longrightarrow> stays s (Done (store_signed t n dest v c))"
  by (auto simp: store_signed_def Let_def)

lemma scalar_decoders_stay:
  "stays s (Done (pb_dec_bool s f dest c))" "stays s (Done (pb_dec_varint s f dest c))"
  "stays s (Done (pb_dec_uvarint s f dest c))" "stays s (Done (pb_dec_svarint s f dest c))"
  "stays s (Done (pb_dec_fixed32 s f dest c))" "stays s (Done (pb_dec_fixed64 s f dest c))"
  by (auto simp: pb_dec_bool_def pb_dec_varint_def pb_dec_uvarint_def pb_dec_svarint_def
      pb_dec_fixed32_def pb_dec_fixed64_def Let_def split: option.splits prod.splits
      dest: varint32.within_result varint.within_result svarint.within_result
        fixed32.within_result fixed64.within_result)

lemma read_to_stays: "within s t \<Longrightarrow> stays s (Done (pb_read_to t c dest n))"
  by (auto simp: pb_read_to_def split: option.splits prod.splits
      dest: read.within_result intro: within_trans)

lemma read_string_to_stays: "within s t \<Longrightarrow> stays s (Done (read_string_to t c dest n))"
  using read_to_stays [of s t c dest n] by (auto simp: read_string_to_def split: prod.splits)

lemma fixed_length_bytes_stays: "stays s (Done (pb_dec_fixed_length_bytes s f dest c))"
  by (auto simp: pb_dec_fixed_length_bytes_def split: option.splits prod.splits
      dest: varint32.within_result intro!: read_to_stays)

lemma allocate_field_stays: "stays s (allocate_field E s c p dsz asz)"
  by (auto simp: allocate_field_def split: option.splits prod.splits)

lemma allocate_field_same_stream:
  "allocate_field E s c p dsz asz = Done (b, t, c') \<Longrightarrow> within s t" "allocate_field E s c p dsz asz = Stuck t \<Longrightarrow> within s t"
  using staysD [OF allocate_field_stays] by blast+

lemma bytes_stays: "stays s (pb_dec_bytes E s f dest c)"
  by (auto simp: pb_dec_bytes_def Let_def split: option.splits run.splits prod.splits bool.splits
      dest!: varint32.within_result allocate_field_same_stream intro!: read_to_stays
      intro: within_trans)

lemma string_stays: "stays s (pb_dec_string E s f dest c)"
  by (auto simp: pb_dec_string_def Let_def split: option.splits run.splits prod.splits bool.splits
      dest!: varint32.within_result allocate_field_same_stream intro!: read_string_to_stays
      intro: within_trans)

lemma decode_init_stays:
  assumes "\<And>s c fs dest. stays s (rec s c fs dest)"
  shows "stays s (decode_init E n rec s c fs dest)"
  using staysD [OF assms]
  by (fastforce simp: decode_init_def split: option.splits run.splits prod.splits bool.splits)

lemma submessage_stays:
  assumes "\<And>s c fs dest. stays s (rec s c fs dest)"
  shows "stays s (pb_dec_submessage E n rec s f dest c)"
  using assms decode_init_stays [OF assms]
  by (auto simp: pb_dec_submessage_def split: option.splits prod.splits
      dest: make_substream_within intro: close_after_stays')

lemma decoders_stay:
  assumes "\<And>s c fs dest. stays s (rec s c fs dest)"
  shows "stays s (PB_DECODERS E n rec lt s f dest c)"
  by (simp add: PB_DECODERS_def scalar_decoders_stay bytes_stays string_stays
      submessage_stays [OF assms] fixed_length_bytes_stays)

section \<open>Fields\<close>

lemma static_packed_loop_stays:
  assumes "\<And>s f dest c. stays s (func s f dest c)"
  shows "stays s (static_packed_loop func k s c it)"
proof (induction k arbitrary: s c it)
  case 0
  show ?case by (simp add: static_packed_loop.simps)
next
  case (Suc k)
  show ?case
    unfolding static_packed_loop.simps(2)
    by (intro run_intros; clarify?)
      (auto dest: staysD [OF assms] intro: stays_trans [OF staysD(1) [OF assms] Suc])
qed

lemma static_field_stays:
  assumes "\<And>s c fs dest. stays s (rec s c fs dest)"
  shows "stays s (decode_static_field E n rec s wt c it)"
proof -
  note dec = decoders_stay [OF assms]
  have close: "stays s (close_after s' (Done (status, sub', c')))"
    if "pb_make_string_substream s = (Some sub, s')"
      "static_packed_loop (PB_DECODERS E n rec lt) k sub c it = Done (status, sub', c', it')"
    for sub s' lt k c it status sub' c' it'
    using close_after_stays' [OF that(1), of "Done (status, sub', c')"]
      staysD(1) [OF static_packed_loop_stays [OF dec] that(2)] by simp
  have stuck: "within s t"
    if "pb_make_string_substream s = (Some sub, s')" "static_packed_loop (PB_DECODERS E n rec lt) k sub c it = Stuck t"
    for sub s' lt k c it t
    using within_trans [OF substream_within [OF that(1)] staysD(2) [OF static_packed_loop_stays [OF dec] that(2)]] .
  show ?thesis
    unfolding decode_static_field_def Let_def
    by (auto simp: dec split: option.splits run.splits prod.splits dest: make_substream_within intro: close stuck)
qed

lemma grow_array_stays: "stays s (grow_array E allocated s c it)"
proof -
  have "run_within s (\<lambda>(_, t, _). t) (map_run (\<lambda>(ok, t, c'). (ok, t, c', a)) (allocate_field E s c q d e))" for a q d e
    using allocate_field_stays [of s E c q d e] by (cases "allocate_field E s c q d e") auto
  then show ?thesis by (simp add: grow_array_def Let_def)
qed

lemma pointer_packed_loop_stays:
  assumes "\<And>s f dest c. stays s (func s f dest c)"
  shows "run_within s (\<lambda>(_, _, t, _). t) (pointer_packed_loop E n func k allocated s c it)"
proof (induction k arbitrary: allocated s c it)
  case 0
  then show ?case by (simp add: pointer_packed_loop.simps)
next
  case (Suc k)
  note grow = staysD [OF grow_array_stays]
  show ?case
    unfolding pointer_packed_loop.simps(2)
    by (intro run_intros; clarify?)
      (auto dest: grow staysD [OF assms] intro: within_trans [OF grow(1) staysD(1) [OF assms]]
        within_trans [OF grow(1) staysD(2) [OF assms]]
        run_within_trans [OF within_trans [OF grow(1) staysD(1) [OF assms]] Suc])
qed

lemma pointer_single_stays:
  assumes "\<And>s f dest c. stays s (func s f dest c)"
  shows "stays s (decode_pointer_single E n func s c it)"
  unfolding decode_pointer_single_def
  by (intro run_intros; clarify?)
    (auto simp: assms dest: allocate_field_same_stream
      intro: stays_trans [OF allocate_field_same_stream(1) assms])

lemma pointer_field_stays:
  assumes "\<And>s c fs dest. stays s (rec s c fs dest)"
  shows "stays s (decode_pointer_field E n rec s wt c it)"
proof -
  note dec = decoders_stay [OF assms]
  have loop: "run_within sub (\<lambda>(_, _, t, _). t) (pointer_packed_loop E n (PB_DECODERS E n rec lt) k al sub c it)" for sub lt k al c it
    by (rule pointer_packed_loop_stays) (rule dec)
  have close: "stays s (close_after (if too_many then s'\<lparr>is_errmsg := e\<rparr> else s') (Done (status, sub', c')))"
    if "pb_make_string_substream s = (Some sub, s')"
      "pointer_packed_loop E n (PB_DECODERS E n rec lt) k al sub c it = Done (status, too_many, sub', c', it')"
    for sub s' lt k al c it status too_many sub' c' it' e
    using close_after_stays [OF that(1), of "Done (status, sub', c')"]
      close_after_stays' [OF that(1), of "Done (status, sub', c')"]
      run_withinD(1) [OF loop that(2)] by simp
  have stuck: "within s t"
    if "pb_make_string_substream s = (Some sub, s')"
      "pointer_packed_loop E n (PB_DECODERS E n rec lt) k al sub c it = Stuck t" for sub s' lt k al c it t
    using within_trans [OF substream_within [OF that(1)] run_withinD(2) [OF loop that(2)]] .
  show ?thesis
    unfolding decode_pointer_field_def Let_def
    by (intro run_intros; clarify?)
      (auto simp: pointer_single_stays [OF dec] dest: make_substream_within allocate_field_same_stream
        intro: close close [where too_many = True, simplified] close [where too_many = False, simplified] stuck
          stays_trans [OF allocate_field_same_stream(1) dec])
qed

lemma callback_loop_stays:
  assumes "env_within E"
  shows "stays s (callback_loop E k cb s f arg c)"
proof (induction k arbitrary: cb s c)
  case 0
  show ?case by (simp add: callback_loop.simps)
next
  case (Suc k)
  show ?case
    by (auto simp: callback_loop.simps(2) split: prod.splits bool.splits
        dest: callback_within [OF assms] intro: stays_trans [OF callback_within [OF assms] Suc])
qed

lemma callback_field_stays:
  assumes "env_within E"
  shows "stays s (decode_callback_field E n s wt c it)"
proof -
  have close: "stays s (close_after s' (Done (True, sub', c')))"
    if "pb_make_string_substream s = (Some sub, s')" "callback_loop E k cb sub f arg c = Done (True, sub', c')"
    for sub s' k cb f arg c sub' c'
    using close_after_stays' [OF that(1), of "Done (True, sub', c')"]
      staysD(1) [OF callback_loop_stays [OF assms] that(2)] by simp
  have stuck: "within s t" if "pb_make_string_substream s = (Some sub, s')" "callback_loop E k cb sub f arg c = Stuck t"
    for sub s' k cb f arg c t
    using within_trans [OF substream_within [OF that(1)] staysD(2) [OF callback_loop_stays [OF assms] that(2)]] .
  show ?thesis
    unfolding decode_callback_field_def Let_def
    by (auto split: option.splits run.splits prod.splits bool.splits intro: close stuck
        dest: make_substream_within skip_field.within_result raw_value.within_result)
qed

lemma release_union_stays: "stays s (pb_release_union_field D n s c it)"
  by (auto simp: pb_release_union_field_def Let_def split: option.splits bool.splits)

lemma field_stays:
  assumes "env_within E" and "\<And>s c fs dest. stays s (rec s c fs dest)"
  shows "stays s (decode_field E n rec s wt c it)"
proof -
  have union: "stays s (if b then pb_release_union_field D n s c it else Done (True, s, c, it))" for b D
    by (simp add: release_union_stays)
  note step = staysD [OF union]
  show ?thesis
    unfolding decode_field_def
    by (intro run_intros; clarify?)
      (auto dest: step
        intro: stays_trans [OF step(1) static_field_stays [OF assms(2)]]
          stays_trans [OF step(1) pointer_field_stays [OF assms(2)]]
          stays_trans [OF step(1) callback_field_stays [OF assms(1)]])
qed

lemma extension_loop_stays:
  assumes "env_within E" and "\<And>s c fs dest. stays s (rec s c fs dest)"
  shows "stays s (decode_extension_loop E n rec k pos s e tag wt c)"
proof (induction k arbitrary: pos s e c)
  case 0
  show ?case by (simp add: decode_extension_loop.simps)
next
  case (Suc k)
  have "stays s (default_extension_decoder E n rec s e tag wt c)"
    by (simp add: default_extension_decoder_def Let_def field_stays [OF assms])
  then have "stays s (if b then Done (de_ext_decode E dec s e tag wt c) else default_extension_decoder E n rec s e tag wt c)" for b dec
    using ext_decode_within [OF assms(1)] by (cases "de_ext_decode E dec s e tag wt c") auto
  note one = staysD [OF this]
  show ?case
    unfolding decode_extension_loop.simps(2)
    by (intro run_intros; clarify?) (auto dest: one intro: stays_trans [OF one(1) Suc])
qed

section \<open>Messages\<close>

lemma unknown_stays:
  assumes "env_within E" and "\<And>s c fs dest. stays s (rec s c fs dest)"
  shows "stays s (decode_unknown E n rec s tag wt c it rng)"
proof -
  note ext = staysD [OF extension_loop_stays [OF assms]]
  show ?thesis
    unfolding decode_unknown_def Let_def decode_extension_def
    by (intro run_intros; clarify?)
      (auto dest: ext skip_field.within_result intro: within_trans [OF ext(1) skip_field.within_result])
qed

lemma finish_message_stays: "stays s (finish_message s c v it)"
  by (auto simp: finish_message_def split: option.splits)

lemma noinit_loop_stays:
  assumes "env_within E" and "\<And>s c fs dest. stays s (rec s c fs dest)"
  shows "stays s (noinit_loop E n rec k s c v it)"
proof (induction k arbitrary: s c v it)
  case 0
  show ?case by (simp add: noinit_loop.simps)
next
  case (Suc k)
  have tag: "within s t" if "pb_decode_tag s = (r, e, t)" for r e t
    using decode_tag.within_result [of s "(r, e)" t] that by simp
  note field = within_trans [OF tag staysD(1) [OF field_stays [OF assms]]]
    and unknown = within_trans [OF tag staysD(1) [OF unknown_stays [OF assms]]]
    and stuck = within_trans [OF tag staysD(2) [OF field_stays [OF assms]]] within_trans [OF tag staysD(2) [OF unknown_stays [OF assms]]]
  show ?case
    unfolding noinit_loop.simps(2)
    by (intro run_intros; clarify?)
      (auto simp: finish_message_stays dest: tag
        intro: stays_trans [OF tag finish_message_stays] field unknown stuck
          stays_trans [OF field Suc] stays_trans [OF unknown Suc])
qed

lemma noinit_stays:
  assumes "env_within E"
  shows "stays s (pb_decode_noinit E n s c fs dest)"
proof (induction n arbitrary: s c fs dest)
  case 0
  show ?case by simp
next
  case (Suc n)
  show ?case by (simp add: noinit_loop_stays [OF assms Suc])
qed

section \<open>Property\<close>

definition stream_of :: "'s dec_result \<Rightarrow> 's pb_istream" where
  "stream_of r = (case r of Stuck t \<Rightarrow> t | Done (_, t, _) \<Rightarrow> t)"


definition sample_bool :: pb_field where
  "sample_bool = \<lparr>f_tag = 1, f_type = 0, data_offset = 0, size_offset = 0, data_size = 1,
     array_size = 0, f_ptr = 0\<rparr>"

definition sample_dec_env :: "unit dec_env" where
  "sample_dec_env = \<lparr>de_desc = (\<lambda>a. []), de_realloc = (\<lambda>h p n. 0),
     de_callback = (\<lambda>cb s f a c. (True, s, c)), de_ext_decode = (\<lambda>cb s e tag wt c. (True, s, c))\<rparr>"

lemma sample_env_within: "env_within sample_dec_env"
  by (simp add: env_within_def sample_dec_env_def)

lemma sample_readbyte:
  "pb_readbyte \<lparr>is_src = Buf_source [8, 1], bytes_left = 2, is_errmsg = None\<rparr> =
     (Some 8, \<lparr>is_src = Buf_source [1], bytes_left = 1, is_errmsg = None\<rparr>)"
  "pb_readbyte \<lparr>is_src = Buf_source [1], bytes_left = 1, is_errmsg = None\<rparr> =
     (Some 1, \<lparr>is_src = Buf_source [], bytes_left = 0, is_errmsg = None\<rparr>)"
  by (simp_all add: pb_readbyte_def)

lemma sample_decodes:
  "\<exists>c'. pb_decode sample_dec_env (Suc (Suc 0)) (pb_istream_from_buffer [8, 1] 2)
      \<lparr>cm_mem = (\<lambda>_. 0), cm_heap = Map.empty\<rparr> [sample_bool] 100
    = Done (True, \<lparr>is_src = Buf_source [], bytes_left = 0, is_errmsg = None\<rparr>, c')"
  by (simp add: pb_decode_def decode_init_def pb_message_set_to_defaults_def message_defaults_def
      pb_field_iter_begin_def field_at_def sample_bool_def PB_LAST_FIELD_def defaults_loop.simps
      pb_field_set_to_default.simps cur_field_def PB_LTYPE_def PB_HTYPE_def PB_ATYPE_def
      pb_field_iter_next_def noinit_loop.simps numeral_3_eq_3 pb_istream_from_buffer_def pb_decode_tag_def
      pb_decode_varint32_eof_def sample_readbyte sample_readbyte [unfolded One_nat_def] pb_field_iter_find_def prepare_field_def
      decode_field_def decode_static_field_def PB_DECODERS_def pb_dec_bool_def
      pb_decode_varint32_def finish_message_def fixed_count_done_def check_required_def
      seek_last.simps all_seen_def mark_seen_def Let_def)


end
