(* ===== verification/Pb_Decode_Static.thy ===== *)
theory Pb_Decode_Static
  imports Pb_Decode_Stream
begin

text \<open>
  Memory safety and termination of the decoder on messages with statically allocated fields.

  \<open>layout_ok\<close> is the contract the generated descriptors keep towards the generated structure:
  every field, its \<open>has_\<close>, count or \<open>which_\<close> member and every nested submessage lie inside the
  structure.  Under it decoding any input into a structure of that size returns, with the fuel
  one more than the nesting depth, writes no byte outside the structure and leaves the heap alone.
\<close>

section \<open>Layout of a structure\<close>

text \<open>Offset of the count, \<open>which_\<close> or \<open>has_\<close> member of field \<open>i\<close>.\<close>

definition count_offset :: "pb_field list \<Rightarrow> nat \<Rightarrow> int" where
  "count_offset fs i =
     int (field_offset fs (union_head fs i)) + size_offset (field_at fs (union_head fs i))"

definition slot_ok :: "pb_field list \<Rightarrow> nat \<Rightarrow> nat \<Rightarrow> bool" where
  "slot_ok fs sz i \<longleftrightarrow>
     (let ht = PB_HTYPE (f_type (fs ! i)); off = count_offset fs i in
      (ht = PB_HTYPE_OPTIONAL \<longrightarrow> 0 \<le> off \<and> off + 1 \<le> int sz) \<and>
      (ht = PB_HTYPE_REPEATED \<or> ht = PB_HTYPE_ONEOF \<longrightarrow> 0 \<le> off \<and> off + 4 \<le> int sz))"

text \<open>A decoder for the type of \<open>f\<close> exists and stores at most \<open>w\<close> bytes.\<close>

definition decodable :: "nat \<Rightarrow> pb_field \<Rightarrow> bool" where
  "decodable w f \<longleftrightarrow>
     (let lt = PB_LTYPE (f_type f) in
      lt \<le> PB_LTYPE_FIXED_LENGTH_BYTES \<and> lt \<noteq> PB_LTYPE_EXTENSION \<and> data_size f \<le> w \<and>
      (lt = PB_LTYPE_BOOL \<longrightarrow> 1 \<le> w) \<and> (lt = PB_LTYPE_FIXED32 \<longrightarrow> 4 \<le> w) \<and>
      (lt = PB_LTYPE_FIXED64 \<longrightarrow> 8 \<le> w))"

fun layout_ok :: "(addr \<Rightarrow> pb_field list) \<Rightarrow> nat \<Rightarrow> pb_field list \<Rightarrow> nat \<Rightarrow> bool" where
  "layout_ok D 0 fs sz = False"
| "layout_ok D (Suc n) fs sz \<longleftrightarrow>
     list_all (\<lambda>f. f_tag f \<noteq> 0) fs \<and> 0 < sz \<and>
     list_all (\<lambda>i. let f = fs ! i in
        PB_ATYPE (f_type f) = PB_ATYPE_STATIC \<and> field_offset fs i + stored_size f \<le> sz
        \<and> decodable (data_size f) f \<and> slot_ok fs sz i
        \<and> (PB_LTYPE (f_type f) = PB_LTYPE_SUBMESSAGE \<longrightarrow>
             f_ptr f \<noteq> 0 \<and> layout_ok D n (D (f_ptr f)) (data_size f))) [0..<length fs]"

definition frame :: "addr \<Rightarrow> nat \<Rightarrow> cmem \<Rightarrow> cmem \<Rightarrow> bool" where
  "frame d sz c c' \<longleftrightarrow> cm_heap c' = cm_heap c \<and> same_outside d sz (cm_mem c) (cm_mem c')"

lemma frame_refl [simp, intro]: "frame d sz c c"
  by (simp add: frame_def)

lemma frame_trans: "frame d sz c c' \<Longrightarrow> frame d sz c' c'' \<Longrightarrow> frame d sz c c''"
  by (auto simp: frame_def intro: same_outside_trans)

lemma frame_mono: "frame a w c c' \<Longrightarrow> d \<le> a \<Longrightarrow> a + w \<le> d + sz \<Longrightarrow> frame d sz c c'"
  by (auto simp: frame_def intro: same_outside_mono)

lemma frame_store: "d \<le> a \<Longrightarrow> a + length bs \<le> d + sz \<Longrightarrow> frame d sz c (cm_store c a bs)"
  by (simp add: frame_def same_outside_mstore)

lemma frame_wr: "d \<le> a \<Longrightarrow> a + n \<le> d + sz \<Longrightarrow> frame d sz c (cm_wr c a n v)"
  by (simp add: frame_def same_outside_wr_u)

lemma layout_okD:
  assumes "layout_ok D (Suc n) fs sz"
  shows "fields_wf fs" and "0 < sz"
    and "i < length fs \<Longrightarrow> PB_ATYPE (f_type (fs ! i)) = PB_ATYPE_STATIC"
    and "i < length fs \<Longrightarrow> field_offset fs i + stored_size (fs ! i) \<le> sz"
    and "i < length fs \<Longrightarrow> decodable (data_size (fs ! i)) (fs ! i)"
    and "i < length fs \<Longrightarrow> slot_ok fs sz i"
    and "i < length fs \<Longrightarrow> PB_LTYPE (f_type (fs ! i)) = PB_LTYPE_SUBMESSAGE \<Longrightarrow>
       f_ptr (fs ! i) \<noteq> 0 \<and> layout_ok D n (D (f_ptr (fs ! i))) (data_size (fs ! i))"
  using assms by (auto simp: list_all_iff fields_wf_def Let_def)

section \<open>Releasing a static message does nothing\<close>

lemma release_loop_static:
  assumes "0 < d" "fields_wf fs" "\<And>i. i < length fs \<Longrightarrow> recf c (iter_at fs d x i) = Some c"
  shows "i < length fs \<Longrightarrow> release_loop recf (length fs - i) c (iter_at fs d x i) = Some c"
proof (induction "length fs - i" arbitrary: i)
  case 0
  then show ?case by simp
next
  case (Suc k)
  then have k: "length fs - i = Suc k" by simp
  show ?case
  proof (cases "Suc i < length fs")
    case True
    then have "k = length fs - Suc i" using k by simp
    with Suc True k assms show ?thesis
      by (simp add: release_loop.simps next_iter_at)
  next
    case False
    with Suc k assms show ?thesis by (simp add: release_loop.simps next_iter_at)
  qed
qed

lemma release_items_static:
  assumes "\<And>p. release_message recf c fs p = Some c"
  shows "release_items recf fs dsz c p k = Some c"
  by (induction k arbitrary: p) (simp_all add: assms)

lemma release_single_static:
  assumes "PB_ATYPE (f_type (cur_field it)) = PB_ATYPE_STATIC"
    and "PB_LTYPE (f_type (cur_field it)) \<noteq> PB_LTYPE_EXTENSION"
    and "PB_LTYPE (f_type (cur_field it)) = PB_LTYPE_SUBMESSAGE \<Longrightarrow>
      (\<And>p. pb_release D k c (D (f_ptr (cur_field it))) p = Some c)"
  shows "pb_release_single_field D (Suc k) c it = Some c"
  using assms release_items_static [of "pb_release_single_field D k" c "D (f_ptr (cur_field it))"]
  by (simp add: pb_release_single_field.simps(2) pb_release_def Let_def)

lemma decodable_not_ext: "decodable w f \<Longrightarrow> PB_LTYPE (f_type f) \<noteq> PB_LTYPE_EXTENSION"
  by (simp add: decodable_def Let_def)

lemma release_static:
  "layout_ok D j fs sz \<Longrightarrow> j \<le> k \<Longrightarrow> pb_release D k c fs d = Some c"
proof (induction j arbitrary: k fs sz d)
  case 0
  then show ?case by simp
next
  case (Suc j)
  from Suc.prems(2) obtain k' where k': "k = Suc k'" "j \<le> k'" by (cases k) auto
  note lay = layout_okD [OF Suc.prems(1)]
  have one: "pb_release_single_field D k c (iter_at fs d 0 i) = Some c" if "i < length fs" for i
  proof -
    have cur: "field_at fs i = fs ! i" using that by (simp add: field_at_def)
    have "pb_release D k' c (D (f_ptr (fs ! i))) p = Some c"
      if "PB_LTYPE (f_type (fs ! i)) = PB_LTYPE_SUBMESSAGE" for p
      using lay(7) [OF \<open>i < length fs\<close> that] k'(2) Suc.IH by blast
    then show ?thesis
      unfolding k'(1) using lay(3) [OF that] decodable_not_ext [OF lay(5) [OF that]]
      by (intro release_single_static) (simp_all add: cur)
  qed
  show ?case
  proof (cases "d = 0 \<or> fs = []")
    case True
    then show ?thesis
      by (auto simp: pb_release_def release_message_def pb_field_iter_begin_def field_at_def
          PB_LAST_FIELD_def Let_def)
  next
    case False
    then show ?thesis
      using release_loop_static [of d fs "pb_release_single_field D k" c 0 0] one lay(1)
      by (simp add: pb_release_def release_message_def begin_iter_at)
  qed
qed

section \<open>Default values\<close>

lemma defaults_loop_static:
  assumes "0 < d" "fields_wf fs"
    and "\<And>i m. i < length fs \<Longrightarrow> \<exists>m'. recf m (iter_at fs d x i) = Some m' \<and> same_outside d sz m m'"
  shows "i < length fs \<Longrightarrow> \<exists>m'. defaults_loop recf (length fs - i) m (iter_at fs d x i) = Some m'
    \<and> same_outside d sz m m'"
proof (induction "length fs - i" arbitrary: i m)
  case 0
  then show ?case by simp
next
  case (Suc k)
  then have k: "length fs - i = Suc k" by simp
  obtain m1 where m1: "recf m (iter_at fs d x i) = Some m1" "same_outside d sz m m1"
    using assms(3) [OF Suc.prems] by blast
  show ?case
  proof (cases "Suc i < length fs")
    case True
    then have "k = length fs - Suc i" using k by simp
    then obtain m2 where "defaults_loop recf k m1 (iter_at fs d x (Suc i)) = Some m2" "same_outside d sz m1 m2"
      using Suc.hyps(1) [OF _ True, of m1] by blast
    with True k m1 Suc.prems assms(1,2) show ?thesis
      by (auto simp: defaults_loop.simps next_iter_at intro: same_outside_trans)
  next
    case False
    with k m1 Suc.prems assms(1,2) show ?thesis by (simp add: defaults_loop.simps next_iter_at)
  qed
qed

text \<open>The two ways a field's count, \<open>which_\<close> or \<open>has_\<close> member is written, inside the structure.\<close>

lemma pSize_iter_at: "pSize (iter_at fs d x i) = Size_at (nat (int d + count_offset fs i))"
  by (simp add: iter_at_def ptr_offset_def count_offset_def add.assoc)

lemma wr_has_frame:
  assumes "pSize it = Size_at (nat (int d + off)) \<or> pSize it = Size_local" and "0 \<le> off" and "off + 1 \<le> int sz"
  shows "same_outside d sz m (wr_has m it b)"
  using assms by (auto simp: wr_has_def intro!: same_outside_mstore)

lemma wr_count_frame:
  assumes "pSize it = Size_at (nat (int d + off)) \<or> pSize it = Size_local" and "0 \<le> off" and "off + 4 \<le> int sz"
  shows "frame d sz c (fst (wr_count c it v))"
  using assms by (auto simp: wr_count_def intro!: frame_wr)

lemma slot_okD:
  assumes "slot_ok fs sz i"
  shows "PB_HTYPE (f_type (fs ! i)) = PB_HTYPE_OPTIONAL \<Longrightarrow> 0 \<le> count_offset fs i \<and> count_offset fs i + 1 \<le> int sz"
    and "PB_HTYPE (f_type (fs ! i)) = PB_HTYPE_REPEATED \<or> PB_HTYPE (f_type (fs ! i)) = PB_HTYPE_ONEOF \<Longrightarrow>
      0 \<le> count_offset fs i \<and> count_offset fs i + 4 \<le> int sz"
  using assms by (auto simp: slot_ok_def Let_def)

lemma single_stored_size:
  "PB_ATYPE (f_type f) = PB_ATYPE_STATIC \<Longrightarrow> PB_HTYPE (f_type f) \<noteq> PB_HTYPE_REPEATED \<Longrightarrow>
   stored_size f = data_size f"
  by (simp add: stored_size_def)

lemma field_default_static:
  assumes lay: "layout_ok D (Suc j) fs sz" and i: "i < length fs"
    and sub: "PB_LTYPE (f_type (fs ! i)) = PB_LTYPE_SUBMESSAGE \<Longrightarrow>
      (\<And>m p. 0 < p \<Longrightarrow> \<exists>m'. pb_message_set_to_defaults D k m (D (f_ptr (fs ! i))) p = Some m'
         \<and> same_outside p (data_size (fs ! i)) m m')"
    and d: "0 < d"
  shows "\<exists>m'. pb_field_set_to_default D (Suc k) m (iter_at fs d x i) = Some m' \<and> same_outside d sz m m'"
proof -
  let ?it = "iter_at fs d x i" and ?f = "fs ! i"
  note l = layout_okD [OF lay]
  have cur: "field_at fs i = ?f" using i by (simp add: field_at_def)
  have ext: "PB_LTYPE (f_type ?f) \<noteq> PB_LTYPE_EXTENSION" by (rule decodable_not_ext [OF l(5) [OF i]])
  note slot = slot_okD [OF l(6) [OF i]]
  have has: "same_outside d sz m (wr_has m ?it b)" if "PB_HTYPE (f_type ?f) = PB_HTYPE_OPTIONAL" for m b
    using slot(1) [OF that] by (intro wr_has_frame [of _ d "count_offset fs i"]) (auto simp: pSize_iter_at)
  have cnt: "same_outside d sz m (cm_mem (fst (wr_count \<lparr>cm_mem = m, cm_heap = h\<rparr> ?it v)))"
    if "PB_HTYPE (f_type ?f) = PB_HTYPE_REPEATED \<or> PB_HTYPE (f_type ?f) = PB_HTYPE_ONEOF" for m h v
    using slot(2) [OF that] wr_count_frame [of ?it d "count_offset fs i" sz "\<lparr>cm_mem = m, cm_heap = h\<rparr>" v]
    by (simp add: pSize_iter_at frame_def)
  show ?thesis
  proof (cases "PB_HTYPE (f_type ?f) = PB_HTYPE_REPEATED \<or> PB_HTYPE (f_type ?f) = PB_HTYPE_ONEOF")
    case True
    then show ?thesis using l(3) [OF i] ext cnt [OF True]
      by (auto simp: pb_field_set_to_default.simps(2) cur Let_def)
  next
    case False
    define m1 where "m1 = (if PB_HTYPE (f_type ?f) = PB_HTYPE_OPTIONAL \<and> pSize ?it \<noteq> Size_at (pData ?it)
      then wr_has m ?it False else m)"
    have m1: "same_outside d sz m m1" using has by (simp add: m1_def)
    have fits: "field_offset fs i + data_size ?f \<le> sz"
      using l(4) [OF i] l(3) [OF i] False by (simp add: single_stored_size)
    have eq: "pb_field_set_to_default D (Suc k) m ?it =
        (if PB_LTYPE (f_type ?f) = PB_LTYPE_SUBMESSAGE
         then pb_message_set_to_defaults D k m1 (D (f_ptr ?f)) (pData ?it)
         else if f_ptr ?f \<noteq> 0 then Some (mstore m1 (pData ?it) (mload m1 (f_ptr ?f) (data_size ?f)))
         else Some (mstore m1 (pData ?it) (replicate (data_size ?f) 0)))"
      using False l(3) [OF i] ext unfolding pb_message_set_to_defaults_def
      by (simp add: pb_field_set_to_default.simps(2) cur m1_def Let_def del: iter_at_sel)
    have store: "same_outside d sz m (mstore m1 (pData ?it) bs)" if "length bs = data_size ?f" for bs
      using fits that by (intro same_outside_trans [OF m1]) auto
    have "\<exists>m'. pb_message_set_to_defaults D k m1 (D (f_ptr ?f)) (pData ?it) = Some m' \<and> same_outside d sz m m'"
      if s: "PB_LTYPE (f_type ?f) = PB_LTYPE_SUBMESSAGE"
    proof -
      obtain m' where m': "pb_message_set_to_defaults D k m1 (D (f_ptr ?f)) (pData ?it) = Some m'"
        "same_outside (pData ?it) (data_size ?f) m1 m'"
        using sub [OF s, of "pData ?it" m1] d by auto
      have "same_outside d sz m1 m'"
        using m'(2) fits by (rule_tac same_outside_mono [of "pData ?it"]) auto
      with m'(1) m1 show ?thesis using same_outside_trans by blast
    qed
    then show ?thesis unfolding eq using store by auto
  qed
qed

lemma defaults_static:
  "layout_ok D j fs sz \<Longrightarrow> j \<le> k \<Longrightarrow> 0 < d \<Longrightarrow>
   \<exists>m'. pb_message_set_to_defaults D k m fs d = Some m' \<and> same_outside d sz m m'"
proof (induction j arbitrary: k fs sz d m)
  case 0
  then show ?case by simp
next
  case (Suc j)
  from Suc.prems(2) obtain k' where k': "k = Suc k'" "j \<le> k'" by (cases k) auto
  note lay = layout_okD [OF Suc.prems(1)]
  have one: "\<exists>m'. pb_field_set_to_default D k m (iter_at fs d 0 i) = Some m' \<and> same_outside d sz m m'"
    if "i < length fs" for i m
    unfolding k'(1)
    by (rule field_default_static [OF Suc.prems(1) that _ Suc.prems(3)])
      (use lay(7) [OF that] k'(2) Suc.IH in blast)
  show ?case
  proof (cases "fs = []")
    case True
    then show ?thesis
      by (auto simp: pb_message_set_to_defaults_def message_defaults_def pb_field_iter_begin_def
          field_at_def PB_LAST_FIELD_def Let_def)
  next
    case False
    then show ?thesis
      using defaults_loop_static [of d fs "pb_field_set_to_default D k" 0 sz 0 m] one Suc.prems(3) lay(1)
      by (simp add: pb_message_set_to_defaults_def message_defaults_def begin_iter_at)
  qed
qed

section \<open>Field decoders\<close>

text \<open>\<open>safe d sz c r\<close>: the computation \<open>r\<close> returns, and changes \<open>c\<close> only inside the structure.\<close>

definition safe :: "addr \<Rightarrow> nat \<Rightarrow> cmem \<Rightarrow> ('s, bool \<times> 's pb_istream \<times> cmem) run \<Rightarrow> bool" where
  "safe d sz c r \<longleftrightarrow> (\<exists>b t c'. r = Done (b, t, c') \<and> frame d sz c c')"

lemma safeE:
  assumes "safe d sz c r"
  obtains b t c' where "r = Done (b, t, c')" "frame d sz c c'"
  using assms unfolding safe_def by blast

lemma safe_Some [simp]: "safe d sz c (Done (b, t, c')) \<longleftrightarrow> frame d sz c c'"
  by (simp add: safe_def)

lemma safe_trans: "frame d sz c c1 \<Longrightarrow> safe d sz c1 r \<Longrightarrow> safe d sz c r"
  by (auto simp: safe_def intro: frame_trans)

lemma safe_mono: "safe a w c r \<Longrightarrow> d \<le> a \<Longrightarrow> a + w \<le> d + sz \<Longrightarrow> safe d sz c r"
  by (auto simp: safe_def intro: frame_mono)

lemma store_signed_safe: "n \<le> w \<Longrightarrow> safe a w c (Done (store_signed s n a v c))"
  by (auto simp: store_signed_def Let_def intro!: frame_wr)

lemma read_length: "pb_read s n = (Some bs, t) \<Longrightarrow> length bs = n"
proof -
  have "length (fst (snd (is_callback src n))) = n" for src :: "'a isource"
    by (cases src) (auto simp: fill_buffer_def split: prod.splits)
  then show "pb_read s n = (Some bs, t) \<Longrightarrow> length bs = n"
    by (auto simp: pb_read_def split: if_splits prod.splits) (metis fst_conv snd_conv)
qed

lemma read_to_safe: "d \<le> a \<Longrightarrow> a + n \<le> d + sz \<Longrightarrow> safe d sz c (Done (pb_read_to s c a n))"
  by (auto simp: pb_read_to_def split: prod.splits option.splits dest!: read_length intro!: frame_store)

lemma read_string_safe:
  assumes "d \<le> a" and "a + n + 1 \<le> d + sz"
  shows "safe d sz c (Done (read_string_to s c a n))"
proof -
  obtain b t c' where r: "pb_read_to s c a n = (b, t, c')" "frame d sz c c'"
    using read_to_safe [of d a n sz c s] assms by (auto elim: safeE)
  have "frame d sz c' (cm_store c' (a + n) [0])" using assms by (intro frame_store) auto
  with r show ?thesis by (auto simp: read_string_to_def intro: frame_trans)
qed

lemma scalar_decoders_safe:
  "1 \<le> w \<Longrightarrow> safe a w c (Done (pb_dec_bool s f a c))"
  "data_size f \<le> w \<Longrightarrow> safe a w c (Done (pb_dec_varint s f a c))"
  "data_size f \<le> w \<Longrightarrow> safe a w c (Done (pb_dec_uvarint s f a c))"
  "data_size f \<le> w \<Longrightarrow> safe a w c (Done (pb_dec_svarint s f a c))"
  "4 \<le> w \<Longrightarrow> safe a w c (Done (pb_dec_fixed32 s f a c))"
  "8 \<le> w \<Longrightarrow> safe a w c (Done (pb_dec_fixed64 s f a c))"
  by (auto simp: pb_dec_bool_def pb_dec_varint_def pb_dec_uvarint_def pb_dec_svarint_def
      pb_dec_fixed32_def pb_dec_fixed64_def Let_def split: option.splits prod.splits
      intro!: frame_store frame_wr store_signed_safe)

lemma fixed_length_bytes_safe:
  "data_size f \<le> w \<Longrightarrow> safe a w c (Done (pb_dec_fixed_length_bytes s f a c))"
  by (auto simp: pb_dec_fixed_length_bytes_def split: option.splits prod.splits
      intro!: frame_store read_to_safe)

lemma bytes_safe:
  assumes "data_size f \<le> w" and "PB_ATYPE (f_type f) = PB_ATYPE_STATIC"
  shows "safe a w c (pb_dec_bytes E s f a c)"
proof -
  have "safe a w c (Done (pb_read_to t (cm_wr c a 4 n) (a + 4) n))" if "(n + 4) mod size_mod \<le> data_size f"
    "n < 2 ^ 32" for t and n :: nat
  proof -
    have "(n + 4) mod size_mod = n + 4" using that(2) by (simp add: size_mod_def)
    then have n: "n + 4 \<le> w" using that(1) assms(1) by simp
    then have "frame a w c (cm_wr c a 4 n)" by (intro frame_wr) simp_all
    then show ?thesis by (rule safe_trans) (use n in \<open>simp add: read_to_safe\<close>)
  qed
  moreover have "unat v < 2 ^ 32" for v :: "32 word" using unsigned_less [where 'a = nat, of v] by simp
  ultimately show ?thesis using assms(2)
    by (auto simp: pb_dec_bytes_def Let_def not_less split: option.splits prod.splits)
qed

lemma unat_add_one:
  fixes v :: "32 word"
  assumes "unat v \<le> unat (v + 1)"
  shows "unat (v + 1) = unat v + 1"
proof -
  have "1 + v \<noteq> 0"
  proof
    assume "1 + v = 0"
    then have "unat v = 0" using assms by (simp add: add.commute)
    then show False using \<open>1 + v = 0\<close> by (simp add: unat_eq_0)
  qed
  then show ?thesis by (simp add: unatSuc add.commute)
qed

lemma string_safe:
  assumes "data_size f \<le> w" and "PB_ATYPE (f_type f) = PB_ATYPE_STATIC"
  shows "safe a w c (pb_dec_string E s f a c)"
proof -
  have "safe a w c (Done (read_string_to t c a (unat v)))"
    if "unat v \<le> unat (v + 1)" "unat (v + 1) \<le> data_size f" for t and v :: "32 word"
    using unat_add_one [of v] that assms(1) by (intro read_string_safe) auto
  with assms(2) show ?thesis
    by (auto simp: pb_dec_string_def Let_def not_less split: option.splits prod.splits)
qed

lemma close_after_safe: "safe d sz c r \<Longrightarrow> safe d sz c (close_after s r)"
  by (auto simp: close_after_def elim!: safeE split: prod.splits bool.splits)

lemma decode_init_safe:
  assumes lay: "layout_ok (de_desc E) j fs sz" "j \<le> n" "0 < d"
    and rec: "\<And>s c. safe d sz c (rec s c fs d)"
  shows "safe d sz c (decode_init E n rec s c fs d)"
proof -
  obtain m where m: "pb_message_set_to_defaults (de_desc E) n (cm_mem c) fs d = Some m"
    "same_outside d sz (cm_mem c) m"
    using defaults_static [OF lay, of "cm_mem c"] by blast
  obtain b t c' where r: "rec s (c\<lparr>cm_mem := m\<rparr>) fs d = Done (b, t, c')" "frame d sz (c\<lparr>cm_mem := m\<rparr>) c'"
    using rec [of "c\<lparr>cm_mem := m\<rparr>" s] by (rule safeE)
  have "frame d sz c (c\<lparr>cm_mem := m\<rparr>)" using m(2) by (simp add: frame_def)
  with r(2) have "frame d sz c c'" using frame_trans by blast
  with m r release_static [OF lay(1,2)] show ?thesis
    by (cases b) (simp_all add: decode_init_def)
qed

lemma submessage_safe:
  assumes "f_ptr f \<noteq> 0" "layout_ok (de_desc E) j (de_desc E (f_ptr f)) w" "j \<le> n" "0 < a"
    and "\<And>s c. safe a w c (rec s c (de_desc E (f_ptr f)) a)"
  shows "safe a w c (pb_dec_submessage E n rec s f a c)"
proof (cases "pb_make_string_substream s")
  case (Pair r s')
  with decode_init_safe [where rec = rec, OF assms(2-5)] assms show ?thesis
    by (auto simp: pb_dec_submessage_def intro!: close_after_safe split: option.splits)
qed

text \<open>What the decoders need of a field whose storage has \<open>w\<close> bytes.\<close>

definition field_ready ::
  "'s dec_env \<Rightarrow> nat \<Rightarrow> ('s pb_istream \<Rightarrow> cmem \<Rightarrow> pb_field list \<Rightarrow> addr \<Rightarrow> 's dec_result) \<Rightarrow> nat
     \<Rightarrow> pb_field \<Rightarrow> bool" where
  "field_ready E n rec w f \<longleftrightarrow>
     PB_ATYPE (f_type f) = PB_ATYPE_STATIC \<and> decodable w f \<and>
     (PB_LTYPE (f_type f) = PB_LTYPE_SUBMESSAGE \<longrightarrow>
        f_ptr f \<noteq> 0 \<and> (\<exists>j \<le> n. layout_ok (de_desc E) j (de_desc E (f_ptr f)) w) \<and>
        (\<forall>s c a. 0 < a \<longrightarrow> safe a w c (rec s c (de_desc E (f_ptr f)) a)))"

lemma ltype_cases:
  "(lt :: 8 word) \<le> 10 \<Longrightarrow> lt \<in> {0, 1, 2, 3, 4, 5, 6, 7, 8, 9, 10}"
proof -
  assume "lt \<le> 10"
  then have "unat lt \<le> 10" by (simp add: word_le_nat_alt)
  then have "unat lt \<in> {0, 1, 2, 3, 4, 5, 6, 7, 8, 9, 10}" by (auto simp: le_Suc_eq numeral_eq_Suc)
  then show ?thesis by (auto simp: unat_eq_0 dest!: arg_cong [of "unat lt" _ "word_of_nat :: nat \<Rightarrow> 8 word"])
qed

lemma decoders_safe:
  assumes ready: "field_ready E n rec w f" and a: "0 < a"
  shows "safe a w c (PB_DECODERS E n rec (PB_LTYPE (f_type f)) s f a c)"
proof -
  let ?lt = "PB_LTYPE (f_type f)"
  have st: "PB_ATYPE (f_type f) = PB_ATYPE_STATIC" and dec: "decodable w f"
    using ready by (simp_all add: field_ready_def)
  have lt: "?lt \<in> {0, 1, 2, 3, 4, 5, 6, 7, 8, 9, 10}"
    using dec by (intro ltype_cases) (simp add: decodable_def Let_def)
  have w: "data_size f \<le> w" "?lt \<noteq> 9" "?lt = 0 \<Longrightarrow> 1 \<le> w" "?lt = 4 \<Longrightarrow> 4 \<le> w" "?lt = 5 \<Longrightarrow> 8 \<le> w"
    using dec by (simp_all add: decodable_def Let_def)
  have sub: "?lt = 8 \<Longrightarrow> safe a w c (pb_dec_submessage E n rec s f a c)"
    using ready a by (auto simp: field_ready_def intro: submessage_safe)
  have bool: "?lt = 0 \<Longrightarrow> safe a w c (Done (pb_dec_bool s f a c))"
    by (rule scalar_decoders_safe(1) [OF w(3)])
  show ?thesis
    unfolding PB_DECODERS_def
    using lt w(2)
    by (simp add: w(4,5) bool scalar_decoders_safe(2-4) [OF w(1)]
        scalar_decoders_safe(5,6) bytes_safe [OF w(1) st] string_safe [OF w(1) st] sub
        fixed_length_bytes_safe [OF w(1)]) blast
qed

section \<open>Iterators\<close>

text \<open>
  The iterators that \<open>pb_decode_noinit\<close> works with: at a field of the descriptor, with \<open>pSize\<close>
  possibly redirected to \<open>fixed_count_size\<close>, or at the terminator of an empty descriptor.
\<close>

definition iter_ok :: "pb_field list \<Rightarrow> addr \<Rightarrow> pb_field_iter \<Rightarrow> bool" where
  "iter_ok fs d it \<longleftrightarrow>
     (\<exists>i x. (it = iter_at fs d x i \<and> (i < length fs \<or> fs = [] \<and> i = 0))
        \<or> (it = (iter_at fs d x i)\<lparr>pSize := Size_local\<rparr> \<and> i < length fs
           \<and> PB_HTYPE (f_type (fs ! i)) = PB_HTYPE_REPEATED))"

lemma iter_at_count [simp]: "(iter_at fs d x i)\<lparr>local_count := y\<rparr> = iter_at fs d y i"
  by (simp add: iter_at_def)

lemma iter_at_local_count [simp]:
  "(iter_at fs d x i)\<lparr>pSize := p, local_count := y\<rparr> = (iter_at fs d y i)\<lparr>pSize := p\<rparr>"
  by (simp add: iter_at_def)

lemma iter_ok_at: "i < length fs \<Longrightarrow> iter_ok fs d (iter_at fs d x i)"
  by (auto simp: iter_ok_def)

lemma iter_ok_begin: "0 < d \<Longrightarrow> fields_wf fs \<Longrightarrow> iter_ok fs d (snd (pb_field_iter_begin fs d x))"
  by (cases fs) (auto simp: begin_iter_at iter_ok_def)

lemma iter_ok_count: "iter_ok fs d it \<Longrightarrow> iter_ok fs d (it\<lparr>local_count := y\<rparr>)"
  unfolding iter_ok_def by (metis iter_at_count iter_at_local_count)

lemma iter_ok_start: "iter_ok fs d it \<Longrightarrow> it_start it = fs"
  by (auto simp: iter_ok_def)

lemma iter_ok_wr_count: "iter_ok fs d it \<Longrightarrow> iter_ok fs d (snd (wr_count c it v))"
  by (auto simp: wr_count_def iter_ok_count split: psize.splits)

lemma empty_next: "pb_field_iter_next (iter_at [] d x 0) = (False, iter_at [] d x 0)"
  by (simp add: pb_field_iter_next_def field_at_def PB_LAST_FIELD_def)

lemma scan_ok:
  assumes "0 < d" "fields_wf fs" "iter_ok fs d it"
  shows "\<exists>found it'. iter_scan (length (it_start it) + 1) p (it_pos it) it = Some (found, it')
    \<and> iter_ok fs d it' \<and> (found \<longrightarrow> p (cur_field it'))"
proof (cases "fs = []")
  case True
  then obtain x where "it = iter_at [] d x 0" using assms(3) by (auto simp: iter_ok_def)
  with True show ?thesis
    using assms(3) by (cases "p PB_LAST_FIELD") (auto simp: empty_next field_at_def iter_ok_def)
next
  case False
  then obtain i x where i: "i < length fs"
    "it = iter_at fs d x i \<or> it = (iter_at fs d x i)\<lparr>pSize := Size_local\<rparr> \<and>
       PB_HTYPE (f_type (fs ! i)) = PB_HTYPE_REPEATED"
    using assms(3) by (auto simp: iter_ok_def)
  let ?c = "iter_at fs d x i"
  have sel: "it_start it = fs" "it_pos it = i" "cur_field it = cur_field ?c"
    using i(2) by (auto simp: cur_field_def)
  have nxt: "pb_field_iter_next it = pb_field_iter_next ?c"
    using i next_iter_at [OF assms(1,2) i(1), of x] next_iter_at_size [OF assms(1,2) i(1), of Size_local x]
    by auto
  have eq: "iter_scan (length fs + 1) p i it =
      (if p (cur_field it) then Some (True, it) else iter_scan (length fs + 1) p i ?c)"
    using sel nxt by (simp add: Let_def)
  show ?thesis
    using iter_scan_all [OF assms(1,2) i(1), of p x] assms(3)
    unfolding sel eq by (auto intro: iter_ok_at simp: sel field_at_def simp del: iter_scan.simps)
qed

lemma find_ok:
  assumes "0 < d" "fields_wf fs" "iter_ok fs d it"
  obtains found it' where "pb_field_iter_find it tag = Some (found, it')" "iter_ok fs d it'"
  using scan_ok [OF assms] unfolding pb_field_iter_find_def by blast

lemma find_extension_ok:
  assumes "0 < d" "fields_wf fs" "iter_ok fs d it"
  obtains found it' where "find_extension_field it = Some (found, it')" "iter_ok fs d it'"
    "found \<Longrightarrow> PB_LTYPE (f_type (cur_field it')) = PB_LTYPE_EXTENSION"
  using scan_ok [OF assms] unfolding find_extension_field_def by blast

lemma seek_last_at:
  assumes "0 < d" "fields_wf fs"
  shows "i < length fs \<Longrightarrow> length fs - i \<le> k \<Longrightarrow> \<exists>r. seek_last k (iter_at fs d x i) = Some r"
proof (induction k arbitrary: i)
  case 0
  then show ?case by simp
next
  case (Suc k)
  then show ?case using assms by (cases "Suc i < length fs") (auto simp: seek_last.simps next_iter_at)
qed

lemma check_required_ok:
  assumes "0 < d" "fields_wf fs" "iter_ok fs d it"
  shows "\<exists>r. check_required seen it = Some r"
proof -
  have "\<exists>r. seek_last (Suc (length fs)) it = Some r"
  proof (cases "fs = []")
    case True
    with assms(3) show ?thesis by (auto simp: iter_ok_def seek_last.simps empty_next)
  next
    case False
    then obtain i x where i: "i < length fs"
      "it = iter_at fs d x i \<or> it = (iter_at fs d x i)\<lparr>pSize := Size_local\<rparr> \<and>
         PB_HTYPE (f_type (fs ! i)) = PB_HTYPE_REPEATED"
      using assms(3) by (auto simp: iter_ok_def)
    then have "pb_field_iter_next it =
        (if Suc i < length fs then (True, iter_at fs d x (Suc i)) else (False, iter_at fs d x 0))"
      using next_iter_at [OF assms(1,2) i(1), of x] next_iter_at_size [OF assms(1,2) i(1), of Size_local x]
      by auto
    then show ?thesis using seek_last_at [OF assms(1,2), of "Suc i" "length fs" x]
      by (cases "Suc i < length fs") (simp_all add: seek_last.simps(2))
  qed
  then show ?thesis
    using iter_ok_start [OF assms(3)] by (auto simp: check_required_def Let_def)
qed

section \<open>Progress of the packable decoders\<close>

lemma varint32_less: "pb_decode_varint32 s = (Some v, t) \<Longrightarrow> bytes_left t < bytes_left s"
  by (auto simp: pb_decode_varint32_def pb_decode_varint32_eof_def split: prod.splits option.splits if_splits
      dest!: pb_readbyte_less loop32.bytes_left_result)

lemma varint_less: "pb_decode_varint s = (Some v, t) \<Longrightarrow> bytes_left t < bytes_left s"
proof -
  have "varint_loop s p r = (Some v, t) \<Longrightarrow> bytes_left t < bytes_left s" for p r
  proof (induction s p r rule: varint_loop.induct)
    case (1 s p r)
    obtain b s' where rb: "pb_readbyte s = (Some b, s')" and p: "\<not> 64 \<le> p"
      using 1(2) by (subst (asm) varint_loop.simps) (auto split: if_splits prod.splits option.splits)
    note less = pb_readbyte_less [OF rb]
    show ?case
    proof (cases "b AND 0x80 \<noteq> 0")
      case True
      then have "varint_loop s' ((p + 7) mod 256) (r OR push_bit p (ucast (b AND 0x7F))) = (Some v, t)"
        using 1(2) rb p by (simp add: varint_loop.simps [of s] Let_def)
      then have "bytes_left t < bytes_left s'"
        using 1(1) [OF p rb [symmetric] refl refl refl True] by simp
      with less show ?thesis by simp
    next
      case False
      with 1(2) rb p less show ?thesis by (subst (asm) varint_loop.simps) (simp add: Let_def)
    qed
  qed
  then show "pb_decode_varint s = (Some v, t) \<Longrightarrow> bytes_left t < bytes_left s"
    by (simp add: pb_decode_varint_def)
qed

lemma store_signed_stream: "store_signed s n a v c = (True, t, c') \<Longrightarrow> t = s"
  by (auto simp: store_signed_def Let_def split: if_splits)

lemma packable_less:
  assumes "PB_DECODERS E n rec lt s f a c = Done (True, t, c')" and "lt \<le> PB_LTYPE_LAST_PACKABLE"
  shows "bytes_left t < bytes_left s"
proof -
  have "lt \<noteq> 6 \<and> lt \<noteq> 7 \<and> lt \<noteq> 8 \<and> lt \<noteq> 10" using assms(2) by auto
  with assms(1) show ?thesis
    by (auto simp: PB_DECODERS_def pb_dec_bool_def pb_dec_varint_def pb_dec_uvarint_def pb_dec_svarint_def
        pb_dec_fixed32_def pb_dec_fixed64_def pb_decode_svarint_def pb_decode_fixed32_def
        pb_decode_fixed64_def Let_def split: if_splits prod.splits option.splits
        dest!: store_signed_stream dest: varint32_less varint_less pb_read_less)
qed

section \<open>Static fields\<close>

text \<open>The storage of the current field, \<open>w\<close> bytes an entry, and its count member.\<close>

definition slot_at :: "addr \<Rightarrow> nat \<Rightarrow> nat \<Rightarrow> pb_field_iter \<Rightarrow> bool" where
  "slot_at d sz k it \<longleftrightarrow>
     (\<exists>off. (pSize it = Size_at (nat (int d + off)) \<or> pSize it = Size_local)
        \<and> 0 \<le> off \<and> off + int k \<le> int sz)"

definition place_ok :: "addr \<Rightarrow> nat \<Rightarrow> nat \<Rightarrow> pb_field_iter \<Rightarrow> bool" where
  "place_ok d sz w it \<longleftrightarrow>
     (let f = cur_field it; ht = PB_HTYPE (f_type f) in
      d \<le> pData it \<and>
      (ht = PB_HTYPE_REPEATED \<longrightarrow> w = data_size f \<and> pData it + w * array_size f \<le> d + sz) \<and>
      (ht \<noteq> PB_HTYPE_REPEATED \<longrightarrow> data_size f \<le> w \<and> pData it + w \<le> d + sz) \<and>
      (ht = PB_HTYPE_OPTIONAL \<longrightarrow> slot_at d sz 1 it) \<and>
      (ht = PB_HTYPE_REPEATED \<or> ht = PB_HTYPE_ONEOF \<longrightarrow> slot_at d sz 4 it))"

definition isafe ::
  "pb_field list \<Rightarrow> addr \<Rightarrow> nat \<Rightarrow> cmem \<Rightarrow> 's dec_iter_result \<Rightarrow> bool" where
  "isafe fs d sz c r \<longleftrightarrow>
     (\<exists>b t c' it'. r = Done (b, t, c', it') \<and> frame d sz c c' \<and> iter_ok fs d it')"

lemma isafeI: "frame d sz c c' \<Longrightarrow> iter_ok fs d it' \<Longrightarrow> isafe fs d sz c (Done (b, t, c', it'))"
  by (auto simp: isafe_def)

lemma isafe_trans: "frame d sz c c1 \<Longrightarrow> isafe fs d sz c1 r \<Longrightarrow> isafe fs d sz c r"
  by (auto simp: isafe_def intro: frame_trans)

lemma isafe_keep:
  "safe d sz c r \<Longrightarrow> iter_ok fs d it \<Longrightarrow> isafe fs d sz c (map_run (\<lambda>(ok, s, c). (ok, s, c, it)) r)"
  by (auto simp: safe_def isafe_def)

lemma wr_count_place:
  "place_ok d sz w it \<Longrightarrow> place_ok d sz w (snd (wr_count c it v))"
  "cur_field (snd (wr_count c it v)) = cur_field it" "pData (snd (wr_count c it v)) = pData it"
  by (auto simp: wr_count_def place_ok_def cur_field_def slot_at_def Let_def split: psize.splits)

lemma wr_count_slot: "slot_at d sz 4 it \<Longrightarrow> frame d sz c (fst (wr_count c it v))"
  using wr_count_frame by (fastforce simp: slot_at_def)

lemma item_in_array:
  assumes "place_ok d sz w it" and "PB_HTYPE (f_type (cur_field it)) = PB_HTYPE_REPEATED"
    and "k < array_size (cur_field it)"
  shows "d \<le> item_addr (pData it) (cur_field it) k" and "item_addr (pData it) (cur_field it) k + w \<le> d + sz"
proof -
  let ?f = "cur_field it"
  have w: "w = data_size ?f" "pData it + w * array_size ?f \<le> d + sz" "d \<le> pData it"
    using assms(1,2) by (auto simp: place_ok_def Let_def)
  have "w * k + w \<le> w * array_size ?f" using assms(3) mult_le_mono2 [of "Suc k" "array_size ?f" w] by simp
  moreover have "(data_size ?f * k) mod 2 ^ 32 \<le> w * k" by (simp add: w(1) mod_less_eq_dividend)
  ultimately show "d \<le> item_addr (pData it) ?f k" "item_addr (pData it) ?f k + w \<le> d + sz"
    using w by (simp_all add: item_addr_def)
qed

lemma static_packed_loop_safe:
  assumes ready: "field_ready E n rec w f" and d: "0 < d"
    and ht: "PB_HTYPE (f_type f) = PB_HTYPE_REPEATED" and lt: "PB_LTYPE (f_type f) \<le> PB_LTYPE_LAST_PACKABLE"
  shows "iter_ok fs d it \<Longrightarrow> place_ok d sz w it \<Longrightarrow> cur_field it = f \<Longrightarrow> bytes_left sub < k \<Longrightarrow>
    isafe fs d sz c (static_packed_loop (PB_DECODERS E n rec (PB_LTYPE (f_type f))) k sub c it)"
proof (induction k arbitrary: sub c it)
  case 0
  then show ?case by simp
next
  case (Suc k)
  let ?func = "PB_DECODERS E n rec (PB_LTYPE (f_type f))" and ?sz = "rd_count (cm_mem c) it"
  show ?case
  proof (cases "bytes_left sub > 0 \<and> ?sz < array_size f")
    case False
    with Suc.prems show ?thesis by (auto simp: static_packed_loop.simps(2) Let_def intro: isafeI)
  next
    case True
    let ?a = "item_addr (pData it) f ?sz"
    have in_arr: "d \<le> ?a" "?a + w \<le> d + sz"
      using item_in_array [OF Suc.prems(2)] Suc.prems(3) ht True by auto
    obtain b t c1 where r: "?func sub f ?a c = Done (b, t, c1)" "frame ?a w c c1"
      using decoders_safe [OF ready, of ?a c sub] in_arr d by (auto elim: safeE)
    have fr: "frame d sz c c1" by (rule frame_mono [OF r(2) in_arr])
    show ?thesis
    proof (cases b)
      case False
      with True r(1) fr Suc.prems show ?thesis
        by (auto simp: static_packed_loop.simps(2) Let_def intro: isafeI)
    next
      case b: True
      obtain c2 it2 where wr: "wr_count c1 it (rd_count (cm_mem c1) it + 1) = (c2, it2)" by force
      have "slot_at d sz 4 it" using Suc.prems(2,3) ht by (simp add: place_ok_def Let_def)
      then have "frame d sz c1 c2" using wr_count_slot [of d sz it c1] wr by (metis fst_conv)
      then have fr2: "frame d sz c c2" using fr frame_trans by blast
      have it2: "iter_ok fs d it2" "place_ok d sz w it2" "cur_field it2 = f"
        using iter_ok_wr_count [OF Suc.prems(1)] wr_count_place(1) [OF Suc.prems(2)] wr_count_place(2)
          Suc.prems(3) wr by (metis snd_conv)+
      have "bytes_left t < k" 
        using packable_less [of E n rec "PB_LTYPE (f_type f)" sub f ?a c t c1] r(1) b lt Suc.prems(4) by simp
      from isafe_trans [OF fr2 Suc.IH [OF it2 this, of c2]] show ?thesis
        using True r(1) b wr Suc.prems(3) by (simp add: static_packed_loop.simps(2) Let_def)
    qed
  qed
qed

lemma byte_less_4:
  fixes y :: byte
  assumes "unat y < 4"
  shows "y \<in> {0, 1, 2, 3}"
proof -
  have "unat y = 0 \<or> unat y = 1 \<or> unat y = 2 \<or> unat y = 3" using assms by linarith
  then show ?thesis
    by (auto simp: unat_eq_0 dest!: arg_cong [of "unat y" _ "word_of_nat :: nat \<Rightarrow> 8 word"])
qed

lemma htype_cases: "PB_HTYPE x \<in> {PB_HTYPE_REQUIRED, PB_HTYPE_OPTIONAL, PB_HTYPE_REPEATED, PB_HTYPE_ONEOF}"
proof -
  have "(0x30 :: 8 word) = push_bit 4 (take_bit 2 (- 1))" by code_simp
  have "PB_HTYPE x = push_bit 4 (take_bit 2 (drop_bit 4 x))"
    unfolding PB_HTYPE_def \<open>0x30 = _\<close>
    by (rule bit_word_eqI) (auto simp: bit_simps)
  moreover have "unat (take_bit 2 (drop_bit 4 x)) < 4"
    by (simp add: unsigned_take_bit_eq take_bit_nat_less_exp [of 2, simplified])
  then have "take_bit 2 (drop_bit 4 x) \<in> {0, 1, 2, 3}" by (rule byte_less_4)
  ultimately show ?thesis by auto
qed

lemma static_field_safe:
  assumes ready: "field_ready E n rec w (cur_field it)" and place: "place_ok d sz w it"
    and it: "iter_ok fs d it" and d: "0 < d"
  shows "isafe fs d sz c (decode_static_field E n rec s wt c it)"
proof -
  let ?f = "cur_field it"
  let ?ht = "PB_HTYPE (f_type ?f)" and ?lt = "PB_LTYPE (f_type ?f)"
  let ?func = "PB_DECODERS E n rec ?lt"
  have p: "d \<le> pData it" "?ht \<noteq> PB_HTYPE_REPEATED \<Longrightarrow> pData it + w \<le> d + sz"
    "?ht \<noteq> PB_HTYPE_REPEATED \<Longrightarrow> data_size ?f \<le> w"
    "?ht = PB_HTYPE_OPTIONAL \<Longrightarrow> slot_at d sz 1 it"
    "?ht = PB_HTYPE_REPEATED \<or> ?ht = PB_HTYPE_ONEOF \<Longrightarrow> slot_at d sz 4 it"
    using place by (auto simp: place_ok_def Let_def)
  have a: "0 < pData it" using p(1) d by simp
  have single: "safe d sz c (?func s ?f (pData it) c)" if "?ht \<noteq> PB_HTYPE_REPEATED" for s c
    by (rule safe_mono [OF decoders_safe [OF ready a] p(1) p(2) [OF that]])
  consider (req) "?ht = PB_HTYPE_REQUIRED" | (opt) "?ht = PB_HTYPE_OPTIONAL"
    | (packed) "?ht = PB_HTYPE_REPEATED" "wt = PB_WT_STRING \<and> ?lt \<le> PB_LTYPE_LAST_PACKABLE"
    | (rep) "?ht = PB_HTYPE_REPEATED" "\<not> (wt = PB_WT_STRING \<and> ?lt \<le> PB_LTYPE_LAST_PACKABLE)"
    | (oneof) "?ht \<noteq> PB_HTYPE_REQUIRED" "?ht \<noteq> PB_HTYPE_OPTIONAL" "?ht \<noteq> PB_HTYPE_REPEATED"
    by blast
  then show ?thesis
  proof cases
    case req
    then show ?thesis using single it by (simp add: decode_static_field_def Let_def isafe_keep)
  next
    case opt
    let ?c = "if pSize it \<noteq> Size_at (pData it) then c\<lparr>cm_mem := wr_has (cm_mem c) it True\<rparr> else c"
    have "frame d sz c ?c"
      using p(4) [OF opt] by (auto simp: frame_def slot_at_def intro!: wr_has_frame)
    then have "isafe fs d sz c (map_run (\<lambda>(ok, s, c). (ok, s, c, it)) (?func s ?f (pData it) ?c))"
      using opt single it by (intro isafe_keep safe_trans [of d sz c ?c]) auto
    then show ?thesis using opt by (simp add: decode_static_field_def Let_def)
  next
    case packed
    show ?thesis
    proof (cases "pb_make_string_substream s")
      case (Pair r s')
      show ?thesis
      proof (cases r)
        case None
        then show ?thesis using packed it Pair by (simp add: decode_static_field_def Let_def isafeI)
      next
        case (Some sub)
        have "isafe fs d sz c (static_packed_loop ?func (Suc (bytes_left sub)) sub c it)"
          by (rule static_packed_loop_safe [OF ready d packed(1) _ it place]) (use packed in simp_all)
        then obtain b t c' it' where l: "static_packed_loop ?func (Suc (bytes_left sub)) sub c it = Done (b, t, c', it')"
          "frame d sz c c'" "iter_ok fs d it'" by (auto simp: isafe_def)
        have "safe d sz c (close_after s' (Done (b, t, c')))" by (rule close_after_safe) (simp add: l)
        then show ?thesis using packed Pair Some l
          by (auto simp: decode_static_field_def Let_def intro: isafeI isafe_keep)
      qed
    qed
  next
    case rep
    let ?sz = "rd_count (cm_mem c) it"
    obtain c1 it1 where wr: "wr_count c it (?sz + 1) = (c1, it1)" by force
    have fr: "frame d sz c c1" using wr_count_slot [OF p(5), of c "?sz + 1"] rep wr by simp
    have it1: "iter_ok fs d it1" using iter_ok_wr_count [OF it] wr by (metis snd_conv)
    have "safe d sz c (?func s ?f (item_addr (pData it) ?f ?sz) c1)" if "\<not> array_size ?f \<le> ?sz"
    proof (rule safe_trans [OF fr safe_mono [OF decoders_safe [OF ready]]])
      show "d \<le> item_addr (pData it) ?f ?sz" "item_addr (pData it) ?f ?sz + w \<le> d + sz"
        using item_in_array [OF place rep(1)] that by auto
      then show "0 < item_addr (pData it) ?f ?sz" using d by simp
    qed
    then show ?thesis using rep wr fr it1
      by (auto simp: decode_static_field_def Let_def intro: isafeI isafe_keep)
  next
    case oneof
    have ht: "?ht = PB_HTYPE_ONEOF"
      using oneof htype_cases [of "f_type ?f"] by simp
    define c1 where "c1 = (if ?lt = PB_LTYPE_SUBMESSAGE \<and> rd_count (cm_mem c) it \<noteq> f_tag ?f
      then map_option (\<lambda>m. c\<lparr>cm_mem := m\<rparr>) (pb_message_set_to_defaults (de_desc E) n
        (mstore (cm_mem c) (pData it) (replicate (data_size ?f) 0)) (de_desc E (f_ptr ?f)) (pData it))
      else Some c)"
    obtain c2 where c2: "c1 = Some c2" "frame d sz c c2"
    proof (cases "?lt = PB_LTYPE_SUBMESSAGE \<and> rd_count (cm_mem c) it \<noteq> f_tag ?f")
      case False
      then have "c1 = Some c" unfolding c1_def by (simp only: if_False)
      then show ?thesis using that by simp
    next
      case True
      let ?m = "mstore (cm_mem c) (pData it) (replicate (data_size ?f) 0)"
      obtain j where "j \<le> n" "layout_ok (de_desc E) j (de_desc E (f_ptr ?f)) w"
        using ready True by (auto simp: field_ready_def)
      then obtain m where m: "pb_message_set_to_defaults (de_desc E) n ?m (de_desc E (f_ptr ?f)) (pData it) = Some m"
        "same_outside (pData it) w ?m m"
        using defaults_static [of "de_desc E" j "de_desc E (f_ptr ?f)" w n "pData it" ?m] a by blast
      have "same_outside d sz (cm_mem c) m"
        by (rule same_outside_trans [OF same_outside_mstore [of d "pData it"]
              same_outside_mono [OF m(2)]]) (use p oneof in auto)
      with m True show ?thesis using that [of "c\<lparr>cm_mem := m\<rparr>"] by (simp add: c1_def frame_def)
    qed
    obtain c3 it3 where wr: "wr_count c2 it (f_tag ?f) = (c3, it3)" by force
    have "frame d sz c2 c3" using wr_count_slot [OF p(5), of c2 "f_tag ?f"] ht wr by simp
    then have "safe d sz c (?func s ?f (pData it) c3)"
      using c2(2) single oneof(3) frame_trans safe_trans by blast
    moreover have "iter_ok fs d it3" using iter_ok_wr_count [OF it] wr by (metis snd_conv)
    ultimately show ?thesis using oneof c2(1) wr
      by (simp add: decode_static_field_def Let_def c1_def [symmetric] isafe_keep)
  qed
qed

section \<open>Messages\<close>

text \<open>A recursive call that is safe on the submessages of \<open>fs\<close>.\<close>

definition sub_safe ::
  "'s dec_env \<Rightarrow> ('s pb_istream \<Rightarrow> cmem \<Rightarrow> pb_field list \<Rightarrow> addr \<Rightarrow> 's dec_result) \<Rightarrow> nat \<Rightarrow> bool" where
  "sub_safe E rec j \<longleftrightarrow>
     (\<forall>fs sz s c a. layout_ok (de_desc E) j fs sz \<longrightarrow> 0 < a \<longrightarrow> safe a sz c (rec s c fs a))"

lemma iter_okE:
  assumes "iter_ok fs d it"
  obtains (field) i where "i < length fs" "cur_field it = fs ! i" "pData it = d + field_offset fs i"
      "pSize it = Size_at (nat (int d + count_offset fs i)) \<or> pSize it = Size_local"
    | (empty) "fs = []" "cur_field it = PB_LAST_FIELD" "pData it = d"
  using assms
  by (auto simp: iter_ok_def pSize_iter_at cur_field_def field_at_def PB_LAST_FIELD_def)

lemma current_field_static:
  assumes "layout_ok D (Suc j) fs sz" and "iter_ok fs d it"
  shows "PB_ATYPE (f_type (cur_field it)) = PB_ATYPE_STATIC"
    and "PB_LTYPE (f_type (cur_field it)) \<noteq> PB_LTYPE_EXTENSION"
    and "PB_LTYPE (f_type (cur_field it)) = PB_LTYPE_SUBMESSAGE \<Longrightarrow>
      layout_ok D j (D (f_ptr (cur_field it))) (data_size (cur_field it))"
proof -
  have last: "PB_ATYPE (f_type PB_LAST_FIELD) = 0" "PB_LTYPE (f_type PB_LAST_FIELD) = 0"
    by (simp_all add: PB_LAST_FIELD_def PB_ATYPE_def PB_LTYPE_def)
  note l = layout_okD [OF assms(1)]
  note assms(2)
  then show "PB_ATYPE (f_type (cur_field it)) = PB_ATYPE_STATIC"
    by (cases rule: iter_okE) (simp_all add: l last)
  from assms(2) show "PB_LTYPE (f_type (cur_field it)) \<noteq> PB_LTYPE_EXTENSION"
    by (cases rule: iter_okE) (simp_all add: decodable_not_ext [OF l(5)] last)
  from assms(2) show "PB_LTYPE (f_type (cur_field it)) = PB_LTYPE_SUBMESSAGE \<Longrightarrow>
      layout_ok D j (D (f_ptr (cur_field it))) (data_size (cur_field it))"
    by (cases rule: iter_okE) (simp_all add: l last)
qed

lemma place_of_layout:
  assumes lay: "layout_ok (de_desc E) (Suc j) fs sz" "j \<le> n" and it: "iter_ok fs d it"
    and rec: "sub_safe E rec j"
  shows "\<exists>w. field_ready E n rec w (cur_field it) \<and> place_ok d sz w it"
  using it
proof (cases rule: iter_okE)
  case (field i)
  let ?f = "fs ! i"
  note l = layout_okD [OF lay(1)]
  note slot = slot_okD [OF l(6) [OF field(1)]]
  have "field_ready E n rec (data_size ?f) ?f"
    using l(3) [OF field(1)] l(5) [OF field(1)] l(7) [OF field(1)] lay(2) rec
    by (auto simp: field_ready_def sub_safe_def)
  moreover have "slot_at d sz k it" if "0 \<le> count_offset fs i \<and> count_offset fs i + int k \<le> int sz" for k
    using that field(4) unfolding slot_at_def by blast
  then have "place_ok d sz (data_size ?f) it"
    using l(3,4) [OF field(1)] slot field(2,3)
    by (auto simp: place_ok_def stored_size_def Let_def)
  ultimately show ?thesis using field(2) by auto
next
  case empty
  then have "field_ready E n rec 1 (cur_field it)" "place_ok d sz 1 it"
    using layout_okD(2) [OF lay(1)]
    by (auto simp: field_ready_def decodable_def place_ok_def PB_LAST_FIELD_def PB_ATYPE_def PB_LTYPE_def
        PB_HTYPE_def)
  then show ?thesis by blast
qed

lemma release_union_static:
  assumes lay: "layout_ok D (Suc j) fs sz" "j < n" and it: "iter_ok fs d it" and d: "0 < d"
  obtains b t it' where "pb_release_union_field D n s c it = Done (b, t, c, it')" "iter_ok fs d it'"
proof -
  have wf: "fields_wf fs" by (rule layout_okD [OF lay(1)])
  obtain n' where n': "n = Suc n'" "j \<le> n'" using lay(2) by (cases n) auto
  have rel: "pb_release_single_field D n c it1 = Some c" if "iter_ok fs d it1" for it1
    unfolding n'(1)
    by (rule release_single_static)
      (use current_field_static [OF lay(1) that] release_static n'(2) in auto)
  let ?old = "rd_count (cm_mem c) it" and ?new = "f_tag (cur_field it)"
  obtain f1 it1 where f1: "pb_field_iter_find it ?old = Some (f1, it1)" "iter_ok fs d it1"
    by (rule find_ok [OF d wf it])
  obtain f2 it2 where f2: "pb_field_iter_find it1 ?new = Some (f2, it2)" "iter_ok fs d it2"
    by (rule find_ok [OF d wf f1(2)])
  have "\<exists>b t it'. pb_release_union_field D n s c it = Done (b, t, c, it') \<and> iter_ok fs d it'"
    using it f1 f2 rel [OF f1(2)] current_field_static(1) [OF lay(1) f2(2)]
    by (cases f1; cases f2) (auto simp: pb_release_union_field_def Let_def)
  with that show ?thesis by blast
qed

lemma field_safe:
  assumes lay: "layout_ok (de_desc E) (Suc j) fs sz" "j < n" and it: "iter_ok fs d it" and d: "0 < d"
    and rec: "sub_safe E rec j"
  shows "isafe fs d sz c (decode_field E n rec s wt c it)"
proof -
  have static: "isafe fs d sz c (decode_static_field E n rec t wt c it')"
    and atype: "PB_ATYPE (f_type (cur_field it')) = PB_ATYPE_STATIC" if "iter_ok fs d it'" for t it'
    using place_of_layout [OF lay(1) _ that rec, of n] lay(2) static_field_safe [OF _ _ that d]
      current_field_static(1) [OF lay(1) that] by auto
  obtain b t it' where r: "pb_release_union_field (de_desc E) n s c it = Done (b, t, c, it')" "iter_ok fs d it'"
    by (rule release_union_static [OF lay it d])
  show ?thesis
  proof (cases "PB_HTYPE (f_type (cur_field it)) = PB_HTYPE_ONEOF \<and> \<not> b")
    case True
    then show ?thesis using r by (auto simp: decode_field_def intro: isafeI)
  next
    case False
    then show ?thesis
      using r static [OF r(2)] atype [OF r(2)] static [OF it] atype [OF it]
      by (cases "PB_HTYPE (f_type (cur_field it)) = PB_HTYPE_ONEOF") (auto simp: decode_field_def)
  qed
qed

lemma unknown_safe:
  assumes lay: "layout_ok (de_desc E) (Suc j) fs sz" and it: "iter_ok fs d it" and d: "0 < d"
    and tag: "tag < 2 ^ 32 - 1"
  obtains b t it' r where "decode_unknown E n rec s tag wt c it rng = Done (b, t, c, it', r)" "iter_ok fs d it'"
    "within s t"
proof -
  have wf: "fields_wf fs" by (rule layout_okD [OF lay])
  obtain f1 it1 where f1: "find_extension_field it = Some (f1, it1)" "iter_ok fs d it1"
    "f1 \<Longrightarrow> PB_LTYPE (f_type (cur_field it1)) = PB_LTYPE_EXTENSION"
    by (rule find_extension_ok [OF d wf it]) blast
  have "\<not> f1" using f1(3) current_field_static(2) [OF lay f1(2)] by blast
  obtain b t where skip: "pb_skip_field s wt = (b, t)" by force
  have "decode_unknown E n rec s tag wt c it rng =
      (if rng \<le> tag then Done (b, t, c, it1, 2 ^ 32 - 1) else Done (b, t, c, it, rng))"
    using f1(1) \<open>\<not> f1\<close> tag skip by (simp add: decode_unknown_def Let_def)
  with that f1(2) it skip_field.within_result [OF skip] show ?thesis by (cases "rng \<le> tag") auto
qed

lemma decode_tag_bound: "pb_decode_tag s = (Some (wt, tag), e, t) \<Longrightarrow> tag < 2 ^ 32 - 1 \<and> bytes_left t < bytes_left s"
proof -
  assume a: "pb_decode_tag s = (Some (wt, tag), e, t)"
  then obtain v where v: "pb_decode_varint32 s = (Some v, t)" "tag = unat (drop_bit 3 v)"
    by (auto simp: pb_decode_tag_def pb_decode_varint32_def split: prod.splits option.splits if_splits)
  have "unat (drop_bit 3 v) = unat v div 8" unfolding unat_drop_bit_eq by (simp add: drop_bit_eq_div)
  moreover have "unat v < 2 ^ 32" using unsigned_less [where 'a = nat, of v] by simp
  ultimately show "tag < 2 ^ 32 - 1 \<and> bytes_left t < bytes_left s"
    using v varint32_less [OF v(1)] by auto
qed

lemma prepare_ok:
  assumes "iter_ok fs d it" and "prepare_field v it = Some (v', it')"
  shows "iter_ok fs d it'"
proof (cases "PB_HTYPE (f_type (cur_field it)) = PB_HTYPE_REPEATED \<and> pSize it = Size_at (pData it)")
  case False
  then show ?thesis using assms by (auto simp: prepare_field_def Let_def)
next
  case True
  then obtain i x where i: "it = iter_at fs d x i" "i < length fs"
    using assms(1) by (auto simp: iter_ok_def field_at_def PB_LAST_FIELD_def PB_HTYPE_def cur_field_def)
  then have "it' = (iter_at fs d x i)\<lparr>pSize := Size_local\<rparr> \<or> it' = (iter_at fs d 0 i)\<lparr>pSize := Size_local\<rparr>"
    using True assms(2) by (auto simp: prepare_field_def Let_def iter_at_def split: if_splits)
  then show ?thesis using True i by (auto simp: iter_ok_def field_at_def)
qed

lemma finish_safe:
  "0 < d \<Longrightarrow> fields_wf fs \<Longrightarrow> iter_ok fs d it \<Longrightarrow> safe d sz c (finish_message s c v it)"
  using check_required_ok [of d fs it "fields_seen v"] by (auto simp: finish_message_def)

lemma noinit_loop_safe:
  assumes lay: "layout_ok (de_desc E) (Suc j) fs sz" "j < n" and d: "0 < d" and rec: "sub_safe E rec j"
    and within: "\<And>s c fs dest. stays s (rec s c fs dest)" and env: "env_within E"
  shows "iter_ok fs d it \<Longrightarrow> bytes_left s < k \<Longrightarrow> safe d sz c (noinit_loop E n rec k s c v it)"
proof (induction k arbitrary: s c v it)
  case 0
  then show ?case by simp
next
  case (Suc k)
  have wf: "fields_wf fs" by (rule layout_okD [OF lay(1)])
  note fin = finish_safe [OF d wf]
  obtain r e t where tg: "pb_decode_tag s = (r, e, t)" by (metis prod_cases3)
  show ?case
  proof (cases "bytes_left s = 0 \<or> r = None")
    case True
    then show ?thesis using fin [OF Suc.prems(1)] tg by (auto simp: noinit_loop.simps(2))
  next
    case False
    then obtain wt tag where r: "r = Some (wt, tag)" by auto
    have bound: "tag < 2 ^ 32 - 1" "bytes_left t < bytes_left s" using decode_tag_bound tg r by blast+
    obtain found it1 where f: "pb_field_iter_find it tag = Some (found, it1)" "iter_ok fs d it1"
      by (rule find_ok [OF d wf Suc.prems(1)])
    show ?thesis
    proof (cases found)
      case False
      obtain b t2 it2 rg where u: "decode_unknown E n rec t tag wt c it1 (extension_range_start v) =
          Done (b, t2, c, it2, rg)" "iter_ok fs d it2" "within t t2"
        by (rule unknown_safe [OF lay(1) f(2) d bound(1)])
      have "bytes_left t2 < k" using u(3) bound(2) Suc.prems(2) by (simp add: within_def)
      with False f(1) u(1) \<open>\<not> (bytes_left s = 0 \<or> r = None)\<close> tg r Suc.IH [OF u(2)] show ?thesis
        by (cases b) (simp_all add: noinit_loop.simps(2))
    next
      case True
      show ?thesis
      proof (cases "prepare_field v it1")
        case None
        with True f(1) \<open>\<not> (bytes_left s = 0 \<or> r = None)\<close> tg r show ?thesis
          by (simp add: noinit_loop.simps(2))
      next
        case (Some vi)
        obtain v2 it2 where vi: "vi = (v2, it2)" by force
        have it2: "iter_ok fs d it2" using prepare_ok f(2) Some vi by blast
        obtain b t3 c3 it3 where df: "decode_field E n rec t wt c it2 = Done (b, t3, c3, it3)"
          "frame d sz c c3" "iter_ok fs d it3"
          using field_safe [OF lay it2 d rec, of c t wt] by (auto simp: isafe_def)
        have "within t t3" by (rule staysD(1) [OF field_stays [OF env within] df(1)])
        then have "bytes_left t3 < k" using bound(2) Suc.prems(2) by (simp add: within_def)
        with True f(1) Some vi df \<open>\<not> (bytes_left s = 0 \<or> r = None)\<close> tg r
          safe_trans [OF df(2) Suc.IH [OF df(3)]] show ?thesis
          by (cases b) (simp_all add: noinit_loop.simps(2))
      qed
    qed
  qed
qed

lemma noinit_safe:
  assumes "env_within E"
  shows "layout_ok (de_desc E) j fs sz \<Longrightarrow> j < n \<Longrightarrow> 0 < d \<Longrightarrow>
    safe d sz c (pb_decode_noinit E n s c fs d)"
proof (induction j arbitrary: n fs sz s c d)
  case 0
  then show ?case by simp
next
  case (Suc j)
  obtain n' where n': "n = Suc n'" "j < n'" using Suc.prems(2) by (cases n) auto
  have rec: "sub_safe E (pb_decode_noinit E n') j"
    using Suc.IH [OF _ n'(2)] by (simp add: sub_safe_def)
  have it: "iter_ok fs d (snd (pb_field_iter_begin fs d 0))"
    by (rule iter_ok_begin [OF Suc.prems(3) layout_okD(1) [OF Suc.prems(1)]])
  show ?case
    unfolding n'(1)
    using noinit_loop_safe [OF Suc.prems(1) n'(2) Suc.prems(3) rec noinit_stays [OF assms] assms it lessI]
    by simp
qed

section \<open>Properties\<close>

text \<open>C2. Decoding into a statically allocated message is total and memory safe. If the descriptors
  describe a structure of \<open>sz\<close> bytes (\<open>layout_ok\<close>, nesting depth \<open>j\<close>), \<open>pb_decode\<close> of any input
  into memory at \<open>dest\<close> returns with any fuel above \<open>j\<close>; it changes no byte outside
  \<open>[dest, dest + sz)\<close> and does not touch the heap, whether it succeeds or fails.\<close>

theorem decode_static_memory_safe:
  assumes "env_within E" and "layout_ok (de_desc E) j fs sz" and "j < n" and "0 < dest"
  shows "\<exists>ok s' c'. pb_decode E n s c fs dest = Done (ok, s', c')
    \<and> cm_heap c' = cm_heap c
    \<and> (\<forall>x. x < dest \<or> dest + sz \<le> x \<longrightarrow> cm_mem c' x = cm_mem c x)"
proof -
  have "safe dest sz c (decode_init E n (pb_decode_noinit E n) s c fs dest)"
    by (rule decode_init_safe [OF assms(2) less_imp_le [OF assms(3)] assms(4)])
      (rule noinit_safe [OF assms])
  then show ?thesis
    by (auto simp: pb_decode_def safe_def frame_def same_outside_def)
qed

text \<open>A message with an optional \<open>int32\<close> and a repeated \<open>fixed32\<close> of at most three entries: \<open>has_\<close> at
  offset 0, the integer at 4, the count at 8, the array at 12.\<close>

definition sample_layout :: "pb_field list" where
  "sample_layout =
     [\<lparr>f_tag = 1, f_type = 0x11, data_offset = 4, size_offset = -4, data_size = 4, array_size = 0, f_ptr = 0\<rparr>,
      \<lparr>f_tag = 2, f_type = 0x24, data_offset = 4, size_offset = -4, data_size = 4, array_size = 3, f_ptr = 0\<rparr>]"

lemma sample_layout_ok: "layout_ok (de_desc sample_dec_env) (Suc 0) sample_layout 24"
  by (simp add: sample_layout_def Let_def PB_ATYPE_def PB_HTYPE_def PB_LTYPE_def decodable_def
      slot_ok_def count_offset_def stored_size_def same_union_def field_at_def)

theorem decode_static_memory_safe_witness:
  "\<exists>ok s' c'. pb_decode sample_dec_env (Suc (Suc 0)) (pb_istream_from_buffer [0x12, 4, 1, 2, 3, 4, 8, 5] 8)
      \<lparr>cm_mem = (\<lambda>_. 7), cm_heap = Map.empty\<rparr> sample_layout 100 = Done (ok, s', c')
    \<and> cm_heap c' = Map.empty \<and> cm_mem c' 99 = 7 \<and> cm_mem c' 124 = 7"
  using decode_static_memory_safe [OF sample_env_within sample_layout_ok, of "Suc (Suc 0)" 100
      "pb_istream_from_buffer [0x12, 4, 1, 2, 3, 4, 8, 5] 8" "\<lparr>cm_mem = (\<lambda>_. 7), cm_heap = Map.empty\<rparr>"]
  by fastforce

text \<open>C11. Setting defaults writes outside a small fixed-count array. A repeated field with
  \<open>fixed_count\<close> has no count member, so its \<open>pSize\<close> is its \<open>pData\<close>, and
  \<open>pb_field_set_to_default\<close> stores a \<open>pb_size_t\<close> there: for an array of two \<open>bool\<close>s, a structure of
  two bytes at \<open>dest\<close>, the two bytes behind the structure are zeroed, whatever they held.\<close>

theorem fixed_count_default_overflows:
  "\<exists>m'. pb_message_set_to_defaults D (Suc n) m
      [\<lparr>f_tag = 1, f_type = 0x20, data_offset = 0, size_offset = 0, data_size = 1, array_size = 2,
        f_ptr = 0\<rparr>] (Suc dest) = Some m'
    \<and> m' (Suc dest + 2) = 0 \<and> m' (Suc dest + 3) = 0"
proof -
  have "le_bytes 4 0 = [0, 0, 0, 0]" by code_simp
  moreover have "ptr_offset (Suc dest) 0 = Suc dest" by (simp only: ptr_offset_def add_0_right nat_int)
  ultimately show ?thesis
    by (simp add: pb_message_set_to_defaults_def message_defaults_def pb_field_iter_begin_def
        field_at_def defaults_loop.simps pb_field_set_to_default.simps(2) cur_field_def PB_LTYPE_def
        PB_HTYPE_def PB_ATYPE_def wr_count_def wr_u_def mstore_def pb_field_iter_next_def
        PB_LAST_FIELD_def Let_def)
qed

text \<open>C12. Field number 0 is decoded into an empty message. \<open>pb_field_iter_find\<close> compares the tag with
  that of the current descriptor entry, which for an empty message is the terminator with tag 0; a
  record with the illegal field number 0 is then decoded as a required \<open>bool\<close>, stored at the start
  of the structure, and reported as success.\<close>

theorem empty_message_accepts_tag_zero:
  "\<exists>c'. pb_decode E (Suc (Suc n)) (pb_istream_from_buffer [2, 5] 2) c [] (Suc dest) =
      Done (True, \<lparr>is_src = Buf_source [], bytes_left = 0, is_errmsg = None\<rparr>, c')
    \<and> cm_mem c' (Suc dest) = 1"
proof -
  have rb: "pb_readbyte \<lparr>is_src = Buf_source [2, 5], bytes_left = 2, is_errmsg = None\<rparr> =
      (Some 2, \<lparr>is_src = Buf_source [5], bytes_left = Suc 0, is_errmsg = None\<rparr>)"
    "pb_readbyte \<lparr>is_src = Buf_source [5], bytes_left = Suc 0, is_errmsg = None\<rparr> =
      (Some 5, \<lparr>is_src = Buf_source [], bytes_left = 0, is_errmsg = None\<rparr>)"
    by (simp_all add: pb_readbyte_def)
  show ?thesis
    by (simp add: pb_decode_def decode_init_def pb_message_set_to_defaults_def message_defaults_def
        pb_field_iter_begin_def field_at_def PB_LAST_FIELD_def cur_field_def PB_LTYPE_def PB_HTYPE_def
        PB_ATYPE_def pb_field_iter_next_def noinit_loop.simps numeral_3_eq_3 pb_istream_from_buffer_def
        pb_decode_tag_def pb_decode_varint32_eof_def rb pb_field_iter_find_def prepare_field_def
        decode_field_def decode_static_field_def PB_DECODERS_def pb_dec_bool_def
        pb_decode_varint32_def finish_message_def fixed_count_done_def check_required_def
        seek_last.simps all_seen_def mark_seen_def mstore_def Let_def)
qed

end
