(* ===== verification/Der.thy ===== *)
theory Der
  imports Prelude
begin

unbundle bit_operations_syntax

text \<open>
  The distinguished encoding rules of ASN.1 (X.690), as far as the byte-string library relies on
  them: the one encoding of a tag, of a length and of an element.  This is the specification that
  the parser (\<open>Cbs\<close>) and the builder (\<open>Cbb\<close>) are measured against; it does not model code.

  Tags are in the in-memory form of the library: class and constructed bits in the top three bits
  of a 32-bit word, the tag number below.
\<close>

section \<open>Big-endian numbers\<close>

fun be_val :: "byte list \<Rightarrow> nat" where
  "be_val [] = 0"
| "be_val (b # bs) = unat b * 256 ^ length bs + be_val bs"

fun be_min :: "nat \<Rightarrow> byte list" where
  "be_min n = (if n = 0 then [] else be_min (n div 256) @ [word_of_nat (n mod 256)])"

text \<open>A fixed number of bytes.\<close>

definition be_bytes :: "nat \<Rightarrow> nat \<Rightarrow> byte list" where
  "be_bytes k n = rev (le_bytes k n)"

text \<open>Base 128: every byte but the last has the top bit set.\<close>

fun base128_hi :: "nat \<Rightarrow> byte list" where
  "base128_hi n = (if n = 0 then [] else base128_hi (n div 128) @ [word_of_nat (n mod 128 + 128)])"

definition base128 :: "nat \<Rightarrow> byte list" where
  "base128 n = base128_hi (n div 128) @ [word_of_nat (n mod 128)]"

declare be_min.simps [simp del] base128_hi.simps [simp del]

section \<open>Elements\<close>

definition tag_number :: "32 word \<Rightarrow> nat" where
  "tag_number t = unat (t AND 0x1fffffff)"

definition tag_class :: "32 word \<Rightarrow> byte" where
  "tag_class t = ucast (drop_bit 24 t) AND 0xe0"

definition der_tag :: "32 word \<Rightarrow> byte list" where
  "der_tag t =
     (if tag_number t < 31 then [tag_class t OR word_of_nat (tag_number t)]
      else (tag_class t OR 0x1f) # base128 (tag_number t))"

definition der_length :: "nat \<Rightarrow> byte list" where
  "der_length n = (if n < 128 then [word_of_nat n] else word_of_nat (128 + length (be_min n)) # be_min n)"

definition der_header :: "32 word \<Rightarrow> nat \<Rightarrow> byte list" where
  "der_header t n = der_tag t @ der_length n"

definition der_element :: "32 word \<Rightarrow> byte list \<Rightarrow> byte list" where
  "der_element t c = der_header t (length c) @ c"

section \<open>Lemmas on numbers\<close>

lemma be_val_append: "be_val (xs @ ys) = be_val xs * 256 ^ length ys + be_val ys"
  by (induction xs) (simp_all add: power_add algebra_simps)

lemma be_val_snoc: "be_val (xs @ [b]) = 256 * be_val xs + unat b"
  by (simp add: be_val_append)

lemma be_val_bound: "be_val bs < 256 ^ length bs"
proof (induction bs rule: rev_induct)
  case Nil
  then show ?case by simp
next
  case (snoc b bs)
  have "unat b < 256" by simp
  with snoc have "256 * be_val bs + unat b < 256 * 256 ^ length bs" by linarith
  then show ?case by (simp add: be_val_snoc)
qed

lemma unat_byte_of_nat: "n < 256 \<Longrightarrow> unat (word_of_nat n :: byte) = n"
  by (simp add: unat_of_nat take_bit_eq_mod)

lemma be_min_0 [simp]: "be_min 0 = []"
  by (simp add: be_min.simps)

lemma be_val_be_min [simp]: "be_val (be_min n) = n"
proof (induction n rule: be_min.induct)
  case (1 n)
  then show ?case
    by (cases "n = 0") (simp_all add: be_min.simps [of n] be_val_snoc unat_byte_of_nat)
qed

lemma be_min_step: "0 < n \<or> 0 < r \<Longrightarrow> r < 256 \<Longrightarrow> be_min (256 * n + r) = be_min n @ [word_of_nat r]"
  by (subst be_min.simps) auto

text \<open>The bytes without a leading zero are the minimal encoding of their value.\<close>

lemma be_min_be_val: "bs = [] \<or> hd bs \<noteq> 0 \<Longrightarrow> be_min (be_val bs) = bs"
proof (induction bs rule: rev_induct)
  case Nil
  then show ?case by simp
next
  case (snoc b bs)
  have "0 < be_val bs \<or> 0 < unat b"
  proof (cases bs)
    case Nil
    with snoc.prems show ?thesis by (simp add: unat_gt_0)
  next
    case (Cons a as)
    then have "0 < unat a" using snoc.prems by (simp add: unat_gt_0)
    with Cons show ?thesis by simp
  qed
  moreover have "bs = [] \<or> hd bs \<noteq> 0" using snoc.prems by (cases bs) auto
  ultimately show ?case using snoc.IH by (simp add: be_val_snoc be_min_step)
qed

lemma be_min_hd: "0 < n \<Longrightarrow> be_min n \<noteq> [] \<and> hd (be_min n) \<noteq> 0"
proof (induction n rule: be_min.induct)
  case (1 n)
  show ?case
  proof (cases "n < 256")
    case True
    then have "be_min n = [word_of_nat n]" using 1(2) by (simp add: be_min.simps [of n])
    moreover have "(word_of_nat n :: byte) \<noteq> 0"
      using True 1(2) unat_byte_of_nat [of n] by (metis unat_0 less_numeral_extra(3))
    ultimately show ?thesis by simp
  next
    case False
    then have "0 < n div 256" by simp
    with 1 show ?thesis by (subst (1 2) be_min.simps) auto
  qed
qed

lemma length_be_min: "n < 256 ^ k \<Longrightarrow> length (be_min n) \<le> k"
proof (induction k arbitrary: n)
  case 0
  then show ?case by simp
next
  case (Suc k)
  then have "n div 256 < 256 ^ k" by (simp add: less_mult_imp_div_less mult.commute)
  with Suc.IH [of "n div 256"] show ?case by (subst be_min.simps) auto
qed

lemma length_be_bytes [simp]: "length (be_bytes k n) = k"
  by (simp add: be_bytes_def)

lemma be_val_rev: "be_val (rev bs) = le_val bs"
  by (induction bs) (simp_all add: be_val_snoc)

lemma be_val_be_bytes: "be_val (be_bytes k n) = n mod 256 ^ k"
  by (simp add: be_bytes_def be_val_rev le_val_le_bytes)

lemma be_bytes_be_val: "be_bytes (length bs) (be_val bs) = bs"
  using le_bytes_le_val [of "rev bs"] be_val_rev [of "rev bs"] by (simp add: be_bytes_def)

text \<open>The shortest form has the fixed width that the number fills.\<close>

lemma be_bytes_eq_be_min:
  assumes "256 ^ k \<le> n" "n < 256 ^ Suc k"
  shows "be_bytes (Suc k) n = be_min n"
proof -
  let ?bs = "be_bytes (Suc k) n"
  have val: "be_val ?bs = n" using assms(2) by (simp add: be_val_be_bytes)
  have "hd ?bs \<noteq> 0"
  proof
    assume "hd ?bs = 0"
    then obtain cs where cs: "?bs = 0 # cs" by (cases ?bs) (auto dest: arg_cong [of _ _ length])
    then have "length cs = k" using length_be_bytes [of "Suc k" n] by simp
    with be_val_bound [of cs] cs val assms(1) show False by simp
  qed
  with be_min_be_val [of ?bs] val show ?thesis by simp
qed

lemma base128_hi_0 [simp]: "base128_hi 0 = []"
  by (simp add: base128_hi.simps)

lemma base128_hi_step:
  "0 < n \<or> 0 < r \<Longrightarrow> r < 128 \<Longrightarrow> base128_hi (128 * n + r) = base128_hi n @ [word_of_nat (r + 128)]"
  by (subst base128_hi.simps) auto

lemma base128_last: "r < 128 \<Longrightarrow> base128 (128 * n + r) = base128_hi n @ [word_of_nat r]"
  by (simp add: base128_def)

end
