(* ===== verification/Cbs.thy ===== *)
theory Cbs
  imports Prelude
begin

unbundle bit_operations_syntax

text \<open>
  The byte-string parser of BoringSSL (\<open>crypto/bytestring/cbs.c\<close>), with which it reads TLS and
  DER data.

  A \<open>CBS\<close> is a window \<open>data\<close>, \<open>len\<close> into a buffer; the model is the list of the bytes in the
  window.  A function that returns 1 gives \<open>Some\<close> of its outputs, one that returns 0 gives
  \<open>None\<close>; the window after the call is returned in both cases, since some functions move it before
  they fail.  Outputs of a failing call are not described.  \<open>unsigned\<close> has 32 bits and \<open>size_t\<close>
  64.  Whether an allocation of \<open>n\<close> bytes succeeds is the parameter \<open>alloc\<close>.
\<close>

section \<open>Bytes and integers\<close>

type_synonym cbs = "byte list"

definition CBS_init :: "byte list \<Rightarrow> nat \<Rightarrow> cbs" where
  "CBS_init data len = take len data"

definition cbs_get :: "cbs \<Rightarrow> nat \<Rightarrow> byte list option \<times> cbs" where
  "cbs_get cbs n = (if length cbs < n then (None, cbs) else (Some (take n cbs), drop n cbs))"

definition CBS_skip :: "cbs \<Rightarrow> nat \<Rightarrow> unit option \<times> cbs" where
  "CBS_skip cbs len = (case cbs_get cbs len of (r, cbs') \<Rightarrow> (map_option (\<lambda>_. ()) r, cbs'))"

definition CBS_len :: "cbs \<Rightarrow> nat" where
  "CBS_len cbs = length cbs"

text \<open>The new buffer, or \<open>None\<close> when the copy cannot be allocated; the empty window gives \<open>NULL\<close>.\<close>

definition CBS_stow :: "(nat \<Rightarrow> bool) \<Rightarrow> cbs \<Rightarrow> byte list option" where
  "CBS_stow alloc cbs =
     (if CBS_len cbs = 0 then Some [] else if alloc (length cbs) then Some cbs else None)"

text \<open>\<open>OPENSSL_strndup\<close> copies up to the first zero byte and appends a terminator.\<close>

definition OPENSSL_strndup :: "(nat \<Rightarrow> bool) \<Rightarrow> byte list \<Rightarrow> byte list option" where
  "OPENSSL_strndup alloc str =
     (let s = takeWhile (\<lambda>b. b \<noteq> 0) str in
      if (length s + 1) mod size_mod < length s then None
      else if alloc (length s + 1) then Some (s @ [0]) else None)"

definition CBS_strdup :: "(nat \<Rightarrow> bool) \<Rightarrow> cbs \<Rightarrow> byte list option" where
  "CBS_strdup alloc cbs = OPENSSL_strndup alloc cbs"

definition CBS_contains_zero_byte :: "cbs \<Rightarrow> bool" where
  "CBS_contains_zero_byte cbs = list_ex (\<lambda>b. b = 0) cbs"

definition CBS_mem_equal :: "cbs \<Rightarrow> byte list \<Rightarrow> nat \<Rightarrow> bool" where
  "CBS_mem_equal cbs data len = (if len \<noteq> length cbs then False else cbs = take len data)"

definition be_word :: "byte list \<Rightarrow> 64 word" where
  "be_word data = foldl (\<lambda>result b. push_bit 8 result OR ucast b) 0 data"

definition cbs_get_u :: "cbs \<Rightarrow> nat \<Rightarrow> 64 word option \<times> cbs" where
  "cbs_get_u cbs len =
     (case cbs_get cbs len of
        (None, cbs') \<Rightarrow> (None, cbs')
      | (Some data, cbs') \<Rightarrow> (Some (be_word data), cbs'))"

definition CBS_get_u8 :: "cbs \<Rightarrow> byte option \<times> cbs" where
  "CBS_get_u8 cbs =
     (case cbs_get cbs 1 of (None, cbs') \<Rightarrow> (None, cbs') | (Some v, cbs') \<Rightarrow> (Some (v ! 0), cbs'))"

definition CBS_get_u16 :: "cbs \<Rightarrow> 16 word option \<times> cbs" where
  "CBS_get_u16 cbs = (case cbs_get_u cbs 2 of (r, cbs') \<Rightarrow> (map_option ucast r, cbs'))"

definition CRYPTO_bswap2 :: "16 word \<Rightarrow> 16 word" where
  "CRYPTO_bswap2 x = drop_bit 8 x OR push_bit 8 x"

definition CRYPTO_bswap4 :: "32 word \<Rightarrow> 32 word" where
  "CRYPTO_bswap4 x =
     (let y = drop_bit 16 x OR push_bit 16 x
      in drop_bit 8 (y AND 0xff00ff00) OR push_bit 8 (y AND 0x00ff00ff))"

definition CRYPTO_bswap8 :: "64 word \<Rightarrow> 64 word" where
  "CRYPTO_bswap8 x =
     ucast (CRYPTO_bswap4 (ucast (drop_bit 32 x))) OR push_bit 32 (ucast (CRYPTO_bswap4 (ucast x)))"

definition CBS_get_u16le :: "cbs \<Rightarrow> 16 word option \<times> cbs" where
  "CBS_get_u16le cbs = (case CBS_get_u16 cbs of (r, cbs') \<Rightarrow> (map_option CRYPTO_bswap2 r, cbs'))"

definition CBS_get_u24 :: "cbs \<Rightarrow> 32 word option \<times> cbs" where
  "CBS_get_u24 cbs = (case cbs_get_u cbs 3 of (r, cbs') \<Rightarrow> (map_option ucast r, cbs'))"

definition CBS_get_u32 :: "cbs \<Rightarrow> 32 word option \<times> cbs" where
  "CBS_get_u32 cbs = (case cbs_get_u cbs 4 of (r, cbs') \<Rightarrow> (map_option ucast r, cbs'))"

definition CBS_get_u32le :: "cbs \<Rightarrow> 32 word option \<times> cbs" where
  "CBS_get_u32le cbs = (case CBS_get_u32 cbs of (r, cbs') \<Rightarrow> (map_option CRYPTO_bswap4 r, cbs'))"

definition CBS_get_u64 :: "cbs \<Rightarrow> 64 word option \<times> cbs" where
  "CBS_get_u64 cbs = cbs_get_u cbs 8"

definition CBS_get_u64le :: "cbs \<Rightarrow> 64 word option \<times> cbs" where
  "CBS_get_u64le cbs = (case cbs_get_u cbs 8 of (r, cbs') \<Rightarrow> (map_option CRYPTO_bswap8 r, cbs'))"

definition CBS_get_last_u8 :: "cbs \<Rightarrow> byte option \<times> cbs" where
  "CBS_get_last_u8 cbs =
     (if CBS_len cbs = 0 then (None, cbs) else (Some (cbs ! (length cbs - 1)), take (length cbs - 1) cbs))"

definition CBS_get_bytes :: "cbs \<Rightarrow> nat \<Rightarrow> cbs option \<times> cbs" where
  "CBS_get_bytes cbs len =
     (case cbs_get cbs len of
        (None, cbs') \<Rightarrow> (None, cbs')
      | (Some v, cbs') \<Rightarrow> (Some (CBS_init v len), cbs'))"

definition CBS_copy_bytes :: "cbs \<Rightarrow> nat \<Rightarrow> byte list option \<times> cbs" where
  "CBS_copy_bytes cbs len =
     (case cbs_get cbs len of (None, cbs') \<Rightarrow> (None, cbs') | (Some v, cbs') \<Rightarrow> (Some v, cbs'))"

definition cbs_get_length_prefixed :: "cbs \<Rightarrow> nat \<Rightarrow> cbs option \<times> cbs" where
  "cbs_get_length_prefixed cbs len_len =
     (case cbs_get_u cbs len_len of
        (None, cbs') \<Rightarrow> (None, cbs')
      | (Some len, cbs') \<Rightarrow> CBS_get_bytes cbs' (unat len))"

definition CBS_get_u8_length_prefixed :: "cbs \<Rightarrow> cbs option \<times> cbs" where
  "CBS_get_u8_length_prefixed cbs = cbs_get_length_prefixed cbs 1"

definition CBS_get_u16_length_prefixed :: "cbs \<Rightarrow> cbs option \<times> cbs" where
  "CBS_get_u16_length_prefixed cbs = cbs_get_length_prefixed cbs 2"

definition CBS_get_u24_length_prefixed :: "cbs \<Rightarrow> cbs option \<times> cbs" where
  "CBS_get_u24_length_prefixed cbs = cbs_get_length_prefixed cbs 3"

fun memchr_pos :: "byte list \<Rightarrow> byte \<Rightarrow> nat option" where
  "memchr_pos [] c = None"
| "memchr_pos (b # bs) c = (if b = c then Some 0 else map_option Suc (memchr_pos bs c))"

definition CBS_get_until_first :: "cbs \<Rightarrow> byte \<Rightarrow> cbs option \<times> cbs" where
  "CBS_get_until_first cbs c =
     (case memchr_pos cbs c of None \<Rightarrow> (None, cbs) | Some i \<Rightarrow> CBS_get_bytes cbs i)"

section \<open>ASN.1 elements\<close>

fun base128_loop :: "64 word \<Rightarrow> cbs \<Rightarrow> 64 word option \<times> cbs" where
  "base128_loop v [] = (None, [])"
| "base128_loop v (b # cbs) =
     (if drop_bit (64 - 7) v \<noteq> 0 then (None, cbs)
      else if v = 0 \<and> b = 0x80 then (None, cbs)
      else let v' = push_bit 7 v OR ucast (b AND 0x7f)
           in if b AND 0x80 \<noteq> 0 then base128_loop v' cbs else (Some v', cbs))"

definition parse_base128_integer :: "cbs \<Rightarrow> 64 word option \<times> cbs" where
  "parse_base128_integer cbs = base128_loop 0 cbs"

abbreviation (input) CBS_ASN1_TAG_SHIFT :: nat where "CBS_ASN1_TAG_SHIFT \<equiv> 24"
abbreviation (input) CBS_ASN1_CONSTRUCTED :: "32 word" where "CBS_ASN1_CONSTRUCTED \<equiv> 0x20000000"
abbreviation (input) CBS_ASN1_TAG_NUMBER_MASK :: "32 word" where "CBS_ASN1_TAG_NUMBER_MASK \<equiv> 0x1fffffff"
abbreviation (input) CBS_ASN1_BOOLEAN :: "32 word" where "CBS_ASN1_BOOLEAN \<equiv> 0x1"
abbreviation (input) CBS_ASN1_INTEGER :: "32 word" where "CBS_ASN1_INTEGER \<equiv> 0x2"
abbreviation (input) CBS_ASN1_OCTETSTRING :: "32 word" where "CBS_ASN1_OCTETSTRING \<equiv> 0x4"

definition parse_asn1_tag :: "cbs \<Rightarrow> 32 word option \<times> cbs" where
  "parse_asn1_tag cbs =
     (case CBS_get_u8 cbs of
        (None, cbs1) \<Rightarrow> (None, cbs1)
      | (Some tag_byte, cbs1) \<Rightarrow>
          let tag = push_bit CBS_ASN1_TAG_SHIFT (ucast tag_byte AND 0xe0);
              tag_number = ucast (tag_byte AND 0x1f)
          in if tag_number = 0x1f then
               (case parse_base128_integer cbs1 of
                  (None, cbs2) \<Rightarrow> (None, cbs2)
                | (Some v, cbs2) \<Rightarrow>
                    if v > ucast CBS_ASN1_TAG_NUMBER_MASK \<or> v < 0x1f then (None, cbs2)
                    else (Some (tag OR ucast v), cbs2))
             else (Some (tag OR tag_number), cbs1))"

text \<open>
  \<open>cbs_get_any_asn1_element\<close>: the element with its header, the tag, the length of the header and
  whether a BER-only encoding was met.  The header is parsed on a copy, so \<open>cbs\<close> only moves on
  success.
\<close>

definition cbs_get_any_asn1_element ::
  "cbs \<Rightarrow> bool \<Rightarrow> (cbs \<times> 32 word \<times> nat \<times> bool) option \<times> cbs" where
  "cbs_get_any_asn1_element cbs ber_ok =
     (case parse_asn1_tag cbs of
        (None, _) \<Rightarrow> (None, cbs)
      | (Some tag, header) \<Rightarrow>
          (case CBS_get_u8 header of
             (None, _) \<Rightarrow> (None, cbs)
           | (Some length_byte, header) \<Rightarrow>
               let header_len = CBS_len cbs - CBS_len header;
                   get = (\<lambda>len hdr ber.
                     case CBS_get_bytes cbs len of
                       (None, cbs') \<Rightarrow> (None, cbs')
                     | (Some out, cbs') \<Rightarrow> (Some (out, tag, hdr, ber), cbs'))
               in if length_byte AND 0x80 = 0 then get (unat length_byte + header_len) header_len False
                  else
                    let num_bytes = unat (length_byte AND 0x7f) in
                    if ber_ok \<and> tag AND CBS_ASN1_CONSTRUCTED \<noteq> 0 \<and> num_bytes = 0
                    then get header_len header_len True
                    else if num_bytes = 0 \<or> num_bytes > 4 then (None, cbs)
                    else (case cbs_get_u header num_bytes of
                            (None, _) \<Rightarrow> (None, cbs)
                          | (Some len64, _) \<Rightarrow>
                              let long_form = len64 < 128;
                                  padded = drop_bit ((num_bytes - 1) * 8) len64 = 0
                              in if (long_form \<or> padded) \<and> \<not> ber_ok then (None, cbs)
                                 else if (unat len64 + header_len + num_bytes) mod size_mod < unat len64
                                 then (None, cbs)
                                 else get ((unat len64 + header_len + num_bytes) mod size_mod)
                                        (header_len + num_bytes) (long_form \<or> padded))))"

definition CBS_get_any_asn1_element :: "cbs \<Rightarrow> (cbs \<times> 32 word \<times> nat) option \<times> cbs" where
  "CBS_get_any_asn1_element cbs =
     (case cbs_get_any_asn1_element cbs False of
        (r, cbs') \<Rightarrow> (map_option (\<lambda>(out, tag, header_len, _). (out, tag, header_len)) r, cbs'))"

definition CBS_get_any_ber_asn1_element :: "cbs \<Rightarrow> (cbs \<times> 32 word \<times> nat \<times> bool) option \<times> cbs" where
  "CBS_get_any_ber_asn1_element cbs = cbs_get_any_asn1_element cbs True"

definition CBS_get_any_asn1 :: "cbs \<Rightarrow> (cbs \<times> 32 word) option \<times> cbs" where
  "CBS_get_any_asn1 cbs =
     (case CBS_get_any_asn1_element cbs of
        (None, cbs') \<Rightarrow> (None, cbs')
      | (Some (out, tag, header_len), cbs') \<Rightarrow>
          (case CBS_skip out header_len of
             (None, _) \<Rightarrow> (None, cbs')
           | (Some _, out') \<Rightarrow> (Some (out', tag), cbs')))"

definition cbs_get_asn1 :: "cbs \<Rightarrow> 32 word \<Rightarrow> bool \<Rightarrow> cbs option \<times> cbs" where
  "cbs_get_asn1 cbs tag_value skip_header =
     (case CBS_get_any_asn1_element cbs of
        (None, cbs') \<Rightarrow> (None, cbs')
      | (Some (out, tag, header_len), cbs') \<Rightarrow>
          if tag \<noteq> tag_value then (None, cbs')
          else if skip_header then
            (case CBS_skip out header_len of
               (None, _) \<Rightarrow> (None, cbs') | (Some _, out') \<Rightarrow> (Some out', cbs'))
          else (Some out, cbs'))"

definition CBS_get_asn1 :: "cbs \<Rightarrow> 32 word \<Rightarrow> cbs option \<times> cbs" where
  "CBS_get_asn1 cbs tag_value = cbs_get_asn1 cbs tag_value True"

definition CBS_get_asn1_element :: "cbs \<Rightarrow> 32 word \<Rightarrow> cbs option \<times> cbs" where
  "CBS_get_asn1_element cbs tag_value = cbs_get_asn1 cbs tag_value False"

definition CBS_peek_asn1_tag :: "cbs \<Rightarrow> 32 word \<Rightarrow> bool" where
  "CBS_peek_asn1_tag cbs tag_value =
     (if CBS_len cbs < 1 then False
      else (case parse_asn1_tag cbs of (None, _) \<Rightarrow> False | (Some actual_tag, _) \<Rightarrow> tag_value = actual_tag))"

section \<open>ASN.1 values\<close>

text \<open>Whether the contents of an INTEGER are valid, and whether they are negative.\<close>

definition CBS_is_valid_asn1_integer :: "cbs \<Rightarrow> bool option" where
  "CBS_is_valid_asn1_integer cbs =
     (case CBS_get_u8 cbs of
        (None, _) \<Rightarrow> None
      | (Some first_byte, copy) \<Rightarrow>
          let neg = first_byte AND 0x80 \<noteq> 0 in
          (case CBS_get_u8 copy of
             (None, _) \<Rightarrow> Some neg
           | (Some second_byte, _) \<Rightarrow>
               if first_byte = 0x00 \<and> second_byte AND 0x80 = 0
                  \<or> first_byte = 0xff \<and> second_byte AND 0x80 \<noteq> 0
               then None else Some neg))"

definition CBS_is_unsigned_asn1_integer :: "cbs \<Rightarrow> bool" where
  "CBS_is_unsigned_asn1_integer cbs =
     (case CBS_is_valid_asn1_integer cbs of None \<Rightarrow> False | Some is_negative \<Rightarrow> \<not> is_negative)"

fun uint64_loop :: "64 word \<Rightarrow> byte list \<Rightarrow> 64 word option" where
  "uint64_loop out [] = Some out"
| "uint64_loop out (b # data) =
     (if drop_bit 56 out \<noteq> 0 then None else uint64_loop (push_bit 8 out OR ucast b) data)"

definition CBS_get_asn1_uint64 :: "cbs \<Rightarrow> 64 word option \<times> cbs" where
  "CBS_get_asn1_uint64 cbs =
     (case CBS_get_asn1 cbs CBS_ASN1_INTEGER of
        (None, cbs') \<Rightarrow> (None, cbs')
      | (Some bytes, cbs') \<Rightarrow>
          if \<not> CBS_is_unsigned_asn1_integer bytes then (None, cbs') else (uint64_loop 0 bytes, cbs'))"

text \<open>The 64-bit pattern of the union \<open>u\<close>, filled from its low end.\<close>

definition CBS_get_asn1_int64 :: "cbs \<Rightarrow> 64 word option \<times> cbs" where
  "CBS_get_asn1_int64 cbs =
     (case CBS_get_asn1 cbs CBS_ASN1_INTEGER of
        (None, cbs') \<Rightarrow> (None, cbs')
      | (Some bytes, cbs') \<Rightarrow>
          (case CBS_is_valid_asn1_integer bytes of
             None \<Rightarrow> (None, cbs')
           | Some is_negative \<Rightarrow>
               if length bytes > 8 then (None, cbs')
               else let u = rev bytes @ replicate (8 - length bytes) (if is_negative then 0xff else 0)
                    in (Some (word_of_nat (le_val u)), cbs')))"

definition CBS_get_asn1_bool :: "cbs \<Rightarrow> bool option \<times> cbs" where
  "CBS_get_asn1_bool cbs =
     (case CBS_get_asn1 cbs CBS_ASN1_BOOLEAN of
        (None, cbs') \<Rightarrow> (None, cbs')
      | (Some bytes, cbs') \<Rightarrow>
          if CBS_len bytes \<noteq> 1 then (None, cbs')
          else let v = bytes ! 0 in
               if v \<noteq> 0 \<and> v \<noteq> 0xff then (None, cbs') else (Some (v \<noteq> 0), cbs'))"

text \<open>\<open>Some None\<close> when the element is absent.\<close>

definition CBS_get_optional_asn1 :: "cbs \<Rightarrow> 32 word \<Rightarrow> cbs option option \<times> cbs" where
  "CBS_get_optional_asn1 cbs tag =
     (if CBS_peek_asn1_tag cbs tag
      then (case CBS_get_asn1 cbs tag of
              (None, cbs') \<Rightarrow> (None, cbs') | (Some out, cbs') \<Rightarrow> (Some (Some out), cbs'))
      else (Some None, cbs))"

definition CBS_get_optional_asn1_octet_string :: "cbs \<Rightarrow> 32 word \<Rightarrow> (cbs \<times> bool) option \<times> cbs" where
  "CBS_get_optional_asn1_octet_string cbs tag =
     (case CBS_get_optional_asn1 cbs tag of
        (None, cbs') \<Rightarrow> (None, cbs')
      | (Some None, cbs') \<Rightarrow> (Some ([], False), cbs')
      | (Some (Some child), cbs') \<Rightarrow>
          (case CBS_get_asn1 child CBS_ASN1_OCTETSTRING of
             (None, _) \<Rightarrow> (None, cbs')
           | (Some out, child') \<Rightarrow> if CBS_len child' \<noteq> 0 then (None, cbs') else (Some (out, True), cbs')))"

definition CBS_get_optional_asn1_uint64 :: "cbs \<Rightarrow> 32 word \<Rightarrow> 64 word \<Rightarrow> 64 word option \<times> cbs" where
  "CBS_get_optional_asn1_uint64 cbs tag default_value =
     (case CBS_get_optional_asn1 cbs tag of
        (None, cbs') \<Rightarrow> (None, cbs')
      | (Some None, cbs') \<Rightarrow> (Some default_value, cbs')
      | (Some (Some child), cbs') \<Rightarrow>
          (case CBS_get_asn1_uint64 child of
             (None, _) \<Rightarrow> (None, cbs')
           | (Some out, child') \<Rightarrow> if CBS_len child' \<noteq> 0 then (None, cbs') else (Some out, cbs')))"

definition CBS_get_optional_asn1_bool :: "cbs \<Rightarrow> 32 word \<Rightarrow> bool \<Rightarrow> bool option \<times> cbs" where
  "CBS_get_optional_asn1_bool cbs tag default_value =
     (case CBS_get_optional_asn1 cbs tag of
        (None, cbs') \<Rightarrow> (None, cbs')
      | (Some None, cbs') \<Rightarrow> (Some default_value, cbs')
      | (Some (Some child), cbs') \<Rightarrow>
          (case CBS_get_asn1 child CBS_ASN1_BOOLEAN of
             (None, _) \<Rightarrow> (None, cbs')
           | (Some child2, child') \<Rightarrow>
               if CBS_len child2 \<noteq> 1 \<or> CBS_len child' \<noteq> 0 then (None, cbs')
               else let boolean = child2 ! 0 in
                    if boolean = 0 then (Some False, cbs')
                    else if boolean = 0xff then (Some True, cbs')
                    else (None, cbs')))"

definition CBS_is_valid_asn1_bitstring :: "cbs \<Rightarrow> bool" where
  "CBS_is_valid_asn1_bitstring cbs =
     (case CBS_get_u8 cbs of
        (None, _) \<Rightarrow> False
      | (Some num_unused_bits, rest) \<Rightarrow>
          if num_unused_bits > 7 then False
          else if num_unused_bits = 0 then True
          else (case CBS_get_last_u8 rest of
                  (None, _) \<Rightarrow> False
                | (Some last_byte, _) \<Rightarrow> last_byte AND (push_bit (unat num_unused_bits) 1 - 1) = 0))"

definition CBS_asn1_bitstring_has_bit :: "cbs \<Rightarrow> 32 word \<Rightarrow> bool" where
  "CBS_asn1_bitstring_has_bit cbs bitno =
     (if \<not> CBS_is_valid_asn1_bitstring cbs then False
      else let byte_num = unat (drop_bit 3 bitno + 1); bit_num = 7 - unat (bitno AND 7)
           in byte_num < CBS_len cbs \<and> (cbs ! byte_num) AND push_bit bit_num 1 \<noteq> 0)"

end
