(* ===== verification/Cbs_Der.thy ===== *)
theory Cbs_Der
  imports Cbs Der
begin

unbundle bit_operations_syntax

text \<open>
  The parser accepts exactly the distinguished encoding: \<open>CBS_get_any_asn1\<close> returns a tag and
  contents if and only if the input starts with the one DER encoding of them.
\<close>

section \<open>Words\<close>

lemma shift_or_add:
  fixes v :: "'a :: len word"
  assumes "unat r < 2 ^ k"
  shows "push_bit k v OR r = word_of_nat (2 ^ k * unat v + unat r)"
proof -
  have "take_bit k r = r"
    using assms
    by (intro word_unat_eq_iff [THEN iffD2]) (simp add: unsigned_take_bit_eq take_bit_nat_eq_self)
  then have "\<not> bit r n" if "k \<le> n" for n using that by (metis bit_take_bit_iff not_le)
  then have "push_bit k v AND r = 0"
    by (intro bit_word_eqI) (auto simp: bit_simps)
  then have "push_bit k v OR r = push_bit k v + r" by (metis add_0 word_plus_and_or)
  also have "\<dots> = 2 ^ k * v + r" by (simp add: push_bit_eq_mult mult.commute)
  finally show ?thesis by simp
qed

lemma unat_ucast_byte [simp]: "unat (ucast (b :: byte) :: 64 word) = unat b"
  by (simp add: unsigned_ucast_eq take_bit_nat_eq_self less_trans [OF unat_byte_less])

lemma top_bit: "(b :: byte) AND 0x80 = 0 \<longleftrightarrow> unat b < 128"
  unfolding and_80_eq bit_7_iff by auto

lemma unat_high_byte:
  assumes "128 \<le> unat (b :: byte)"
  shows "unat b = 128 + unat b mod 128"
proof -
  have "unat b - 128 < 128" using unat_byte_less [of b] by linarith
  then have "unat b mod 128 = unat b - 128" using le_mod_geq [OF assms] mod_less by metis
  with assms show ?thesis by simp
qed

section \<open>Base-128 integers\<close>

lemma base128_step:
  assumes "m < 2 ^ 57"
  shows "push_bit 7 (word_of_nat m :: 64 word) OR ucast ((b :: byte) AND 0x7f) =
    word_of_nat (128 * m + unat b mod 128)"
proof -
  have "unat (word_of_nat m :: 64 word) = m"
    using assms by (simp add: unsigned_of_nat take_bit_nat_eq_self)
  moreover have "unat (ucast (b AND 0x7f) :: 64 word) = unat b mod 128" by (simp add: unat_and_7F)
  ultimately show ?thesis using shift_or_add [of "ucast (b AND 0x7f) :: 64 word" 7 "word_of_nat m"] by simp
qed

lemma unat_64: "m < 2 ^ 64 \<Longrightarrow> unat (word_of_nat m :: 64 word) = m"
  by (simp add: unsigned_of_nat take_bit_nat_eq_self)

lemma drop_57:
  assumes "m < 2 ^ 64"
  shows "drop_bit (64 - 7) (word_of_nat m :: 64 word) = 0 \<longleftrightarrow> m < 2 ^ 57"
proof -
  have "unat (drop_bit 57 (word_of_nat m :: 64 word)) = m div 2 ^ 57"
    by (simp only: unat_drop_bit_eq unat_64 [OF assms]) (simp only: drop_bit_eq_div)
  then have "drop_bit 57 (word_of_nat m :: 64 word) = 0 \<longleftrightarrow> m div 2 ^ 57 = 0"
    by (metis unat_0 unat_eq_zero)
  then show ?thesis by (simp add: div_eq_0_iff)
qed

lemma of_nat_eq_0: "m < 2 ^ 64 \<Longrightarrow> (word_of_nat m :: 64 word) = 0 \<longleftrightarrow> m = 0"
  using unat_64 [of m] unat_eq_0 [of "word_of_nat m :: 64 word"] by auto

text \<open>The loop with the accumulator as a number.\<close>

lemma base128_loop_Cons:
  assumes "m < 2 ^ 64"
  shows "base128_loop (word_of_nat m) (b # cbs) =
    (if \<not> m < 2 ^ 57 \<or> m = 0 \<and> b = 0x80 then (None, cbs)
     else if 128 \<le> unat b then base128_loop (word_of_nat (128 * m + unat b mod 128)) cbs
     else (Some (word_of_nat (128 * m + unat b mod 128)), cbs))"
proof (cases "m < 2 ^ 57")
  case False
  then show ?thesis using drop_57 [OF assms] by simp
next
  case True
  have top: "b AND 0x80 \<noteq> 0 \<longleftrightarrow> 128 \<le> unat b" by (auto simp: top_bit)
  show ?thesis
    unfolding base128_loop.simps base128_step [OF True] Let_def top of_nat_eq_0 [OF assms]
    using drop_57 [OF assms] True by (simp only: simp_thms if_False)
qed

lemma base128_loop_hi:
  "m < 2 ^ 57 \<Longrightarrow> base128_loop 0 (base128_hi m @ rest) = base128_loop (word_of_nat m) rest"
proof (induction m arbitrary: rest rule: base128_hi.induct)
  case (1 m)
  show ?case
  proof (cases "m = 0")
    case True
    then show ?thesis by simp
  next
    case False
    let ?q = "m div 128" and ?b = "word_of_nat (m mod 128 + 128) :: byte"
    have b: "unat ?b = m mod 128 + 128" by (rule unat_byte_of_nat) simp
    have q: "?q < 2 ^ 57" "?q < 2 ^ 64" using 1(2) by (simp_all add: div_le_dividend le_less_trans)
    have nz: "\<not> (?q = 0 \<and> ?b = 0x80)"
    proof
      assume "?q = 0 \<and> ?b = 0x80"
      then have "m < 128" "m mod 128 + 128 = unat (0x80 :: byte)" using b by auto
      then show False using False by simp
    qed
    have "128 * ?q + unat ?b mod 128 = m" unfolding b by simp
    then have "base128_loop (word_of_nat ?q) (?b # rest) = base128_loop (word_of_nat m) rest"
      unfolding base128_loop_Cons [OF q(2)] using q(1) nz b by (simp only: simp_thms if_False) simp
    then show ?thesis using 1(1) [OF False q(1), of "?b # rest"] False base128_hi.simps [of m] by simp
  qed
qed

lemma base128_loop_sound:
  "base128_loop (word_of_nat m) cbs = (Some r, rest) \<Longrightarrow> m < 2 ^ 64 \<Longrightarrow>
   \<exists>n < 2 ^ 64. base128_hi m @ cbs = base128 n @ rest \<and> r = word_of_nat n"
proof (induction cbs arbitrary: m)
  case Nil
  then show ?case by simp
next
  case (Cons b cbs)
  let ?n = "128 * m + unat b mod 128"
  note run = Cons.prems(1) [unfolded base128_loop_Cons [OF Cons.prems(2)]]
  have m: "m < 2 ^ 57" and nz: "\<not> (m = 0 \<and> b = 0x80)" using run by (auto split: if_splits)
  have n: "?n < 2 ^ 64" using m by simp
  show ?case
  proof (cases "128 \<le> unat b")
    case False
    moreover have "word_of_nat (unat b) = b" by simp
    ultimately show ?thesis using run m nz n base128_last [of "unat b" m]
      by (intro exI [of _ ?n]) (simp del: of_nat_add of_nat_mult)
  next
    case True
    then have r: "unat b mod 128 + 128 = unat b" using unat_high_byte [of b] by simp
    have "0 < m \<or> 0 < unat b mod 128"
    proof (rule ccontr)
      assume "\<not> ?thesis"
      then have "m = 0" "unat b = unat (0x80 :: byte)" using r by auto
      then show False using nz by (metis word_unat_eq_iff)
    qed
    then have "base128_hi ?n = base128_hi m @ [b]"
      using base128_hi_step [of m "unat b mod 128"] r by (simp del: of_nat_add)
    moreover obtain k where "k < 2 ^ 64" "base128_hi ?n @ cbs = base128 k @ rest" "r = word_of_nat k"
      using Cons.IH [of ?n] run True m nz n by (auto simp del: of_nat_add of_nat_mult)
    ultimately show ?thesis by auto
  qed
qed

lemma parse_base128_iff:
  "parse_base128_integer cbs = (Some r, rest) \<longleftrightarrow>
   (\<exists>n < 2 ^ 64. cbs = base128 n @ rest \<and> r = word_of_nat n)"
proof
  assume "parse_base128_integer cbs = (Some r, rest)"
  then show "\<exists>n < 2 ^ 64. cbs = base128 n @ rest \<and> r = word_of_nat n"
    using base128_loop_sound [of 0 cbs r rest] by (simp add: parse_base128_integer_def)
next
  assume "\<exists>n < 2 ^ 64. cbs = base128 n @ rest \<and> r = word_of_nat n"
  then obtain n where n: "n < 2 ^ 64" "cbs = base128 n @ rest" "r = word_of_nat n" by blast
  let ?q = "n div 128" and ?b = "word_of_nat (n mod 128) :: byte"
  have b: "unat ?b = n mod 128" by (rule unat_byte_of_nat) (simp add: less_trans [of _ 128])
  have q: "?q < 2 ^ 57" "?q < 2 ^ 64" using n(1) by (simp_all add: less_mult_imp_div_less)
  have "?b \<noteq> 0x80"
  proof
    assume "?b = 0x80"
    then have "n mod 128 = unat (0x80 :: byte)" using b by metis
    then show False by simp
  qed
  moreover have "128 * ?q + unat ?b mod 128 = n" "\<not> 128 \<le> unat ?b" unfolding b by simp_all
  ultimately have "base128_loop (word_of_nat ?q) (?b # rest) = (Some (word_of_nat n), rest)"
    unfolding base128_loop_Cons [OF q(2)] using q(1) by simp
  then show "parse_base128_integer cbs = (Some r, rest)"
    using base128_loop_hi [OF q(1), of "?b # rest"] n
    by (simp add: parse_base128_integer_def base128_def)
qed

section \<open>Tags\<close>

lemma and_e0: "(x :: byte) AND 0xe0 = push_bit 5 (drop_bit 5 x)"
proof -
  have "(0xe0 :: byte) = NOT (mask 5)" by code_simp
  moreover have "x AND NOT (mask 5) = push_bit 5 (drop_bit 5 x)"
    by (rule bit_word_eqI) (auto simp: bit_simps)
  ultimately show ?thesis by metis
qed

lemma and_1f: "(x :: byte) AND 0x1f = take_bit 5 x"
  by (simp add: take_bit_eq_mask mask_numeral)

lemma and_1fffffff: "(t :: 32 word) AND 0x1fffffff = take_bit 29 t"
  by (simp add: take_bit_eq_mask mask_numeral)

lemma byte_split: "(x :: byte) = (x AND 0xe0) OR (x AND 0x1f)"
  unfolding and_e0 and_1f by (rule bit_word_eqI) (auto simp: bit_simps)

text \<open>The word built from the first byte \<open>x\<close> of a tag and the number \<open>v\<close>.\<close>

definition tag_compose :: "byte \<Rightarrow> 32 word \<Rightarrow> 32 word" where
  "tag_compose x v = push_bit 24 (ucast x AND 0xe0) OR v"

lemma ucast_and_e0: "(ucast (x :: byte) AND 0xe0 :: 32 word) = ucast (push_bit 5 (drop_bit 5 x))"
proof -
  have "(0xe0 :: 32 word) = ucast (0xe0 :: byte)" by simp
  then have "(ucast x AND 0xe0 :: 32 word) = ucast (x AND 0xe0)" by (simp only: unsigned_and_eq)
  then show ?thesis by (simp only: and_e0)
qed

lemma tag_compose_class: "v = take_bit 29 v \<Longrightarrow> tag_class (tag_compose x v) = x AND 0xe0"
proof -
  assume "v = take_bit 29 v"
  then have v: "bit v n \<Longrightarrow> n < 29" for n by (metis bit_take_bit_iff)
  show ?thesis
    unfolding tag_class_def tag_compose_def ucast_and_e0 and_e0
    by (rule bit_word_eqI) (auto simp: bit_simps dest: v)
qed

lemma tag_compose_number: "v = take_bit 29 v \<Longrightarrow> tag_number (tag_compose x v) = unat v"
proof -
  assume v: "v = take_bit 29 v"
  have "take_bit 29 (tag_compose x v) = take_bit 29 v"
    unfolding tag_compose_def ucast_and_e0 by (rule bit_word_eqI) (auto simp: bit_simps)
  then show ?thesis using v by (simp add: tag_number_def and_1fffffff)
qed

lemma tag_decompose: "t = tag_compose (tag_class t OR x) (word_of_nat (tag_number t))"
  if "x AND 0xe0 = 0"
proof -
  have x: "push_bit 5 (drop_bit 5 x) = 0" using that by (simp only: and_e0)
  have "(tag_class t OR x) AND 0xe0 = tag_class t"
    unfolding tag_class_def bit.conj_disj_distrib2 that by (simp add: and.assoc)
  then have c: "push_bit 5 (drop_bit 5 (tag_class t OR x)) = tag_class t" by (simp only: and_e0)
  have n: "word_of_nat (tag_number t) = take_bit 29 t" by (simp add: tag_number_def and_1fffffff)
  show ?thesis
    unfolding tag_compose_def ucast_and_e0 c n
    unfolding tag_class_def and_e0
    by (rule bit_word_eqI) (auto simp: bit_simps)
qed

lemma tag_number_bound: "tag_number t < 2 ^ 29"
  unfolding tag_number_def and_1fffffff by (simp only: unsigned_take_bit_eq take_bit_nat_less_exp)

lemma CBS_get_u8_simps [simp]:
  "CBS_get_u8 [] = (None, [])" "CBS_get_u8 (b # bs) = (Some b, bs)"
  by (simp_all add: CBS_get_u8_def cbs_get_def)

lemma low_number:
  assumes "n < 32"
  shows "(tag_class t OR word_of_nat n) AND 0x1f = (word_of_nat n :: byte)"
    and "(word_of_nat n :: byte) AND 0xe0 = 0"
proof -
  let ?w = "word_of_nat n :: byte"
  have w: "take_bit 5 ?w = ?w"
    using assms by (intro word_unat_eq_iff [THEN iffD2])
      (simp add: unsigned_take_bit_eq unsigned_of_nat take_bit_nat_eq_self)
  have "take_bit 5 (push_bit 5 y OR ?w) = ?w" for y :: byte
    by (simp only: take_bit_or take_bit_push_bit w) simp
  then show "(tag_class t OR ?w) AND 0x1f = ?w"
    by (simp only: and_1f and_e0 tag_class_def)
  have "drop_bit 5 (take_bit 5 ?w) = 0" by (simp only: drop_bit_take_bit) simp
  then show "?w AND 0xe0 = 0" by (simp only: and_e0 w) simp
qed

lemma parse_asn1_tag_Cons:
  "parse_asn1_tag (b # cbs) =
     (if b AND 0x1f = 0x1f then
        (case parse_base128_integer cbs of
           (None, cbs2) \<Rightarrow> (None, cbs2)
         | (Some v, cbs2) \<Rightarrow>
             if v > 0x1fffffff \<or> v < 0x1f then (None, cbs2) else (Some (tag_compose b (ucast v)), cbs2))
      else (Some (tag_compose b (ucast (b AND 0x1f))), cbs))"
proof -
  have "(ucast (b AND 0x1f) :: 32 word) = 0x1f \<longleftrightarrow> b AND 0x1f = 0x1f"
  proof -
    have "unat (ucast x :: 32 word) = unat x" for x :: byte
      by (simp add: unsigned_ucast_eq take_bit_nat_eq_self less_trans [OF unat_byte_less])
    then show ?thesis by (simp only: word_unat_eq_iff) simp
  qed
  then show ?thesis
    by (simp add: parse_asn1_tag_def tag_compose_def Let_def split: prod.splits option.splits)
qed

lemma take_bit_29: "n < 2 ^ 29 \<Longrightarrow> (word_of_nat n :: 32 word) = take_bit 29 (word_of_nat n)"
  by (intro word_unat_eq_iff [THEN iffD2])
    (simp add: unsigned_take_bit_eq unsigned_of_nat take_bit_nat_eq_self)

lemma unat_32: "n < 2 ^ 32 \<Longrightarrow> unat (word_of_nat n :: 32 word) = n"
  by (simp add: unsigned_of_nat take_bit_nat_eq_self)

lemma ucast_of_nat_32: "n < 2 ^ 32 \<Longrightarrow> (ucast (word_of_nat n :: 64 word) :: 32 word) = word_of_nat n"
  by (intro word_unat_eq_iff [THEN iffD2]) (simp add: unsigned_ucast_eq unsigned_of_nat take_bit_nat_eq_self)

lemma number_in_range:
  "n < 2 ^ 64 \<Longrightarrow> \<not> ((word_of_nat n :: 64 word) > 0x1fffffff \<or> word_of_nat n < (0x1f :: 64 word)) \<longleftrightarrow>
    31 \<le> n \<and> n < 2 ^ 29"
  by (auto simp: word_less_nat_alt unat_64)

lemma der_tag_low:
  assumes "b AND 0x1f \<noteq> 0x1f"
  shows "der_tag (tag_compose b (ucast (b AND 0x1f))) = [b]"
proof -
  let ?v = "ucast (b AND 0x1f) :: 32 word"
  have u: "unat ?v = unat (b AND 0x1f)"
    by (simp add: unsigned_ucast_eq take_bit_nat_eq_self less_trans [OF unat_byte_less])
  have "unat (b AND 0x1f) < 32" unfolding and_1f by (simp only: unsigned_take_bit_eq) (simp add: take_bit_nat_less_exp [of 5, simplified])
  moreover have "unat (b AND 0x1f) \<noteq> 31" using assms by (auto simp: word_unat_eq_iff)
  ultimately have lt: "unat (b AND 0x1f) < 31" by simp
  have "word_of_nat (unat ?v) = ?v" by simp
  then have "?v = word_of_nat (unat (b AND 0x1f))" by (simp only: u)
  then have v: "?v = take_bit 29 ?v" using take_bit_29 [of "unat (b AND 0x1f)"] lt by simp
  show ?thesis
    unfolding der_tag_def tag_compose_class [OF v] tag_compose_number [OF v] u
    using lt byte_split [of b] by simp
qed

lemma der_tag_high:
  assumes "b AND 0x1f = 0x1f" and "31 \<le> n" and "n < 2 ^ 29"
  shows "der_tag (tag_compose b (word_of_nat n)) = b # base128 n"
proof -
  note v = take_bit_29 [OF assms(3)]
  have n: "unat (word_of_nat n :: 32 word) = n" using assms(3) by (intro unat_32) simp
  show ?thesis
    unfolding der_tag_def tag_compose_class [OF v] tag_compose_number [OF v] n
    using assms byte_split [of b] by simp
qed

lemma parse_asn1_tag_iff: "parse_asn1_tag cbs = (Some t, rest) \<longleftrightarrow> cbs = der_tag t @ rest"
proof
  assume parse: "parse_asn1_tag cbs = (Some t, rest)"
  then obtain b cbs1 where cbs: "cbs = b # cbs1" by (cases cbs) (auto simp: parse_asn1_tag_def)
  show "cbs = der_tag t @ rest"
  proof (cases "b AND 0x1f = 0x1f")
    case False
    with parse cbs show ?thesis by (auto simp: parse_asn1_tag_Cons der_tag_low)
  next
    case True
    then obtain v where v: "parse_base128_integer cbs1 = (Some v, rest)"
      "\<not> (v > 0x1fffffff \<or> v < 0x1f)" "t = tag_compose b (ucast v)"
      using parse cbs by (auto simp: parse_asn1_tag_Cons split: prod.splits option.splits if_splits)
    then obtain n where n: "n < 2 ^ 64" "cbs1 = base128 n @ rest" "v = word_of_nat n"
      unfolding parse_base128_iff by blast
    have r: "31 \<le> n" "n < 2 ^ 29" using number_in_range [OF n(1)] v(2) n(3) by simp_all
    have "t = tag_compose b (word_of_nat n)" using v(3) n(3) ucast_of_nat_32 [of n] r(2) by simp
    with der_tag_high [OF True r] cbs n(2) show ?thesis by simp
  qed
next
  assume cbs: "cbs = der_tag t @ rest"
  show "parse_asn1_tag cbs = (Some t, rest)"
  proof (cases "tag_number t < 31")
    case True
    let ?w = "word_of_nat (tag_number t) :: byte"
    have w: "unat ?w = tag_number t" using True by (intro unat_byte_of_nat) simp
    have b: "(tag_class t OR ?w) AND 0x1f = ?w" "?w AND 0xe0 = 0"
      using low_number(1) [of "tag_number t" t] low_number(2) [of "tag_number t"] True by simp_all
    have "?w \<noteq> 0x1f" using w True by auto
    moreover have "(ucast ?w :: 32 word) = word_of_nat (tag_number t)"
    proof (intro word_unat_eq_iff [THEN iffD2])
      have "unat (ucast ?w :: 32 word) = unat ?w"
        by (simp add: unsigned_ucast_eq take_bit_nat_eq_self less_trans [OF unat_byte_less])
      then show "unat (ucast ?w :: 32 word) = unat (word_of_nat (tag_number t) :: 32 word)"
        using w True by (simp add: unat_32)
    qed
    ultimately show ?thesis
      using cbs True b tag_decompose [OF b(2), of t] by (simp add: der_tag_def parse_asn1_tag_Cons)
  next
    case False
    let ?n = "tag_number t"
    have n: "?n < 2 ^ 64" "?n < 2 ^ 32" using tag_number_bound [of t] by simp_all
    have b: "(tag_class t OR 0x1f) AND 0x1f = 0x1f" "(0x1f :: byte) AND 0xe0 = 0"
      using low_number(1) [of 31 t] low_number(2) [of 31] by simp_all
    have "parse_base128_integer (base128 ?n @ rest) = (Some (word_of_nat ?n), rest)"
      unfolding parse_base128_iff using n(1) by blast
    with cbs False b number_in_range [OF n(1)] tag_number_bound [of t] tag_decompose [OF b(2), of t]
      ucast_of_nat_32 [OF n(2)]
    show ?thesis by (auto simp: der_tag_def parse_asn1_tag_Cons)
  qed
qed

section \<open>Lengths\<close>

lemma be_word_be_val: "be_word data = word_of_nat (be_val data)"
proof (induction data rule: rev_induct)
  case Nil
  then show ?case by (simp add: be_word_def)
next
  case (snoc b data)
  then have "be_word (data @ [b]) = push_bit 8 (word_of_nat (be_val data)) OR ucast b"
    by (simp add: be_word_def)
  also have "\<dots> = word_of_nat (256 * unat (word_of_nat (be_val data) :: 64 word) + unat b)"
    using shift_or_add [of "ucast b :: 64 word" 8 "word_of_nat (be_val data)"] by simp
  finally show ?case by (simp add: be_val_snoc)
qed

lemma unat_be_word:
  assumes "length data \<le> 8"
  shows "unat (be_word data) = be_val data"
proof -
  have "(256 :: nat) ^ length data \<le> 256 ^ 8" using assms by (intro power_increasing) simp_all
  with be_val_bound [of data] show ?thesis unfolding be_word_be_val by (intro unat_64) simp
qed

text \<open>The first byte of a big-endian number is not zero when the rest does not hold the number.\<close>

lemma be_val_leading:
  assumes "data \<noteq> []"
  shows "be_val data div 256 ^ (length data - 1) = unat (hd data)"
  using assms be_val_bound [of "tl data"] by (cases data) simp_all

lemma der_length_long:
  assumes "128 \<le> n" and "n < 2 ^ 32"
  shows "der_length n = word_of_nat (128 + length (be_min n)) # be_min n"
    and "length (be_min n) \<le> 4" and "be_min n \<noteq> []" and "hd (be_min n) \<noteq> 0"
  using assms length_be_min [of n 4] be_min_hd [of n] by (simp_all add: der_length_def)

text \<open>The length bytes of a DER header: the length and what follows.\<close>

fun der_get_length :: "byte list \<Rightarrow> (nat \<times> byte list) option" where
  "der_get_length [] = None"
| "der_get_length (b # hs) =
     (if unat b < 128 then Some (unat b, hs)
      else let k = unat b mod 128; n = be_val (take k hs)
           in if k = 0 \<or> k > 4 \<or> length hs < k \<or> n < 128 \<or> hd hs = 0 then None else Some (n, drop k hs))"

lemma der_get_length_iff: "der_get_length bs = Some (n, rest) \<longleftrightarrow> bs = der_length n @ rest \<and> n < 2 ^ 32"
proof
  assume get: "der_get_length bs = Some (n, rest)"
  then obtain b hs where bs: "bs = b # hs" by (cases bs) simp_all
  show "bs = der_length n @ rest \<and> n < 2 ^ 32"
  proof (cases "unat b < 128")
    case True
    with get bs show ?thesis by (auto simp: der_length_def)
  next
    case False
    let ?k = "unat b mod 128"
    have k: "?k \<noteq> 0" "?k \<le> 4" "?k \<le> length hs" "128 \<le> n" "hd hs \<noteq> 0"
      and n: "n = be_val (take ?k hs)" "rest = drop ?k hs"
      using get bs False by (auto simp: Let_def not_less split: if_splits)
    have hd: "hd (take ?k hs) = hd hs" using k by (cases hs) (simp_all add: take_Cons')
    have m: "be_min n = take ?k hs" unfolding n by (rule be_min_be_val) (simp add: hd k)
    have "unat b = 128 + ?k" using False by (intro unat_high_byte) simp
    moreover have "b = word_of_nat (unat b)" by simp
    ultimately have "b = word_of_nat (128 + ?k)" by simp
    moreover have "(256 :: nat) ^ length (take ?k hs) \<le> 256 ^ 4" using k by (intro power_increasing) simp_all
    then have "n < 2 ^ 32" using be_val_bound [of "take ?k hs"] n by simp
    ultimately show ?thesis using bs k n(2) m by (simp add: der_length_def)
  qed
next
  assume r: "bs = der_length n @ rest \<and> n < 2 ^ 32"
  show "der_get_length bs = Some (n, rest)"
  proof (cases "n < 128")
    case True
    with r show ?thesis by (simp add: der_length_def unat_byte_of_nat)
  next
    case False
    note l = der_length_long [of n, OF leI [OF False]]
    let ?k = "length (be_min n)"
    have b: "unat (word_of_nat (128 + ?k) :: byte) = 128 + ?k" using r l(2) by (intro unat_byte_of_nat) simp
    have "(128 + ?k) mod 128 = ?k" using r l(2) by simp
    then show ?thesis using r l False b by (simp del: of_nat_add add: Let_def)
  qed
qed

section \<open>Elements\<close>

lemma length_base128_hi: "n < 128 ^ k \<Longrightarrow> length (base128_hi n) \<le> k"
proof (induction k arbitrary: n)
  case 0
  then show ?case by simp
next
  case (Suc k)
  then have "n div 128 < 128 ^ k" by (simp add: less_mult_imp_div_less mult.commute)
  with Suc.IH [of "n div 128"] show ?case by (subst base128_hi.simps) auto
qed

lemma length_der_tag: "length (der_tag t) \<le> 6"
proof -
  have "tag_number t div 128 < 128 ^ 4" using tag_number_bound [of t] by simp
  from length_base128_hi [OF this] show ?thesis by (simp add: der_tag_def base128_def)
qed

lemma cbs_get_u_eq:
  "cbs_get_u cbs k = (if length cbs < k then (None, cbs) else (Some (be_word (take k cbs)), drop k cbs))"
  by (simp add: cbs_get_u_def cbs_get_def)

lemma CBS_get_bytes_eq:
  "CBS_get_bytes cbs n = (if length cbs < n then (None, cbs) else (Some (take n cbs), drop n cbs))"
  by (simp add: CBS_get_bytes_def cbs_get_def CBS_init_def)

text \<open>What \<open>cbs_get_any_asn1_element\<close> does in DER mode, over the length as a number.\<close>

lemma get_element_der:
  "cbs_get_any_asn1_element cbs False =
     (case parse_asn1_tag cbs of
        (None, _) \<Rightarrow> (None, cbs)
      | (Some tag, header) \<Rightarrow>
          (case der_get_length header of
             None \<Rightarrow> (None, cbs)
           | Some (n, body) \<Rightarrow>
               if length body < n then (None, cbs)
               else let h = length cbs - length body
                    in (Some (take (h + n) cbs, tag, h, False), drop (h + n) cbs)))"
proof (cases "parse_asn1_tag cbs")
  case (Pair r header)
  show ?thesis
  proof (cases r)
    case None
    with Pair show ?thesis by (simp add: cbs_get_any_asn1_element_def)
  next
    case (Some tag)
    then have cbs: "cbs = der_tag tag @ header" using Pair parse_asn1_tag_iff by simp
    show ?thesis
    proof (cases header)
      case Nil
      with Pair Some show ?thesis by (simp add: cbs_get_any_asn1_element_def)
    next
      case (Cons b hs)
      show ?thesis
      proof (cases "unat b < 128")
        case True
        with Pair Some cbs Cons show ?thesis
          by (auto simp: cbs_get_any_asn1_element_def top_bit CBS_len_def CBS_get_bytes_eq Let_def ac_simps)
      next
        case False
        let ?k = "unat b mod 128"
        let ?w = "be_word (take ?k hs)" and ?n = "be_val (take ?k hs)"
        show ?thesis
        proof (cases "?k = 0 \<or> ?k > 4 \<or> length hs < ?k")
          case True
          with Pair Some cbs Cons False show ?thesis
            by (auto simp: cbs_get_any_asn1_element_def top_bit unat_and_7F cbs_get_u_eq Let_def)
        next
          case k: False
          then have hd: "hd (take ?k hs) = hd hs" by (cases hs) (simp_all add: take_Cons')
          have w: "unat ?w = ?n" using k by (intro unat_be_word) simp
          have pad: "drop_bit ((?k - 1) * 8) ?w = 0 \<longleftrightarrow> hd hs = 0"
          proof -
            have "unat (drop_bit ((?k - 1) * 8) ?w) = ?n div 256 ^ (?k - 1)"
              by (simp only: unat_drop_bit_eq w) (simp add: drop_bit_eq_div power_mult mult.commute)
            also have "\<dots> = unat (hd hs)"
            proof -
              have "take ?k hs \<noteq> []" "length (take ?k hs) = ?k" using k by auto
              then show ?thesis using be_val_leading [of "take ?k hs"] hd by simp
            qed
            finally show ?thesis by (metis unat_eq_zero unat_0)
          qed
          have low: "?w < 128 \<longleftrightarrow> ?n < 128" by (simp add: word_less_nat_alt w)
          have "(256 :: nat) ^ length (take ?k hs) \<le> 256 ^ 4" using k by (intro power_increasing) simp_all
          then have bound: "?n < 2 ^ 32" using be_val_bound [of "take ?k hs"] by simp
          have fit: "(?n + Suc (length (der_tag tag)) + ?k) mod size_mod = ?n + Suc (length (der_tag tag)) + ?k"
            using bound k length_der_tag [of tag] by (intro mod_less) (simp add: size_mod_def)
          have len: "length cbs - length hs = Suc (length (der_tag tag))" using cbs Cons by simp
          have body: "length cbs - length (drop ?k hs) = Suc (length (der_tag tag)) + ?k"
            using cbs Cons k by simp
          have more: "length cbs < ?n + Suc (length (der_tag tag)) + ?k \<longleftrightarrow> length (drop ?k hs) < ?n"
            using cbs Cons k by auto
          have get: "der_get_length header = (if ?n < 128 \<or> hd hs = 0 then None else Some (?n, drop ?k hs))"
            using Cons False k by (simp add: Let_def)
          show ?thesis
            unfolding cbs_get_any_asn1_element_def Pair Some get
            using k False
            by (simp add: Cons top_bit unat_and_7F cbs_get_u_eq Let_def CBS_len_def CBS_get_bytes_eq
                pad [simplified] low w fit [simplified] len body
                more [simplified] del: length_drop)
               (simp add: ac_simps)
        qed
      qed
    qed
  qed
qed

lemma get_element_iff:
  "cbs_get_any_asn1_element cbs False = (Some (out, t, h, ber), rest) \<longleftrightarrow>
   (\<exists>c. out = der_element t c \<and> h = length (der_header t (length c)) \<and> \<not> ber \<and>
        length c < 2 ^ 32 \<and> cbs = out @ rest)"
proof
  assume "cbs_get_any_asn1_element cbs False = (Some (out, t, h, ber), rest)"
  then obtain header n body where p: "parse_asn1_tag cbs = (Some t, header)"
    "der_get_length header = Some (n, body)" "n \<le> length body"
    "h = length cbs - length body" "out = take (h + n) cbs" "rest = drop (h + n) cbs" "\<not> ber"
    unfolding get_element_der
    by (auto simp: Let_def not_less split: prod.splits option.splits if_splits)
  then have cbs: "cbs = der_header t n @ body" "n < 2 ^ 32"
    unfolding parse_asn1_tag_iff der_get_length_iff by (simp_all add: der_header_def)
  with p show "\<exists>c. out = der_element t c \<and> h = length (der_header t (length c)) \<and> \<not> ber \<and>
        length c < 2 ^ 32 \<and> cbs = out @ rest"
    by (intro exI [of _ "take n body"]) (simp add: der_element_def min_def)
next
  assume "\<exists>c. out = der_element t c \<and> h = length (der_header t (length c)) \<and> \<not> ber \<and>
        length c < 2 ^ 32 \<and> cbs = out @ rest"
  then obtain c where c: "out = der_element t c" "h = length (der_header t (length c))" "\<not> ber"
    "length c < 2 ^ 32" "cbs = der_tag t @ der_length (length c) @ c @ rest"
    by (auto simp: der_element_def der_header_def)
  have "parse_asn1_tag cbs = (Some t, der_length (length c) @ c @ rest)"
    using c(5) by (simp add: parse_asn1_tag_iff)
  moreover have "der_get_length (der_length (length c) @ c @ rest) = Some (length c, c @ rest)"
    using c(4) by (simp add: der_get_length_iff)
  ultimately show "cbs_get_any_asn1_element cbs False = (Some (out, t, h, ber), rest)"
    unfolding get_element_der using c by (simp add: der_element_def der_header_def)
qed

lemma CBS_get_any_asn1_element_iff:
  "CBS_get_any_asn1_element cbs = (Some (out, t, h), rest) \<longleftrightarrow>
   (\<exists>c. out = der_element t c \<and> h = length (der_header t (length c)) \<and> length c < 2 ^ 32 \<and> cbs = out @ rest)"
  (is "?get \<longleftrightarrow> ?der")
proof
  show "?get \<Longrightarrow> ?der"
    unfolding CBS_get_any_asn1_element_def by (auto split: prod.splits simp: get_element_iff)
  assume ?der
  then have "cbs_get_any_asn1_element cbs False = (Some (out, t, h, False), rest)"
    by (simp add: get_element_iff)
  then show ?get by (simp add: CBS_get_any_asn1_element_def)
qed

lemma CBS_get_any_asn1_iff:
  "CBS_get_any_asn1 cbs = (Some (c, t), rest) \<longleftrightarrow> cbs = der_element t c @ rest \<and> length c < 2 ^ 32"
  (is "?get \<longleftrightarrow> ?der")
proof
  have skip: "CBS_skip (der_element t c) (length (der_header t (length c))) = (Some (), c)" for t c
    by (simp add: CBS_skip_def cbs_get_def der_element_def)
  show "?get \<Longrightarrow> ?der"
    unfolding CBS_get_any_asn1_def
    by (auto split: prod.splits option.splits simp: CBS_get_any_asn1_element_iff skip)
  assume ?der
  then have "CBS_get_any_asn1_element cbs =
    (Some (der_element t c, t, length (der_header t (length c))), rest)"
    unfolding CBS_get_any_asn1_element_iff by blast
  then show ?get by (simp add: CBS_get_any_asn1_def skip)
qed

text \<open>C13. The parser accepts exactly the distinguished encoding: \<open>CBS_get_any_asn1\<close> returns the
  tag \<open>t\<close> and the contents \<open>c\<close> and leaves \<open>rest\<close> if and only if the input is the one DER encoding
  of an element with this tag and these contents, followed by \<open>rest\<close>, and the contents are
  shorter than \<open>2\<^sup>3\<^sup>2\<close> bytes.  In particular an element has no second accepted encoding.\<close>

theorem any_asn1_accepts_exactly_der:
  "CBS_get_any_asn1 cbs = (Some (c, t), rest) \<longleftrightarrow> cbs = der_element t c @ rest \<and> length c < 2 ^ 32"
  by (rule CBS_get_any_asn1_iff)

end
