(* ===== verification/Cbs_Codec.thy ===== *)
theory Cbs_Codec
  imports Cbs_Der
begin

unbundle bit_operations_syntax

text \<open>
  The contract that the reading functions of the byte-string parser share, as the locale
  \<open>prefix_codec\<close>: a reader returns the value \<open>v\<close> exactly on the inputs that start with the one
  encoding of \<open>v\<close>, and leaves what follows it.  The locale gives unambiguity of the encoding, and
  that a run of values is read back from the concatenation of their encodings in one way only.
  It is interpreted for the fixed-width integers, the length-prefixed strings, the ASN.1 tags and
  elements, and the ASN.1 integers and booleans.
\<close>

section \<open>Readers of one value\<close>

fun read_n :: "(byte list \<Rightarrow> 'v option \<times> byte list) \<Rightarrow> nat \<Rightarrow> byte list \<Rightarrow> 'v list option \<times> byte list" where
  "read_n get 0 bs = (Some [], bs)"
| "read_n get (Suc n) bs =
     (case get bs of
        (None, bs') \<Rightarrow> (None, bs')
      | (Some v, bs') \<Rightarrow>
          (case read_n get n bs' of (None, bs'') \<Rightarrow> (None, bs'') | (Some vs, bs'') \<Rightarrow> (Some (v # vs), bs'')))"

locale prefix_codec =
  fixes get :: "byte list \<Rightarrow> 'v option \<times> byte list"
    and enc :: "'v \<Rightarrow> byte list"
    and ok :: "'v \<Rightarrow> bool"
  assumes get_iff: "get bs = (Some v, rest) \<longleftrightarrow> ok v \<and> bs = enc v @ rest"
begin

lemma get_enc: "ok v \<Longrightarrow> get (enc v @ rest) = (Some v, rest)"
  by (simp add: get_iff)

lemma unambiguous:
  assumes "ok v" "ok w" "enc v @ xs = enc w @ ys"
  shows "v = w \<and> xs = ys"
  using get_enc [OF assms(1), of xs] get_enc [OF assms(2), of ys] assms(3)
  by (metis Pair_inject option.inject)

lemma prefix_free: "ok v \<Longrightarrow> ok w \<Longrightarrow> enc v @ xs = enc w \<Longrightarrow> v = w"
  using unambiguous [of v w xs "[]"] by simp

lemma get_consumes: "get bs = (Some v, rest) \<Longrightarrow> length bs = length (enc v) + length rest"
  by (simp add: get_iff)

lemma read_n_iff:
  "read_n get n bs = (Some vs, rest) \<longleftrightarrow> length vs = n \<and> list_all ok vs \<and> bs = concat (map enc vs) @ rest"
proof (induction n arbitrary: bs vs)
  case 0
  then show ?case by auto
next
  case (Suc n)
  have "read_n get (Suc n) bs = (Some vs, rest) \<longleftrightarrow>
    (\<exists>v vs' bs'. vs = v # vs' \<and> get bs = (Some v, bs') \<and> read_n get n bs' = (Some vs', rest))"
    by (auto split: prod.splits option.splits)
  also have "\<dots> \<longleftrightarrow> length vs = Suc n \<and> list_all ok vs \<and> bs = concat (map enc vs) @ rest"
    by (cases vs) (auto simp: Suc.IH get_iff)
  finally show ?case .
qed

end

section \<open>Fixed-width integers\<close>

lemma cbs_get_u_iff:
  assumes "k \<le> 8"
  shows "cbs_get_u cbs k = (Some w, rest) \<longleftrightarrow> unat w < 256 ^ k \<and> cbs = be_bytes k (unat w) @ rest"
proof
  assume "cbs_get_u cbs k = (Some w, rest)"
  then have k: "k \<le> length cbs" "w = be_word (take k cbs)" "rest = drop k cbs"
    by (auto simp: cbs_get_u_eq split: if_splits)
  then have w: "unat w = be_val (take k cbs)" using assms by (simp add: unat_be_word)
  have "unat w < 256 ^ k" using be_val_bound [of "take k cbs"] k w by (simp add: min.absorb2)
  moreover have "be_bytes k (unat w) = take k cbs"
    using be_bytes_be_val [of "take k cbs"] k w by (simp add: min.absorb2)
  ultimately show "unat w < 256 ^ k \<and> cbs = be_bytes k (unat w) @ rest" using k by simp
next
  assume w: "unat w < 256 ^ k \<and> cbs = be_bytes k (unat w) @ rest"
  have "unat (be_word (be_bytes k (unat w))) = unat w"
    using assms w by (simp add: unat_be_word be_val_be_bytes)
  then have "be_word (be_bytes k (unat w)) = w" by (simp add: word_unat_eq_iff)
  with w show "cbs_get_u cbs k = (Some w, rest)" by (simp add: cbs_get_u_eq)
qed

text \<open>Narrowing the 64-bit accumulator to the type of the output.\<close>

lemma narrow_iff:
  fixes w :: "'w::len word"
  assumes "k \<le> 8" and "256 ^ k \<le> (2 :: nat) ^ LENGTH('w)" and "LENGTH('w) \<le> 64"
  shows "(case cbs_get_u cbs k of (r, cbs') \<Rightarrow> (map_option (\<lambda>x. ucast x :: 'w word) r, cbs')) = (Some w, rest) \<longleftrightarrow>
    unat w < 256 ^ k \<and> cbs = be_bytes k (unat w) @ rest"
proof
  assume "(case cbs_get_u cbs k of (r, cbs') \<Rightarrow> (map_option (\<lambda>x. ucast x :: 'w word) r, cbs')) = (Some w, rest)"
  then obtain x where x: "cbs_get_u cbs k = (Some x, rest)" "w = ucast x" by (auto split: prod.splits)
  then have "unat x < 256 ^ k" "cbs = be_bytes k (unat x) @ rest" using cbs_get_u_iff [OF assms(1)] by auto
  moreover from this have "unat w = unat x"
    unfolding x(2) using assms(2) by (simp add: unsigned_ucast_eq take_bit_nat_eq_self)
  ultimately show "unat w < 256 ^ k \<and> cbs = be_bytes k (unat w) @ rest" by simp
next
  assume w: "unat w < 256 ^ k \<and> cbs = be_bytes k (unat w) @ rest"
  let ?x = "ucast w :: 64 word"
  have x: "unat ?x = unat w"
  proof -
    have "unat w < 2 ^ LENGTH('w)" by (rule unsigned_less)
    also have "(2 :: nat) ^ LENGTH('w) \<le> 2 ^ 64" using assms(3) by (intro power_increasing) simp_all
    finally show ?thesis by (simp add: unsigned_ucast_eq take_bit_nat_eq_self)
  qed
  have again: "(ucast ?x :: 'w word) = w"
  proof (intro word_unat_eq_iff [THEN iffD2])
    have "unat (ucast ?x :: 'w word) = take_bit LENGTH('w) (unat ?x)" by (rule unsigned_ucast_eq)
    then show "unat (ucast ?x :: 'w word) = unat w"
      unfolding x using take_bit_nat_eq_self [OF unsigned_less [of w]] by simp
  qed
  have "cbs_get_u cbs k = (Some ?x, rest)" using cbs_get_u_iff [OF assms(1)] w x by simp
  then show "(case cbs_get_u cbs k of (r, cbs') \<Rightarrow> (map_option (\<lambda>x. ucast x :: 'w word) r, cbs')) = (Some w, rest)"
    using again by simp
qed

interpretation u8: prefix_codec CBS_get_u8 "\<lambda>v. [v]" "\<lambda>_. True"
proof
  show "CBS_get_u8 bs = (Some v, rest) \<longleftrightarrow> True \<and> bs = [v] @ rest" for bs v rest
    by (cases bs) auto
qed

interpretation u16: prefix_codec CBS_get_u16 "\<lambda>v. be_bytes 2 (unat v)" "\<lambda>_. True"
proof
  have "unat (v :: 16 word) < 256 ^ 2" for v using unsigned_less [where 'a = nat, of v] by simp
  then show "CBS_get_u16 bs = (Some v, rest) \<longleftrightarrow> True \<and> bs = be_bytes 2 (unat v) @ rest" for bs v rest
    unfolding CBS_get_u16_def by (subst narrow_iff) simp_all
qed

interpretation u24: prefix_codec CBS_get_u24 "\<lambda>v. be_bytes 3 (unat v)" "\<lambda>v. unat v < 2 ^ 24"
proof
  show "CBS_get_u24 bs = (Some v, rest) \<longleftrightarrow> unat v < 2 ^ 24 \<and> bs = be_bytes 3 (unat v) @ rest" for bs v rest
    unfolding CBS_get_u24_def by (subst narrow_iff) simp_all
qed

interpretation u32: prefix_codec CBS_get_u32 "\<lambda>v. be_bytes 4 (unat v)" "\<lambda>_. True"
proof
  have "unat (v :: 32 word) < 256 ^ 4" for v using unsigned_less [where 'a = nat, of v] by simp
  then show "CBS_get_u32 bs = (Some v, rest) \<longleftrightarrow> True \<and> bs = be_bytes 4 (unat v) @ rest" for bs v rest
    unfolding CBS_get_u32_def by (subst narrow_iff) simp_all
qed

interpretation u64: prefix_codec CBS_get_u64 "\<lambda>v. be_bytes 8 (unat v)" "\<lambda>_. True"
proof
  have "unat (v :: 64 word) < 256 ^ 8" for v using unsigned_less [where 'a = nat, of v] by simp
  then show "CBS_get_u64 bs = (Some v, rest) \<longleftrightarrow> True \<and> bs = be_bytes 8 (unat v) @ rest" for bs v rest
    unfolding CBS_get_u64_def by (subst cbs_get_u_iff) simp_all
qed

section \<open>Length-prefixed strings\<close>

lemma cbs_get_length_prefixed_iff:
  assumes "k \<le> 8"
  shows "cbs_get_length_prefixed cbs k = (Some c, rest) \<longleftrightarrow>
    length c < 256 ^ k \<and> cbs = (be_bytes k (length c) @ c) @ rest"
proof
  assume "cbs_get_length_prefixed cbs k = (Some c, rest)"
  then obtain w cbs' where w: "cbs_get_u cbs k = (Some w, cbs')" "CBS_get_bytes cbs' (unat w) = (Some c, rest)"
    by (auto simp: cbs_get_length_prefixed_def split: prod.splits option.splits)
  then have "cbs' = c @ rest" "length c = unat w" by (auto simp: CBS_get_bytes_eq split: if_splits)
  with w(1) show "length c < 256 ^ k \<and> cbs = (be_bytes k (length c) @ c) @ rest"
    by (simp add: cbs_get_u_iff [OF assms])
next
  assume c: "length c < 256 ^ k \<and> cbs = (be_bytes k (length c) @ c) @ rest"
  have "(256 :: nat) ^ k \<le> 256 ^ 8" using assms by (intro power_increasing) simp_all
  then have "length c < 2 ^ 64" using c by simp
  then have "unat (word_of_nat (length c) :: 64 word) = length c" by (rule unat_64)
  moreover from this have "cbs_get_u cbs k = (Some (word_of_nat (length c)), c @ rest)"
    using c by (simp add: cbs_get_u_iff [OF assms])
  ultimately show "cbs_get_length_prefixed cbs k = (Some c, rest)"
    by (simp add: cbs_get_length_prefixed_def CBS_get_bytes_eq)
qed

interpretation u8p: prefix_codec CBS_get_u8_length_prefixed "\<lambda>c. be_bytes 1 (length c) @ c" "\<lambda>c. length c < 256 ^ 1"
  by unfold_locales (simp add: CBS_get_u8_length_prefixed_def cbs_get_length_prefixed_iff)

interpretation u16p: prefix_codec CBS_get_u16_length_prefixed "\<lambda>c. be_bytes 2 (length c) @ c" "\<lambda>c. length c < 256 ^ 2"
  by unfold_locales (simp add: CBS_get_u16_length_prefixed_def cbs_get_length_prefixed_iff)

interpretation u24p: prefix_codec CBS_get_u24_length_prefixed "\<lambda>c. be_bytes 3 (length c) @ c" "\<lambda>c. length c < 256 ^ 3"
  by unfold_locales (simp add: CBS_get_u24_length_prefixed_def cbs_get_length_prefixed_iff)

section \<open>ASN.1 elements\<close>

interpretation tag: prefix_codec parse_asn1_tag der_tag "\<lambda>_. True"
  by unfold_locales (simp add: parse_asn1_tag_iff)

interpretation elem: prefix_codec CBS_get_any_asn1 "\<lambda>(c, t). der_element t c" "\<lambda>(c, t). length c < 2 ^ 32"
  by unfold_locales (auto simp: CBS_get_any_asn1_iff)

lemma CBS_get_asn1_iff:
  "CBS_get_asn1 cbs t = (Some c, rest) \<longleftrightarrow> length c < 2 ^ 32 \<and> cbs = der_element t c @ rest"
proof -
  have skip: "CBS_skip (der_element t c) (length (der_header t (length c))) = (Some (), c)" for t c
    by (simp add: CBS_skip_def cbs_get_def der_element_def)
  show ?thesis (is "?get \<longleftrightarrow> ?der")
  proof
    show "?get \<Longrightarrow> ?der"
      unfolding CBS_get_asn1_def cbs_get_asn1_def
      by (auto split: prod.splits option.splits if_splits simp: CBS_get_any_asn1_element_iff skip)
    assume ?der
    then have "CBS_get_any_asn1_element cbs =
      (Some (der_element t c, t, length (der_header t (length c))), rest)"
      unfolding CBS_get_any_asn1_element_iff by blast
    then show ?get by (simp add: CBS_get_asn1_def cbs_get_asn1_def skip)
  qed
qed

section \<open>ASN.1 integers and booleans\<close>

text \<open>The contents of an INTEGER: the shortest two's complement form, at least one byte.\<close>

definition der_uint :: "nat \<Rightarrow> byte list" where
  "der_uint n = (let m = be_min n in if m = [] \<or> 128 \<le> unat (hd m) then 0 # m else m)"

definition der_int :: "int \<Rightarrow> byte list" where
  "der_int i = (if 0 \<le> i then der_uint (nat i) else map (\<lambda>b. NOT b) (der_uint (nat (- i - 1))))"

lemma be_val_der_uint [simp]: "be_val (der_uint n) = n"
  by (simp add: der_uint_def Let_def)

lemma der_uint_be_val:
  assumes "bs \<noteq> []" "unat (hd bs) < 128" "hd bs = 0 \<Longrightarrow> tl bs \<noteq> [] \<Longrightarrow> 128 \<le> unat (hd (tl bs))"
  shows "der_uint (be_val bs) = bs"
proof (cases bs)
  case Nil
  with assms(1) show ?thesis by simp
next
  case (Cons b cs)
  show ?thesis
  proof (cases "b = 0")
    case True
    then have "be_min (be_val cs) = cs"
      using assms(3) Cons by (intro be_min_be_val) (cases cs; auto)
    then show ?thesis using assms(3) Cons True by (auto simp: der_uint_def)
  next
    case False
    then have "be_min (be_val bs) = bs" using Cons by (intro be_min_be_val) simp
    then show ?thesis using assms(2) Cons by (simp add: der_uint_def Let_def)
  qed
qed

lemma der_uint_shape:
  "der_uint n \<noteq> [] \<and> unat (hd (der_uint n)) < 128 \<and>
   (hd (der_uint n) = 0 \<longrightarrow> tl (der_uint n) \<noteq> [] \<longrightarrow> 128 \<le> unat (hd (tl (der_uint n))))"
  using be_min_hd [of n] by (cases "n = 0") (auto simp: der_uint_def Let_def)

lemma valid_integer_simps:
  "CBS_is_valid_asn1_integer [] = None"
  "CBS_is_valid_asn1_integer [b] = Some (128 \<le> unat b)"
  "CBS_is_valid_asn1_integer (b # c # bs) =
     (if b = 0 \<and> unat c < 128 \<or> b = 0xff \<and> 128 \<le> unat c then None else Some (128 \<le> unat b))"
  by (simp_all add: CBS_is_valid_asn1_integer_def top_bit not_less Let_def)

lemma valid_nonneg_iff: "CBS_is_valid_asn1_integer bs = Some False \<longleftrightarrow> bs = der_uint (be_val bs)"
proof
  assume "CBS_is_valid_asn1_integer bs = Some False"
  then show "bs = der_uint (be_val bs)"
    by (cases bs rule: remdups_adj.cases; intro der_uint_be_val [symmetric])
      (auto simp: valid_integer_simps split: if_splits)
next
  assume "bs = der_uint (be_val bs)"
  then have "bs \<noteq> [] \<and> unat (hd bs) < 128 \<and> (hd bs = 0 \<longrightarrow> tl bs \<noteq> [] \<longrightarrow> 128 \<le> unat (hd (tl bs)))"
    using der_uint_shape [of "be_val bs"] by simp
  then show "CBS_is_valid_asn1_integer bs = Some False"
    by (cases bs rule: remdups_adj.cases) (auto simp: valid_integer_simps)
qed

lemma uint64_loop_iff:
  "m < 2 ^ 64 \<Longrightarrow> uint64_loop (word_of_nat m) bs = Some v \<longleftrightarrow> unat v = m * 256 ^ length bs + be_val bs"
proof (induction bs arbitrary: m)
  case Nil
  then show ?case by (auto simp: word_unat_eq_iff unat_64)
next
  case (Cons b bs)
  have d: "drop_bit 56 (word_of_nat m :: 64 word) = 0 \<longleftrightarrow> m < 2 ^ 56"
  proof -
    have "unat (drop_bit 56 (word_of_nat m :: 64 word)) = m div 2 ^ 56"
      by (simp only: unat_drop_bit_eq unat_64 [OF Cons.prems]) (simp only: drop_bit_eq_div)
    then have "drop_bit 56 (word_of_nat m :: 64 word) = 0 \<longleftrightarrow> m div 2 ^ 56 = 0"
      by (metis unat_0 unat_eq_zero)
    then show ?thesis by (simp add: div_eq_0_iff)
  qed
  have total: "m * 256 ^ length (b # bs) + be_val (b # bs) = (256 * m + unat b) * 256 ^ length bs + be_val bs"
    by (simp add: algebra_simps)
  show ?case
  proof (cases "m < 2 ^ 56")
    case True
    have "push_bit 8 (word_of_nat m) OR ucast b = (word_of_nat (256 * m + unat b) :: 64 word)"
      using shift_or_add [of "ucast b :: 64 word" 8 "word_of_nat m"] unat_64 [OF Cons.prems] by simp
    moreover have "256 * m + 256 \<le> 2 ^ 64" using True by simp
    then have "256 * m + unat b < 2 ^ 64" using unat_byte_less [of b] by linarith
    ultimately show ?thesis unfolding total
      using Cons.IH [of "256 * m + unat b"] d True by (simp del: of_nat_add of_nat_mult)
  next
    case False
    then have "2 ^ 64 * 1 \<le> (m * 256) * 256 ^ length bs" by (intro mult_mono) simp_all
    moreover have "unat v < 2 ^ 64" using unsigned_less [where 'a = nat, of v] by simp
    ultimately have "unat v \<noteq> m * 256 ^ length (b # bs) + be_val (b # bs)" by (simp add: mult.assoc)
    then show ?thesis using d False by simp
  qed
qed

lemma CBS_get_asn1_uint64_iff:
  "CBS_get_asn1_uint64 cbs = (Some v, rest) \<longleftrightarrow> cbs = der_element 2 (der_uint (unat v)) @ rest"
proof
  assume "CBS_get_asn1_uint64 cbs = (Some v, rest)"
  then obtain bytes where b: "CBS_get_asn1 cbs 2 = (Some bytes, rest)"
    "CBS_is_valid_asn1_integer bytes = Some False" "uint64_loop 0 bytes = Some v"
    by (auto simp: CBS_get_asn1_uint64_def CBS_is_unsigned_asn1_integer_def
        split: prod.splits option.splits if_splits)
  then have "unat v = be_val bytes" using uint64_loop_iff [of 0 bytes v] by simp
  then show "cbs = der_element 2 (der_uint (unat v)) @ rest"
    using b(1) b(2) [unfolded valid_nonneg_iff] by (simp add: CBS_get_asn1_iff)
next
  assume cbs: "cbs = der_element 2 (der_uint (unat v)) @ rest"
  have "unat v < 256 ^ 8" using unsigned_less [where 'a = nat, of v] by simp
  then have "length (der_uint (unat v)) < 2 ^ 32"
    using length_be_min [of "unat v" 8] by (simp add: der_uint_def Let_def)
  then have "CBS_get_asn1 cbs 2 = (Some (der_uint (unat v)), rest)" using cbs by (simp add: CBS_get_asn1_iff)
  moreover have "CBS_is_valid_asn1_integer (der_uint (unat v)) = Some False" by (simp add: valid_nonneg_iff)
  moreover have "uint64_loop 0 (der_uint (unat v)) = Some v"
    using uint64_loop_iff [of 0 "der_uint (unat v)" v] by simp
  ultimately show "CBS_get_asn1_uint64 cbs = (Some v, rest)"
    by (simp add: CBS_get_asn1_uint64_def CBS_is_unsigned_asn1_integer_def)
qed

interpretation uint64: prefix_codec CBS_get_asn1_uint64 "\<lambda>v. der_element 2 (der_uint (unat v))" "\<lambda>_. True"
  by unfold_locales (simp add: CBS_get_asn1_uint64_iff)

text \<open>A negative integer has the complemented bytes of its complement.\<close>

lemma unat_not: "unat (NOT w :: 'w::len word) = 2 ^ LENGTH('w) - 1 - unat w"
proof -
  have "NOT w = - 1 - w" by (simp add: not_eq_complement)
  moreover have "unat (- 1 - w) = unat (- 1 :: 'w word) - unat w" by (rule unat_sub) simp
  ultimately show ?thesis by (simp add: unsigned_minus_1_eq_mask mask_eq_exp_minus_1)
qed

lemmas unat_not_byte = unat_not [where 'w = 8, simplified]

lemma le_val_map_not: "le_val (map (\<lambda>b. NOT b) bs) = 256 ^ length bs - 1 - le_val bs"
proof (induction bs)
  case Nil
  then show ?case by simp
next
  case (Cons b bs)
  have "le_val bs < 256 ^ length bs" "unat b < 256" by (simp_all add: le_val_bound)
  moreover have "(255 - r) + 256 * (p - 1 - q) = 256 * p - 1 - (r + 256 * q)"
    if "q < p" "r < 256" for p q r :: nat using that by linarith
  ultimately show ?case
    by (simp only: list.map le_val.simps unat_not_byte Cons.IH list.size add_Suc_right add_0_right power_Suc)
qed

lemma valid_neg_iff:
  "CBS_is_valid_asn1_integer bs = Some True \<longleftrightarrow> CBS_is_valid_asn1_integer (map (\<lambda>b. NOT b) bs) = Some False"
proof -
  have "NOT b = 0 \<longleftrightarrow> b = 0xff" "NOT b = 0xff \<longleftrightarrow> b = 0" for b :: byte
    using unat_byte_less [of b] by (auto simp: word_unat_eq_iff unat_not_byte simp del: unat_byte_less)
  moreover have "128 \<le> unat (NOT b) \<longleftrightarrow> unat b < 128" "unat (NOT b) < 128 \<longleftrightarrow> 128 \<le> unat b" for b :: byte
    using unat_byte_less [of b] by (auto simp: unat_not_byte)
  ultimately show ?thesis
    by (cases bs rule: remdups_adj.cases) (auto simp: valid_integer_simps)
qed

lemma length_der_uint_iff: "length (der_uint n) \<le> 8 \<longleftrightarrow> n < 2 ^ 63"
proof
  let ?d = "der_uint n"
  assume le: "length ?d \<le> 8"
  obtain b cs where d: "?d = b # cs" using der_uint_shape [of n] by (cases ?d) auto
  then have "unat b < 128" using der_uint_shape [of n] by simp
  then have "unat b * 256 ^ length cs + be_val cs < 128 * 256 ^ length cs"
    using be_val_bound [of cs] mult_le_mono1 [of "unat b" 127 "256 ^ length cs"] by linarith
  also have "\<dots> \<le> 128 * 256 ^ 7" using le d by (intro mult_le_mono2 power_increasing) simp_all
  finally show "n < 2 ^ 63" using be_val_der_uint [of n] d by simp
next
  assume n: "n < 2 ^ 63"
  then have l: "length (be_min n) \<le> 8" by (intro length_be_min) simp
  show "length (der_uint n) \<le> 8"
  proof (cases "length (be_min n) = 8")
    case True
    then have "be_min n \<noteq> []" by auto
    with True have "unat (hd (be_min n)) = n div 256 ^ 7" using be_val_leading [of "be_min n"] by simp
    also have "\<dots> < 128" using n by (intro less_mult_imp_div_less) simp
    finally show ?thesis using True by (auto simp: der_uint_def Let_def)
  next
    case False
    then show ?thesis using l by (simp add: der_uint_def Let_def)
  qed
qed

lemma le_val_append_zeros: "le_val (bs @ replicate k 0) = le_val bs"
  by (induction bs) (simp, induction k, simp_all)

text \<open>The bytes the 64-bit union is filled with.\<close>

definition int64_fill :: "bool \<Rightarrow> byte list \<Rightarrow> byte list" where
  "int64_fill neg bytes = rev bytes @ replicate (8 - length bytes) (if neg then 0xff else 0)"

lemma int64_fill_nonneg:
  assumes "length bytes \<le> 8"
  shows "unat (word_of_nat (le_val (int64_fill False bytes)) :: 64 word) = be_val bytes"
proof -
  have "le_val (int64_fill False bytes) = be_val bytes"
    using be_val_rev [of "rev bytes"] by (simp add: int64_fill_def le_val_append_zeros)
  moreover have "be_val bytes < 256 ^ 8"
    using be_val_bound [of bytes] assms power_increasing [of "length bytes" 8 "256 :: nat"] by linarith
  ultimately show ?thesis by (simp add: unat_64)
qed

lemma int64_fill_neg:
  assumes "length bytes \<le> 8"
  shows "(word_of_nat (le_val (int64_fill True bytes)) :: 64 word) =
    NOT (word_of_nat (le_val (int64_fill False (map (\<lambda>b. NOT b) bytes))))"
proof -
  let ?u = "int64_fill False (map (\<lambda>b. NOT b) bytes)"
  have "int64_fill True bytes = map (\<lambda>b. NOT b) ?u"
    by (simp add: int64_fill_def rev_map map_replicate comp_def)
  moreover have "length ?u = 8" using assms by (simp add: int64_fill_def)
  ultimately have v: "le_val (int64_fill True bytes) = 2 ^ 64 - 1 - le_val ?u" "le_val ?u < 2 ^ 64"
    using le_val_bound [of ?u] by (simp_all add: le_val_map_not)
  show ?thesis
  proof (rule word_unat_eq_iff [THEN iffD2])
    have "unat (NOT (word_of_nat (le_val ?u)) :: 64 word) = 2 ^ 64 - 1 - le_val ?u"
      using unat_not [of "word_of_nat (le_val ?u) :: 64 word"] unat_64 [OF v(2)] by simp
    moreover have "unat (word_of_nat (2 ^ 64 - 1 - le_val ?u) :: 64 word) = 2 ^ 64 - 1 - le_val ?u"
      by (rule unat_64) simp
    ultimately show "unat (word_of_nat (le_val (int64_fill True bytes)) :: 64 word) =
      unat (NOT (word_of_nat (le_val ?u)) :: 64 word)" using v(1) by simp
  qed
qed

lemma int64_contents_iff:
  "(\<exists>neg. CBS_is_valid_asn1_integer bytes = Some neg \<and> length bytes \<le> 8 \<and>
      v = (word_of_nat (le_val (int64_fill neg bytes)) :: 64 word)) \<longleftrightarrow>
   bytes = der_int (to_signed 64 (unat v))" (is "?valid \<longleftrightarrow> ?der")
proof -
  have nonneg: "CBS_is_valid_asn1_integer bs = Some False \<and> length bs \<le> 8 \<and>
      w = (word_of_nat (le_val (int64_fill False bs)) :: 64 word) \<longleftrightarrow>
    unat w < 2 ^ 63 \<and> bs = der_uint (unat w)" for bs w
  proof (cases "length bs \<le> 8")
    case True
    then have "w = word_of_nat (le_val (int64_fill False bs)) \<longleftrightarrow> unat w = be_val bs"
      by (simp only: word_unat_eq_iff int64_fill_nonneg)
    then show ?thesis using True length_der_uint_iff [of "be_val bs"]
      unfolding valid_nonneg_iff by (metis be_val_der_uint)
  next
    case False
    then show ?thesis using length_der_uint_iff [of "unat w"] by auto
  qed
  have neg: "CBS_is_valid_asn1_integer bytes = Some True \<and> length bytes \<le> 8 \<and>
      v = (word_of_nat (le_val (int64_fill True bytes)) :: 64 word) \<longleftrightarrow>
    2 ^ 63 \<le> unat v \<and> bytes = map (\<lambda>b. NOT b) (der_uint (2 ^ 64 - 1 - unat v))"
  proof -
    have "unat (NOT v) = 2 ^ 64 - 1 - unat v" using unat_not [of v] by simp
    moreover have "unat v < 2 ^ 64" using unsigned_less [where 'a = nat, of v] by simp
    moreover have "NOT v = x \<longleftrightarrow> v = NOT x" for x by auto
    moreover have "map (\<lambda>b. NOT b) bytes = bs \<longleftrightarrow> bytes = map (\<lambda>b. NOT b) bs" for bs
      by (auto simp: comp_def)
    ultimately show ?thesis
      using nonneg [of "map (\<lambda>b. NOT b) bytes" "NOT v"] int64_fill_neg [of bytes]
      by (auto simp: valid_neg_iff)
  qed
  show ?thesis
  proof (cases "unat v < 2 ^ 63")
    case True
    then show ?thesis using nonneg [of bytes v] neg by (auto simp: der_int_def to_signed_def ex_bool_eq)
  next
    case False
    then have "der_int (to_signed 64 (unat v)) = map (\<lambda>b. NOT b) (der_uint (2 ^ 64 - 1 - unat v))"
    proof -
      have complement: "to_signed 64 n < 0 \<and> nat (- to_signed 64 n - 1) = 2 ^ 64 - 1 - n"
        if "n < 2 ^ 64" "\<not> n < 2 ^ 63" for n
        using that by (auto simp: to_signed_def nat_diff_distrib)
      have "unat v < 2 ^ 64" using unsigned_less [where 'a = nat, of v] by simp
      then show ?thesis using complement [of "unat v"] False by (simp add: der_int_def)
    qed
    then show ?thesis using False nonneg [of bytes v] neg by (auto simp: ex_bool_eq)
  qed
qed

lemma length_der_int64: "length (der_int (to_signed 64 (unat (v :: 64 word)))) \<le> 8"
  using int64_contents_iff [of "der_int (to_signed 64 (unat v))" v] by blast

lemma CBS_get_asn1_int64_iff:
  "CBS_get_asn1_int64 cbs = (Some v, rest) \<longleftrightarrow>
   cbs = der_element 2 (der_int (to_signed 64 (unat v))) @ rest" (is "?get \<longleftrightarrow> ?der")
proof -
  have "?get \<longleftrightarrow> (\<exists>bytes neg. CBS_get_asn1 cbs 2 = (Some bytes, rest) \<and>
    CBS_is_valid_asn1_integer bytes = Some neg \<and> length bytes \<le> 8 \<and>
    v = word_of_nat (le_val (int64_fill neg bytes)))"
    by (auto simp: CBS_get_asn1_int64_def int64_fill_def Let_def not_less
        split: prod.splits option.splits if_splits)
  also have "\<dots> \<longleftrightarrow> (\<exists>bytes. CBS_get_asn1 cbs 2 = (Some bytes, rest) \<and> bytes = der_int (to_signed 64 (unat v)))"
    unfolding int64_contents_iff [symmetric] by blast
  also have "\<dots> \<longleftrightarrow> ?der" using length_der_int64 [of v] by (auto simp: CBS_get_asn1_iff)
  finally show ?thesis .
qed

interpretation int64: prefix_codec CBS_get_asn1_int64
  "\<lambda>v. der_element 2 (der_int (to_signed 64 (unat v)))" "\<lambda>_. True"
  by unfold_locales (simp add: CBS_get_asn1_int64_iff)

lemma CBS_get_asn1_bool_iff:
  "CBS_get_asn1_bool cbs = (Some v, rest) \<longleftrightarrow> cbs = der_element 1 [if v then 0xff else 0] @ rest"
proof
  assume "CBS_get_asn1_bool cbs = (Some v, rest)"
  then obtain b where "CBS_get_asn1 cbs 1 = (Some [b], rest)" "b = (if v then 0xff else 0)"
    by (auto simp: CBS_get_asn1_bool_def CBS_len_def Let_def length_Suc_conv
        split: prod.splits option.splits if_splits)
  then show "cbs = der_element 1 [if v then 0xff else 0] @ rest" by (simp add: CBS_get_asn1_iff)
next
  assume "cbs = der_element 1 [if v then 0xff else 0] @ rest"
  then have "CBS_get_asn1 cbs 1 = (Some [if v then 0xff else 0], rest)" by (simp add: CBS_get_asn1_iff)
  then show "CBS_get_asn1_bool cbs = (Some v, rest)" by (simp add: CBS_get_asn1_bool_def CBS_len_def)
qed

interpretation boolean: prefix_codec CBS_get_asn1_bool "\<lambda>v. der_element 1 [if v then 0xff else 0]" "\<lambda>_. True"
  by unfold_locales (simp add: CBS_get_asn1_bool_iff)

section \<open>Optional elements\<close>

lemma peek_tag_iff: "CBS_peek_asn1_tag cbs t \<longleftrightarrow> (\<exists>r. cbs = der_tag t @ r)"
proof -
  have "cbs \<noteq> []" if "parse_asn1_tag cbs = (Some t, r)" for r
    using that by (auto simp: parse_asn1_tag_def)
  then have "CBS_peek_asn1_tag cbs t \<longleftrightarrow> (\<exists>r. parse_asn1_tag cbs = (Some t, r))"
    by (auto simp: CBS_peek_asn1_tag_def CBS_len_def Suc_le_eq split: prod.splits option.splits)
  then show ?thesis by (simp only: parse_asn1_tag_iff)
qed

lemma CBS_get_optional_asn1_iff:
  "CBS_get_optional_asn1 cbs t = (Some r, rest) \<longleftrightarrow>
   (case r of
      None \<Rightarrow> (\<nexists>x. cbs = der_tag t @ x) \<and> rest = cbs
    | Some c \<Rightarrow> length c < 2 ^ 32 \<and> cbs = der_element t c @ rest)"
proof -
  have tag: "\<exists>x. cbs = der_tag t @ x" if "cbs = der_element t c @ rest" for c rest
    using that by (auto simp: der_element_def der_header_def)
  show ?thesis
  proof (cases "CBS_peek_asn1_tag cbs t")
    case False
    then show ?thesis
      using tag by (auto simp: CBS_get_optional_asn1_def peek_tag_iff split: option.splits)
  next
    case True
    then have "CBS_get_optional_asn1 cbs t = (Some r, rest) \<longleftrightarrow>
      (\<exists>c. r = Some c \<and> CBS_get_asn1 cbs t = (Some c, rest))"
      by (auto simp: CBS_get_optional_asn1_def split: prod.splits option.splits)
    then show ?thesis using True by (auto simp: CBS_get_asn1_iff peek_tag_iff split: option.splits)
  qed
qed

lemma der_element_2: "der_element 2 c = 2 # der_length (length c) @ c"
proof -
  have "der_tag 2 = [2]" by code_simp
  then show ?thesis by (simp add: der_element_def der_header_def)
qed

lemma CBS_get_optional_asn1_uint64_iff:
  "CBS_get_optional_asn1_uint64 cbs t d = (Some v, rest) \<longleftrightarrow>
   (\<nexists>x. cbs = der_tag t @ x) \<and> rest = cbs \<and> v = d \<or>
   cbs = der_element t (der_element 2 (der_uint (unat v))) @ rest"
proof -
  have "CBS_get_optional_asn1_uint64 cbs t d = (Some v, rest) \<longleftrightarrow>
     CBS_get_optional_asn1 cbs t = (Some None, rest) \<and> v = d \<or>
     (\<exists>c. CBS_get_optional_asn1 cbs t = (Some (Some c), rest) \<and> CBS_get_asn1_uint64 c = (Some v, []))"
    by (auto simp: CBS_get_optional_asn1_uint64_def CBS_len_def split: prod.splits option.splits if_splits)
  moreover have "length (der_element 2 (der_uint (unat v))) < 2 ^ 32"
  proof -
    have "unat v < 256 ^ 8" using unsigned_less [where 'a = nat, of v] by simp
    then have "length (der_uint (unat v)) \<le> 9"
      using length_be_min [of "unat v" 8] by (simp add: der_uint_def Let_def)
    then show ?thesis by (simp add: der_element_2 der_length_def)
  qed
  ultimately show ?thesis
    by (auto simp: CBS_get_optional_asn1_iff CBS_get_asn1_uint64_iff)
qed

section \<open>What the readers accept\<close>

text \<open>A run of elements, as the callers loop over a SEQUENCE: reading \<open>n\<close> elements one after the
  other succeeds exactly when the input starts with the DER encodings of \<open>n\<close> elements, and then
  returns these elements; so a given input has only one reading.\<close>

theorem element_run_accepts_exactly_der:
  "read_n CBS_get_any_asn1 n bs = (Some vs, rest) \<longleftrightarrow>
   length vs = n \<and> list_all (\<lambda>(c, t). length c < 2 ^ 32) vs \<and>
   bs = concat (map (\<lambda>(c, t). der_element t c) vs) @ rest"
  by (rule elem.read_n_iff)

text \<open>C16. \<open>CBS_get_asn1_int64\<close> returns \<open>v\<close> exactly when the input starts with the INTEGER whose
  contents are the shortest two's complement form of the signed value of \<open>v\<close>: padded, empty and
  over-wide integers are all rejected, and every 64-bit value, negative ones included, is
  reachable.\<close>

theorem int64_accepts_exactly_der:
  "CBS_get_asn1_int64 cbs = (Some v, rest) \<longleftrightarrow>
   cbs = der_element 2 (der_int (to_signed 64 (unat v))) @ rest"
  by (rule CBS_get_asn1_int64_iff)

text \<open>\<open>CBS_get_optional_asn1_uint64\<close> gives the default value, without moving, exactly when the
  input does not start with the tag; otherwise it succeeds only if the tagged element holds
  one minimal non-negative INTEGER and nothing after it.\<close>

theorem optional_uint64_behaviour:
  "CBS_get_optional_asn1_uint64 cbs t d = (Some v, rest) \<longleftrightarrow>
   (\<nexists>x. cbs = der_tag t @ x) \<and> rest = cbs \<and> v = d \<or>
   cbs = der_element t (der_element 2 (der_uint (unat v))) @ rest"
  by (rule CBS_get_optional_asn1_uint64_iff)

text \<open>The readers of TLS vectors: with a length prefix of at most eight bytes the string \<open>c\<close> is
  returned exactly when the input starts with its length in big-endian form and its bytes.\<close>

theorem length_prefixed_accepts_exactly:
  assumes "k \<le> 8"
  shows "cbs_get_length_prefixed cbs k = (Some c, rest) \<longleftrightarrow>
    length c < 256 ^ k \<and> cbs = (be_bytes k (length c) @ c) @ rest"
  by (rule cbs_get_length_prefixed_iff [OF assms])

theorem length_prefixed_accepts_exactly_witness:
  "cbs_get_length_prefixed [0, 2, 7, 8, 9] 2 = (Some [7, 8], [9])"
proof -
  have "be_bytes 2 (length [7, 8 :: byte]) = [0, 2]" by code_simp
  then show ?thesis using length_prefixed_accepts_exactly [of 2 "[0, 2, 7, 8, 9]" "[7, 8]" "[9]"] by simp
qed

end
