(* ===== verification/Cbb.thy ===== *)
theory Cbb
  imports Cbs_Codec C_Sort
begin

unbundle bit_operations_syntax

text \<open>
  The byte-string builder of BoringSSL (\<open>crypto/bytestring/cbb.c\<close>), with which it writes TLS and
  DER data.

  A top-level \<open>CBB\<close> owns a buffer (\<open>struct cbb_buffer_st\<close>); a child writes a length-prefixed part of
  it and may have a child of its own, so the \<open>CBB\<close>s that share a buffer form a chain.  The
  record \<open>CBB\<close> holds the buffer and the chain of open children, and a pointer to a \<open>CBB\<close> is its
  depth: 0 is the top-level object and \<open>d + 1\<close> the child of \<open>d\<close>.  A depth beyond the chain is a
  closed child, whose \<open>base\<close> is \<open>NULL\<close>.  (After \<open>CBB_discard_child\<close> a C program may still
  hold a pointer to a grandchild, whose \<open>base\<close> the function does not clear; depths cannot express such a
  pointer, and using it is an error of the client.)

  The buffer is the list of its \<open>cap\<close> bytes.  A store outside of it sets the ghost field \<open>fault\<close>.
  The heap is a parameter: \<open>can_alloc\<close> tells for which sizes an allocation succeeds, and \<open>junk\<close> what
  the bytes of a new block hold.
\<close>

section \<open>The buffer\<close>

record cbb_buffer =
  buf :: "byte list"
  len :: nat
  cap :: nat
  can_resize :: bool
  error :: bool
  fault :: bool

record cbb_child =
  offset :: nat
  pending_len_len :: nat
  pending_is_asn1 :: bool

record CBB =
  base :: "cbb_buffer option"
  children :: "cbb_child list"

record heap_env =
  can_alloc :: "nat \<Rightarrow> bool"
  junk :: "nat \<Rightarrow> byte"

definition new_block :: "heap_env \<Rightarrow> nat \<Rightarrow> byte list" where
  "new_block h n = map (junk h) [0..<n]"

definition store :: "cbb_buffer \<Rightarrow> nat \<Rightarrow> byte list \<Rightarrow> cbb_buffer" where
  "store b off bs =
     (if off + length bs \<le> length (buf b)
      then b\<lparr>buf := take off (buf b) @ bs @ drop (off + length bs) (buf b)\<rparr>
      else b\<lparr>fault := True\<rparr>)"

definition CBB_zero :: CBB where
  "CBB_zero = \<lparr>base = None, children = []\<rparr>"

definition cbb_init :: "heap_env \<Rightarrow> CBB \<Rightarrow> byte list \<Rightarrow> nat \<Rightarrow> bool \<times> CBB" where
  "cbb_init h cbb bs n =
     (if \<not> can_alloc h 32 then (False, cbb)
      else (True, cbb\<lparr>base := Some \<lparr>buf = bs, len = 0, cap = n, can_resize = True, error = False,
                                     fault = False\<rparr>\<rparr>))"

definition CBB_init :: "heap_env \<Rightarrow> nat \<Rightarrow> bool \<times> CBB" where
  "CBB_init h initial_capacity =
     (if initial_capacity > 0 \<and> \<not> can_alloc h initial_capacity then (False, CBB_zero)
      else cbb_init h CBB_zero (new_block h initial_capacity) initial_capacity)"

definition CBB_init_fixed :: "heap_env \<Rightarrow> byte list \<Rightarrow> bool \<times> CBB" where
  "CBB_init_fixed h bs =
     (case cbb_init h CBB_zero bs (length bs) of
        (False, cbb) \<Rightarrow> (False, cbb)
      | (True, cbb) \<Rightarrow> (True, cbb\<lparr>base := map_option (\<lambda>b. b\<lparr>can_resize := False\<rparr>) (base cbb)\<rparr>))"

text \<open>Freeing the buffer and the base leaves no trace in the model; a child is left as it is.\<close>

definition CBB_cleanup :: "nat \<Rightarrow> CBB \<Rightarrow> CBB" where
  "CBB_cleanup d cbb = (if d \<noteq> 0 then cbb else cbb\<lparr>base := None\<rparr>)"

definition cbb_buffer_reserve :: "heap_env \<Rightarrow> cbb_buffer \<Rightarrow> nat \<Rightarrow> bool \<times> cbb_buffer" where
  "cbb_buffer_reserve h b n =
     (let newlen = (len b + n) mod size_mod in
      if newlen < len b then (False, b\<lparr>error := True\<rparr>)
      else if newlen > cap b then
        if \<not> can_resize b then (False, b\<lparr>error := True\<rparr>)
        else let newcap0 = cap b * 2 mod size_mod;
                 newcap = (if newcap0 < cap b \<or> newcap0 < newlen then newlen else newcap0)
             in if \<not> can_alloc h newcap then (False, b\<lparr>error := True\<rparr>)
                else (True, b\<lparr>buf := buf b @ drop (cap b) (new_block h newcap), cap := newcap\<rparr>)
      else (True, b))"

text \<open>The new bytes start at the old length.\<close>

definition cbb_buffer_add :: "heap_env \<Rightarrow> cbb_buffer \<Rightarrow> nat \<Rightarrow> bool \<times> cbb_buffer" where
  "cbb_buffer_add h b n =
     (case cbb_buffer_reserve h b n of
        (False, b') \<Rightarrow> (False, b')
      | (True, b') \<Rightarrow> (True, b'\<lparr>len := len b' + n\<rparr>))"

text \<open>\<open>k\<close> bytes of \<open>v\<close> from the last to the first, and what is left of \<open>v\<close>.\<close>

fun put_be :: "cbb_buffer \<Rightarrow> nat \<Rightarrow> nat \<Rightarrow> nat \<Rightarrow> cbb_buffer \<times> nat" where
  "put_be b off 0 v = (b, v)"
| "put_be b off (Suc i) v = put_be (store b (off + i) [word_of_nat v]) off i (v div 256)"

definition cbb_buffer_add_u :: "heap_env \<Rightarrow> cbb_buffer \<Rightarrow> 64 word \<Rightarrow> nat \<Rightarrow> bool \<times> cbb_buffer" where
  "cbb_buffer_add_u h b v len_len =
     (if len_len = 0 then (True, b)
      else (case cbb_buffer_add h b len_len of
              (False, b') \<Rightarrow> (False, b')
            | (True, b') \<Rightarrow>
                (case put_be b' (len b) len_len (unat v) of
                   (b'', v') \<Rightarrow> if v' \<noteq> 0 then (False, b''\<lparr>error := True\<rparr>) else (True, b''))))"

section \<open>Flushing\<close>

text \<open>The length of an ASN.1 length and its first byte.\<close>

definition asn1_len_form :: "nat \<Rightarrow> nat \<times> byte \<times> nat" where
  "asn1_len_form n =
     (if n > 0xffffff then (5, 0x80 OR 4, n)
      else if n > 0xffff then (4, 0x80 OR 3, n)
      else if n > 0xff then (3, 0x80 OR 2, n)
      else if n > 0x7f then (2, 0x80 OR 1, n)
      else (1, word_of_nat n, 0))"

text \<open>Makes room for a length of more than one byte.\<close>

definition move_contents :: "heap_env \<Rightarrow> cbb_buffer \<Rightarrow> nat \<Rightarrow> nat \<Rightarrow> nat \<Rightarrow> bool \<times> cbb_buffer" where
  "move_contents h b child_start len_len n =
     (if len_len \<noteq> 1 then
        let extra_bytes = len_len - 1 in
        (case cbb_buffer_add h b extra_bytes of
           (False, b') \<Rightarrow> (False, b'\<lparr>error := True\<rparr>)
         | (True, b') \<Rightarrow> (True, store b' (child_start + extra_bytes) (take n (drop child_start (buf b')))))
      else (True, b))"

text \<open>The bytes of the length; one that does not fit is an error.\<close>

definition put_length :: "cbb_buffer \<Rightarrow> nat \<Rightarrow> nat \<Rightarrow> nat \<Rightarrow> bool \<times> cbb_buffer" where
  "put_length b off k n =
     (case put_be b off k n of
        (b', n') \<Rightarrow> if n' \<noteq> 0 then (False, b'\<lparr>error := True\<rparr>) else (True, b'))"

text \<open>Writes the pending length of the child \<open>c\<close> whose contents start at \<open>child_start\<close>.\<close>

definition write_length :: "heap_env \<Rightarrow> cbb_buffer \<Rightarrow> cbb_child \<Rightarrow> nat \<Rightarrow> bool \<times> cbb_buffer" where
  "write_length h b c child_start =
     (let n = len b - child_start in
      if pending_is_asn1 c then
        if n > 0xfffffffe then (False, b\<lparr>error := True\<rparr>)
        else (case asn1_len_form n of
                (len_len, initial_length_byte, n') \<Rightarrow>
                  (case move_contents h b child_start len_len n' of
                     (False, b') \<Rightarrow> (False, b')
                   | (True, b') \<Rightarrow>
                       put_length (store b' (offset c) [initial_length_byte]) (offset c + 1) (len_len - 1) n'))
      else put_length b (offset c) (pending_len_len c) n)"

text \<open>The buffer and the children that are still open below.\<close>

fun flush_chain :: "heap_env \<Rightarrow> cbb_buffer \<Rightarrow> cbb_child list \<Rightarrow> bool \<times> cbb_buffer \<times> cbb_child list" where
  "flush_chain h b [] = (\<not> error b, b, [])"
| "flush_chain h b (c # cs) =
     (if error b then (False, b, c # cs)
      else if pending_len_len c = 0 then (True, b, c # cs)
      else let child_start = (offset c + pending_len_len c) mod size_mod in
           (case flush_chain h b cs of
              (False, b', cs') \<Rightarrow> (False, b'\<lparr>error := True\<rparr>, c # cs')
            | (True, b', cs') \<Rightarrow>
                if child_start < offset c \<or> len b' < child_start
                then (False, b'\<lparr>error := True\<rparr>, c # cs')
                else (case write_length h b' c child_start of
                        (False, b'') \<Rightarrow> (False, b'', c # cs')
                      | (True, b'') \<Rightarrow> (True, b'', []))))"

definition CBB_flush :: "heap_env \<Rightarrow> nat \<Rightarrow> CBB \<Rightarrow> bool \<times> CBB" where
  "CBB_flush h d cbb =
     (case base cbb of
        None \<Rightarrow> (False, cbb)
      | Some b \<Rightarrow>
          if d > length (children cbb) then (False, cbb)
          else (case flush_chain h b (drop d (children cbb)) of
                  (r, b', cs') \<Rightarrow> (r, \<lparr>base = Some b', children = take d (children cbb) @ cs'\<rparr>)))"

text \<open>The finished bytes; \<open>out_data\<close> and \<open>out_len\<close> tell which of the two outputs are not \<open>NULL\<close>.\<close>

definition CBB_finish :: "heap_env \<Rightarrow> nat \<Rightarrow> CBB \<Rightarrow> bool \<Rightarrow> bool \<Rightarrow> (byte list \<times> nat) option \<times> CBB" where
  "CBB_finish h d cbb out_data out_len =
     (if d \<noteq> 0 then (None, cbb)
      else (case CBB_flush h d cbb of
              (False, cbb') \<Rightarrow> (None, cbb')
            | (True, cbb') \<Rightarrow>
                (case base cbb' of
                   None \<Rightarrow> (None, cbb')
                 | Some b \<Rightarrow>
                     if can_resize b \<and> (\<not> out_data \<or> \<not> out_len) then (None, cbb')
                     else (Some (buf b, len b), CBB_cleanup 0 cbb'))))"

text \<open>Offset and width of the prefix of a \<open>CBB\<close>; a top-level one has none.\<close>

definition prefix_of :: "nat \<Rightarrow> CBB \<Rightarrow> nat \<times> nat" where
  "prefix_of d cbb =
     (case d of 0 \<Rightarrow> (0, 0)
      | Suc i \<Rightarrow> (offset (children cbb ! i), pending_len_len (children cbb ! i)))"

definition CBB_len :: "nat \<Rightarrow> CBB \<Rightarrow> nat" where
  "CBB_len d cbb =
     (case base cbb of None \<Rightarrow> 0
      | Some b \<Rightarrow> (case prefix_of d cbb of (off, k) \<Rightarrow> len b - off - k))"

text \<open>The bytes from the pointer that \<open>CBB_data\<close> returns, up to the length of the buffer.\<close>

definition CBB_data :: "nat \<Rightarrow> CBB \<Rightarrow> byte list" where
  "CBB_data d cbb =
     (case base cbb of None \<Rightarrow> []
      | Some b \<Rightarrow> (case prefix_of d cbb of (off, k) \<Rightarrow> drop (off + k) (take (len b) (buf b))))"

section \<open>Adding bytes, integers and children\<close>

text \<open>Lets \<open>f\<close> change the buffer; and the same after a flush, as every operation that writes opens.\<close>

definition on_buffer :: "CBB \<Rightarrow> (cbb_buffer \<Rightarrow> bool \<times> cbb_buffer) \<Rightarrow> bool \<times> CBB" where
  "on_buffer cbb f =
     (case base cbb of
        None \<Rightarrow> (False, cbb)
      | Some b \<Rightarrow> (case f b of (r, b') \<Rightarrow> (r, cbb\<lparr>base := Some b'\<rparr>)))"

definition with_buffer :: "heap_env \<Rightarrow> nat \<Rightarrow> CBB \<Rightarrow> (cbb_buffer \<Rightarrow> bool \<times> cbb_buffer) \<Rightarrow> bool \<times> CBB" where
  "with_buffer h d cbb f =
     (case CBB_flush h d cbb of
        (False, cbb') \<Rightarrow> (False, cbb')
      | (True, cbb') \<Rightarrow> on_buffer cbb' f)"

definition open_child :: "nat \<Rightarrow> CBB \<Rightarrow> nat \<Rightarrow> nat \<Rightarrow> bool \<Rightarrow> CBB" where
  "open_child d cbb off k asn1 =
     cbb\<lparr>children := take d (children cbb) @
       [\<lparr>offset = off, pending_len_len = k, pending_is_asn1 = asn1\<rparr>]\<rparr>"

definition base_len :: "CBB \<Rightarrow> nat" where
  "base_len cbb = (case base cbb of None \<Rightarrow> 0 | Some b \<Rightarrow> len b)"

text \<open>Space for \<open>data\<close> at the end of the buffer, and \<open>data\<close> copied there.\<close>

definition append_bytes :: "heap_env \<Rightarrow> byte list \<Rightarrow> cbb_buffer \<Rightarrow> bool \<times> cbb_buffer" where
  "append_bytes h data b =
     (case cbb_buffer_add h b (length data) of
        (False, b') \<Rightarrow> (False, b')
      | (True, b') \<Rightarrow> (True, store b' (len b) data))"

definition cbb_add_length_prefixed :: "heap_env \<Rightarrow> nat \<Rightarrow> CBB \<Rightarrow> nat \<Rightarrow> bool \<times> CBB" where
  "cbb_add_length_prefixed h d cbb len_len =
     (case CBB_flush h d cbb of
        (False, cbb1) \<Rightarrow> (False, cbb1)
      | (True, cbb1) \<Rightarrow>
          (case on_buffer cbb1 (append_bytes h (replicate len_len 0)) of
             (False, cbb2) \<Rightarrow> (False, cbb2)
           | (True, cbb2) \<Rightarrow> (True, open_child d cbb2 (base_len cbb1) len_len False)))"

definition CBB_add_u8_length_prefixed :: "heap_env \<Rightarrow> nat \<Rightarrow> CBB \<Rightarrow> bool \<times> CBB" where
  "CBB_add_u8_length_prefixed h d cbb = cbb_add_length_prefixed h d cbb 1"

definition CBB_add_u16_length_prefixed :: "heap_env \<Rightarrow> nat \<Rightarrow> CBB \<Rightarrow> bool \<times> CBB" where
  "CBB_add_u16_length_prefixed h d cbb = cbb_add_length_prefixed h d cbb 2"

definition CBB_add_u24_length_prefixed :: "heap_env \<Rightarrow> nat \<Rightarrow> CBB \<Rightarrow> bool \<times> CBB" where
  "CBB_add_u24_length_prefixed h d cbb = cbb_add_length_prefixed h d cbb 3"

definition CBB_add_u8 :: "heap_env \<Rightarrow> nat \<Rightarrow> CBB \<Rightarrow> byte \<Rightarrow> bool \<times> CBB" where
  "CBB_add_u8 h d cbb v = with_buffer h d cbb (\<lambda>b. cbb_buffer_add_u h b (ucast v) 1)"

definition CBB_add_u16 :: "heap_env \<Rightarrow> nat \<Rightarrow> CBB \<Rightarrow> 16 word \<Rightarrow> bool \<times> CBB" where
  "CBB_add_u16 h d cbb v = with_buffer h d cbb (\<lambda>b. cbb_buffer_add_u h b (ucast v) 2)"

definition CBB_add_u16le :: "heap_env \<Rightarrow> nat \<Rightarrow> CBB \<Rightarrow> 16 word \<Rightarrow> bool \<times> CBB" where
  "CBB_add_u16le h d cbb v = CBB_add_u16 h d cbb (CRYPTO_bswap2 v)"

definition CBB_add_u24 :: "heap_env \<Rightarrow> nat \<Rightarrow> CBB \<Rightarrow> 32 word \<Rightarrow> bool \<times> CBB" where
  "CBB_add_u24 h d cbb v = with_buffer h d cbb (\<lambda>b. cbb_buffer_add_u h b (ucast v) 3)"

definition CBB_add_u32 :: "heap_env \<Rightarrow> nat \<Rightarrow> CBB \<Rightarrow> 32 word \<Rightarrow> bool \<times> CBB" where
  "CBB_add_u32 h d cbb v = with_buffer h d cbb (\<lambda>b. cbb_buffer_add_u h b (ucast v) 4)"

definition CBB_add_u32le :: "heap_env \<Rightarrow> nat \<Rightarrow> CBB \<Rightarrow> 32 word \<Rightarrow> bool \<times> CBB" where
  "CBB_add_u32le h d cbb v = CBB_add_u32 h d cbb (CRYPTO_bswap4 v)"

definition CBB_add_u64 :: "heap_env \<Rightarrow> nat \<Rightarrow> CBB \<Rightarrow> 64 word \<Rightarrow> bool \<times> CBB" where
  "CBB_add_u64 h d cbb v = with_buffer h d cbb (\<lambda>b. cbb_buffer_add_u h b v 8)"

definition CBB_add_u64le :: "heap_env \<Rightarrow> nat \<Rightarrow> CBB \<Rightarrow> 64 word \<Rightarrow> bool \<times> CBB" where
  "CBB_add_u64le h d cbb v = CBB_add_u64 h d cbb (CRYPTO_bswap8 v)"

text \<open>The number of 7-bit groups, and the groups from \<open>i - 1\<close> down to 0.\<close>

function base128_len :: "64 word \<Rightarrow> nat" where
  "base128_len copy = (if copy > 0 then Suc (base128_len (drop_bit 7 copy)) else 0)"
  by auto
termination
proof (relation "measure unat")
  fix copy :: "64 word"
  assume "copy > 0"
  then have "unat copy \<noteq> 0" by (simp add: unat_eq_0 word_greater_zero_iff)
  then have "unat (drop_bit 7 copy) < unat copy"
    by (simp only: unat_drop_bit_eq) (simp only: drop_bit_eq_div, simp)
  then show "(drop_bit 7 copy, copy) \<in> measure unat" by simp
qed simp

declare base128_len.simps [simp del]

fun base128_add_loop :: "heap_env \<Rightarrow> nat \<Rightarrow> CBB \<Rightarrow> 64 word \<Rightarrow> nat \<Rightarrow> bool \<times> CBB" where
  "base128_add_loop h d cbb v 0 = (True, cbb)"
| "base128_add_loop h d cbb v (Suc i) =
     (let b = ucast (drop_bit (7 * i) v) AND 0x7f; b' = (if i \<noteq> 0 then b OR 0x80 else b) in
      (case CBB_add_u8 h d cbb b' of
         (False, cbb') \<Rightarrow> (False, cbb')
       | (True, cbb') \<Rightarrow> base128_add_loop h d cbb' v i))"

definition add_base128_integer :: "heap_env \<Rightarrow> nat \<Rightarrow> CBB \<Rightarrow> 64 word \<Rightarrow> bool \<times> CBB" where
  "add_base128_integer h d cbb v =
     (let len_len = base128_len v in base128_add_loop h d cbb v (if len_len = 0 then 1 else len_len))"

text \<open>The tag bytes, then a byte for the length and the child.\<close>

definition CBB_add_asn1 :: "heap_env \<Rightarrow> nat \<Rightarrow> CBB \<Rightarrow> 32 word \<Rightarrow> bool \<times> CBB" where
  "CBB_add_asn1 h d cbb tag =
     (case CBB_flush h d cbb of
        (False, cbb1) \<Rightarrow> (False, cbb1)
      | (True, cbb1) \<Rightarrow>
          let tag_bits = ucast (drop_bit CBS_ASN1_TAG_SHIFT tag) AND 0xe0;
              tag_number = tag AND CBS_ASN1_TAG_NUMBER_MASK;
              tagged =
                (if tag_number \<ge> 0x1f then
                   (case CBB_add_u8 h d cbb1 (tag_bits OR 0x1f) of
                      (False, cbb2) \<Rightarrow> (False, cbb2)
                    | (True, cbb2) \<Rightarrow> add_base128_integer h d cbb2 (ucast tag_number))
                 else CBB_add_u8 h d cbb1 (tag_bits OR ucast tag_number))
          in (case tagged of
                (False, cbb2) \<Rightarrow> (False, cbb2)
              | (True, cbb2) \<Rightarrow>
                  (case CBB_add_u8 h d cbb2 0 of
                     (False, cbb3) \<Rightarrow> (False, cbb3)
                   | (True, cbb3) \<Rightarrow> (True, open_child d cbb3 (base_len cbb2) 1 True))))"

definition CBB_add_bytes :: "heap_env \<Rightarrow> nat \<Rightarrow> CBB \<Rightarrow> byte list \<Rightarrow> bool \<times> CBB" where
  "CBB_add_bytes h d cbb data = with_buffer h d cbb (append_bytes h data)"

text \<open>Space that the caller fills through the pointer to the old end of the buffer.\<close>

definition CBB_add_space :: "heap_env \<Rightarrow> nat \<Rightarrow> CBB \<Rightarrow> nat \<Rightarrow> bool \<times> CBB" where
  "CBB_add_space h d cbb n = with_buffer h d cbb (\<lambda>b. cbb_buffer_add h b n)"

definition CBB_add_zeros :: "heap_env \<Rightarrow> nat \<Rightarrow> CBB \<Rightarrow> nat \<Rightarrow> bool \<times> CBB" where
  "CBB_add_zeros h d cbb n =
     (case CBB_add_space h d cbb n of
        (False, cbb') \<Rightarrow> (False, cbb')
      | (True, cbb') \<Rightarrow>
          (True, cbb'\<lparr>base := map_option (\<lambda>b. store b (len b - n) (replicate n 0)) (base cbb')\<rparr>))"

definition CBB_reserve :: "heap_env \<Rightarrow> nat \<Rightarrow> CBB \<Rightarrow> nat \<Rightarrow> bool \<times> CBB" where
  "CBB_reserve h d cbb n = with_buffer h d cbb (\<lambda>b. cbb_buffer_reserve h b n)"

definition CBB_did_write :: "nat \<Rightarrow> CBB \<Rightarrow> nat \<Rightarrow> bool \<times> CBB" where
  "CBB_did_write d cbb n =
     (case base cbb of
        None \<Rightarrow> (False, cbb)
      | Some b \<Rightarrow>
          let newlen = (len b + n) mod size_mod in
          if d \<noteq> length (children cbb) \<or> newlen < len b \<or> newlen > cap b then (False, cbb)
          else (True, cbb\<lparr>base := Some (b\<lparr>len := newlen\<rparr>)\<rparr>))"

definition CBB_discard_child :: "nat \<Rightarrow> CBB \<Rightarrow> CBB" where
  "CBB_discard_child d cbb =
     (if length (children cbb) \<le> d then cbb
      else \<lparr>base = map_option (\<lambda>b. b\<lparr>len := offset (children cbb ! d)\<rparr>) (base cbb),
            children = take d (children cbb)\<rparr>)"

section \<open>ASN.1 values\<close>

fun uint64_add_loop :: "heap_env \<Rightarrow> nat \<Rightarrow> CBB \<Rightarrow> 64 word \<Rightarrow> nat \<Rightarrow> bool \<Rightarrow> bool \<times> bool \<times> CBB" where
  "uint64_add_loop h d cbb v 0 started = (True, started, cbb)"
| "uint64_add_loop h d cbb v (Suc i) started =
     (let b = ucast (drop_bit (8 * i) v) :: byte in
      if \<not> started \<and> b = 0 then uint64_add_loop h d cbb v i started
      else (case (if \<not> started \<and> b AND 0x80 \<noteq> 0 then CBB_add_u8 h d cbb 0 else (True, cbb)) of
              (False, cbb') \<Rightarrow> (False, started, cbb')
            | (True, cbb') \<Rightarrow>
                (case CBB_add_u8 h d cbb' b of
                   (False, cbb'') \<Rightarrow> (False, True, cbb'')
                 | (True, cbb'') \<Rightarrow> uint64_add_loop h d cbb'' v i True)))"

definition CBB_add_asn1_uint64 :: "heap_env \<Rightarrow> nat \<Rightarrow> CBB \<Rightarrow> 64 word \<Rightarrow> bool \<times> CBB" where
  "CBB_add_asn1_uint64 h d cbb v =
     (case CBB_add_asn1 h d cbb CBS_ASN1_INTEGER of
        (False, cbb1) \<Rightarrow> (False, cbb1)
      | (True, cbb1) \<Rightarrow>
          (case uint64_add_loop h (d + 1) cbb1 v 8 False of
             (False, _, cbb2) \<Rightarrow> (False, cbb2)
           | (True, started, cbb2) \<Rightarrow>
               (case (if \<not> started then CBB_add_u8 h (d + 1) cbb2 0 else (True, cbb2)) of
                  (False, cbb3) \<Rightarrow> (False, cbb3)
                | (True, cbb3) \<Rightarrow> CBB_flush h d cbb3)))"

text \<open>The bytes \<open>u.bytes\<close> of a negative integer: the first index to write, and the bytes down to 0.\<close>

fun int64_start :: "byte list \<Rightarrow> nat \<Rightarrow> nat" where
  "int64_start u 0 = 0"
| "int64_start u (Suc s) = (if u ! Suc s = 0xff \<and> u ! s AND 0x80 \<noteq> 0 then int64_start u s else Suc s)"

fun add_bytes_down :: "heap_env \<Rightarrow> nat \<Rightarrow> CBB \<Rightarrow> byte list \<Rightarrow> nat \<Rightarrow> bool \<times> CBB" where
  "add_bytes_down h d cbb u 0 = (True, cbb)"
| "add_bytes_down h d cbb u (Suc i) =
     (case CBB_add_u8 h d cbb (u ! i) of
        (False, cbb') \<Rightarrow> (False, cbb')
      | (True, cbb') \<Rightarrow> add_bytes_down h d cbb' u i)"

definition CBB_add_asn1_int64 :: "heap_env \<Rightarrow> nat \<Rightarrow> CBB \<Rightarrow> int \<Rightarrow> bool \<times> CBB" where
  "CBB_add_asn1_int64 h d cbb i =
     (if i \<ge> 0 then CBB_add_asn1_uint64 h d cbb (word_of_int i)
      else let u = le_bytes 8 (of_signed 64 i); start = int64_start u 7 in
           (case CBB_add_asn1 h d cbb CBS_ASN1_INTEGER of
              (False, cbb1) \<Rightarrow> (False, cbb1)
            | (True, cbb1) \<Rightarrow>
                (case add_bytes_down h (d + 1) cbb1 u (start + 1) of
                   (False, cbb2) \<Rightarrow> (False, cbb2)
                 | (True, cbb2) \<Rightarrow> CBB_flush h d cbb2)))"

definition CBB_add_asn1_octet_string :: "heap_env \<Rightarrow> nat \<Rightarrow> CBB \<Rightarrow> byte list \<Rightarrow> bool \<times> CBB" where
  "CBB_add_asn1_octet_string h d cbb data =
     (case CBB_add_asn1 h d cbb CBS_ASN1_OCTETSTRING of
        (False, cbb1) \<Rightarrow> (False, cbb1)
      | (True, cbb1) \<Rightarrow>
          (case CBB_add_bytes h (d + 1) cbb1 data of
             (False, cbb2) \<Rightarrow> (False, cbb2)
           | (True, cbb2) \<Rightarrow> CBB_flush h d cbb2))"

definition CBB_add_asn1_bool :: "heap_env \<Rightarrow> nat \<Rightarrow> CBB \<Rightarrow> bool \<Rightarrow> bool \<times> CBB" where
  "CBB_add_asn1_bool h d cbb v =
     (case CBB_add_asn1 h d cbb CBS_ASN1_BOOLEAN of
        (False, cbb1) \<Rightarrow> (False, cbb1)
      | (True, cbb1) \<Rightarrow>
          (case CBB_add_u8 h (d + 1) cbb1 (if v then 0xff else 0) of
             (False, cbb2) \<Rightarrow> (False, cbb2)
           | (True, cbb2) \<Rightarrow> CBB_flush h d cbb2))"

section \<open>Object identifiers\<close>

fun dotted_loop :: "64 word \<Rightarrow> bool \<Rightarrow> cbs \<Rightarrow> 64 word option \<times> cbs" where
  "dotted_loop out seen_digit [] = (if seen_digit then Some out else None, [])"
| "dotted_loop out seen_digit (u # cbs) =
     (if u = 0x2e \<and> CBS_len cbs > 0 then (if seen_digit then Some out else None, cbs)
      else if u < 0x30 \<or> u > 0x39 \<or> seen_digit \<and> out = 0 \<or> out > (- 1) div 10
              \<or> out * 10 > (- 1) - ucast (u - 0x30)
      then (None, cbs)
      else dotted_loop (out * 10 + ucast (u - 0x30)) True cbs)"

definition parse_dotted_decimal :: "cbs \<Rightarrow> 64 word option \<times> cbs" where
  "parse_dotted_decimal cbs = dotted_loop 0 False cbs"

lemma dotted_loop_length: "dotted_loop out seen cbs = (Some v, cbs') \<Longrightarrow> cbs \<noteq> [] \<Longrightarrow> length cbs' < length cbs"
proof (induction out seen cbs rule: dotted_loop.induct)
  case (2 out seen u cbs)
  show ?case
  proof (cases "cbs = []")
    case True
    with 2(2) show ?thesis by (auto simp: CBS_len_def split: if_splits)
  next
    case False
    with 2 show ?thesis by (fastforce split: if_splits)
  qed
qed simp

function oid_components_loop :: "heap_env \<Rightarrow> nat \<Rightarrow> CBB \<Rightarrow> cbs \<Rightarrow> bool \<times> CBB" where
  "oid_components_loop h d cbb cbs =
     (if CBS_len cbs > 0 then
        (case parse_dotted_decimal cbs of
           (None, _) \<Rightarrow> (False, cbb)
         | (Some a, cbs') \<Rightarrow>
             (case add_base128_integer h d cbb a of
                (False, cbb') \<Rightarrow> (False, cbb')
              | (True, cbb') \<Rightarrow> oid_components_loop h d cbb' cbs'))
      else (True, cbb))"
  by auto
termination
  by (relation "measure (\<lambda>(_, _, _, cbs). length cbs)")
    (auto simp: CBS_len_def parse_dotted_decimal_def dest: sym dotted_loop_length [OF sym])

declare oid_components_loop.simps [simp del]

definition CBB_add_asn1_oid_from_text :: "heap_env \<Rightarrow> nat \<Rightarrow> CBB \<Rightarrow> byte list \<Rightarrow> nat \<Rightarrow> bool \<times> CBB" where
  "CBB_add_asn1_oid_from_text h d cbb text n =
     (case CBB_flush h d cbb of
        (False, cbb1) \<Rightarrow> (False, cbb1)
      | (True, cbb1) \<Rightarrow>
          (case parse_dotted_decimal (CBS_init text n) of
             (None, _) \<Rightarrow> (False, cbb1)
           | (Some a, cbs1) \<Rightarrow>
               (case parse_dotted_decimal cbs1 of
                  (None, _) \<Rightarrow> (False, cbb1)
                | (Some b, cbs2) \<Rightarrow>
                    if a > 2 \<or> a < 2 \<and> b > 39 \<or> b > (- 1) - 80 then (False, cbb1)
                    else (case add_base128_integer h d cbb1 (40 * a + b) of
                            (False, cbb2) \<Rightarrow> (False, cbb2)
                          | (True, cbb2) \<Rightarrow> oid_components_loop h d cbb2 cbs2))))"

text \<open>The decimal digits that \<open>BIO_snprintf\<close> writes for \<open>%u\<close>.\<close>

fun decimal_digits :: "nat \<Rightarrow> byte list" where
  "decimal_digits n =
     (if n < 10 then [word_of_nat (48 + n)] else decimal_digits (n div 10) @ [word_of_nat (48 + n mod 10)])"

declare decimal_digits.simps [simp del]

definition add_decimal :: "heap_env \<Rightarrow> CBB \<Rightarrow> 64 word \<Rightarrow> bool \<times> CBB" where
  "add_decimal h out v = CBB_add_bytes h 0 out (decimal_digits (unat v))"

lemma base128_loop_length: "base128_loop v cbs = (r, cbs') \<Longrightarrow> cbs \<noteq> [] \<Longrightarrow> length cbs' < length cbs"
proof (induction v cbs rule: base128_loop.induct)
  case (2 v b cbs)
  then show ?case by (cases cbs) (fastforce simp: Let_def split: if_splits)+
qed simp

function oid_text_loop :: "heap_env \<Rightarrow> CBB \<Rightarrow> cbs \<Rightarrow> bool \<times> CBB" where
  "oid_text_loop h cbb copy =
     (if CBS_len copy \<noteq> 0 then
        (case parse_base128_integer copy of
           (None, _) \<Rightarrow> (False, cbb)
         | (Some v, copy') \<Rightarrow>
             (case CBB_add_u8 h 0 cbb 0x2e of
                (False, cbb') \<Rightarrow> (False, cbb')
              | (True, cbb') \<Rightarrow>
                  (case add_decimal h cbb' v of
                     (False, cbb'') \<Rightarrow> (False, cbb'')
                   | (True, cbb'') \<Rightarrow> oid_text_loop h cbb'' copy')))
      else (True, cbb))"
  by auto
termination
  by (relation "measure (\<lambda>(_, _, copy). length copy)")
    (auto simp: CBS_len_def parse_base128_integer_def dest: base128_loop_length [OF sym])

declare oid_text_loop.simps [simp del]

definition CBS_asn1_oid_to_text :: "heap_env \<Rightarrow> cbs \<Rightarrow> byte list option" where
  "CBS_asn1_oid_to_text h cbs =
     (case CBB_init h 32 of
        (False, _) \<Rightarrow> None
      | (True, cbb) \<Rightarrow>
          (case parse_base128_integer cbs of
             (None, _) \<Rightarrow> None
           | (Some v, copy) \<Rightarrow>
               (case
                  (if v \<ge> 80 then
                     (case CBB_add_bytes h 0 cbb [0x32, 0x2e] of
                        (False, cbb1) \<Rightarrow> (False, cbb1)
                      | (True, cbb1) \<Rightarrow> add_decimal h cbb1 (v - 80))
                   else
                     (case add_decimal h cbb (v div 40) of
                        (False, cbb1) \<Rightarrow> (False, cbb1)
                      | (True, cbb1) \<Rightarrow>
                          (case CBB_add_u8 h 0 cbb1 0x2e of
                             (False, cbb2) \<Rightarrow> (False, cbb2)
                           | (True, cbb2) \<Rightarrow> add_decimal h cbb2 (v mod 40)))) of
                  (False, _) \<Rightarrow> None
                | (True, cbb1) \<Rightarrow>
                    (case oid_text_loop h cbb1 copy of
                       (False, _) \<Rightarrow> None
                     | (True, cbb2) \<Rightarrow>
                         (case CBB_add_u8 h 0 cbb2 0 of
                            (False, _) \<Rightarrow> None
                          | (True, cbb3) \<Rightarrow>
                              (case CBB_finish h 0 cbb3 True True of
                                 (None, _) \<Rightarrow> None
                               | (Some (txt, txt_len), _) \<Rightarrow> Some (take txt_len txt)))))))"

section \<open>Sets\<close>

definition compare_set_of_element :: "cbs \<Rightarrow> cbs \<Rightarrow> int" where
  "compare_set_of_element a b =
     (let a_len = CBS_len a; b_len = CBS_len b;
          min_len = (if a_len < b_len then a_len else b_len);
          ret = memcmp (take min_len a) (take min_len b)
      in if ret \<noteq> 0 then ret
         else if a_len = b_len then 0
         else if a_len < b_len then - 1 else 1)"

lemma get_element_shorter:
  "CBS_get_any_asn1_element cbs = (Some r, cbs') \<Longrightarrow> length cbs' < length cbs"
  by (cases r) (auto simp: CBS_get_any_asn1_element_iff der_element_def der_header_def der_tag_def)

text \<open>
  The elements of the contents.  The code walks over them twice, to count them and, in a copy of
  the same bytes, to keep them.
\<close>

function split_elements :: "cbs \<Rightarrow> cbs list option" where
  "split_elements cbs =
     (if CBS_len cbs \<noteq> 0 then
        (case CBS_get_any_asn1_element cbs of
           (None, _) \<Rightarrow> None
         | (Some (out, _, _), cbs') \<Rightarrow> map_option ((#) out) (split_elements cbs'))
      else Some [])"
  by auto
termination
  by (relation "measure length") (auto dest: get_element_shorter [OF sym])

declare split_elements.simps [simp del]

fun add_children :: "heap_env \<Rightarrow> nat \<Rightarrow> CBB \<Rightarrow> cbs list \<Rightarrow> bool \<times> CBB" where
  "add_children h d cbb [] = (True, cbb)"
| "add_children h d cbb (c # cs) =
     (case CBB_add_bytes h d cbb c of
        (False, cbb') \<Rightarrow> (False, cbb')
      | (True, cbb') \<Rightarrow> add_children h d cbb' cs)"

definition CBB_flush_asn1_set_of :: "heap_env \<Rightarrow> nat \<Rightarrow> CBB \<Rightarrow> bool \<times> CBB" where
  "CBB_flush_asn1_set_of h d cbb =
     (case CBB_flush h d cbb of
        (False, cbb1) \<Rightarrow> (False, cbb1)
      | (True, cbb1) \<Rightarrow>
          (case split_elements (CBS_init (CBB_data d cbb1) (CBB_len d cbb1)) of
             None \<Rightarrow> (False, cbb1)
           | Some elements \<Rightarrow>
               let num_children = length elements; buf_len = CBB_len d cbb1 in
               if num_children < 2 then (True, cbb1)
               else if num_children > (size_mod - 1) div 16 then (False, cbb1)
               else if \<not> can_alloc h buf_len \<or> \<not> can_alloc h (num_children * 16) then (False, cbb1)
               else let (off, k) = prefix_of d cbb1;
                        cbb2 = cbb1\<lparr>base := map_option (\<lambda>b. b\<lparr>len := off + k\<rparr>) (base cbb1)\<rparr>
                    in add_children h d cbb2 (qsort compare_set_of_element elements)))"

end
