(* ===== verification/Cbb_Flush.thy ===== *)
theory Cbb_Flush
  imports Cbb
begin

unbundle bit_operations_syntax

text \<open>
  What the builder writes.  \<open>buf_ok\<close> is the invariant of the buffer: the block has \<open>cap\<close> bytes, of
  which \<open>len\<close> are in use, and no store went outside of it.  \<open>contents\<close> are the bytes in use.
  \<open>chain_ok\<close> is the invariant of the chain of open children, and \<open>denote\<close> the specification of a
  flush: the bytes that the open children stand for once their lengths are known.
\<close>

section \<open>The buffer\<close>

definition buf_ok :: "cbb_buffer \<Rightarrow> bool" where
  "buf_ok b \<longleftrightarrow> length (buf b) = cap b \<and> len b \<le> cap b \<and> cap b < size_mod \<and> \<not> fault b"

definition contents :: "cbb_buffer \<Rightarrow> byte list" where
  "contents b = take (len b) (buf b)"

text \<open>\<open>b'\<close> is \<open>b\<close> with the contents \<open>c\<close>, in a block that may have moved.\<close>

definition becomes :: "cbb_buffer \<Rightarrow> byte list \<Rightarrow> cbb_buffer \<Rightarrow> bool" where
  "becomes b c b' \<longleftrightarrow>
     buf_ok b' \<and> contents b' = c \<and> error b' = error b \<and> can_resize b' = can_resize b \<and> cap b \<le> cap b'"

text \<open>An operation failed: the buffer is still sound and marked.\<close>

definition failed :: "cbb_buffer \<Rightarrow> bool" where
  "failed b \<longleftrightarrow> buf_ok b \<and> error b"

text \<open>There is memory for \<open>n\<close> more bytes, or the heap gives it.\<close>

definition room :: "heap_env \<Rightarrow> cbb_buffer \<Rightarrow> nat \<Rightarrow> bool" where
  "room h b n \<longleftrightarrow> len b + n < size_mod \<and> (len b + n \<le> cap b \<or> can_resize b \<and> (\<forall>k. can_alloc h k))"

lemma length_contents: "buf_ok b \<Longrightarrow> length (contents b) = len b"
  by (simp add: buf_ok_def contents_def)

lemma becomes_len: "becomes b c b' \<Longrightarrow> len b' = length c"
  using length_contents by (auto simp: becomes_def)

lemma becomes_refl: "buf_ok b \<Longrightarrow> becomes b (contents b) b"
  by (simp add: becomes_def)

lemma becomes_trans: "becomes b c b' \<Longrightarrow> becomes b' c' b'' \<Longrightarrow> becomes b c' b''"
  by (auto simp: becomes_def)

lemma becomes_ok: "becomes b c b' \<Longrightarrow> buf_ok b'"
  by (simp add: becomes_def)

lemma room_becomes: "becomes b c b' \<Longrightarrow> room h b (k + n) \<Longrightarrow> length c = len b + k \<Longrightarrow> room h b' n"
  using becomes_len [of b c b'] by (auto simp: room_def becomes_def)

lemma length_new_block [simp]: "length (new_block h n) = n"
  by (simp add: new_block_def)

text \<open>The sum of two sizes wraps exactly when it comes out smaller.\<close>

lemma wrap_iff:
  assumes "a < size_mod" "n < size_mod"
  shows "(a + n) mod size_mod < a \<longleftrightarrow> size_mod \<le> a + n"
proof (cases "a + n < size_mod")
  case True
  then show ?thesis by simp
next
  case False
  then have "(a + n) mod size_mod = a + n - size_mod" using assms by (simp add: le_mod_geq)
  then show ?thesis using False assms by linarith
qed

lemma reserve_ok:
  assumes "buf_ok b" "n < size_mod" "cbb_buffer_reserve h b n = (r, b')"
  shows "if r then becomes b (contents b) b' \<and> len b + n \<le> cap b' else failed b'"
proof -
  let ?n = "(len b + n) mod size_mod"
  have l: "len b < size_mod" using assms(1) by (simp add: buf_ok_def)
  show ?thesis
  proof (cases "len b + n < size_mod")
    case False
    then have "?n < len b" using wrap_iff [OF l assms(2)] by simp
    then have "r = False" "b' = b\<lparr>error := True\<rparr>" using assms(3) by (auto simp: cbb_buffer_reserve_def)
    then show ?thesis using assms(1) by (simp add: failed_def buf_ok_def)
  next
    case True
    show ?thesis
    proof (cases "len b + n \<le> cap b")
      case fits: True
      then have "r" "b' = b" using assms(3) True by (auto simp: cbb_buffer_reserve_def Let_def)
      then show ?thesis using assms(1) fits by (simp add: becomes_refl)
    next
      case False
      then show ?thesis
        using assms(1, 3) True
        by (auto simp: cbb_buffer_reserve_def Let_def becomes_def failed_def buf_ok_def contents_def
            split: if_splits)
    qed
  qed
qed

lemma reserve_room: "room h b n \<Longrightarrow> buf_ok b \<Longrightarrow> fst (cbb_buffer_reserve h b n)"
  by (auto simp: room_def cbb_buffer_reserve_def Let_def)

lemma add_ok:
  assumes "buf_ok b" "n < size_mod" "cbb_buffer_add h b n = (r, b')"
  shows "if r then \<exists>j. length j = n \<and> becomes b (contents b @ j) b' else failed b'"
proof (cases "cbb_buffer_reserve h b n")
  case (Pair r1 b1)
  note res = reserve_ok [OF assms(1, 2) Pair]
  show ?thesis
  proof (cases r1)
    case False
    then show ?thesis using assms(3) Pair res by (auto simp: cbb_buffer_add_def)
  next
    case True
    then have b': "r" "b' = b1\<lparr>len := len b + n\<rparr>"
      using assms(3) Pair res becomes_len [of b _ b1] length_contents [OF assms(1)]
      by (auto simp: cbb_buffer_add_def)
    let ?j = "take n (drop (len b) (buf b1))"
    have b1: "becomes b (contents b) b1" "len b + n \<le> cap b1" using True res by simp_all
    have l: "len b1 = len b" using becomes_len [OF b1(1)] length_contents [OF assms(1)] by simp
    then have c: "take (len b) (buf b1) = contents b" using b1(1) by (simp add: becomes_def contents_def [of b1])
    have "length (buf b1) = cap b1" using b1(1) by (simp add: becomes_def buf_ok_def)
    then have "length ?j = n" using b1(2) by simp
    moreover have "contents b' = take (len b) (buf b1) @ ?j"
      unfolding b' contents_def by (simp add: take_add)
    then have "contents b' = contents b @ ?j" by (simp only: c)
    then have "becomes b (contents b @ ?j) b'"
      using b1 b' by (simp add: becomes_def buf_ok_def)
    ultimately have "\<exists>j. length j = n \<and> becomes b (contents b @ j) b'" by blast
    then show ?thesis using b' by auto
  qed
qed

lemma add_room: "room h b n \<Longrightarrow> buf_ok b \<Longrightarrow> fst (cbb_buffer_add h b n)"
  using reserve_room [of h b n] by (auto simp: cbb_buffer_add_def split: prod.splits bool.splits)

lemma store_ok:
  assumes "buf_ok b" "contents b = p @ q @ s" "length q = length bs"
  shows "becomes b (p @ bs @ s) (store b (length p) bs)"
proof -
  let ?t = "drop (len b) (buf b)"
  have "length (contents b) = len b" using assms(1) by (rule length_contents)
  then have l: "length p + length bs + length s = len b" using assms by simp
  have "buf b = contents b @ ?t" by (simp add: contents_def)
  then have bf: "buf b = (p @ q @ s) @ ?t" using assms(2) by simp
  have "buf (store b (length p) bs) = (p @ bs @ s) @ ?t" "\<not> fault (store b (length p) bs)"
  proof -
    have fits: "length p + length bs \<le> length (buf b)" using l assms(1) by (simp add: buf_ok_def)
    have "take (length p) (buf b) = p" "drop (length p + length bs) (buf b) = s @ ?t"
      using assms(3) by (subst bf, simp)+
    then show "buf (store b (length p) bs) = (p @ bs @ s) @ ?t" using fits by (simp add: store_def)
    show "\<not> fault (store b (length p) bs)" using fits assms(1) by (simp add: store_def buf_ok_def)
  qed
  moreover have "len (store b off x) = len b" "cap (store b off x) = cap b"
    "error (store b off x) = error b" "can_resize (store b off x) = can_resize b" for off x
    by (simp_all add: store_def)
  ultimately show ?thesis using assms(1) l by (auto simp: becomes_def buf_ok_def contents_def)
qed

lemma be_bytes_Suc: "be_bytes (Suc k) v = be_bytes k (v div 256) @ [word_of_nat v]"
proof -
  have "(word_of_nat (v mod 256) :: byte) = word_of_nat v"
    by (intro word_unat_eq_iff [THEN iffD2]) (simp add: unsigned_of_nat take_bit_eq_mod)
  then show ?thesis by (simp add: be_bytes_def)
qed

lemma put_be_ok:
  assumes "buf_ok b" "contents b = p @ q @ s" "length q = k" "put_be b (length p) k v = (b', v')"
  shows "becomes b (p @ be_bytes k v @ s) b' \<and> v' = v div 256 ^ k"
  using assms
proof (induction k arbitrary: b q s v)
  case 0
  then show ?case using becomes_refl [of b] by (auto simp: be_bytes_def)
next
  case (Suc k)
  let ?b = "store b (length p + k) [word_of_nat v]"
  obtain q' x where q: "q = q' @ [x]" "length q' = k"
    using Suc.prems(3) by (cases q rule: rev_cases) auto
  have b: "becomes b (p @ q' @ [word_of_nat v] @ s) ?b"
    using store_ok [OF Suc.prems(1), of "p @ q'" "[x]" s "[word_of_nat v]"] Suc.prems(2) q by simp
  have "becomes ?b (p @ be_bytes k (v div 256) @ [word_of_nat v] @ s) b' \<and> v' = v div 256 div 256 ^ k"
    using b Suc.prems(4) q
    by (intro Suc.IH [of ?b q' "[word_of_nat v] @ s"]) (simp_all add: becomes_def)
  then show ?case using b becomes_trans by (auto simp: be_bytes_Suc div_mult2_eq)
qed

lemma append_ok:
  assumes "buf_ok b" "length data < size_mod" "append_bytes h data b = (r, b')"
  shows "if r then becomes b (contents b @ data) b' else failed b'"
proof (cases "cbb_buffer_add h b (length data)")
  case (Pair r1 b1)
  note add = add_ok [OF assms(1, 2) Pair]
  show ?thesis
  proof (cases r1)
    case False
    then show ?thesis using assms(3) Pair add by (auto simp: append_bytes_def)
  next
    case True
    then obtain j where j: "length j = length data" "becomes b (contents b @ j) b1" using add by auto
    have "becomes b1 (contents b @ data @ []) (store b1 (length (contents b)) data)"
      by (rule store_ok [where q = j]) (use j in \<open>auto simp: becomes_def\<close>)
    then have "becomes b (contents b @ data) (store b1 (len b) data)"
      using becomes_trans [OF j(2)] length_contents [OF assms(1)] by simp
    then show ?thesis using assms(3) Pair True by (auto simp: append_bytes_def)
  qed
qed

lemma append_room: "room h b (length data) \<Longrightarrow> buf_ok b \<Longrightarrow> fst (append_bytes h data b)"
  using add_room [of h b "length data"] by (auto simp: append_bytes_def split: prod.splits bool.splits)

lemma add_u_ok:
  assumes "buf_ok b" "k \<le> 8" "cbb_buffer_add_u h b v k = (r, b')"
  shows "if r then becomes b (contents b @ be_bytes k (unat v)) b' \<and> unat v < 256 ^ k \<or> k = 0 \<and> b' = b
    else failed b'"
proof (cases "k = 0")
  case True
  then show ?thesis using assms(3) by (simp add: cbb_buffer_add_u_def)
next
  case False
  have k: "k < size_mod" using assms(2) by (simp add: size_mod_def)
  show ?thesis
  proof (cases "cbb_buffer_add h b k")
    case (Pair r1 b1)
    note add = add_ok [OF assms(1) k Pair]
    show ?thesis
    proof (cases r1)
      case no: False
      then show ?thesis using assms(3) Pair add False by (auto simp: cbb_buffer_add_u_def)
    next
      case True
      then obtain j where j: "length j = k" "becomes b (contents b @ j) b1" using add by auto
      obtain b2 v2 where p: "put_be b1 (len b) k (unat v) = (b2, v2)" by (cases "put_be b1 (len b) k (unat v)")
      have "becomes b1 (contents b @ be_bytes k (unat v) @ []) b2 \<and> v2 = unat v div 256 ^ k"
        by (rule put_be_ok [where q = j])
          (use j p length_contents [OF assms(1)] in \<open>auto simp: becomes_def\<close>)
      then have b2: "becomes b (contents b @ be_bytes k (unat v)) b2" and v2: "v2 = unat v div 256 ^ k"
        using becomes_trans [OF j(2)] by auto
      have "v2 = 0 \<longleftrightarrow> unat v < 256 ^ k" unfolding v2 by (simp add: div_eq_0_iff)
      then show ?thesis
        using assms(3) Pair True False p b2
        by (auto simp: cbb_buffer_add_u_def failed_def becomes_def buf_ok_def split: if_splits)
    qed
  qed
qed

lemma add_u_room:
  assumes "buf_ok b" "k \<le> 8" "room h b k" "unat v < 256 ^ k"
  shows "fst (cbb_buffer_add_u h b v k)"
proof (cases "k = 0")
  case True
  then show ?thesis by (simp add: cbb_buffer_add_u_def)
next
  case False
  have k: "k < size_mod" using assms(2) by (simp add: size_mod_def)
  obtain b1 where b1: "cbb_buffer_add h b k = (True, b1)"
    using add_room [OF assms(3, 1)] by (cases "cbb_buffer_add h b k") simp
  obtain j where j: "length j = k" "becomes b (contents b @ j) b1"
    using add_ok [OF assms(1) k b1] by auto
  obtain b2 v2 where p: "put_be b1 (len b) k (unat v) = (b2, v2)" by (cases "put_be b1 (len b) k (unat v)")
  have "becomes b1 (contents b @ be_bytes k (unat v) @ []) b2 \<and> v2 = unat v div 256 ^ k"
    by (rule put_be_ok [where q = j])
      (use j p length_contents [OF assms(1)] in \<open>auto simp: becomes_def\<close>)
  then have "v2 = 0" using assms(4) by simp
  then show ?thesis using b1 p False by (simp add: cbb_buffer_add_u_def)
qed

section \<open>Lengths\<close>

text \<open>The bytes that the length \<open>n\<close> of a child is written as, unless it is too large.\<close>

definition length_prefix :: "cbb_child \<Rightarrow> nat \<Rightarrow> byte list option" where
  "length_prefix c n =
     (if pending_is_asn1 c then if n > 0xfffffffe then None else Some (der_length n)
      else if n < 256 ^ pending_len_len c then Some (be_bytes (pending_len_len c) n) else None)"

lemma asn1_len_form_ok:
  assumes "n \<le> 0xfffffffe" "asn1_len_form n = (ll, ib, n')"
  shows "ib # be_bytes (ll - 1) n' = der_length n" "n' div 256 ^ (ll - 1) = 0" "ll \<in> {1..5}"
    "ll \<noteq> 1 \<Longrightarrow> n' = n" "ll = 1 \<Longrightarrow> n \<le> 0x7f"
proof -
  have long: "word_of_nat (128 + Suc k) # be_bytes (Suc k) n = der_length n" if "128 \<le> n" "256 ^ k \<le> n" "n < 256 ^ Suc k" for k
    using be_bytes_eq_be_min [OF that(2, 3)] length_be_bytes [of "Suc k" n] that(1)
    by (simp add: der_length_def)
  consider (1) "n \<le> 0x7f" | (2) "0x7f < n" "n \<le> 0xff" | (3) "0xff < n" "n \<le> 0xffff"
    | (4) "0xffff < n" "n \<le> 0xffffff" | (5) "0xffffff < n" by linarith
  then show "ib # be_bytes (ll - 1) n' = der_length n"
  proof cases
    case 1
    then show ?thesis using assms by (auto simp: asn1_len_form_def der_length_def be_bytes_def)
  next
    case 2
    then show ?thesis using assms(2) long [of 0] by (auto simp: asn1_len_form_def)
  next
    case 3
    then show ?thesis using assms(2) long [of 1] by (auto simp: asn1_len_form_def numeral_2_eq_2 [symmetric])
  next
    case 4
    then show ?thesis using assms(2) long [of 2] by (auto simp: asn1_len_form_def)
  next
    case 5
    then show ?thesis using assms long [of 3] by (auto simp: asn1_len_form_def)
  qed
  show "n' div 256 ^ (ll - 1) = 0" "ll \<in> {1..5}" "ll \<noteq> 1 \<Longrightarrow> n' = n" "ll = 1 \<Longrightarrow> n \<le> 0x7f"
    using assms by (auto simp: asn1_len_form_def div_eq_0_iff split: if_splits)
qed

lemma put_length_ok:
  assumes "buf_ok b" "contents b = p @ q @ s" "length q = k" "put_length b (length p) k v = (r, b')"
  shows "(r \<longleftrightarrow> v div 256 ^ k = 0) \<and> (if r then becomes b (p @ be_bytes k v @ s) b' else failed b')"
proof (cases "put_be b (length p) k v")
  case (Pair b1 v1)
  show ?thesis
    using put_be_ok [OF assms(1-3) Pair] assms(4) Pair
    by (auto simp: put_length_def failed_def becomes_def buf_ok_def split: if_splits)
qed

lemma move_contents_ok:
  assumes "buf_ok b" "contents b = p @ [q] @ s" "ll \<in> {1..5}" "ll \<noteq> 1 \<Longrightarrow> n = length s"
    "move_contents h b (length p + 1) ll n = (r, b')"
  shows "if r then \<exists>q2. length q2 = ll - 1 \<and> becomes b (p @ [q] @ q2 @ s) b' else failed b'"
proof (cases "ll = 1")
  case True
  then show ?thesis using assms(2, 5) becomes_refl [OF assms(1)] by (auto simp: move_contents_def)
next
  case False
  have ll: "ll - 1 < size_mod" using assms(3) by (auto simp: size_mod_def)
  obtain r1 b1 where add: "cbb_buffer_add h b (ll - 1) = (r1, b1)" by (cases "cbb_buffer_add h b (ll - 1)")
  note ok = add_ok [OF assms(1) ll add]
  show ?thesis
  proof (cases r1)
    case no: False
    then show ?thesis using ok assms(5) False add by (auto simp: move_contents_def failed_def buf_ok_def)
  next
    case True
    then obtain j where j: "length j = ll - 1" "becomes b (contents b @ j) b1" using ok by auto
    then have c1: "contents b1 = (p @ [q]) @ (s @ j)" "buf_ok b1" using assms(2) by (simp_all add: becomes_def)
    have "take n (drop (length p + 1) (buf b1)) = s"
    proof -
      obtain t where "buf b1 = ((p @ [q]) @ s @ j) @ t"
        using c1(1) append_take_drop_id [of "len b1" "buf b1"] by (metis contents_def)
      then show ?thesis using assms(4) [OF False] by simp
    qed
    then have b': "r" "b' = store b1 (length p + 1 + (ll - 1)) s"
      using assms(5) add True False by (auto simp: move_contents_def Let_def)
    let ?x = "take (ll - 1) (s @ j)"
    have x: "length ?x = ll - 1" using j(1) by simp
    have "becomes b1 ((p @ [q] @ ?x) @ s @ []) (store b1 (length (p @ [q] @ ?x)) s)"
      by (rule store_ok [OF c1(2), where q = "drop (ll - 1) (s @ j)"]) (use c1 j(1) in \<open>simp_all del: take_append drop_append\<close>)
    then have "becomes b (p @ [q] @ ?x @ s) b'"
      using becomes_trans [OF j(2)] x b'(2) by (simp del: take_append length_take)
    with b'(1) x show ?thesis by (simp only: if_True) blast
  qed
qed

text \<open>\<open>write_length\<close> puts the length in front of the contents, moving them when it needs more room.\<close>

lemma write_length_ok:
  assumes "buf_ok b" "contents b = p @ q @ s" "length p = offset c" "length q = pending_len_len c"
    "pending_is_asn1 c \<Longrightarrow> pending_len_len c = 1" "write_length h b c (length p + length q) = (r, b')"
  shows "if r then \<exists>x. length_prefix c (length s) = Some x \<and> becomes b (p @ x @ s) b' else failed b'"
proof -
  have n: "len b - (length p + length q) = length s"
    using length_contents [OF assms(1)] assms(2) by simp
  note run = assms(6) [unfolded write_length_def n Let_def]
  show ?thesis
  proof (cases "pending_is_asn1 c")
    case False
    then have "put_length b (length p) (length q) (length s) = (r, b')" using run assms(3, 4) by simp
    from put_length_ok [OF assms(1, 2) refl this] show ?thesis
      using False assms(4) by (auto simp: length_prefix_def div_eq_0_iff)
  next
    case asn1: True
    then obtain q1 where q: "q = [q1]" using assms(4, 5) by (auto simp: length_Suc_conv)
    show ?thesis
    proof (cases "length s > 0xfffffffe")
      case True
      then show ?thesis using asn1 assms(1) run by (auto simp: failed_def buf_ok_def)
    next
      case False
      then have le: "length s \<le> 0xfffffffe" by simp
      obtain ll ib n' where form: "asn1_len_form (length s) = (ll, ib, n')" by (cases "asn1_len_form (length s)")
      note f = asn1_len_form_ok [OF le form]
      obtain r1 b1 where moved: "move_contents h b (length p + 1) ll n' = (r1, b1)"
        by (cases "move_contents h b (length p + 1) ll n'")
      note m = move_contents_ok [OF assms(1) assms(2) [unfolded q] f(3, 4) moved]
      have rest: "if r1 then put_length (store b1 (length p) [ib]) (length (p @ [ib])) (ll - 1) n' = (r, b')
        else r = False \<and> b' = b1"
        using run asn1 False form moved q assms(3) by (auto split: bool.splits)
      show ?thesis
      proof (cases r1)
        case False
        then show ?thesis using rest m by simp
      next
        case True
        then obtain q2 where b1: "length q2 = ll - 1" "becomes b (p @ [q1] @ q2 @ s) b1" using m by auto
        let ?b2 = "store b1 (length p) [ib]"
        have b2: "becomes b1 (p @ [ib] @ q2 @ s) ?b2"
          by (rule store_ok [where q = "[q1]"]) (use b1 in \<open>auto simp: becomes_def\<close>)
        then have c2: "buf_ok ?b2" "contents ?b2 = (p @ [ib]) @ q2 @ s" by (simp_all add: becomes_def)
        have "put_length ?b2 (length (p @ [ib])) (ll - 1) n' = (r, b')" using rest True by simp
        from put_length_ok [OF c2 b1(1) this]
        have "r \<and> becomes ?b2 (p @ der_length (length s) @ s) b'"
          using f(2) by (auto simp: f(1) [symmetric])
        then show ?thesis
          using asn1 le becomes_trans [OF b1(2) becomes_trans [OF b2]] by (auto simp: length_prefix_def)
      qed
    qed
  qed
qed

lemma length_der_length_form:
  "n \<le> 0xfffffffe \<Longrightarrow> asn1_len_form n = (ll, ib, n') \<Longrightarrow> length (der_length n) = ll"
  using asn1_len_form_ok(1, 3) [of n ll ib n'] by (auto dest: arg_cong [of _ _ length])

lemma write_length_room:
  assumes "buf_ok b" "contents b = p @ q @ s" "length p = offset c" "length q = pending_len_len c"
    "pending_is_asn1 c \<Longrightarrow> pending_len_len c = 1" "length_prefix c (length s) = Some x"
    "room h b (length x - length q)"
  shows "fst (write_length h b c (length p + length q))"
proof -
  have n: "len b - (length p + length q) = length s"
    using length_contents [OF assms(1)] assms(2) by simp
  show ?thesis
  proof (cases "pending_is_asn1 c")
    case False
    obtain r b' where put: "put_length b (length p) (length q) (length s) = (r, b')"
      by (cases "put_length b (length p) (length q) (length s)")
    then have r using put_length_ok [OF assms(1, 2) refl put] assms(4, 6) False
      by (auto simp: length_prefix_def div_eq_0_iff split: if_splits)
    then show ?thesis using put False n assms(3, 4) by (simp add: write_length_def)
  next
    case True
    then obtain q1 where q: "q = [q1]" using assms(4, 5) by (auto simp: length_Suc_conv)
    have le: "length s \<le> 0xfffffffe" and x: "x = der_length (length s)"
      using assms(6) True by (auto simp: length_prefix_def split: if_splits)
    obtain ll ib n' where form: "asn1_len_form (length s) = (ll, ib, n')" by (cases "asn1_len_form (length s)")
    note f = asn1_len_form_ok [OF le form]
    have "room h b (ll - 1)" using assms(7) x q length_der_length_form [OF le form] by simp
    then have "fst (move_contents h b (length p + 1) ll n')"
      using add_room [OF _ assms(1), of h "ll - 1"]
      by (cases "cbb_buffer_add h b (ll - 1)") (auto simp: move_contents_def Let_def)
    then obtain b1 where moved: "move_contents h b (length p + 1) ll n' = (True, b1)"
      by (cases "move_contents h b (length p + 1) ll n'") simp
    then obtain q2 where b1: "length q2 = ll - 1" "becomes b (p @ [q1] @ q2 @ s) b1"
      using move_contents_ok [OF assms(1) assms(2) [unfolded q] f(3, 4) moved] by auto
    let ?b2 = "store b1 (length p) [ib]"
    have "becomes b1 (p @ [ib] @ q2 @ s) ?b2"
      by (rule store_ok [where q = "[q1]"]) (use b1 in \<open>auto simp: becomes_def\<close>)
    then have c2: "buf_ok ?b2" "contents ?b2 = (p @ [ib]) @ q2 @ s" by (simp_all add: becomes_def)
    obtain r b' where put: "put_length ?b2 (length (p @ [ib])) (ll - 1) n' = (r, b')"
      by (cases "put_length ?b2 (length (p @ [ib])) (ll - 1) n'")
    then have r using put_length_ok [OF c2 b1(1) put] f(2) by simp
    then show ?thesis using True le form moved put n q assms(3) by (simp add: write_length_def)
  qed
qed

section \<open>The chain of children\<close>

text \<open>
  The prefixes of the open children lie one after the other in the contents, from \<open>lo\<close> on.
\<close>

fun chain_ok :: "nat \<Rightarrow> nat \<Rightarrow> cbb_child list \<Rightarrow> bool" where
  "chain_ok lo n [] \<longleftrightarrow> lo \<le> n"
| "chain_ok lo n (c # cs) \<longleftrightarrow>
     lo \<le> offset c \<and> 0 < pending_len_len c \<and> (pending_is_asn1 c \<longrightarrow> pending_len_len c = 1) \<and>
     chain_ok (offset c + pending_len_len c) n cs"

text \<open>The bytes from \<open>lo\<close> on once the lengths are filled in.\<close>

fun denote :: "byte list \<Rightarrow> nat \<Rightarrow> cbb_child list \<Rightarrow> byte list option" where
  "denote d lo [] = Some (drop lo d)"
| "denote d lo (c # cs) =
     (case denote d (offset c + pending_len_len c) cs of
        None \<Rightarrow> None
      | Some inner \<Rightarrow>
          map_option (\<lambda>x. take (offset c - lo) (drop lo d) @ x @ inner) (length_prefix c (length inner)))"

lemma chain_ok_le: "chain_ok lo n cs \<Longrightarrow> lo \<le> n"
proof (induction cs arbitrary: lo)
  case (Cons c cs)
  then have "offset c + pending_len_len c \<le> n" by simp
  with Cons.prems show ?case by simp
qed simp

lemma flush_chain_ok:
  assumes "flush_chain h b cs = (r, b', cs')" "buf_ok b" "\<not> error b" "chain_ok lo (len b) cs"
  shows "if r then cs' = [] \<and> (\<exists>out. denote (contents b) lo cs = Some out \<and> becomes b (take lo (contents b) @ out) b')
    else failed b'"
  using assms(1, 4)
proof (induction cs arbitrary: lo r b' cs')
  case Nil
  then show ?case using assms(2, 3) becomes_refl by auto
next
  case (Cons c cs)
  let ?lo = "offset c + pending_len_len c" and ?d = "contents b"
  have c: "lo \<le> offset c" "0 < pending_len_len c" "pending_is_asn1 c \<Longrightarrow> pending_len_len c = 1"
    "chain_ok ?lo (len b) cs" using Cons.prems(2) by auto
  have lo: "?lo \<le> len b" using chain_ok_le [OF c(4)] .
  then have "?lo < size_mod" using assms(2) by (simp add: buf_ok_def)
  then have mod: "?lo mod size_mod = ?lo" by simp
  obtain r1 b1 cs1 where inner: "flush_chain h b cs = (r1, b1, cs1)" by (cases "flush_chain h b cs")
  note ih = Cons.IH [OF inner c(4)]
  show ?case
  proof (cases r1)
    case False
    then show ?thesis using Cons.prems(1) inner ih assms(3) c(2)
      by (auto simp: failed_def buf_ok_def Let_def)
  next
    case True
    then obtain inn where inn: "denote ?d ?lo cs = Some inn" "becomes b (take ?lo ?d @ inn) b1" using ih by auto
    let ?p = "take (offset c) ?d" and ?q = "take (pending_len_len c) (drop (offset c) ?d)"
    have pq: "take ?lo ?d = ?p @ ?q" by (rule take_add)
    have ld: "length ?d = len b" using assms(2) by (rule length_contents)
    have b1: "buf_ok b1" "contents b1 = ?p @ ?q @ inn" "len b1 = ?lo + length inn"
      using inn(2) pq becomes_len [OF inn(2)] ld lo by (simp_all add: becomes_def)
    have pl: "length ?p = offset c" "length ?q = pending_len_len c" using ld lo by simp_all
    obtain r2 b2 where w: "write_length h b1 c (length ?p + length ?q) = (r2, b2)"
      by (cases "write_length h b1 c (length ?p + length ?q)")
    note ok = write_length_ok [OF b1(1, 2) pl c(3) w]
    have res: "r = r2 \<and> b' = b2 \<and> (r \<longrightarrow> cs' = [])"
      using Cons.prems(1) inner True mod w pl b1(3) c(2) assms(3) by (auto simp: Let_def split: bool.splits)
    have "take lo ?d @ take (offset c - lo) (drop lo ?d) = ?p"
      using c(1) take_add [of lo "offset c - lo" ?d] by simp
    then show ?thesis using ok res inn becomes_trans [OF inn(2)] by (auto simp flip: append_assoc)
  qed
qed

lemma length_prefix_ge:
  "length_prefix c n = Some x \<Longrightarrow> (pending_is_asn1 c \<longrightarrow> pending_len_len c = 1) \<Longrightarrow> pending_len_len c \<le> length x"
  by (auto simp: length_prefix_def der_length_def split: if_splits)

text \<open>With memory for the finished bytes the flush succeeds.\<close>

lemma flush_chain_room:
  assumes "buf_ok b" "\<not> error b" "can_resize b" "\<forall>k. can_alloc h k" "chain_ok lo (len b) cs"
    "denote (contents b) lo cs = Some out" "lo + length out < size_mod"
  shows "fst (flush_chain h b cs)"
  using assms(5-7)
proof (induction cs arbitrary: lo out)
  case Nil
  then show ?case using assms(2) by simp
next
  case (Cons c cs)
  let ?lo = "offset c + pending_len_len c" and ?d = "contents b"
  have c: "lo \<le> offset c" "0 < pending_len_len c" "pending_is_asn1 c \<longrightarrow> pending_len_len c = 1"
    "chain_ok ?lo (len b) cs" using Cons.prems(1) by auto
  have lo: "?lo \<le> len b" using chain_ok_le [OF c(4)] .
  have ld: "length ?d = len b" using assms(1) by (rule length_contents)
  obtain inn x where inn: "denote ?d ?lo cs = Some inn" "length_prefix c (length inn) = Some x"
    "out = take (offset c - lo) (drop lo ?d) @ x @ inn"
    using Cons.prems(2) by (auto split: option.splits)
  have total: "lo + length out = offset c + length x + length inn" using inn(3) c(1) lo ld by simp
  have x: "pending_len_len c \<le> length x" using length_prefix_ge [OF inn(2) c(3)] .
  then have "?lo + length inn < size_mod" using total Cons.prems(3) by simp
  then obtain b1 cs1 where fl: "flush_chain h b cs = (True, b1, cs1)"
    using Cons.IH [OF c(4) inn(1)] by (cases "flush_chain h b cs") auto
  then have b1: "becomes b (take ?lo ?d @ inn) b1"
    using flush_chain_ok [OF fl assms(1, 2) c(4)] inn(1) by auto
  let ?p = "take (offset c) ?d" and ?q = "take (pending_len_len c) (drop (offset c) ?d)"
  have pq: "take ?lo ?d = ?p @ ?q" by (rule take_add)
  have pl: "length ?p = offset c" "length ?q = pending_len_len c" using ld lo by simp_all
  have l1: "len b1 = ?lo + length inn" using becomes_len [OF b1] pq pl by simp
  have b1': "buf_ok b1" "contents b1 = ?p @ ?q @ inn" "can_resize b1"
    using b1 pq assms(3) by (simp_all add: becomes_def)
  have "room h b1 (length x - length ?q)"
    using total Cons.prems(3) assms(4) b1'(3) l1 pl x by (simp add: room_def)
  then have "fst (write_length h b1 c (length ?p + length ?q))"
    using c(3) by (intro write_length_room [OF b1'(1, 2) pl _ inn(2)]) simp_all
  moreover have "?lo mod size_mod = ?lo" using lo assms(1) by (simp add: buf_ok_def)
  ultimately show ?case using fl assms(2) c(2) l1 pl
    by (cases "write_length h b1 c ?lo") (simp add: Let_def)
qed

end
