(* ===== verification/Cbb_Build.thy ===== *)
theory Cbb_Build
  imports Cbb_Flush
begin

unbundle bit_operations_syntax

text \<open>
  Correctness of the builder.  \<open>cbb_ok\<close> is its invariant and \<open>settled d s c\<close> says that the \<open>CBB\<close> at
  depth \<open>d\<close> is open, has no open child, and that the bytes written so far are \<open>c\<close>.  The locale
  \<open>appender\<close> is the contract of the operations that append the encoding of a value; together with
  \<open>prefix_codec\<close> it gives the round trip from the builder to the parser.
\<close>

section \<open>States\<close>

fun chain_end :: "nat \<Rightarrow> cbb_child list \<Rightarrow> nat" where
  "chain_end lo [] = lo"
| "chain_end lo (c # cs) = chain_end (offset c + pending_len_len c) cs"

lemma chain_ok_append:
  "chain_ok lo n (xs @ ys) \<longleftrightarrow> chain_ok lo (chain_end lo xs) xs \<and> chain_ok (chain_end lo xs) n ys"
  by (induction xs arbitrary: lo) auto

lemma chain_ok_iff: "chain_ok lo n cs \<longleftrightarrow> chain_ok lo (chain_end lo cs) cs \<and> chain_end lo cs \<le> n"
  using chain_ok_append [of lo n cs "[]"] by simp

lemma chain_end_snoc [simp]: "chain_end lo (cs @ [c]) = offset c + pending_len_len c"
  by (induction cs arbitrary: lo) auto

definition cbb_ok :: "CBB \<Rightarrow> bool" where
  "cbb_ok s \<longleftrightarrow>
     (case base s of None \<Rightarrow> True
      | Some b \<Rightarrow> buf_ok b \<and> (\<not> error b \<longrightarrow> chain_ok 0 (len b) (children s)))"

definition settled :: "nat \<Rightarrow> CBB \<Rightarrow> byte list \<Rightarrow> bool" where
  "settled d s c \<longleftrightarrow>
     length (children s) = d \<and>
     (case base s of None \<Rightarrow> False
      | Some b \<Rightarrow> buf_ok b \<and> \<not> error b \<and> contents b = c \<and> chain_ok 0 (len b) (children s))"

text \<open>The bytes that stand in the buffer once \<open>d\<close> is flushed.\<close>

definition flushed :: "nat \<Rightarrow> CBB \<Rightarrow> byte list option" where
  "flushed d s =
     (case base s of None \<Rightarrow> None
      | Some b \<Rightarrow>
          if error b \<or> d > length (children s) then None
          else let lo = chain_end 0 (take d (children s))
               in map_option ((@) (take lo (contents b))) (denote (contents b) lo (drop d (children s))))"

text \<open>The block may be moved to a larger one, and the heap has one.\<close>

definition grows :: "heap_env \<Rightarrow> CBB \<Rightarrow> bool" where
  "grows h s \<longleftrightarrow> (case base s of None \<Rightarrow> False | Some b \<Rightarrow> can_resize b) \<and> (\<forall>k. can_alloc h k)"

lemma settled_ok: "settled d s c \<Longrightarrow> cbb_ok s"
  by (auto simp: settled_def cbb_ok_def split: option.splits)

lemma settled_length: "settled d s c \<Longrightarrow> base_len s = length c"
  using length_contents by (auto simp: settled_def base_len_def split: option.splits)

lemma settled_unique: "settled d s c \<Longrightarrow> settled d s c' \<Longrightarrow> c = c'"
  by (auto simp: settled_def split: option.splits)

lemma settled_depth: "settled d s c \<Longrightarrow> length (children s) = d"
  by (simp add: settled_def)

lemma settled_flushed: "settled d s c \<Longrightarrow> flushed d s = Some c"
  using length_contents by (auto simp: settled_def flushed_def Let_def split: option.splits)

lemma flush_settled: "settled d s c \<Longrightarrow> CBB_flush h d s = (True, s)"
  by (cases s) (auto simp: settled_def CBB_flush_def split: option.splits)

lemma failed_ok: "failed b \<Longrightarrow> cbb_ok \<lparr>base = Some b, children = cs\<rparr>"
  by (simp add: failed_def cbb_ok_def)

text \<open>Flushing.\<close>

lemma flush_ok:
  assumes "cbb_ok s" "CBB_flush h d s = (r, s')"
  shows "cbb_ok s'"
    and "r \<Longrightarrow> \<exists>c. flushed d s = Some c \<and> settled d s' c \<and> children s' = take d (children s) \<and> grows h s' = grows h s"
proof -
  have "cbb_ok s' \<and> (r \<longrightarrow> (\<exists>c. flushed d s = Some c \<and> settled d s' c \<and> children s' = take d (children s)
    \<and> grows h s' = grows h s))"
  proof (cases "base s")
    case None
    then show ?thesis using assms by (auto simp: CBB_flush_def)
  next
    case (Some b)
    show ?thesis
    proof (cases "d > length (children s)")
      case True
      then show ?thesis using assms Some by (auto simp: CBB_flush_def)
    next
      case d: False
      show ?thesis
      proof (cases "error b")
        case True
        then show ?thesis using assms Some d
          by (cases "drop d (children s)") (auto simp: CBB_flush_def cbb_ok_def)
      next
        case False
        let ?cs = "children s" and ?lo = "chain_end 0 (take d (children s))"
        obtain b' cs' where run: "flush_chain h b (drop d ?cs) = (r, b', cs')"
          "s' = \<lparr>base = Some b', children = take d ?cs @ cs'\<rparr>"
          using assms(2) Some d by (auto simp: CBB_flush_def split: prod.splits)
        have ok: "buf_ok b" "chain_ok 0 (len b) ?cs" using assms(1) Some False by (simp_all add: cbb_ok_def)
        then have chain: "chain_ok 0 ?lo (take d ?cs)" "chain_ok ?lo (len b) (drop d ?cs)"
          using chain_ok_append [of 0 "len b" "take d ?cs" "drop d ?cs"] by simp_all
        note fl = flush_chain_ok [OF run(1) ok(1) False chain(2)]
        show ?thesis
        proof (cases r)
          case no: False
          then show ?thesis using fl run(2) failed_ok by simp
        next
          case True
          then obtain out where out: "cs' = []" "denote (contents b) ?lo (drop d ?cs) = Some out"
            "becomes b (take ?lo (contents b) @ out) b'" using fl by auto
          have "?lo \<le> len b" using chain_ok_le [OF chain(2)] .
          then have "?lo \<le> len b'" using becomes_len [OF out(3)] length_contents [OF ok(1)] by simp
          then have "chain_ok 0 (len b') (take d ?cs)" using chain(1) chain_ok_iff by blast
          then have "settled d s' (take ?lo (contents b) @ out)"
            using out(1, 3) run(2) d False by (simp add: settled_def becomes_def)
          moreover have "flushed d s = Some (take ?lo (contents b) @ out)"
            using Some False d out(2) by (simp add: flushed_def Let_def)
          moreover have "grows h s' = grows h s" using Some run(2) out(3) by (simp add: grows_def becomes_def)
          ultimately show ?thesis using run(2) out(1) settled_ok by auto
        qed
      qed
    qed
  qed
  then show "cbb_ok s'" "r \<Longrightarrow> \<exists>c. flushed d s = Some c \<and> settled d s' c \<and> children s' = take d (children s)
    \<and> grows h s' = grows h s" by simp_all
qed

lemma flush_room:
  assumes "cbb_ok s" "flushed d s = Some c" "grows h s" "length c < size_mod"
  shows "fst (CBB_flush h d s)"
proof -
  let ?cs = "children s" and ?lo = "chain_end 0 (take d (children s))"
  obtain b where b: "base s = Some b" "\<not> error b" "d \<le> length ?cs" "buf_ok b" "can_resize b" "\<forall>k. can_alloc h k"
    "chain_ok 0 (len b) ?cs"
    using assms(1-3) by (auto simp: flushed_def cbb_ok_def grows_def split: option.splits if_splits)
  obtain out where out: "denote (contents b) ?lo (drop d ?cs) = Some out" "c = take ?lo (contents b) @ out"
    using assms(2) b by (auto simp: flushed_def Let_def)
  have chain: "chain_ok ?lo (len b) (drop d ?cs)"
    using b(7) chain_ok_append [of 0 "len b" "take d ?cs" "drop d ?cs"] by simp
  have "?lo + length out < size_mod"
    using out(2) assms(4) chain_ok_le [OF chain] length_contents [OF b(4)] by simp
  then have "fst (flush_chain h b (drop d ?cs))"
    using flush_chain_room [OF b(4, 2, 5, 6) chain out(1)] by simp
  then show ?thesis using b(1, 3) by (cases "flush_chain h b (drop d ?cs)") (simp add: CBB_flush_def)
qed

section \<open>Operations that append\<close>

text \<open>\<open>f\<close> appends \<open>w\<close> to a sound buffer, or fails.\<close>

definition extends :: "byte list \<Rightarrow> (cbb_buffer \<Rightarrow> bool \<times> cbb_buffer) \<Rightarrow> bool" where
  "extends w f \<longleftrightarrow>
     (\<forall>b r b'. buf_ok b \<longrightarrow> f b = (r, b') \<longrightarrow> (if r then becomes b (contents b @ w) b' else failed b'))"

lemma on_buffer_ok:
  assumes "settled d s c" "extends w f" "on_buffer s f = (r, s')"
  shows "cbb_ok s'"
    and "r \<Longrightarrow> settled d s' (c @ w) \<and> children s' = children s \<and> grows h s' = grows h s"
proof -
  obtain b where b: "base s = Some b" "buf_ok b" "\<not> error b" "contents b = c" "chain_ok 0 (len b) (children s)"
    "length (children s) = d" using assms(1) by (auto simp: settled_def split: option.splits)
  obtain r1 b' where f: "f b = (r1, b')" by (cases "f b")
  then have r: "r1 = r" "s' = s\<lparr>base := Some b'\<rparr>" using assms(3) b(1) by (auto simp: on_buffer_def)
  have ext: "if r then becomes b (c @ w) b' else failed b'"
    using assms(2) b(2, 4) f r(1) unfolding extends_def by blast
  have yes: "settled d s' (c @ w) \<and> children s' = children s \<and> grows h s' = grows h s" if r
  proof -
    have bc: "becomes b (c @ w) b'" using ext \<open>r\<close> by simp
    have "len b \<le> len b'" using becomes_len [OF bc] length_contents [OF b(2)] b(4) by simp
    then have "chain_ok 0 (len b') (children s)" using b(5) chain_ok_iff by (metis order_trans)
    then show ?thesis using bc b r(2) by (simp add: settled_def becomes_def grows_def)
  qed
  then show "r \<Longrightarrow> settled d s' (c @ w) \<and> children s' = children s \<and> grows h s' = grows h s" by simp
  show "cbb_ok s'"
  proof (cases r)
    case True
    then show ?thesis using yes settled_ok by blast
  next
    case False
    then show ?thesis using ext r(2) by (simp add: cbb_ok_def failed_def)
  qed
qed

text \<open>What an operation at depth \<open>d\<close> that appends \<open>w\<close> leaves.\<close>

definition appended :: "heap_env \<Rightarrow> nat \<Rightarrow> CBB \<Rightarrow> byte list \<Rightarrow> CBB \<Rightarrow> bool" where
  "appended h d s w s' \<longleftrightarrow>
     (\<exists>c. flushed d s = Some c \<and> settled d s' (c @ w) \<and> children s' = take d (children s) \<and> grows h s' = grows h s)"

lemma appended_ok: "appended h d s w s' \<Longrightarrow> cbb_ok s'"
  by (auto simp: appended_def settled_ok)

lemma flush_appended:
  "cbb_ok s \<Longrightarrow> CBB_flush h d s = (True, s') \<Longrightarrow> appended h d s [] s'"
  using flush_ok [of s h d True s'] by (auto simp: appended_def)

lemma appended_trans: "appended h d s w s' \<Longrightarrow> appended h d s' w' s'' \<Longrightarrow> appended h d s (w @ w') s''"
proof -
  assume "appended h d s w s'" "appended h d s' w' s''"
  then obtain c where "flushed d s = Some c" "settled d s' (c @ w)" "children s' = take d (children s)"
    "grows h s' = grows h s" "settled d s'' ((c @ w) @ w')" "children s'' = take d (children s')"
    "grows h s'' = grows h s'"
    using settled_flushed by (fastforce simp: appended_def)
  then show ?thesis by (auto simp: appended_def)
qed

lemma appended_settled: "appended h d s w s' \<Longrightarrow> settled d s c \<Longrightarrow>
  settled d s' (c @ w) \<and> children s' = children s \<and> grows h s' = grows h s"
  using settled_flushed [of d s c] settled_depth [of d s c] by (auto simp: appended_def)

lemma with_buffer_ok:
  assumes "cbb_ok s" "extends w f" "with_buffer h d s f = (r, s')"
  shows "cbb_ok s'" and "r \<Longrightarrow> appended h d s w s'"
proof -
  obtain r1 s1 where fl: "CBB_flush h d s = (r1, s1)" by (cases "CBB_flush h d s")
  have "cbb_ok s' \<and> (r \<longrightarrow> appended h d s w s')"
  proof (cases r1)
    case False
    then show ?thesis using assms(3) fl flush_ok(1) [OF assms(1) fl] by (auto simp: with_buffer_def)
  next
    case True
    then have app: "appended h d s [] s1" using flush_appended [OF assms(1)] fl by simp
    then obtain c where c: "flushed d s = Some c" "settled d s1 c" by (auto simp: appended_def)
    have run: "on_buffer s1 f = (r, s')" using assms(3) fl True by (simp add: with_buffer_def)
    note ok = on_buffer_ok [OF c(2) assms(2) run]
    have "appended h d s1 w s'" if r
      using ok(2) [OF that, where h = h] c(2) settled_flushed [OF c(2)] settled_depth [OF c(2)]
      by (auto simp: appended_def)
    then show ?thesis using ok(1) appended_trans [OF app] by auto
  qed
  then show "cbb_ok s'" "r \<Longrightarrow> appended h d s w s'" by simp_all
qed

text \<open>The values of a list, one after the other, up to the first failure.\<close>

fun add_all :: "(heap_env \<Rightarrow> nat \<Rightarrow> CBB \<Rightarrow> 'v \<Rightarrow> bool \<times> CBB) \<Rightarrow> heap_env \<Rightarrow> nat \<Rightarrow> CBB \<Rightarrow> 'v list \<Rightarrow> bool \<times> CBB" where
  "add_all op h d s [] = (True, s)"
| "add_all op h d s (v # vs) =
     (case op h d s v of (False, s') \<Rightarrow> (False, s') | (True, s') \<Rightarrow> add_all op h d s' vs)"

text \<open>
  A filler appends \<open>enc v\<close> to a \<open>CBB\<close> that has no open child; an appender also flushes one.
\<close>

locale filler =
  fixes op :: "heap_env \<Rightarrow> nat \<Rightarrow> CBB \<Rightarrow> 'v \<Rightarrow> bool \<times> CBB"
    and enc :: "'v \<Rightarrow> byte list"
    and pre :: "'v \<Rightarrow> bool"
    and fits :: "'v \<Rightarrow> bool"
  assumes fill_keeps: "settled d s c \<Longrightarrow> pre v \<Longrightarrow> op h d s v = (r, s') \<Longrightarrow> cbb_ok s'"
    and fill_appends: "settled d s c \<Longrightarrow> pre v \<Longrightarrow> op h d s v = (True, s') \<Longrightarrow>
      fits v \<and> settled d s' (c @ enc v) \<and> children s' = children s \<and> grows h s' = grows h s"
    and fill_succeeds: "settled d s c \<Longrightarrow> pre v \<Longrightarrow> fits v \<Longrightarrow> grows h s \<Longrightarrow> length (c @ enc v) < size_mod \<Longrightarrow>
      fst (op h d s v)"
begin

lemma run:
  assumes "settled d s c" "pre v" "fits v" "grows h s" "length (c @ enc v) < size_mod"
  shows "\<exists>s'. op h d s v = (True, s') \<and> settled d s' (c @ enc v) \<and> children s' = children s \<and> grows h s'"
proof -
  obtain s' where s': "op h d s v = (True, s')" using fill_succeeds [OF assms] by (cases "op h d s v") simp
  then show ?thesis using fill_appends [OF assms(1, 2) s'] assms(4) by auto
qed

end

locale appender =
  fixes op :: "heap_env \<Rightarrow> nat \<Rightarrow> CBB \<Rightarrow> 'v \<Rightarrow> bool \<times> CBB"
    and enc :: "'v \<Rightarrow> byte list"
    and pre :: "'v \<Rightarrow> bool"
    and fits :: "'v \<Rightarrow> bool"
  assumes keeps: "cbb_ok s \<Longrightarrow> pre v \<Longrightarrow> op h d s v = (r, s') \<Longrightarrow> cbb_ok s'"
    and appends: "cbb_ok s \<Longrightarrow> pre v \<Longrightarrow> op h d s v = (True, s') \<Longrightarrow> fits v \<and> appended h d s (enc v) s'"
    and succeeds: "settled d s c \<Longrightarrow> pre v \<Longrightarrow> fits v \<Longrightarrow> grows h s \<Longrightarrow> length (c @ enc v) < size_mod \<Longrightarrow>
      fst (op h d s v)"

sublocale appender \<subseteq> filler
proof
  show "cbb_ok s'" if "settled d s c" "pre v" "op h d s v = (r, s')" for d s c v h r s'
    using keeps settled_ok that by blast
  show "fits v \<and> settled d s' (c @ enc v) \<and> children s' = children s \<and> grows h s' = grows h s"
    if "settled d s c" "pre v" "op h d s v = (True, s')" for d s c v h s'
    using appends [OF settled_ok [OF that(1)] that(2, 3)] appended_settled [OF _ that(1)] by blast
qed (rule succeeds)

text \<open>A list of values fills by filling with one after the other.\<close>

context filler
begin

lemma all_keeps: "settled d s c \<Longrightarrow> list_all pre vs \<Longrightarrow> add_all op h d s vs = (r, s') \<Longrightarrow> cbb_ok s'"
proof (induction vs arbitrary: s c)
  case (Cons v vs)
  obtain r1 s1 where op: "op h d s v = (r1, s1)" by (cases "op h d s v")
  show ?case
  proof (cases r1)
    case True
    then have "settled d s1 (c @ enc v)" using fill_appends [OF Cons.prems(1)] Cons.prems(2) op by simp
    then show ?thesis using Cons op True by auto
  next
    case False
    then show ?thesis using fill_keeps [OF Cons.prems(1)] Cons.prems op by auto
  qed
qed (simp add: settled_ok)

lemma all_appends:
  "settled d s c \<Longrightarrow> list_all pre vs \<Longrightarrow> add_all op h d s vs = (True, s') \<Longrightarrow>
   list_all fits vs \<and> settled d s' (c @ concat (map enc vs)) \<and> children s' = children s \<and> grows h s' = grows h s"
proof (induction vs arbitrary: s c)
  case (Cons v vs)
  obtain s1 where op: "op h d s v = (True, s1)" "add_all op h d s1 vs = (True, s')"
    using Cons.prems(3) by (auto split: prod.splits bool.splits)
  then have "fits v" "settled d s1 (c @ enc v)" "children s1 = children s" "grows h s1 = grows h s"
    using fill_appends [OF Cons.prems(1) _ op(1)] Cons.prems(2) by auto
  with Cons.IH [of s1 "c @ enc v"] Cons.prems(2) op(2) show ?case by auto
qed simp

lemma all_succeeds:
  "settled d s c \<Longrightarrow> list_all pre vs \<Longrightarrow> list_all fits vs \<Longrightarrow> grows h s \<Longrightarrow>
   length (c @ concat (map enc vs)) < size_mod \<Longrightarrow> fst (add_all op h d s vs)"
proof (induction vs arbitrary: s c)
  case (Cons v vs)
  obtain s1 where "op h d s v = (True, s1)" "settled d s1 (c @ enc v)" "grows h s1"
    using run [of d s c v h] Cons.prems by auto
  with Cons.IH [of s1 "c @ enc v"] Cons.prems show ?case by simp
qed simp

lemma all_filler: "filler (add_all op) (\<lambda>vs. concat (map enc vs)) (list_all pre) (list_all fits)"
  by unfold_locales (use all_keeps all_appends all_succeeds in blast)+

end

lemma appender_cong:
  assumes "appender op enc pre fits" "\<And>v. fits v \<longleftrightarrow> fits' v" "\<And>v. fits' v \<Longrightarrow> enc v = enc' v"
  shows "appender op enc' pre fits'"
proof
  show "cbb_ok s'" if "cbb_ok s" "pre v" "op h d s v = (r, s')" for s v h d r s'
    using appender.keeps [OF assms(1) that] .
  show "fits' v \<and> appended h d s (enc' v) s'" if "cbb_ok s" "pre v" "op h d s v = (True, s')" for s v h d s'
    using appender.appends [OF assms(1) that] assms(2, 3) by metis
  show "fst (op h d s v)"
    if "settled d s c" "pre v" "fits' v" "grows h s" "length (c @ enc' v) < size_mod" for d s c v h
    using appender.succeeds [OF assms(1) that(1, 2) _ that(4)] that(3, 5) assms(2, 3) by metis
qed

lemma appender_comp:
  assumes "appender op enc pre fits"
  shows "appender (\<lambda>h d s v. op h d s (f v)) (\<lambda>v. enc (f v)) (\<lambda>v. pre (f v)) (\<lambda>v. fits (f v))"
proof
  show "cbb_ok s'" if "cbb_ok s" "pre (f v)" "op h d s (f v) = (r, s')" for s v h d r s'
    using appender.keeps [OF assms that] .
  show "fits (f v) \<and> appended h d s (enc (f v)) s'"
    if "cbb_ok s" "pre (f v)" "op h d s (f v) = (True, s')" for s v h d s'
    using appender.appends [OF assms that] .
  show "fst (op h d s (f v))"
    if "settled d s c" "pre (f v)" "fits (f v)" "grows h s" "length (c @ enc (f v)) < size_mod" for d s c v h
    using appender.succeeds [OF assms that] .
qed

lemma never_extends: "(\<And>b. buf_ok b \<Longrightarrow> \<not> fst (f b) \<and> failed (snd (f b))) \<Longrightarrow> extends w f"
  unfolding extends_def by (metis fst_conv snd_conv)

text \<open>An operation that flushes and then extends the buffer is an appender.\<close>

lemma appenderI:
  assumes "\<And>s h d v. op h d s v = with_buffer h d s (f h v)"
    and "\<And>h v. pre v \<Longrightarrow> fits v \<Longrightarrow> extends (enc v) (f h v)"
    and "\<And>h v b. pre v \<Longrightarrow> \<not> fits v \<Longrightarrow> buf_ok b \<Longrightarrow> \<not> fst (f h v b) \<and> failed (snd (f h v b))"
    and "\<And>h v b. pre v \<Longrightarrow> fits v \<Longrightarrow> buf_ok b \<Longrightarrow> room h b (length (enc v)) \<Longrightarrow> fst (f h v b)"
  shows "appender op enc pre fits"
proof
  fix s h d v r s'
  assume s: "cbb_ok s" "pre v" "op h d s v = (r, s')"
  have no: "extends w (f h v)" if "\<not> fits v" for w
    using assms(3) [OF s(2) that] by (rule never_extends)
  show "cbb_ok s'"
    using with_buffer_ok(1) [OF s(1) _ s(3) [unfolded assms(1)]] assms(2) [OF s(2)] no by blast
next
  fix s h d v s'
  assume s: "cbb_ok s" "pre v" "op h d s v = (True, s')"
  show "fits v \<and> appended h d s (enc v) s'"
  proof (cases "fits v")
    case True
    then show ?thesis
      using with_buffer_ok(2) [OF s(1) assms(2) [OF s(2) True] s(3) [unfolded assms(1)]] by simp
  next
    case False
    have "extends w (f h v)" for w using assms(3) [OF s(2) False] by (rule never_extends)
    then have "appended h d s w s'" for w
      using with_buffer_ok(2) [OF s(1) _ s(3) [unfolded assms(1)]] by simp
    then obtain c where "settled d s' (c @ [])" "settled d s' (c @ [0])"
      by (metis appended_def option.inject)
    then show ?thesis using settled_unique [of d s' "c @ []" "c @ [0]"] by simp
  qed
next
  fix s h d v c
  assume s: "settled d s c" "pre v" "fits v" "grows h s" "length (c @ enc v) < size_mod"
  obtain b where b: "base s = Some b" "buf_ok b" "contents b = c" "can_resize b"
    using s(1, 4) by (auto simp: settled_def grows_def split: option.splits)
  have "room h b (length (enc v))"
    using s(4, 5) b length_contents [OF b(2)] by (auto simp: room_def grows_def)
  then have "fst (f h v b)" using assms(4) [OF s(2, 3) b(2)] by simp
  then show "fst (op h d s v)"
    using b(1) flush_settled [OF s(1), of h]
    by (cases "f h v b") (simp add: assms(1) with_buffer_def on_buffer_def)
qed

section \<open>Bytes and integers\<close>

lemma extends_append: "length data < size_mod \<Longrightarrow> extends data (append_bytes h data)"
  unfolding extends_def using append_ok by blast

interpretation add_bytes: appender CBB_add_bytes "\<lambda>data. data" "\<lambda>data. length data < size_mod" "\<lambda>_. True"
  by (rule appenderI [where f = append_bytes]) (simp_all add: CBB_add_bytes_def extends_append append_room)

lemma extends_add_u:
  assumes "0 < k" "k \<le> 8" "unat v < 256 ^ k"
  shows "extends (be_bytes k (unat v)) (\<lambda>b. cbb_buffer_add_u h b v k)"
  unfolding extends_def using add_u_ok [OF _ assms(2)] assms(1) by fastforce

lemma add_u_too_big:
  assumes "0 < k" "k \<le> 8" "\<not> unat v < 256 ^ k" "buf_ok b"
  shows "\<not> fst (cbb_buffer_add_u h b v k) \<and> failed (snd (cbb_buffer_add_u h b v k))"
  using add_u_ok [OF assms(4, 2), where h = h and v = v] assms(1, 3)
  by (cases "cbb_buffer_add_u h b v k") (auto split: if_splits)

lemma add_u_appender:
  fixes op :: "heap_env \<Rightarrow> nat \<Rightarrow> CBB \<Rightarrow> 'w::len word \<Rightarrow> bool \<times> CBB"
  assumes "\<And>h d s v. op h d s v = with_buffer h d s (\<lambda>b. cbb_buffer_add_u h b (ucast v) k)"
    and "0 < k" "k \<le> 8" "LENGTH('w) \<le> 64"
  shows "appender op (\<lambda>v. be_bytes k (unat v)) (\<lambda>_. True) (\<lambda>v. unat v < 256 ^ k)"
proof -
  have u: "unat (ucast v :: 64 word) = unat v" for v :: "'w word"
  proof -
    have "unat v < 2 ^ LENGTH('w)" by (rule unsigned_less)
    also have "(2 :: nat) ^ LENGTH('w) \<le> 2 ^ 64" using assms(4) by (intro power_increasing) simp_all
    finally show ?thesis by (simp add: unsigned_ucast_eq take_bit_nat_eq_self)
  qed
  show ?thesis
  proof (rule appenderI [where f = "\<lambda>h v b. cbb_buffer_add_u h b (ucast v) k"])
    show "extends (be_bytes k (unat v)) (\<lambda>b. cbb_buffer_add_u h b (ucast v) k)"
      if "unat v < 256 ^ k" for h and v :: "'w word"
      using extends_add_u [OF assms(2, 3), of "ucast v" h] that by (simp only: u)
    show "\<not> fst (cbb_buffer_add_u h b (ucast v) k) \<and> failed (snd (cbb_buffer_add_u h b (ucast v) k))"
      if "\<not> unat v < 256 ^ k" "buf_ok b" for h b and v :: "'w word"
      using add_u_too_big [OF assms(2, 3), of "ucast v" b h] that by (simp add: u)
    show "fst (cbb_buffer_add_u h b (ucast v) k)"
      if "unat v < 256 ^ k" "buf_ok b" "room h b (length (be_bytes k (unat v)))" for h b and v :: "'w word"
      using add_u_room [OF that(2) assms(3)] that by (simp add: u)
  qed (simp_all add: assms(1))
qed

interpretation add_u16: appender CBB_add_u16 "\<lambda>v. be_bytes 2 (unat v)" "\<lambda>_. True" "\<lambda>v. unat v < 256 ^ 2"
  by (rule add_u_appender) (simp_all add: CBB_add_u16_def)

interpretation add_u24: appender CBB_add_u24 "\<lambda>v. be_bytes 3 (unat v)" "\<lambda>_. True" "\<lambda>v. unat v < 256 ^ 3"
  by (rule add_u_appender) (simp_all add: CBB_add_u24_def)

interpretation add_u32: appender CBB_add_u32 "\<lambda>v. be_bytes 4 (unat v)" "\<lambda>_. True" "\<lambda>v. unat v < 256 ^ 4"
  by (rule add_u_appender) (simp_all add: CBB_add_u32_def)

interpretation add_u64: appender CBB_add_u64 "\<lambda>v. be_bytes 8 (unat v)" "\<lambda>_. True" "\<lambda>v. unat v < 256 ^ 8"
  by (rule add_u_appender) (simp_all add: CBB_add_u64_def)

lemma be_bytes_1: "be_bytes 1 (unat v) = [v]" for v :: byte
  by (simp add: be_bytes_def)

interpretation add_u8: appender CBB_add_u8 "\<lambda>v. [v]" "\<lambda>_. True" "\<lambda>_. True"
proof -
  have "appender CBB_add_u8 (\<lambda>v. be_bytes 1 (unat v)) (\<lambda>_. True) (\<lambda>v. unat v < 256 ^ 1)"
    by (rule add_u_appender) (simp_all add: CBB_add_u8_def)
  then show "appender CBB_add_u8 (\<lambda>v. [v]) (\<lambda>_. True) (\<lambda>_. True)" by (simp add: be_bytes_1 [simplified])
qed

section \<open>Base-128 integers\<close>

definition base128_groups :: "64 word \<Rightarrow> nat \<Rightarrow> byte list" where
  "base128_groups v n =
     map (\<lambda>i. let b = ucast (drop_bit (7 * i) v) AND 0x7f in if i \<noteq> 0 then b OR 0x80 else b) (rev [0..<n])"

lemma base128_add_loop_all: "base128_add_loop h d s v n = add_all CBB_add_u8 h d s (base128_groups v n)"
proof (induction n arbitrary: s)
  case (Suc n)
  have "base128_groups v (Suc n) =
    (let b = ucast (drop_bit (7 * n) v) AND 0x7f in if n \<noteq> 0 then b OR 0x80 else b) # base128_groups v n"
    by (simp add: base128_groups_def)
  then show ?case by (simp only: base128_add_loop.simps add_all.simps Let_def Suc)
qed (simp add: base128_groups_def)

lemma group_byte:
  "(ucast (drop_bit (7 * i) v) AND 0x7f :: byte) = word_of_nat (unat (v :: 64 word) div 128 ^ i mod 128)"
proof (rule word_unat_eq_iff [THEN iffD2])
  have "unat (ucast (drop_bit (7 * i) v) :: byte) = unat v div 128 ^ i mod 256"
    by (simp only: unsigned_ucast_eq unat_drop_bit_eq) (simp add: drop_bit_eq_div power_mult take_bit_eq_mod)
  then have "unat (ucast (drop_bit (7 * i) v) AND 0x7f :: byte) = unat v div 128 ^ i mod 256 mod 128"
    by (simp add: unat_and_7F)
  also have "\<dots> = unat v div 128 ^ i mod 128" by (simp add: mod_mod_cancel)
  finally show "unat (ucast (drop_bit (7 * i) v) AND 0x7f :: byte) =
      unat (word_of_nat (unat v div 128 ^ i mod 128) :: byte)"
    by (simp add: unat_byte_of_nat less_trans [of _ 128])
qed

lemma or_80: "n < 128 \<Longrightarrow> (word_of_nat n :: byte) OR 0x80 = word_of_nat (n + 128)"
proof -
  assume n: "n < 128"
  then have "(word_of_nat n :: byte) AND 0x80 = 0" by (simp add: top_bit unat_byte_of_nat)
  then have "(word_of_nat n :: byte) OR 0x80 = word_of_nat n + 0x80" by (metis add_0 word_plus_and_or)
  then show ?thesis by simp
qed

lemma base128_groups_eq: "base128_groups v n =
  map (\<lambda>i. word_of_nat (unat v div 128 ^ i mod 128 + (if i \<noteq> 0 then 128 else 0))) (rev [0..<n])"
  by (simp add: base128_groups_def group_byte Let_def or_80)

lemma rev_upt_Suc: "rev [0..<Suc n] = map Suc (rev [0..<n]) @ [0]"
  by (simp add: upt_conv_Cons map_Suc_upt rev_map [symmetric] del: upt_Suc)

lemma base128_hi_groups:
  "base128_hi m = map (\<lambda>i. word_of_nat (m div 128 ^ i mod 128 + 128)) (rev [0..<length (base128_hi m)])"
proof (induction m rule: base128_hi.induct)
  case (1 m)
  show ?case
  proof (cases "m = 0")
    case False
    then have hi: "base128_hi m = base128_hi (m div 128) @ [word_of_nat (m mod 128 + 128)]"
      by (simp add: base128_hi.simps [of m])
    let ?n = "length (base128_hi (m div 128))"
    note up = rev_upt_Suc [of ?n]
    have "base128_hi (m div 128) = map (\<lambda>i. word_of_nat (m div 128 ^ Suc i mod 128 + 128)) (rev [0..<?n])"
      using 1 [OF False] by (simp add: div_mult2_eq)
    then show ?thesis unfolding hi by (simp add: up comp_def del: upt_Suc)
  qed simp
qed

lemma base128_len_hi: "base128_len v = length (base128_hi (unat v))"
proof (induction v rule: base128_len.induct)
  case (1 v)
  have "unat (drop_bit 7 v) = unat v div 128"
    by (simp only: unat_drop_bit_eq) (simp add: drop_bit_eq_div)
  moreover have "v > 0 \<longleftrightarrow> unat v \<noteq> 0" by (simp add: unat_eq_0 word_greater_zero_iff)
  ultimately show ?case using 1 by (simp add: base128_len.simps [of v] base128_hi.simps [of "unat v"])
qed

lemma base128_groups_base128:
  "base128_groups v (if base128_len v = 0 then 1 else base128_len v) = base128 (unat v)"
proof -
  let ?n = "length (base128_hi (unat v div 128))"
  have n: "(if base128_len v = 0 then 1 else base128_len v) = Suc ?n"
    by (simp add: base128_len_hi base128_hi.simps [of "unat v"])
  note up = rev_upt_Suc [of ?n]
  have "base128_hi (unat v div 128) =
    map (\<lambda>i. word_of_nat (unat v div 128 ^ Suc i mod 128 + 128)) (rev [0..<?n])"
    using base128_hi_groups [of "unat v div 128"] by (simp add: div_mult2_eq)
  then show ?thesis
    unfolding n base128_groups_eq base128_def up by (simp add: comp_def)
qed

lemma add_base128_all: "add_base128_integer h d s v = add_all CBB_add_u8 h d s (base128 (unat v))"
  by (simp add: add_base128_integer_def base128_add_loop_all base128_groups_base128 Let_def)

section \<open>ASN.1 elements\<close>

text \<open>The bytes of the tag, one by one.\<close>

lemma tag_bytes:
  "(let tag_bits = ucast (drop_bit CBS_ASN1_TAG_SHIFT t) AND 0xe0; tag_number = t AND CBS_ASN1_TAG_NUMBER_MASK
    in if tag_number \<ge> 0x1f then
         (case CBB_add_u8 h d s (tag_bits OR 0x1f) of
            (False, s2) \<Rightarrow> (False, s2)
          | (True, s2) \<Rightarrow> add_base128_integer h d s2 (ucast tag_number))
       else CBB_add_u8 h d s (tag_bits OR ucast tag_number)) = add_all CBB_add_u8 h d s (der_tag t)"
proof -
  let ?w = "t AND 0x1fffffff"
  have u: "unat (ucast ?w :: 64 word) = tag_number t"
    using tag_number_bound [of t] by (simp add: tag_number_def unsigned_ucast_eq take_bit_nat_eq_self)
  have cond: "?w \<ge> 0x1f \<longleftrightarrow> \<not> tag_number t < 31" by (simp add: tag_number_def word_le_nat_alt not_less)
  have low: "(ucast ?w :: byte) = word_of_nat (tag_number t)" if "tag_number t < 31"
    using that by (intro word_unat_eq_iff [THEN iffD2])
      (simp add: tag_number_def unsigned_ucast_eq unsigned_of_nat)
  show ?thesis
  proof (cases "tag_number t < 31")
    case True
    then show ?thesis using cond low
      by (simp add: Let_def der_tag_def tag_class_def split: prod.splits bool.splits)
  next
    case False
    then show ?thesis using cond unfolding Let_def add_base128_all u
      by (simp add: der_tag_def tag_class_def)
  qed
qed

lemma CBB_add_asn1_eq:
  "CBB_add_asn1 h d s t =
     (case CBB_flush h d s of
        (False, s1) \<Rightarrow> (False, s1)
      | (True, s1) \<Rightarrow>
          (case add_all CBB_add_u8 h d s1 (der_tag t) of
             (False, s2) \<Rightarrow> (False, s2)
           | (True, s2) \<Rightarrow>
               (case CBB_add_u8 h d s2 0 of
                  (False, s3) \<Rightarrow> (False, s3)
                | (True, s3) \<Rightarrow> (True, open_child d s3 (base_len s2) 1 True))))"
  unfolding CBB_add_asn1_def Let_def tag_bytes [unfolded Let_def] by (rule refl)

text \<open>A child has been opened in \<open>s\<close> at \<open>d\<close>: the bytes \<open>x\<close> of its prefix and the child itself.\<close>

definition child_opened :: "heap_env \<Rightarrow> nat \<Rightarrow> CBB \<Rightarrow> byte list \<Rightarrow> nat \<Rightarrow> bool \<Rightarrow> CBB \<Rightarrow> bool" where
  "child_opened h d s x k asn1 s' \<longleftrightarrow>
     (\<exists>c. flushed d s = Some c \<and> settled (d + 1) s' (c @ x @ replicate k 0) \<and>
          children s' = take d (children s) @
            [\<lparr>offset = length (c @ x), pending_len_len = k, pending_is_asn1 = asn1\<rparr>] \<and>
          grows h s' = grows h s)"

lemma open_child_settled:
  assumes "appended h d s x s2" "settled d s3 (c @ x @ replicate k 0)" "flushed d s = Some c"
    "children s3 = children s2" "grows h s3 = grows h s2" "0 < k" "asn1 \<longrightarrow> k = 1"
  shows "child_opened h d s x k asn1 (open_child d s3 (base_len s2) k asn1)"
proof -
  have s2: "settled d s2 (c @ x)" "children s2 = take d (children s)" "grows h s2 = grows h s"
    using assms(1, 3) by (auto simp: appended_def)
  then have l: "base_len s2 = length (c @ x)" using settled_length by blast
  let ?ch = "\<lparr>offset = length (c @ x), pending_len_len = k, pending_is_asn1 = asn1\<rparr>"
  obtain b where b: "base s3 = Some b" "buf_ok b" "\<not> error b" "contents b = c @ x @ replicate k 0"
    using assms(2) by (auto simp: settled_def split: option.splits)
  have "len b = length (c @ x) + k" using b(4) length_contents [OF b(2)] by simp
  moreover have "chain_ok 0 (length (c @ x)) (children s2)"
    using s2(1) settled_length [OF s2(1)] by (auto simp: settled_def base_len_def split: option.splits)
  ultimately have "chain_ok 0 (len b) (children s2 @ [?ch])"
    using assms(6, 7) chain_ok_iff [of 0 "length (c @ x)" "children s2"] by (auto simp: chain_ok_append)
  then have "settled (d + 1) (open_child d s3 (base_len s2) k asn1) (c @ x @ replicate k 0)"
    using b assms(4) l settled_depth [OF s2(1)] by (simp add: settled_def open_child_def)
  then show ?thesis
    using assms(3-5) s2 l settled_depth [OF s2(1)]
    by (auto simp: child_opened_def open_child_def grows_def)
qed

lemma all_true: "list_all (\<lambda>_. True) xs"
  by (simp add: list_all_iff)

lemma concat_singles [simp]: "concat (map (\<lambda>v. [v]) xs) = xs"
  by (induction xs) simp_all

lemma add_asn1_settled:
  assumes "settled d s c" "CBB_add_asn1 h d s t = (r, s')"
  shows "if r then child_opened h d s (der_tag t) 1 True s' else cbb_ok s'"
proof -
  obtain r2 s2 where tg: "add_all CBB_add_u8 h d s (der_tag t) = (r2, s2)"
    by (cases "add_all CBB_add_u8 h d s (der_tag t)")
  note eq = assms(2) [unfolded CBB_add_asn1_eq flush_settled [OF assms(1)] prod.case tg]
  show ?thesis
  proof (cases r2)
    case False
    then show ?thesis using eq add_u8.all_keeps [OF assms(1) all_true tg] by simp
  next
    case True
    have s2: "settled d s2 (c @ der_tag t)" "children s2 = children s" "grows h s2 = grows h s"
      using add_u8.all_appends [OF assms(1) all_true] tg True by simp_all
    then have app: "appended h d s (der_tag t) s2"
      using settled_flushed [OF assms(1)] settled_depth [OF assms(1)] by (auto simp: appended_def)
    obtain r3 s3 where z: "CBB_add_u8 h d s2 0 = (r3, s3)" by (cases "CBB_add_u8 h d s2 0")
    show ?thesis
    proof (cases r3)
      case False
      then show ?thesis using eq z True add_u8.fill_keeps [OF s2(1) _ z] by simp
    next
      case t3: True
      then have "settled d s3 ((c @ der_tag t) @ [0])" "children s3 = children s2" "grows h s3 = grows h s2"
        using add_u8.fill_appends [OF s2(1)] z by auto
      then have "child_opened h d s (der_tag t) 1 True (open_child d s3 (base_len s2) 1 True)"
        using open_child_settled [OF app _ settled_flushed [OF assms(1)], of s3 1 True] by simp
      then show ?thesis using eq z True t3 by simp
    qed
  qed
qed

lemma child_opened_flushed:
  assumes "appended h d s [] s1" "child_opened h d s1 x k a s'"
  shows "child_opened h d s x k a s'"
proof -
  obtain c where c: "flushed d s = Some c" "settled d s1 c" "children s1 = take d (children s)" "grows h s1 = grows h s"
    using assms(1) by (auto simp: appended_def)
  then show ?thesis using assms(2) settled_flushed [OF c(2)] by (auto simp: child_opened_def)
qed

lemma add_asn1_ok:
  assumes "cbb_ok s" "CBB_add_asn1 h d s t = (r, s')"
  shows "if r then child_opened h d s (der_tag t) 1 True s' else cbb_ok s'"
proof -
  obtain r1 s1 where fl: "CBB_flush h d s = (r1, s1)" by (cases "CBB_flush h d s")
  show ?thesis
  proof (cases r1)
    case False
    then show ?thesis using assms(2) fl flush_ok(1) [OF assms(1) fl] by (simp add: CBB_add_asn1_eq)
  next
    case True
    then have app: "appended h d s [] s1" using flush_appended [OF assms(1)] fl by simp
    then obtain c where c: "settled d s1 c" by (auto simp: appended_def)
    have "CBB_add_asn1 h d s1 t = (r, s')"
      using assms(2) fl True flush_settled [OF c, of h] by (simp add: CBB_add_asn1_eq)
    from add_asn1_settled [OF c this] show ?thesis using child_opened_flushed [OF app] by (simp split: if_splits)
  qed
qed

lemma flush_child_denote:
  assumes "child_opened h d s x k asn1 s1" "flushed d s = Some c"
    "settled (d + 1) s2 ((c @ x @ replicate k 0) @ w)" "children s2 = children s1"
  shows "flushed d s2 = map_option (\<lambda>p. c @ x @ p @ w)
    (length_prefix \<lparr>offset = 0, pending_len_len = k, pending_is_asn1 = asn1\<rparr> (length w))"
proof -
  let ?ch = "\<lparr>offset = length (c @ x), pending_len_len = k, pending_is_asn1 = asn1\<rparr>"
  have ch: "children s2 = take d (children s) @ [?ch]" using assms by (auto simp: child_opened_def)
  have d: "length (take d (children s)) = d" using settled_depth [OF assms(3)] ch by simp
  obtain b where b: "base s2 = Some b" "\<not> error b" "contents b = (c @ x @ replicate k 0) @ w"
    "chain_ok 0 (len b) (children s2)"
    using assms(3) by (auto simp: settled_def split: option.splits)
  have lo: "chain_end 0 (take d (children s)) \<le> length (c @ x)"
    using b(4) ch by (simp add: chain_ok_append)
  let ?lo = "chain_end 0 (take d (children s))"
  have pre: "length_prefix ?ch n = length_prefix \<lparr>offset = 0, pending_len_len = k, pending_is_asn1 = asn1\<rparr> n" for n
    by (simp add: length_prefix_def)
  have cut: "take ?lo (c @ x) @ take (length (c @ x) - ?lo) (drop ?lo (c @ x)) = c @ x"
    using lo by (simp only: take_add [symmetric]) simp
  have td: "take d (children s2) = take d (children s)" "drop d (children s2) = [?ch]" using ch d by simp_all
  have den: "denote (contents b) ?lo [?ch] = map_option
      (\<lambda>p. take (length (c @ x) - ?lo) (drop ?lo (c @ x)) @ p @ w) (length_prefix ?ch (length w))"
    using b(3) lo by simp
  have "take ?lo (contents b) = take ?lo (c @ x)" using b(3) lo by simp
  then have "flushed d s2 = map_option ((@) (take ?lo (c @ x))) (denote (contents b) ?lo [?ch])"
    unfolding flushed_def Let_def td using b(1, 2) settled_depth [OF assms(3)] by simp
  also have "\<dots> = map_option (\<lambda>p. (take ?lo (c @ x) @ take (length (c @ x) - ?lo) (drop ?lo (c @ x))) @ p @ w)
      (length_prefix ?ch (length w))"
    unfolding den by (simp only: option.map_comp comp_def append_assoc)
  finally show ?thesis unfolding cut pre by simp
qed

text \<open>Closing the child.\<close>

lemma child_opened_settled: "child_opened h d s x k a s' \<Longrightarrow> \<exists>c. flushed d s = Some c \<and> settled (d + 1) s' (c @ x @ replicate k 0)"
  by (auto simp: child_opened_def)

text \<open>
  An operation that opens a child, fills it and flushes appends the prefix and the contents.
\<close>

definition in_child ::
  "(heap_env \<Rightarrow> nat \<Rightarrow> CBB \<Rightarrow> bool \<times> CBB) \<Rightarrow> (heap_env \<Rightarrow> nat \<Rightarrow> CBB \<Rightarrow> 'v \<Rightarrow> bool \<times> CBB) \<Rightarrow>
   heap_env \<Rightarrow> nat \<Rightarrow> CBB \<Rightarrow> 'v \<Rightarrow> bool \<times> CBB" where
  "in_child start body h d s v =
     (case start h d s of
        (False, s1) \<Rightarrow> (False, s1)
      | (True, s1) \<Rightarrow>
          (case body h (d + 1) s1 v of
             (False, s2) \<Rightarrow> (False, s2)
           | (True, s2) \<Rightarrow> CBB_flush h d s2))"

lemma in_child_appender:
  fixes x k a
  defines "pfx \<equiv> length_prefix \<lparr>offset = 0, pending_len_len = k, pending_is_asn1 = a\<rparr>"
  assumes opens: "\<And>s h d r s'. cbb_ok s \<Longrightarrow> start h d s = (r, s') \<Longrightarrow>
      if r then child_opened h d s x k a s' else cbb_ok s'"
    and opens_room: "\<And>s c h d. settled d s c \<Longrightarrow> grows h s \<Longrightarrow> length (c @ x @ replicate k 0) < size_mod \<Longrightarrow>
      fst (start h d s)"
    and body: "filler body encb pre fits"
    and k: "0 < k" "a \<longrightarrow> k = 1"
  shows "appender (in_child start body) (\<lambda>v. x @ the (pfx (length (encb v))) @ encb v) pre
    (\<lambda>v. fits v \<and> pfx (length (encb v)) \<noteq> None)"
proof
  fix s h d v r s'
  assume s: "cbb_ok s" "pre v" and run: "in_child start body h d s v = (r, s')"
  obtain r1 s1 where st: "start h d s = (r1, s1)" by (cases "start h d s")
  obtain r2 s2 where bd: "body h (d + 1) s1 v = (r2, s2)" by (cases "body h (d + 1) s1 v")
  note opened = opens [OF s(1) st]
  have s2: "cbb_ok s2" if r1: r1
    using opened r1 filler.fill_keeps [OF body _ s(2) bd] by (auto simp: child_opened_def)
  show "cbb_ok s'"
    using run opened s2 flush_ok(1) [where s = s2 and h = h and d = d]
    by (cases r1; cases r2) (auto simp: in_child_def st bd [simplified])
next
  fix s h d v s'
  assume s: "cbb_ok s" "pre v" and run: "in_child start body h d s v = (True, s')"
  obtain s1 where st: "start h d s = (True, s1)" using run by (auto simp: in_child_def split: prod.splits bool.splits)
  obtain s2 where bd: "body h (d + 1) s1 v = (True, s2)"
    using run st by (auto simp: in_child_def split: prod.splits bool.splits)
  have fl: "CBB_flush h d s2 = (True, s')" using run st bd by (simp add: in_child_def)
  have opened: "child_opened h d s x k a s1" using opens [OF s(1) st] by simp
  then obtain c where c: "flushed d s = Some c" "settled (d + 1) s1 (c @ x @ replicate k 0)"
    "children s1 = take d (children s) @ [\<lparr>offset = length (c @ x), pending_len_len = k, pending_is_asn1 = a\<rparr>]"
    "grows h s1 = grows h s" by (auto simp: child_opened_def)
  have b: "fits v" "settled (d + 1) s2 ((c @ x @ replicate k 0) @ encb v)" "children s2 = children s1"
    "grows h s2 = grows h s1" using filler.fill_appends [OF body c(2) s(2) bd] by simp_all
  have f2: "flushed d s2 = map_option (\<lambda>p. c @ x @ p @ encb v) (pfx (length (encb v)))"
    unfolding pfx_def by (rule flush_child_denote [OF opened c(1) b(2, 3)])
  obtain c2 where c2: "flushed d s2 = Some c2" "settled d s' c2" "children s' = take d (children s2)" "grows h s' = grows h s2"
    using flush_ok(2) [OF settled_ok [OF b(2)] fl] by auto
  have "length (take d (children s)) = d" using settled_depth [OF c(2)] c(3) by simp
  then have ch: "children s' = take d (children s)" using b(3) c(3) c2(3) by simp
  obtain p where p: "pfx (length (encb v)) = Some p" using f2 c2(1) by (cases "pfx (length (encb v))") simp_all
  then have "settled d s' (c @ x @ p @ encb v)" using f2 c2(1, 2) by simp
  with p c(1, 4) c2(4) b(1, 4) ch show "(fits v \<and> pfx (length (encb v)) \<noteq> None) \<and>
    appended h d s (x @ the (pfx (length (encb v))) @ encb v) s'"
    by (simp add: appended_def)
next
  fix d s c v h
  assume s: "settled d s c" "pre v" "fits v \<and> pfx (length (encb v)) \<noteq> None" "grows h s"
    "length (c @ x @ the (pfx (length (encb v))) @ encb v) < size_mod"
  then obtain p where p: "pfx (length (encb v)) = Some p" by auto
  then have kp: "k \<le> length p"
    using k(2) by (auto simp: pfx_def length_prefix_def der_length_def split: if_splits)
  have "fst (start h d s)" using s(5) p kp by (intro opens_room [OF s(1, 4)]) simp
  then obtain s1 where st: "start h d s = (True, s1)" by (cases "start h d s") simp
  have opened: "child_opened h d s x k a s1" using opens [OF settled_ok [OF s(1)] st] by simp
  then have c: "settled (d + 1) s1 (c @ x @ replicate k 0)" "grows h s1 = grows h s"
    using settled_flushed [OF s(1)] by (auto simp: child_opened_def)
  have "length ((c @ x @ replicate k 0) @ encb v) < size_mod" using s(5) p kp by simp
  then obtain s2 where bd: "body h (d + 1) s1 v = (True, s2)" "settled (d + 1) s2 ((c @ x @ replicate k 0) @ encb v)"
    "children s2 = children s1" "grows h s2"
    using filler.run [OF body c(1) s(2), of h] s(3, 4) c(2) by auto
  have "flushed d s2 = Some (c @ x @ p @ encb v)"
    using flush_child_denote [OF opened settled_flushed [OF s(1)] bd(2, 3)] p by (simp add: pfx_def)
  then have "fst (CBB_flush h d s2)"
    using flush_room [OF settled_ok [OF bd(2)] _ bd(4)] s(5) p by simp
  then show "fst (in_child start body h d s v)" using st bd(1) by (simp add: in_child_def)
qed

lemma add_asn1_room:
  assumes "settled d s c" "grows h s" "length (c @ der_tag t @ replicate 1 0) < size_mod"
  shows "fst (CBB_add_asn1 h d s t)"
proof -
  have "\<exists>s2. add_all CBB_add_u8 h d s (der_tag t) = (True, s2) \<and> settled d s2 (c @ concat (map (\<lambda>v. [v]) (der_tag t)))
    \<and> children s2 = children s \<and> grows h s2"
    by (rule filler.run [OF add_u8.all_filler assms(1) all_true all_true assms(2)]) (use assms(3) in simp)
  then obtain s2 where tg: "add_all CBB_add_u8 h d s (der_tag t) = (True, s2)" "settled d s2 (c @ der_tag t)" "grows h s2"
    by auto
  have "fst (CBB_add_u8 h d s2 0)" using assms(3) by (intro add_u8.succeeds [OF tg(2) _ _ tg(3)]) simp_all
  then obtain s3 where "CBB_add_u8 h d s2 0 = (True, s3)" by (cases "CBB_add_u8 h d s2 0") simp
  then show ?thesis using tg(1) flush_settled [OF assms(1)] by (simp add: CBB_add_asn1_eq)
qed

lemma element_appender:
  assumes "filler body encb pre fits"
    and "\<And>h d s v. op h d s v = in_child (\<lambda>h d s. CBB_add_asn1 h d s t) body h d s v"
  shows "appender op (\<lambda>v. der_element t (encb v)) pre (\<lambda>v. fits v \<and> length (encb v) \<le> 0xfffffffe)"
proof -
  have op: "op = in_child (\<lambda>h d s. CBB_add_asn1 h d s t) body" by (intro ext) (rule assms(2))
  let ?pfx = "length_prefix \<lparr>offset = 0, pending_len_len = 1, pending_is_asn1 = True\<rparr>"
  have app: "appender op (\<lambda>v. der_tag t @ the (?pfx (length (encb v))) @ encb v) pre
    (\<lambda>v. fits v \<and> ?pfx (length (encb v)) \<noteq> None)"
    unfolding op
    by (rule in_child_appender [OF add_asn1_ok _ assms(1)]) (use add_asn1_room in auto)
  have fit: "?pfx n \<noteq> None \<longleftrightarrow> n \<le> 0xfffffffe" for n by (simp add: length_prefix_def)
  have enc: "n \<le> 0xfffffffe \<Longrightarrow> the (?pfx n) = der_length n" for n by (simp add: length_prefix_def)
  show ?thesis
    by (rule appender_cong [OF app]) (simp_all only: fit enc, simp add: der_element_def der_header_def)
qed

interpretation octet_string: appender CBB_add_asn1_octet_string "\<lambda>v. der_element 4 v"
  "\<lambda>v. length v < size_mod" "\<lambda>v. True \<and> length v \<le> 0xfffffffe"
  by (rule element_appender [OF add_bytes.filler_axioms])
    (simp add: CBB_add_asn1_octet_string_def in_child_def)

lemma bool_filler:
  "filler (\<lambda>h d s v. CBB_add_u8 h d s (if v then 0xff else 0)) (\<lambda>v. [if v then 0xff else 0]) (\<lambda>_. True) (\<lambda>_. True)"
  by unfold_locales (use add_u8.fill_keeps add_u8.fill_appends add_u8.fill_succeeds in auto)

interpretation add_bool: appender CBB_add_asn1_bool "\<lambda>v. der_element 1 [if v then 0xff else 0]"
  "\<lambda>_. True" "\<lambda>v. True \<and> length [if v then 0xff else 0 :: byte] \<le> 0xfffffffe"
  by (rule element_appender [OF bool_filler]) (simp add: CBB_add_asn1_bool_def in_child_def)

end
