(* ===== verification/Cbb_Values.thy ===== *)
theory Cbb_Values
  imports Cbb_Build
begin

unbundle bit_operations_syntax

text \<open>
  The ASN.1 integers that the builder writes are the ones that the parser reads, and the round
  trip through both.
\<close>

section \<open>Integers\<close>

lemma be_bytes_Cons: "be_bytes (Suc k) n = word_of_nat (n div 256 ^ k) # be_bytes k n"
proof (induction k arbitrary: n)
  case 0
  then show ?case using be_bytes_Suc [of 0 n] by (simp add: be_bytes_def)
next
  case (Suc k)
  have "be_bytes (Suc (Suc k)) n = be_bytes (Suc k) (n div 256) @ [word_of_nat n]" by (rule be_bytes_Suc)
  also have "\<dots> = word_of_nat (n div 256 ^ Suc k) # be_bytes k (n div 256) @ [word_of_nat n]"
    by (simp add: Suc div_mult2_eq)
  also have "\<dots> = word_of_nat (n div 256 ^ Suc k) # be_bytes (Suc k) n" by (simp add: be_bytes_Suc)
  finally show ?case .
qed

lemma be_bytes_mod: "be_bytes k (n mod 256 ^ k) = be_bytes k n"
  using be_bytes_be_val [of "be_bytes k n"] by (simp add: be_val_be_bytes)

lemma ucast_drop_byte: "(ucast (drop_bit (8 * i) (v :: 64 word)) :: byte) = word_of_nat (unat v div 256 ^ i)"
proof (rule word_unat_eq_iff [THEN iffD2])
  have "unat (ucast (drop_bit (8 * i) v) :: byte) = unat v div 256 ^ i mod 256"
    by (simp only: unsigned_ucast_eq unat_drop_bit_eq) (simp add: drop_bit_eq_div power_mult take_bit_eq_mod)
  then show "unat (ucast (drop_bit (8 * i) v) :: byte) = unat (word_of_nat (unat v div 256 ^ i) :: byte)"
    by (simp add: unsigned_of_nat take_bit_eq_mod)
qed

text \<open>The bytes that the loop of \<open>CBB_add_asn1_uint64\<close> adds.\<close>

fun uint_bytes :: "64 word \<Rightarrow> nat \<Rightarrow> bool \<Rightarrow> byte list" where
  "uint_bytes v 0 started = []"
| "uint_bytes v (Suc i) started =
     (let b = ucast (drop_bit (8 * i) v) :: byte in
      if \<not> started \<and> b = 0 then uint_bytes v i started
      else (if \<not> started \<and> b AND 0x80 \<noteq> 0 then [0] else []) @ b # uint_bytes v i True)"

lemma add_all_append:
  "add_all op h d s (xs @ ys) =
     (case add_all op h d s xs of (False, s') \<Rightarrow> (False, s') | (True, s') \<Rightarrow> add_all op h d s' ys)"
  by (induction xs arbitrary: s) (auto split: prod.splits bool.splits)

lemma uint64_add_loop_all:
  "uint64_add_loop h d s v n started = (r, st, s') \<Longrightarrow>
   add_all CBB_add_u8 h d s (uint_bytes v n started) = (r, s') \<and>
   (r \<longrightarrow> st = (started \<or> uint_bytes v n started \<noteq> []))"
proof (induction h d s v n started rule: uint64_add_loop.induct)
  case (2 h d s v i started)
  let ?b = "ucast (drop_bit (8 * i) v) :: byte"
  show ?case
  proof (cases "\<not> started \<and> ?b = 0")
    case True
    then show ?thesis using 2 by (simp add: Let_def)
  next
    case False
    let ?pad = "if \<not> started \<and> ?b AND 0x80 \<noteq> 0 then CBB_add_u8 h d s 0 else (True, s)"
    obtain r1 s1 where pad: "?pad = (r1, s1)" by (cases ?pad)
    obtain r2 s2 where b: "CBB_add_u8 h d s1 ?b = (r2, s2)" by (cases "CBB_add_u8 h d s1 ?b")
    have padded: "add_all CBB_add_u8 h d s (if \<not> started \<and> ?b AND 0x80 \<noteq> 0 then [0] else []) = (r1, s1)"
      using pad by (auto split: if_splits prod.splits bool.splits)
    have bytes: "uint_bytes v (Suc i) started =
      (if \<not> started \<and> ?b AND 0x80 \<noteq> 0 then [0] else []) @ ?b # uint_bytes v i True"
      by (simp only: uint_bytes.simps Let_def False if_False)
    have run: "(case (r1, s1) of (False, s') \<Rightarrow> (False, started, s')
        | (True, s') \<Rightarrow> (case CBB_add_u8 h d s' ?b of (False, s'') \<Rightarrow> (False, True, s'')
            | (True, s'') \<Rightarrow> uint64_add_loop h d s'' v i True)) = (r, st, s')"
      using 2(3) False pad by (simp only: uint64_add_loop.simps Let_def if_False)
    show ?thesis
    proof (cases r1)
      case no: False
      then show ?thesis using run padded unfolding bytes add_all_append by auto
    next
      case True
      show ?thesis
      proof (cases r2)
        case no: False
        then show ?thesis using run padded b True unfolding bytes add_all_append by auto
      next
        case r2: True
        then have "uint64_add_loop h d s2 v i True = (r, st, s')" using run True b by simp
        then have "add_all CBB_add_u8 h d s2 (uint_bytes v i True) = (r, s') \<and> (r \<longrightarrow> st)"
          using 2(2) [OF refl False pad [symmetric] _ b [symmetric]] True r2 by simp
        then show ?thesis using padded b True r2 unfolding bytes add_all_append by auto
      qed
    qed
  qed
qed auto

lemma uint_bytes_started: "uint_bytes v n True = be_bytes n (unat v)"
  by (induction n) (simp_all add: be_bytes_Cons ucast_drop_byte Let_def be_bytes_def [of 0])

lemma uint_bytes_fresh:
  "uint_bytes v n False = (let m = be_min (unat v mod 256 ^ n) in if m \<noteq> [] \<and> 128 \<le> unat (hd m) then 0 # m else m)"
proof (induction n)
  case 0
  then show ?case by (simp add: Let_def)
next
  case (Suc i)
  let ?b = "word_of_nat (unat v div 256 ^ i) :: byte"
  have ub: "unat ?b = unat v div 256 ^ i mod 256" by (simp add: unsigned_of_nat take_bit_eq_mod)
  have split: "unat v mod 256 ^ Suc i = 256 ^ i * unat ?b + unat v mod 256 ^ i"
    unfolding ub by (simp only: power_Suc2 mod_mult2_eq add.commute)
  show ?case
  proof (cases "?b = 0")
    case True
    then have "unat v mod 256 ^ Suc i = unat v mod 256 ^ i" using split by simp
    then show ?thesis using Suc True by (simp add: ucast_drop_byte Let_def)
  next
    case False
    then have "1 \<le> unat ?b" by (simp add: Suc_le_eq unat_gt_0)
    then have "256 ^ i \<le> unat v mod 256 ^ Suc i" unfolding split using mult_le_mono2 [of 1 "unat ?b" "256 ^ i"]
      by (simp only: mult_1_right trans_le_add1)
    then have m: "be_min (unat v mod 256 ^ Suc i) = ?b # be_bytes i (unat v)"
      using be_bytes_eq_be_min [of i "unat v mod 256 ^ Suc i"] be_bytes_mod [of "Suc i" "unat v"]
      by (simp add: be_bytes_Cons)
    have "?b AND 0x80 \<noteq> 0 \<longleftrightarrow> 128 \<le> unat ?b" by (auto simp: top_bit)
    then show ?thesis using False unfolding m by (simp add: ucast_drop_byte Let_def uint_bytes_started)
  qed
qed

lemma uint_bytes_der: "(if uint_bytes v 8 False = [] then [0] else uint_bytes v 8 False) = der_uint (unat v)"
proof -
  have "unat v < 256 ^ 8" using unsigned_less [where 'a = nat, of v] by simp
  then show ?thesis using uint_bytes_fresh [of v 8] by (auto simp: der_uint_def Let_def)
qed

lemma add_uint64_in_child:
  "CBB_add_asn1_uint64 h d s v =
     in_child (\<lambda>h d s. CBB_add_asn1 h d s 2) (\<lambda>h d s v. add_all CBB_add_u8 h d s (der_uint (unat v))) h d s v"
proof (cases "CBB_add_asn1 h d s 2")
  case (Pair r1 s1)
  obtain r2 st s2 where loop: "uint64_add_loop h (d + 1) s1 v 8 False = (r2, st, s2)"
    by (cases "uint64_add_loop h (d + 1) s1 v 8 False") auto
  note all = uint64_add_loop_all [OF loop]
  have "add_all CBB_add_u8 h (d + 1) s1 (der_uint (unat v)) =
    (case (r2, st, s2) of (False, _, s2) \<Rightarrow> (False, s2)
     | (True, st, s2) \<Rightarrow> if \<not> st then CBB_add_u8 h (d + 1) s2 0 else (True, s2))"
  proof (cases "uint_bytes v 8 False = []")
    case True
    then have "der_uint (unat v) = [0]" using uint_bytes_der [of v] by simp
    then show ?thesis using all True by (auto split: prod.splits bool.splits)
  next
    case False
    then have "der_uint (unat v) = uint_bytes v 8 False" using uint_bytes_der [of v] by simp
    then show ?thesis using all False by (cases r2) auto
  qed
  then show ?thesis
    using Pair loop by (auto simp: CBB_add_asn1_uint64_def in_child_def split: prod.splits bool.splits)
qed

lemma byte_list_filler: "filler (\<lambda>h d s v. add_all CBB_add_u8 h d s (f v)) f (\<lambda>_. True) (\<lambda>_. True)"
proof -
  note all = add_u8.all_filler
  show ?thesis
  proof
    show "cbb_ok s'" if "settled d s c" "add_all CBB_add_u8 h d s (f v) = (r, s')" for d s c v h r s'
      using filler.fill_keeps [OF all that(1) all_true that(2)] .
    show "True \<and> settled d s' (c @ f v) \<and> children s' = children s \<and> grows h s' = grows h s"
      if "settled d s c" "add_all CBB_add_u8 h d s (f v) = (True, s')" for d s c v h s'
      using filler.fill_appends [OF all that(1) all_true that(2)] by simp
    show "fst (add_all CBB_add_u8 h d s (f v))"
      if "settled d s c" "grows h s" "length (c @ f v) < size_mod" for d s c v h
      using filler.fill_succeeds [OF all that(1) all_true all_true that(2), where v = "f v"] that(3) by simp
  qed
qed

lemma length_der_uint64: "length (der_uint (unat (v :: 64 word))) \<le> 9"
proof -
  have "unat v < 256 ^ 8" using unsigned_less [where 'a = nat, of v] by simp
  then show ?thesis using length_be_min [of "unat v" 8] by (simp add: der_uint_def Let_def)
qed

interpretation add_uint64: appender CBB_add_asn1_uint64 "\<lambda>v. der_element 2 (der_uint (unat v))" "\<lambda>_. True" "\<lambda>_. True"
proof -
  note app = element_appender [OF byte_list_filler [of "\<lambda>v. der_uint (unat v)"] add_uint64_in_child]
  show "appender CBB_add_asn1_uint64 (\<lambda>v. der_element 2 (der_uint (unat v))) (\<lambda>_. True) (\<lambda>_. True)"
    by (rule appender_cong [OF app]) (simp_all add: order_trans [OF length_der_uint64])
qed

text \<open>Negative integers: the bytes from the first one that matters down.\<close>

lemma add_bytes_down_all:
  "n \<le> length u \<Longrightarrow> add_bytes_down h d s u n = add_all CBB_add_u8 h d s (rev (take n u))"
proof (induction n arbitrary: s)
  case (Suc n)
  then have "rev (take (Suc n) u) = u ! n # rev (take n u)" by (simp add: take_Suc_conv_app_nth)
  then show ?case using Suc by (simp split: prod.splits bool.splits)
qed simp

lemma int64_start_le: "int64_start u n \<le> n"
  by (induction n) auto

lemma int64_start_skipped: "int64_start u n < j \<Longrightarrow> j \<le> n \<Longrightarrow> u ! j = 0xff"
  by (induction n) (auto split: if_splits simp: le_Suc_eq)

lemma int64_start_negative: "128 \<le> unat (u ! n) \<Longrightarrow> 128 \<le> unat (u ! int64_start u n)"
proof (induction n)
  case (Suc n)
  have "u ! n AND 0x80 \<noteq> 0 \<longleftrightarrow> 128 \<le> unat (u ! n)" by (auto simp: top_bit)
  with Suc show ?case by auto
qed simp

lemma int64_start_minimal:
  "int64_start u n = Suc j \<Longrightarrow> \<not> (u ! Suc j = 0xff \<and> 128 \<le> unat (u ! j))"
proof (induction n)
  case (Suc n)
  have "u ! n AND 0x80 \<noteq> 0 \<longleftrightarrow> 128 \<le> unat (u ! n)" by (auto simp: top_bit)
  with Suc show ?case by (auto split: if_splits)
qed simp

lemma neg_bytes_valid:
  assumes "length u = 8" "128 \<le> unat (u ! 7)"
  defines "bytes \<equiv> rev (take (int64_start u 7 + 1) u)"
  shows "CBS_is_valid_asn1_integer bytes = Some True" "length bytes \<le> 8" "int64_fill True bytes = u"
proof -
  let ?k = "int64_start u 7"
  have k: "?k \<le> 7" by (rule int64_start_le)
  have top: "128 \<le> unat (u ! ?k)" by (rule int64_start_negative [OF assms(2)])
  then have nz: "u ! ?k \<noteq> 0" by auto
  have bytes: "bytes = u ! ?k # rev (take ?k u)"
    unfolding bytes_def using k assms(1) by (simp add: take_Suc_conv_app_nth)
  show "CBS_is_valid_asn1_integer bytes = Some True"
  proof (cases ?k)
    case 0
    then show ?thesis using bytes top by (simp add: valid_integer_simps)
  next
    case (Suc j)
    then have "rev (take ?k u) = u ! j # rev (take j u)" using k assms(1) by (simp add: take_Suc_conv_app_nth)
    then show ?thesis using bytes top nz int64_start_minimal [OF Suc] Suc by (simp add: valid_integer_simps)
  qed
  show "length bytes \<le> 8" unfolding bytes_def using k assms(1) by simp
  have "drop (?k + 1) u = replicate (8 - (?k + 1)) 0xff"
  proof (rule nth_equalityI)
    fix i
    assume "i < length (drop (?k + 1) u)"
    then show "drop (?k + 1) u ! i = replicate (8 - (?k + 1)) 0xff ! i"
      using assms(1) int64_start_skipped [of u 7 "?k + 1 + i"] by simp
  qed (simp add: assms(1))
  then show "int64_fill True bytes = u"
    unfolding int64_fill_def bytes_def using k assms(1) append_take_drop_id [of "?k + 1" u] by (simp add: min_def)
qed

lemma to_signed_neg: "n < 2 ^ 64 \<Longrightarrow> \<not> n < 2 ^ 63 \<Longrightarrow> \<not> 0 \<le> to_signed 64 n"
  by (simp add: to_signed_def)

lemma add_int64_in_child:
  "CBB_add_asn1_int64 h d s (to_signed 64 (unat (v :: 64 word))) =
     in_child (\<lambda>h d s. CBB_add_asn1 h d s 2)
       (\<lambda>h d s v. add_all CBB_add_u8 h d s (der_int (to_signed 64 (unat v)))) h d s v"
proof -
  have v: "unat v < 2 ^ 64" using unsigned_less [where 'a = nat, of v] by simp
  then have again: "of_signed 64 (to_signed 64 (unat v)) = unat v" by (intro of_signed_to_signed) simp_all
  show ?thesis
  proof (cases "unat v < 2 ^ 63")
    case True
    then have i: "to_signed 64 (unat v) = uint v" by (simp add: to_signed_def)
    then have e: "der_int (to_signed 64 (unat v)) = der_uint (unat v)" by (simp add: der_int_def)
    have "CBB_add_asn1_int64 h d s (to_signed 64 (unat v)) = CBB_add_asn1_uint64 h d s v"
      using i by (simp add: CBB_add_asn1_int64_def)
    then show ?thesis unfolding in_child_def e by (simp add: add_uint64_in_child in_child_def)
  next
    case False
    let ?u = "le_bytes 8 (unat v)"
    have neg: "\<not> 0 \<le> to_signed 64 (unat v)" using to_signed_neg [OF v False] .
    have top: "128 \<le> unat (?u ! 7)"
    proof -
      have "?u \<noteq> []" by (metis length_le_bytes list.size(3) zero_neq_numeral)
      then have "?u ! 7 = hd (be_bytes 8 (unat v))"
        by (simp add: be_bytes_def hd_rev last_conv_nth)
      also have "be_bytes 8 (unat v) = word_of_nat (unat v div 256 ^ 7) # be_bytes 7 (unat v)"
        using be_bytes_Cons [of 7 "unat v"] by simp
      finally have "unat (?u ! 7) = unat v div 256 ^ 7 mod 256" by (simp add: unsigned_of_nat take_bit_eq_mod)
      moreover have "128 \<le> unat v div 256 ^ 7" using False by (simp add: less_eq_div_iff_mult_less_eq)
      moreover have "unat v div 256 ^ 7 < 256" using v by (simp add: less_mult_imp_div_less)
      ultimately show ?thesis by simp
    qed
    note val = neg_bytes_valid [OF length_le_bytes top]
    have "le_val ?u = unat v" using v by (simp add: le_val_le_bytes)
    then have "v = word_of_nat (le_val ?u)" by simp
    then have "rev (take (int64_start ?u 7 + 1) ?u) = der_int (to_signed 64 (unat v))"
      by (intro int64_contents_iff [THEN iffD1]) (use val in \<open>metis\<close>)
    moreover have "int64_start ?u 7 + 1 \<le> length ?u" using int64_start_le [of ?u 7] by simp
    ultimately have down: "add_bytes_down h d s ?u (int64_start ?u 7 + 1) =
      add_all CBB_add_u8 h d s (der_int (to_signed 64 (unat v)))" for h d s
      using add_bytes_down_all [of "int64_start ?u 7 + 1" ?u] by metis
    show ?thesis
      unfolding CBB_add_asn1_int64_def in_child_def Let_def again down using neg by simp
  qed
qed

interpretation add_int64: appender "\<lambda>h d s v. CBB_add_asn1_int64 h d s (to_signed 64 (unat (v :: 64 word)))"
  "\<lambda>v. der_element 2 (der_int (to_signed 64 (unat v)))" "\<lambda>_. True" "\<lambda>_. True"
proof -
  note app = element_appender [OF byte_list_filler [of "\<lambda>v :: 64 word. der_int (to_signed 64 (unat v))"]
      add_int64_in_child]
  show "appender (\<lambda>h d s v. CBB_add_asn1_int64 h d s (to_signed 64 (unat (v :: 64 word))))
    (\<lambda>v. der_element 2 (der_int (to_signed 64 (unat v)))) (\<lambda>_. True) (\<lambda>_. True)"
    by (rule appender_cong [OF app]) (simp_all add: order_trans [OF length_der_int64])
qed

section \<open>Length-prefixed strings\<close>

lemma add_length_prefixed_ok:
  assumes "cbb_ok s" "0 < k" "k \<le> 8" "cbb_add_length_prefixed h d s k = (r, s')"
  shows "if r then child_opened h d s [] k False s' else cbb_ok s'"
proof -
  obtain r1 s1 where fl: "CBB_flush h d s = (r1, s1)" by (cases "CBB_flush h d s")
  show ?thesis
  proof (cases r1)
    case False
    then show ?thesis using assms(4) fl flush_ok(1) [OF assms(1) fl] by (simp add: cbb_add_length_prefixed_def)
  next
    case True
    then have app: "appended h d s [] s1" using flush_appended [OF assms(1)] fl by simp
    then obtain c where c: "flushed d s = Some c" "settled d s1 c" by (auto simp: appended_def)
    obtain r2 s2 where ob: "on_buffer s1 (append_bytes h (replicate k 0)) = (r2, s2)"
      by (cases "on_buffer s1 (append_bytes h (replicate k 0))")
    have ext: "extends (replicate k 0) (append_bytes h (replicate k 0))"
      using assms(3) by (intro extends_append) (simp add: size_mod_def)
    note ok = on_buffer_ok [OF c(2) ext ob]
    show ?thesis
    proof (cases r2)
      case False
      then show ?thesis using assms(4) fl True ob ok(1) by (simp add: cbb_add_length_prefixed_def)
    next
      case r2: True
      have "child_opened h d s [] k False (open_child d s2 (base_len s1) k False)"
        by (rule open_child_settled [OF app _ c(1)]) (use ok(2) [OF r2, where h = h] assms(2) in auto)
      then show ?thesis using assms(4) fl True ob r2 by (simp add: cbb_add_length_prefixed_def)
    qed
  qed
qed

lemma add_length_prefixed_room:
  assumes "settled d s c" "grows h s" "length (c @ [] @ replicate k 0) < size_mod"
  shows "fst (cbb_add_length_prefixed h d s k)"
proof -
  obtain b where b: "base s = Some b" "buf_ok b" "contents b = c" "can_resize b"
    using assms(1, 2) by (auto simp: settled_def grows_def split: option.splits)
  have "room h b (length (replicate k (0 :: byte)))"
    using assms(2, 3) b length_contents [OF b(2)] by (auto simp: room_def grows_def)
  then have "fst (append_bytes h (replicate k 0) b)" using append_room [OF _ b(2)] by blast
  then show ?thesis
    using b(1) flush_settled [OF assms(1), of h]
    by (cases "append_bytes h (replicate k 0) b") (simp add: cbb_add_length_prefixed_def on_buffer_def)
qed

text \<open>A string in a child with a length prefix of \<open>k\<close> bytes.\<close>

lemma vector_appender:
  assumes "0 < k" "k \<le> 8"
  shows "appender (in_child (\<lambda>h d s. cbb_add_length_prefixed h d s k) CBB_add_bytes)
    (\<lambda>c. be_bytes k (length c) @ c) (\<lambda>c. length c < size_mod) (\<lambda>c. length c < 256 ^ k)"
proof -
  let ?pfx = "length_prefix \<lparr>offset = 0, pending_len_len = k, pending_is_asn1 = False\<rparr>"
  have app: "appender (in_child (\<lambda>h d s. cbb_add_length_prefixed h d s k) CBB_add_bytes)
    (\<lambda>c. [] @ the (?pfx (length c)) @ c) (\<lambda>c. length c < size_mod) (\<lambda>c. True \<and> ?pfx (length c) \<noteq> None)"
    by (rule in_child_appender [OF add_length_prefixed_ok add_length_prefixed_room add_bytes.filler_axioms])
      (use assms in auto)
  show ?thesis by (rule appender_cong [OF app]) (simp_all add: length_prefix_def)
qed

section \<open>Round trips\<close>

text \<open>A new builder, and the finished bytes.\<close>

lemma CBB_init_settled:
  assumes "\<forall>k. can_alloc h k" "n < size_mod"
  shows "\<exists>s. CBB_init h n = (True, s) \<and> settled 0 s [] \<and> grows h s"
  using assms
  by (auto simp: CBB_init_def cbb_init_def CBB_zero_def settled_def grows_def buf_ok_def contents_def)

lemma CBB_finish_settled:
  "settled 0 s c \<Longrightarrow> \<exists>b s'. CBB_finish h 0 s True True = (Some (b, length c), s') \<and> take (length c) b = c"
  using flush_settled [of 0 s c h] settled_length [of 0 s c]
  by (auto simp: CBB_finish_def settled_def base_len_def contents_def split: option.splits)

locale round_trip = appender op enc pre fits + prefix_codec get enc ok
  for op :: "heap_env \<Rightarrow> nat \<Rightarrow> CBB \<Rightarrow> 'v \<Rightarrow> bool \<times> CBB" and enc pre fits get ok +
  assumes fits_ok: "fits v \<Longrightarrow> ok v"
begin

text \<open>What was written at any depth of a builder reads back.\<close>

lemma read_back:
  assumes "cbb_ok s" "pre v" "op h d s v = (True, s')"
  shows "\<exists>c w. flushed d s = Some c \<and> settled d s' (c @ w) \<and> get (w @ rest) = (Some v, rest)"
  using appends [OF assms] get_enc [OF fits_ok, of v rest] by (auto simp: appended_def)

text \<open>A list of values goes through the builder, the finished bytes and the parser unchanged.\<close>

lemma list_round_trip:
  assumes "\<forall>k. can_alloc h k" "n < size_mod" "list_all pre vs" "list_all fits vs"
    "length (concat (map enc vs)) < size_mod"
  shows "\<exists>s s' s'' b m. CBB_init h n = (True, s) \<and> add_all op h 0 s vs = (True, s') \<and>
    CBB_finish h 0 s' True True = (Some (b, m), s'') \<and> read_n get (length vs) (take m b) = (Some vs, [])"
proof -
  obtain s where s: "CBB_init h n = (True, s)" "settled 0 s []" "grows h s"
    using CBB_init_settled [OF assms(1, 2)] by auto
  obtain s' where s': "add_all op h 0 s vs = (True, s')"
    using all_succeeds [OF s(2) assms(3, 4) s(3)] assms(5) by (cases "add_all op h 0 s vs") simp
  then have "settled 0 s' (concat (map enc vs))" using all_appends [OF s(2) assms(3)] by simp
  then obtain b s'' where b: "CBB_finish h 0 s' True True = (Some (b, length (concat (map enc vs))), s'')"
    "take (length (concat (map enc vs))) b = concat (map enc vs)" using CBB_finish_settled by blast
  have "list_all ok vs" using assms(4) fits_ok by (auto simp: list_all_iff)
  then have "read_n get (length vs) (concat (map enc vs)) = (Some vs, [])" by (simp add: read_n_iff)
  with s(1) s' b show ?thesis by force
qed

end

interpretation rt_int64: round_trip "\<lambda>h d s v. CBB_add_asn1_int64 h d s (to_signed 64 (unat (v :: 64 word)))"
  "\<lambda>v. der_element 2 (der_int (to_signed 64 (unat v)))" "\<lambda>_. True" "\<lambda>_. True" CBS_get_asn1_int64 "\<lambda>_. True"
  by unfold_locales simp

interpretation rt_uint64: round_trip CBB_add_asn1_uint64
  "\<lambda>v. der_element 2 (der_uint (unat v))" "\<lambda>_. True" "\<lambda>_. True" CBS_get_asn1_uint64 "\<lambda>_. True"
  by unfold_locales simp

interpretation rt_u16: round_trip CBB_add_u16 "\<lambda>v. be_bytes 2 (unat v)" "\<lambda>_. True" "\<lambda>v. unat v < 256 ^ 2"
  CBS_get_u16 "\<lambda>_. True"
  by unfold_locales simp

interpretation rt_u24: round_trip CBB_add_u24 "\<lambda>v. be_bytes 3 (unat v)" "\<lambda>_. True" "\<lambda>v. unat v < 256 ^ 3"
  CBS_get_u24 "\<lambda>v. unat v < 2 ^ 24"
  by unfold_locales simp

interpretation rt_vector16: round_trip
  "in_child (\<lambda>h d s. cbb_add_length_prefixed h d s 2) CBB_add_bytes"
  "\<lambda>c. be_bytes 2 (length c) @ c" "\<lambda>c. length c < size_mod" "\<lambda>c. length c < 256 ^ 2"
  CBS_get_u16_length_prefixed "\<lambda>c. length c < 256 ^ 2"
  by (rule round_trip.intro [OF vector_appender u16p.prefix_codec_axioms]; unfold_locales?; simp)

end
