(* ===== verification/Cbb_Tree.thy ===== *)
theory Cbb_Tree
  imports Cbb_Values
begin

unbundle bit_operations_syntax

text \<open>
  Nested elements.  Clients of the builder open children inside children and rely on the next
  operation to close them.  An ASN.1 value of any depth that is written this way comes out as its
  DER encoding; and the parser takes it apart again.
\<close>

section \<open>Flushing one level more\<close>

lemma flushed_Suc:
  assumes "cbb_ok s" "d < length (children s)"
  shows "flushed d s =
    (case flushed (d + 1) s of
       None \<Rightarrow> None
     | Some x \<Rightarrow>
         let c = children s ! d; inner = drop (offset c + pending_len_len c) x
         in map_option (\<lambda>p. take (offset c) x @ p @ inner) (length_prefix c (length inner)))"
proof (cases "base s")
  case None
  then show ?thesis by (simp add: flushed_def)
next
  case (Some b)
  show ?thesis
  proof (cases "error b")
    case True
    then show ?thesis using Some by (simp add: flushed_def)
  next
    case False
    let ?c = "children s ! d" and ?cs = "take d (children s)" and ?rest = "drop (Suc d) (children s)"
    let ?stop = "offset ?c + pending_len_len ?c" and ?lo = "chain_end 0 ?cs" and ?d = "contents b"
    have dec: "drop d (children s) = ?c # ?rest" using Cons_nth_drop_Suc [OF assms(2)] by simp
    have tak: "take (Suc d) (children s) = ?cs @ [?c]" using assms(2) by (simp add: take_Suc_conv_app_nth)
    have ok: "buf_ok b" "chain_ok 0 (len b) (?cs @ ?c # ?rest)"
      using assms(1) Some False dec append_take_drop_id [of d "children s"] by (simp_all add: cbb_ok_def)
    then have c: "?lo \<le> offset ?c" "chain_ok ?stop (len b) ?rest" by (simp_all add: chain_ok_append)
    have le: "?stop \<le> length ?d" using chain_ok_le [OF c(2)] length_contents [OF ok(1)] by simp
    have cut: "take ?lo ?d @ take (offset ?c - ?lo) (drop ?lo ?d) = take (offset ?c) ?d"
      using c(1) take_add [of ?lo "offset ?c - ?lo" ?d] by simp
    show ?thesis
    proof (cases "denote ?d ?stop ?rest")
      case None
      then show ?thesis using Some False assms(2) dec tak by (simp add: flushed_def Let_def)
    next
      case inn: (Some inn)
      have up: "flushed (d + 1) s = Some (take ?stop ?d @ inn)"
        using Some False assms(2) inn tak by (simp add: flushed_def Let_def)
      have "flushed d s = map_option (\<lambda>p. (take ?lo ?d @ take (offset ?c - ?lo) (drop ?lo ?d)) @ p @ inn)
          (length_prefix ?c (length inn))"
        using Some False assms(2) inn dec by (simp add: flushed_def Let_def option.map_comp comp_def)
      also have "\<dots> = map_option (\<lambda>p. take (offset ?c) (take ?stop ?d @ inn) @ p @ drop ?stop (take ?stop ?d @ inn))
          (length_prefix ?c (length (drop ?stop (take ?stop ?d @ inn))))"
        unfolding cut using le by (simp add: min_def)
      finally show ?thesis using up by (simp add: Let_def)
    qed
  qed
qed

section \<open>Values of any depth\<close>

datatype asn1 = Primitive "32 word" "byte list" | Constructed "32 word" "asn1 list"

text \<open>The DER encoding, for elements of less than \<open>2\<^sup>3\<^sup>2 - 1\<close> bytes.\<close>

fun der :: "asn1 \<Rightarrow> byte list option" and der_list :: "asn1 list \<Rightarrow> byte list option" where
  "der (Primitive t c) = (if length c \<le> 0xfffffffe then Some (der_element t c) else None)"
| "der (Constructed t xs) =
     (case der_list xs of
        None \<Rightarrow> None
      | Some c \<Rightarrow> if length c \<le> 0xfffffffe then Some (der_element t c) else None)"
| "der_list [] = Some []"
| "der_list (x # xs) =
     (case (der x, der_list xs) of (Some c, Some cs) \<Rightarrow> Some (c @ cs) | _ \<Rightarrow> None)"

text \<open>A client that writes a value at depth \<open>d\<close>, leaving the children open.\<close>

fun build :: "heap_env \<Rightarrow> nat \<Rightarrow> CBB \<Rightarrow> asn1 \<Rightarrow> bool \<times> CBB"
  and build_list :: "heap_env \<Rightarrow> nat \<Rightarrow> CBB \<Rightarrow> asn1 list \<Rightarrow> bool \<times> CBB" where
  "build h d s (Primitive t c) =
     (case CBB_add_asn1 h d s t of
        (False, s1) \<Rightarrow> (False, s1)
      | (True, s1) \<Rightarrow> CBB_add_bytes h (d + 1) s1 c)"
| "build h d s (Constructed t xs) =
     (case CBB_add_asn1 h d s t of
        (False, s1) \<Rightarrow> (False, s1)
      | (True, s1) \<Rightarrow> build_list h (d + 1) s1 xs)"
| "build_list h d s [] = (True, s)"
| "build_list h d s (x # xs) =
     (case build h d s x of
        (False, s1) \<Rightarrow> (False, s1)
      | (True, s1) \<Rightarrow> build_list h d s1 xs)"

text \<open>The sizes of the strings in the model are those of C objects.\<close>

fun sized :: "asn1 \<Rightarrow> bool" and sized_list :: "asn1 list \<Rightarrow> bool" where
  "sized (Primitive t c) \<longleftrightarrow> length c < size_mod"
| "sized (Constructed t xs) \<longleftrightarrow> sized_list xs"
| "sized_list [] \<longleftrightarrow> True"
| "sized_list (x # xs) \<longleftrightarrow> sized x \<and> sized_list xs"

text \<open>What a client that wrote \<open>w\<close> at depth \<open>d\<close> leaves: the enclosing children as they were.\<close>

definition pending :: "heap_env \<Rightarrow> nat \<Rightarrow> CBB \<Rightarrow> byte list option \<Rightarrow> CBB \<Rightarrow> bool" where
  "pending h d s w s' \<longleftrightarrow>
     cbb_ok s' \<and> d \<le> length (children s') \<and> take d (children s') = take d (children s) \<and>
     grows h s' = grows h s \<and>
     (\<exists>c. flushed d s = Some c \<and> flushed d s' = map_option ((@) c) w)"

lemma appended_pending: "appended h d s w s' \<Longrightarrow> pending h d s (Some w) s'"
  unfolding appended_def pending_def
  using settled_ok settled_flushed settled_depth by (metis eq_refl option.map(2) take_all)

lemma pending_append:
  "pending h d s (Some w) s1 \<Longrightarrow> pending h d s1 w' s2 \<Longrightarrow> pending h d s (map_option ((@) w) w') s2"
  by (cases w') (auto simp: pending_def)

lemma close_pending:
  assumes "child_opened h d s x 1 True s1" "pending h (d + 1) s1 w s2"
  shows "pending h d s (case w of None \<Rightarrow> None
    | Some c \<Rightarrow> if length c \<le> 0xfffffffe then Some (x @ der_length (length c) @ c) else None) s2"
proof -
  obtain c where c: "flushed d s = Some c" "settled (d + 1) s1 (c @ x @ [0])" "grows h s1 = grows h s"
    "children s1 = take d (children s) @ [\<lparr>offset = length (c @ x), pending_len_len = 1, pending_is_asn1 = True\<rparr>]"
    using assms(1) by (auto simp: child_opened_def)
  let ?ch = "\<lparr>offset = length (c @ x), pending_len_len = 1, pending_is_asn1 = True\<rparr>"
  have p: "cbb_ok s2" "d + 1 \<le> length (children s2)" "take (d + 1) (children s2) = children s1"
    "grows h s2 = grows h s1" "flushed (d + 1) s2 = map_option ((@) (c @ x @ [0])) w"
    using assms(2) settled_flushed [OF c(2)] settled_depth [OF c(2)] by (auto simp: pending_def)
  have d: "length (take d (children s)) = d" using settled_depth [OF c(2)] c(4) by simp
  have nth: "children s2 ! d = ?ch"
    using p(2, 3) c(4) d by (metis Suc_eq_plus1 lessI nth_append_length nth_take)
  have tk: "take d (children s2) = take d (children s)"
    using p(3) c(4) d by (metis append_eq_conv_conj le_add1 min.absorb1 take_take)
  have "flushed d s2 = map_option ((@) c) (case w of None \<Rightarrow> None
    | Some c \<Rightarrow> if length c \<le> 0xfffffffe then Some (x @ der_length (length c) @ c) else None)"
    unfolding flushed_Suc [OF p(1) Suc_le_lessD [OF p(2) [unfolded Suc_eq_plus1 [symmetric]]]] p(5) nth
    by (cases w) (auto simp: Let_def length_prefix_def)
  then show ?thesis using p c tk by (simp add: pending_def)
qed

lemma build_pending:
  shows "cbb_ok s \<Longrightarrow> sized x \<Longrightarrow> build h d s x = (True, s') \<Longrightarrow> pending h d s (der x) s'"
    and "cbb_ok s \<Longrightarrow> sized_list xs \<Longrightarrow> build_list h d s xs = (True, s') \<Longrightarrow>
      (flushed d s \<noteq> None \<longrightarrow> pending h d s (der_list xs) s') \<and> (flushed d s = None \<longrightarrow> xs = [] \<and> s' = s)"
proof (induction h d s x and h d s xs arbitrary: s' and s' rule: build_build_list.induct)
  case (1 h d s t c)
  obtain s1 where s1: "CBB_add_asn1 h d s t = (True, s1)" "CBB_add_bytes h (d + 1) s1 c = (True, s')"
    using 1(3) by (auto split: prod.splits bool.splits)
  have op: "child_opened h d s (der_tag t) 1 True s1" using add_asn1_ok [OF 1(1) s1(1)] by simp
  then have "cbb_ok s1" by (auto simp: child_opened_def settled_ok)
  then have "pending h (d + 1) s1 (Some c) s'"
    using add_bytes.appends [OF _ _ s1(2)] 1(2) by (auto intro: appended_pending)
  from close_pending [OF op this] show ?case
    by (simp add: der_element_def der_header_def split: if_splits)
next
  case (2 h d s t xs)
  obtain s1 where s1: "CBB_add_asn1 h d s t = (True, s1)" "build_list h (d + 1) s1 xs = (True, s')"
    using 2(4) by (auto split: prod.splits bool.splits)
  have op: "child_opened h d s (der_tag t) 1 True s1" using add_asn1_ok [OF 2(2) s1(1)] by simp
  then obtain c where "settled (d + 1) s1 c" by (auto simp: child_opened_def)
  then have "pending h (d + 1) s1 (der_list xs) s'"
    using 2(1) [OF s1(1) [symmetric] refl _ _ s1(2)] 2(3) settled_ok settled_flushed by auto
  from close_pending [OF op this] show ?case
    by (auto simp: der_element_def der_header_def split: option.splits)
next
  case (3 h d s)
  then show ?case
    by (auto simp: pending_def flushed_def intro: option.map_ident split: option.splits if_splits)
next
  case (4 h d s x xs)
  obtain s1 where s1: "build h d s x = (True, s1)" "build_list h d s1 xs = (True, s')"
    using 4(5) by (auto split: prod.splits bool.splits)
  have x: "pending h d s (der x) s1" using 4(1) [OF 4(3) _ s1(1)] 4(4) by simp
  then have ok: "cbb_ok s1" "flushed d s \<noteq> None" by (auto simp: pending_def)
  note ih = 4(2) [OF s1(1) [symmetric] refl ok(1) _ s1(2)]
  show ?case
  proof (cases "der x")
    case None
    then have "flushed d s1 = None" using x by (auto simp: pending_def)
    then show ?thesis using ih 4(4) x ok(2) None by simp
  next
    case (Some w)
    then have "flushed d s1 \<noteq> None" using x by (auto simp: pending_def)
    then have "pending h d s (map_option ((@) w) (der_list xs)) s'"
      using ih 4(4) x Some pending_append by auto
    then show ?thesis using ok(2) Some by (cases "der_list xs") auto
  qed
qed

lemma add_asn1_flush_room:
  assumes "cbb_ok s" "flushed d s = Some c" "grows h s" "length (c @ der_tag t @ [0]) < size_mod"
  shows "\<exists>s1. CBB_add_asn1 h d s t = (True, s1) \<and> child_opened h d s (der_tag t) 1 True s1"
proof -
  obtain s0 where s0: "CBB_flush h d s = (True, s0)"
    using flush_room [OF assms(1-3)] assms(4) by (cases "CBB_flush h d s") simp
  have c: "settled d s0 c" "grows h s0"
    using flush_ok(2) [OF assms(1) s0] assms(2, 3) by auto
  then have "fst (CBB_add_asn1 h d s0 t)" using add_asn1_room assms(4) by simp
  moreover have "CBB_add_asn1 h d s t = CBB_add_asn1 h d s0 t"
    using s0 flush_settled [OF c(1)] by (simp add: CBB_add_asn1_eq)
  ultimately obtain s1 where s1: "CBB_add_asn1 h d s t = (True, s1)" by (metis prod.collapse)
  then show ?thesis using add_asn1_ok [OF assms(1) s1] by simp
qed

lemma build_succeeds:
  shows "cbb_ok s \<Longrightarrow> sized x \<Longrightarrow> flushed d s = Some c \<Longrightarrow> grows h s \<Longrightarrow> der x = Some w \<Longrightarrow>
      length (c @ w) < size_mod \<Longrightarrow> fst (build h d s x)"
    and "cbb_ok s \<Longrightarrow> sized_list xs \<Longrightarrow> flushed d s = Some c \<Longrightarrow> grows h s \<Longrightarrow> der_list xs = Some w \<Longrightarrow>
      length (c @ w) < size_mod \<Longrightarrow> fst (build_list h d s xs)"
proof (induction h d s x and h d s xs arbitrary: c w and c w rule: build_build_list.induct)
  case (1 h d s t v)
  have w: "w = der_tag t @ der_length (length v) @ v" using 1(5) by (auto simp: der_element_def der_header_def split: if_splits)
  have "1 \<le> length (der_length (length v))" by (simp add: der_length_def)
  then obtain s1 where s1: "CBB_add_asn1 h d s t = (True, s1)" "child_opened h d s (der_tag t) 1 True s1"
    using add_asn1_flush_room [OF 1(1, 3, 4), of t] 1(6) w by auto
  then have "settled (d + 1) s1 (c @ der_tag t @ [0])" "grows h s1" using 1(3, 4) by (auto simp: child_opened_def)
  then have "fst (CBB_add_bytes h (d + 1) s1 v)"
    using add_bytes.succeeds [of "d + 1" s1 _ v h] 1(2, 6) w \<open>1 \<le> _\<close> by simp
  then show ?case using s1(1) by simp
next
  case (2 h d s t xs)
  obtain v where v: "der_list xs = Some v" "w = der_tag t @ der_length (length v) @ v"
    using 2(6) by (auto simp: der_element_def der_header_def split: option.splits if_splits)
  have "1 \<le> length (der_length (length v))" by (simp add: der_length_def)
  then obtain s1 where s1: "CBB_add_asn1 h d s t = (True, s1)" "child_opened h d s (der_tag t) 1 True s1"
    using add_asn1_flush_room [OF 2(2, 4, 5), of t] 2(7) v(2) by auto
  then have "settled (d + 1) s1 (c @ der_tag t @ [0])" "grows h s1" using 2(4, 5) by (auto simp: child_opened_def)
  then have "fst (build_list h (d + 1) s1 xs)"
    using 2(1) [OF s1(1) [symmetric] refl settled_ok _ settled_flushed _ v(1)] 2(3, 7) v(2) \<open>1 \<le> _\<close> by fastforce
  then show ?case using s1(1) by simp
next
  case (3 h d s)
  then show ?case by simp
next
  case (4 h d s x xs)
  obtain v vs where v: "der x = Some v" "der_list xs = Some vs" "w = v @ vs"
    using 4(7) by (auto split: option.splits)
  then obtain s1 where s1: "build h d s x = (True, s1)"
    using 4(1) [OF 4(3) _ 4(5, 6)] 4(4, 8) by (cases "build h d s x") auto
  then have "pending h d s (Some v) s1" using build_pending(1) [OF 4(3) _ s1] 4(4) v(1) by simp
  then have p: "cbb_ok s1" "flushed d s1 = Some (c @ v)" "grows h s1" using 4(5, 6) by (auto simp: pending_def)
  have "fst (build_list h d s1 xs)"
    using 4(2) [OF s1 [symmetric] refl p(1) _ p(2, 3) v(2)] 4(4, 8) v(3) by simp
  then show ?case using s1 by simp
qed

lemma finish_flushed:
  assumes "cbb_ok s" "flushed 0 s = Some c" "grows h s" "length c < size_mod"
  shows "\<exists>b s'. CBB_finish h 0 s True True = (Some (b, length c), s') \<and> take (length c) b = c"
proof -
  obtain s0 where s0: "CBB_flush h 0 s = (True, s0)"
    using flush_room [OF assms] by (cases "CBB_flush h 0 s") simp
  then have c: "settled 0 s0 c" using flush_ok(2) [OF assms(1) s0] assms(2) by auto
  then have "CBB_finish h 0 s True True = CBB_finish h 0 s0 True True"
    using s0 flush_settled [OF c] by (simp add: CBB_finish_def)
  then show ?thesis using CBB_finish_settled [OF c] by simp
qed

section \<open>Round trips through the builder and the parser\<close>

lemma build_finish:
  assumes "\<forall>k. can_alloc h k" "n < size_mod" "sized x" "der x = Some w" "length w < size_mod"
  shows "\<exists>s s' s'' b. CBB_init h n = (True, s) \<and> build h 0 s x = (True, s') \<and>
    CBB_finish h 0 s' True True = (Some (b, length w), s'') \<and> take (length w) b = w"
proof -
  obtain s where s: "CBB_init h n = (True, s)" "settled 0 s []" "grows h s"
    using CBB_init_settled [OF assms(1, 2)] by auto
  obtain s' where s': "build h 0 s x = (True, s')"
    using build_succeeds(1) [OF settled_ok [OF s(2)] assms(3) settled_flushed [OF s(2)] s(3) assms(4)] assms(5)
    by (cases "build h 0 s x") simp
  then have "pending h 0 s (Some w) s'"
    using build_pending(1) [OF settled_ok [OF s(2)] assms(3)] assms(4) by simp
  then have "cbb_ok s'" "flushed 0 s' = Some w" "grows h s'"
    using settled_flushed [OF s(2)] s(3) by (auto simp: pending_def)
  then obtain b s'' where "CBB_finish h 0 s' True True = (Some (b, length w), s'')" "take (length w) b = w"
    using finish_flushed assms(5) by blast
  with s(1) s' show ?thesis by blast
qed

text \<open>The tag of a value and the contents octets that its element must carry.\<close>

fun asn1_tag :: "asn1 \<Rightarrow> 32 word" where
  "asn1_tag (Primitive t c) = t"
| "asn1_tag (Constructed t xs) = t"

fun asn1_body :: "asn1 \<Rightarrow> byte list option" where
  "asn1_body (Primitive t c) = Some c"
| "asn1_body (Constructed t xs) = der_list xs"

lemma der_parses:
  assumes "der x = Some w"
  shows "\<exists>c. asn1_body x = Some c \<and> w = der_element (asn1_tag x) c \<and>
    CBS_get_any_asn1 w = (Some (c, asn1_tag x), [])"
proof -
  obtain c where "asn1_body x = Some c" "w = der_element (asn1_tag x) c" "length c \<le> 0xfffffffe"
    using assms by (cases x) (auto split: option.splits if_splits)
  then show ?thesis by (auto simp: CBS_get_any_asn1_iff)
qed

text \<open>C1. Nested elements: a client that writes an ASN.1 value of any depth by opening children inside
  children, and never closes one by hand, gets from \<open>CBB_finish\<close> exactly the DER encoding of the
  value, whenever the heap has memory and no element reaches \<open>2\<^sup>3\<^sup>2 - 1\<close> bytes; and
  \<open>CBS_get_any_asn1\<close> consumes all these bytes and returns the tag of the value and its contents: the
  octets of a primitive value, the concatenated encodings of the parts of a constructed one.\<close>

theorem nested_build_is_der:
  assumes "\<forall>k. can_alloc h k" "n < size_mod" "sized x" "der x = Some w" "length w < size_mod"
  shows "\<exists>s s' s'' b m c. CBB_init h n = (True, s) \<and> build h 0 s x = (True, s') \<and>
    CBB_finish h 0 s' True True = (Some (b, m), s'') \<and> take m b = w \<and>
    asn1_body x = Some c \<and> w = der_element (asn1_tag x) c \<and>
    CBS_get_any_asn1 (take m b) = (Some (c, asn1_tag x), [])"
  using build_finish [OF assms] der_parses [OF assms(4)] by metis

theorem nested_build_is_der_witness:
  "let h = \<lparr>can_alloc = \<lambda>_. True, junk = \<lambda>_. 0\<rparr> in \<exists>s s' s'' b m. CBB_init h 0 = (True, s) \<and>
    build h 0 s (Constructed 0x20000010 [Primitive 2 [5], Primitive 4 [1, 2]]) = (True, s') \<and>
    CBB_finish h 0 s' True True = (Some (b, m), s'') \<and> take m b = [0x30, 7, 2, 1, 5, 4, 2, 1, 2] \<and>
    CBS_get_any_asn1 (take m b) = (Some ([2, 1, 5, 4, 2, 1, 2], 0x20000010), [])"
proof -
  let ?h = "\<lparr>can_alloc = \<lambda>_. True, junk = \<lambda>_. 0\<rparr>"
  let ?x = "Constructed 0x20000010 [Primitive 2 [5], Primitive 4 [1, 2]]"
  let ?w = "[0x30, 7, 2, 1, 5, 4, 2, 1, 2] :: byte list"
  have h: "\<forall>k. can_alloc ?h k" by simp
  have n: "0 < size_mod" by simp
  have sz: "sized ?x" by (simp add: size_mod_def)
  have tags: "der_tag 0x20000010 = [0x30]" "der_tag 2 = [2]" "der_tag 4 = [4]" by code_simp+
  have d: "der ?x = Some ?w" and c: "asn1_body ?x = Some [2, 1, 5, 4, 2, 1, 2]"
    by (simp_all add: tags der_element_def der_header_def der_length_def)
  have "length ?w < size_mod" by (simp add: size_mod_def)
  from nested_build_is_der [OF h n sz d this] show ?thesis
    unfolding c option.inject asn1_tag.simps Let_def
    by (elim exE conjE) (rule exI, rule exI, rule exI, rule exI, rule exI, intro conjI, assumption+, simp)
qed

text \<open>C15. Integers: any list of 64-bit values written with \<open>CBB_add_asn1_int64\<close>, finished with
  \<open>CBB_finish\<close> and read with \<open>CBS_get_asn1_int64\<close> comes back unchanged, negative values
  included, and nothing is left over; no step of the run fails when the heap has memory.\<close>

theorem int64_list_round_trip:
  assumes "\<forall>k. can_alloc h k" "n < size_mod"
    "length (concat (map (\<lambda>v. der_element 2 (der_int (to_signed 64 (unat v)))) vs)) < size_mod"
  shows "\<exists>s s' s'' b m. CBB_init h n = (True, s) \<and>
    add_all (\<lambda>h d s v. CBB_add_asn1_int64 h d s (to_signed 64 (unat v))) h 0 s vs = (True, s') \<and>
    CBB_finish h 0 s' True True = (Some (b, m), s'') \<and>
    read_n CBS_get_asn1_int64 (length vs) (take m b) = (Some (vs :: 64 word list), [])"
  by (rule rt_int64.list_round_trip [OF assms(1, 2) _ _ assms(3)]) (simp_all add: list_all_iff)

theorem int64_list_round_trip_witness:
  "let h = \<lparr>can_alloc = \<lambda>_. True, junk = \<lambda>_. 0\<rparr> in \<exists>s s' s'' b m. CBB_init h 0 = (True, s) \<and>
    add_all (\<lambda>h d s v. CBB_add_asn1_int64 h d s (to_signed 64 (unat v))) h 0 s [- 1, 300 :: 64 word] = (True, s') \<and>
    CBB_finish h 0 s' True True = (Some (b, m), s'') \<and>
    read_n CBS_get_asn1_int64 2 (take m b) = (Some [- 1, 300 :: 64 word], [])"
proof -
  let ?h = "\<lparr>can_alloc = \<lambda>_. True, junk = \<lambda>_. 0\<rparr>"
  let ?vs = "[- 1, 300 :: 64 word]"
  have "\<forall>k. can_alloc ?h k" by simp
  moreover have "0 < size_mod" by simp
  moreover have "length (der_element 2 (der_int (to_signed 64 (unat v)))) \<le> 10" for v :: "64 word"
    using length_der_int64 [of v] by (simp add: der_element_2 der_length_def)
  then have "length (concat (map (\<lambda>v. der_element 2 (der_int (to_signed 64 (unat v)))) ?vs)) \<le> 10 + 10"
    by (simp only: list.map concat.simps length_append list.size add_mono add_0_right)
  then have "length (concat (map (\<lambda>v. der_element 2 (der_int (to_signed 64 (unat v)))) ?vs)) < size_mod"
    by (rule le_less_trans) (simp add: size_mod_def)
  ultimately have "\<exists>s s' s'' b m. CBB_init ?h 0 = (True, s) \<and>
    add_all (\<lambda>h d s v. CBB_add_asn1_int64 h d s (to_signed 64 (unat v))) ?h 0 s ?vs = (True, s') \<and>
    CBB_finish ?h 0 s' True True = (Some (b, m), s'') \<and>
    read_n CBS_get_asn1_int64 (length ?vs) (take m b) = (Some ?vs, [])" by (rule int64_list_round_trip)
  moreover have "length ?vs = 2" by simp
  ultimately show ?thesis unfolding Let_def by (simp only:)
qed

end
