(* ===== verification/Cbb_Inv.thy ===== *)
theory Cbb_Inv
  imports Cbb_Tree "HOL-Library.Multiset"
begin

unbundle bit_operations_syntax

text \<open>
  The builder as a state machine: every state that its operations reach, in any order and with any
  failures, satisfies the invariant, so that no operation writes outside of the buffer.  Once a
  buffer has failed, every later operation fails.  \<open>CBB_flush_asn1_set_of\<close> sorts the elements of
  a SET.
\<close>

section \<open>The remaining operations keep the invariant\<close>

lemma on_buffer_keeps:
  assumes "settled d s c"
    "\<And>b r b'. buf_ok b \<Longrightarrow> f b = (r, b') \<Longrightarrow> if r then \<exists>w. becomes b (contents b @ w) b' else failed b'"
    "on_buffer s f = (r, s')"
  shows "cbb_ok s'"
proof -
  obtain b where b: "base s = Some b" "buf_ok b" "contents b = c" "chain_ok 0 (len b) (children s)"
    using assms(1) by (auto simp: settled_def split: option.splits)
  obtain b' where f: "f b = (r, b')" "s' = s\<lparr>base := Some b'\<rparr>" using assms(3) b(1)
    by (auto simp: on_buffer_def split: prod.splits)
  show ?thesis
  proof (cases r)
    case True
    then obtain w where w: "becomes b (contents b @ w) b'" using assms(2) [OF b(2) f(1)] by auto
    then have "len b \<le> len b'" using becomes_len [OF w] length_contents [OF b(2)] by simp
    then have "chain_ok 0 (len b') (children s)" using b(4) chain_ok_iff by (metis order_trans)
    then show ?thesis using w f(2) by (simp add: cbb_ok_def becomes_def)
  next
    case False
    then show ?thesis using assms(2) [OF b(2) f(1)] f(2) by (simp add: cbb_ok_def failed_def)
  qed
qed

lemma with_buffer_keeps:
  assumes "cbb_ok s"
    "\<And>b r b'. buf_ok b \<Longrightarrow> f b = (r, b') \<Longrightarrow> if r then \<exists>w. becomes b (contents b @ w) b' else failed b'"
    "with_buffer h d s f = (r, s')"
  shows "cbb_ok s'"
proof (cases "CBB_flush h d s")
  case (Pair r1 s1)
  show ?thesis
  proof (cases r1)
    case False
    then show ?thesis using assms(3) Pair flush_ok(1) [OF assms(1) Pair] by (simp add: with_buffer_def)
  next
    case True
    then obtain c where "settled d s1 c" using flush_ok(2) [OF assms(1) Pair] by auto
    then show ?thesis using on_buffer_keeps [OF _ assms(2)] assms(3) Pair True by (simp add: with_buffer_def)
  qed
qed

lemma add_space_keeps: "cbb_ok s \<Longrightarrow> n < size_mod \<Longrightarrow> CBB_add_space h d s n = (r, s') \<Longrightarrow> cbb_ok s'"
  unfolding CBB_add_space_def
  by (erule (1) with_buffer_keeps [rotated 2]) (use add_ok in \<open>fastforce split: if_splits\<close>)

lemma reserve_keeps: "cbb_ok s \<Longrightarrow> n < size_mod \<Longrightarrow> CBB_reserve h d s n = (r, s') \<Longrightarrow> cbb_ok s'"
  unfolding CBB_reserve_def
  by (erule (1) with_buffer_keeps [rotated 2])
    (use reserve_ok in \<open>fastforce split: if_splits intro: exI [of _ "[]"]\<close>)

text \<open>Zeros are bytes.\<close>

lemma add_zeros_bytes: "CBB_add_zeros h d s n = CBB_add_bytes h d s (replicate n 0)"
proof -
  have len: "len b' = len b + n" if "cbb_buffer_add h b n = (True, b')" for b b'
    using that by (auto simp: cbb_buffer_add_def cbb_buffer_reserve_def Let_def split: if_splits prod.splits bool.splits)
  show ?thesis
    unfolding CBB_add_zeros_def CBB_add_space_def CBB_add_bytes_def with_buffer_def on_buffer_def append_bytes_def
    by (cases "CBB_flush h d s") (auto split: prod.splits bool.splits option.splits dest: len)
qed

interpretation add_zeros: appender CBB_add_zeros "\<lambda>n. replicate n 0"
  "\<lambda>n. length (replicate n (0 :: byte)) < size_mod" "\<lambda>_. True"
  using appender_comp [OF add_bytes.appender_axioms, of "\<lambda>n. replicate n 0"] by (simp add: add_zeros_bytes [symmetric])

lemma did_write_keeps: "cbb_ok s \<Longrightarrow> CBB_did_write d s n = (r, s') \<Longrightarrow> cbb_ok s'"
proof -
  assume ok: "cbb_ok s" and run: "CBB_did_write d s n = (r, s')"
  have mono: "chain_ok 0 m cs \<Longrightarrow> m \<le> m' \<Longrightarrow> chain_ok 0 m' cs" for m m' cs
    using chain_ok_iff by (metis order_trans)
  show "cbb_ok s'"
    using ok run mono
    by (auto simp: CBB_did_write_def cbb_ok_def buf_ok_def Let_def split: option.splits if_splits)
qed

definition cbb_error :: "CBB \<Rightarrow> bool" where
  "cbb_error s = (case base s of None \<Rightarrow> False | Some b \<Rightarrow> error b)"

lemma discard_child_keeps:
  assumes "cbb_ok s" "\<not> cbb_error s"
  shows "cbb_ok (CBB_discard_child d s)"
proof (cases "base s")
  case None
  then show ?thesis by (simp add: CBB_discard_child_def cbb_ok_def)
next
  case (Some b)
  show ?thesis
  proof (cases "length (children s) \<le> d")
    case True
    then show ?thesis using assms(1) by (simp add: CBB_discard_child_def)
  next
    case False
    let ?c = "children s ! d" and ?cs = "take d (children s)"
    have "children s = ?cs @ ?c # drop (Suc d) (children s)" using False by (simp add: id_take_nth_drop)
    moreover have "buf_ok b" "chain_ok 0 (len b) (children s)"
      using assms Some by (simp_all add: cbb_ok_def cbb_error_def)
    ultimately have c: "chain_ok 0 (chain_end 0 ?cs) ?cs" "chain_end 0 ?cs \<le> offset ?c"
      "offset ?c + pending_len_len ?c \<le> len b"
      using chain_ok_append [of 0 "len b" ?cs "?c # drop (Suc d) (children s)"] chain_ok_le by auto
    then have "chain_ok 0 (offset ?c) ?cs" using chain_ok_iff by blast
    then show ?thesis using Some False c(3) \<open>buf_ok b\<close>
      by (simp add: CBB_discard_child_def cbb_ok_def buf_ok_def)
  qed
qed

lemma length_prefixed_keeps:
  "cbb_ok s \<Longrightarrow> 0 < k \<Longrightarrow> k \<le> 8 \<Longrightarrow> cbb_add_length_prefixed h d s k = (r, s') \<Longrightarrow> cbb_ok s'"
  using add_length_prefixed_ok [of s k h d r s'] by (auto simp: child_opened_def settled_ok split: if_splits)

lemma add_asn1_keeps: "cbb_ok s \<Longrightarrow> CBB_add_asn1 h d s t = (r, s') \<Longrightarrow> cbb_ok s'"
  using add_asn1_ok [of s h d t r s'] by (auto simp: child_opened_def settled_ok split: if_splits)

lemma add_base128_keeps:
  "settled d s c \<Longrightarrow> add_base128_integer h d s v = (r, s') \<Longrightarrow>
   cbb_ok s' \<and> (r \<longrightarrow> settled d s' (c @ base128 (unat v)))"
  unfolding add_base128_all
  using add_u8.all_keeps [OF _ all_true] add_u8.all_appends [OF _ all_true] by fastforce

lemma oid_loop_keeps:
  "settled d s c \<Longrightarrow> oid_components_loop h d s cbs = (r, s') \<Longrightarrow> cbb_ok s'"
proof (induction h d s cbs arbitrary: c rule: oid_components_loop.induct)
  case (1 h d s cbs)
  show ?case
  proof (cases "CBS_len cbs > 0")
    case False
    then show ?thesis using 1(2, 3) settled_ok by (simp add: oid_components_loop.simps [of h d s cbs])
  next
    case True
    obtain ra cbs' where a: "parse_dotted_decimal cbs = (ra, cbs')" by (cases "parse_dotted_decimal cbs")
    show ?thesis
    proof (cases ra)
      case None
      then show ?thesis using 1(2, 3) a True settled_ok by (simp add: oid_components_loop.simps [of h d s cbs])
    next
      case (Some v)
      obtain r1 s1 where s1: "add_base128_integer h d s v = (r1, s1)" by (cases "add_base128_integer h d s v")
      note ok = add_base128_keeps [OF 1(2) s1]
      show ?thesis
      proof (cases r1)
        case False
        then show ?thesis using 1(3) a Some True s1 ok by (simp add: oid_components_loop.simps [of h d s cbs])
      next
        case r1: True
        then have "oid_components_loop h d s1 cbs' = (r, s')"
          using 1(3) a Some True s1 by (simp add: oid_components_loop.simps [of h d s cbs])
        then show ?thesis using 1(1) [OF True a [symmetric] Some s1 [symmetric]] ok r1 by blast
      qed
    qed
  qed
qed

lemma oid_from_text_keeps:
  assumes "cbb_ok s" "CBB_add_asn1_oid_from_text h d s text n = (r, s')"
  shows "cbb_ok s'"
proof (cases "CBB_flush h d s")
  case (Pair r1 s1)
  note fl = flush_ok [OF assms(1) Pair]
  show ?thesis
  proof (cases r1)
    case False
    then show ?thesis using assms(2) Pair fl by (simp add: CBB_add_asn1_oid_from_text_def)
  next
    case True
    then obtain c where c: "settled d s1 c" using fl(2) by auto
    show ?thesis
    proof (rule ccontr)
      assume bad: "\<not> cbb_ok s'"
      then obtain v cbs r2 s2 where s2: "add_base128_integer h d s1 v = (r2, s2)"
        "(case r2 of False \<Rightarrow> (False, s2) | True \<Rightarrow> oid_components_loop h d s2 cbs) = (r, s')"
        using assms(2) Pair True fl(1)
        by (auto simp: CBB_add_asn1_oid_from_text_def split: prod.splits option.splits if_splits)
      then show False
        using add_base128_keeps [OF c s2(1)] oid_loop_keeps bad by (cases r2) auto
    qed
  qed
qed

section \<open>Sorted sets\<close>

text \<open>The comparison of \<open>CBB_flush_asn1_set_of\<close> is the lexicographic order of byte strings.\<close>

lemma compare_simps:
  "compare_set_of_element [] [] = 0"
  "compare_set_of_element [] (y # ys) = - 1"
  "compare_set_of_element (x # xs) [] = 1"
  "compare_set_of_element (x # xs) (y # ys) =
     (if x < y then - 1 else if y < x then 1 else compare_set_of_element xs ys)"
  by (simp_all add: compare_set_of_element_def CBS_len_def Let_def)

lemma compare_antisym: "compare_set_of_element a b \<le> 0 \<Longrightarrow> compare_set_of_element b a \<le> 0 \<Longrightarrow> a = b"
  by (induction a b rule: memcmp.induct)
    (auto simp: compare_simps split: if_splits elim: list.exhaust, (metis compare_simps list.exhaust zero_neq_one not_one_le_zero)+)

lemma compare_total: "compare_set_of_element a b \<le> 0 \<or> compare_set_of_element b a \<le> 0"
  by (induction a b rule: list_induct2') (auto simp: compare_simps)

lemma compare_trans:
  "compare_set_of_element a b \<le> 0 \<Longrightarrow> compare_set_of_element b c \<le> 0 \<Longrightarrow> compare_set_of_element a c \<le> 0"
proof (induction a arbitrary: b c)
  case Nil
  then show ?case by (cases c) (simp_all add: compare_simps)
next
  case (Cons x xs)
  then obtain y ys where b: "b = y # ys" by (cases b) (simp_all add: compare_simps)
  then obtain z zs where c: "c = z # zs" using Cons.prems(2) by (cases c) (simp_all add: compare_simps)
  show ?case using Cons b c by (auto simp: compare_simps split: if_splits)
qed

lemma compare_flip: "compare_set_of_element a b = - compare_set_of_element b a"
  by (induction a b rule: list_induct2') (auto simp: compare_simps)

interpretation set_of_order: total_cmp compare_set_of_element
proof
  show "compare_set_of_element a b \<le> 0 \<longleftrightarrow> 0 \<le> compare_set_of_element b a" for a b
    using compare_flip [of a b] by linarith
qed (rule compare_trans)

definition is_element :: "byte list \<Rightarrow> bool" where
  "is_element e \<longleftrightarrow> (\<exists>t c. e = der_element t c \<and> length c < 2 ^ 32)"

lemma split_elements_ok: "split_elements cbs = Some es \<Longrightarrow> concat es = cbs \<and> list_all is_element es"
proof (induction cbs arbitrary: es rule: split_elements.induct)
  case (1 cbs)
  show ?case
  proof (cases "cbs = []")
    case True
    then show ?thesis using 1(2) by (simp add: split_elements.simps [of "[]"] CBS_len_def)
  next
    case False
    then obtain out t h cbs' es' where e: "CBS_get_any_asn1_element cbs = (Some (out, t, h), cbs')"
      "split_elements cbs' = Some es'" "es = out # es'"
      using 1(2) by (auto simp: split_elements.simps [of cbs] CBS_len_def split: prod.splits option.splits)
    then have "cbs = out @ cbs'" "is_element out" by (auto simp: CBS_get_any_asn1_element_iff is_element_def)
    moreover have "concat es' = cbs' \<and> list_all is_element es'"
      using 1(1) [OF _ e(1) [symmetric] refl refl refl e(2)] False by (simp add: CBS_len_def)
    ultimately show ?thesis using e(3) by simp
  qed
qed

lemma add_children_all: "add_children h d s cs = add_all CBB_add_bytes h d s cs"
  by (induction cs arbitrary: s) (simp_all split: prod.splits bool.splits)

text \<open>Where the contents of the \<open>CBB\<close> at depth \<open>d\<close> start.\<close>

definition content_start :: "nat \<Rightarrow> CBB \<Rightarrow> nat" where
  "content_start d s = (case prefix_of d s of (off, k) \<Rightarrow> off + k)"

lemma content_start_end: "length (children s) = d \<Longrightarrow> content_start d s = chain_end 0 (children s)"
  by (cases "children s" rule: rev_cases) (auto simp: content_start_def prefix_of_def)

lemma rewind_settled:
  assumes "settled d s c"
  shows "settled d (s\<lparr>base := map_option (\<lambda>b. b\<lparr>len := content_start d s\<rparr>) (base s)\<rparr>) (take (content_start d s) c)"
    and "content_start d s \<le> length c"
proof -
  obtain b where b: "base s = Some b" "buf_ok b" "\<not> error b" "contents b = c" "chain_ok 0 (len b) (children s)"
    using assms by (auto simp: settled_def split: option.splits)
  have lo: "chain_ok 0 (content_start d s) (children s)" "content_start d s \<le> len b"
    using content_start_end [OF settled_depth [OF assms]] b(5) chain_ok_iff by metis+
  then show "content_start d s \<le> length c" using b(2, 4) length_contents by metis
  have "contents (b\<lparr>len := content_start d s\<rparr>) = take (content_start d s) c"
    using b(4) lo(2) by (auto simp: contents_def min_def)
  then show "settled d (s\<lparr>base := map_option (\<lambda>b. b\<lparr>len := content_start d s\<rparr>) (base s)\<rparr>) (take (content_start d s) c)"
    using settled_depth [OF assms] b lo by (simp add: settled_def buf_ok_def)
qed

lemma settled_data:
  assumes "settled d s c"
  shows "CBS_init (CBB_data d s) (CBB_len d s) = drop (content_start d s) c"
  using assms length_contents
  by (auto simp: settled_def CBB_data_def CBB_len_def content_start_def CBS_init_def contents_def
      split: option.splits prod.splits)

lemma set_of_ok:
  assumes "cbb_ok s" "CBB_flush_asn1_set_of h d s = (r, s')"
  shows "cbb_ok s' \<and> (r \<longrightarrow> (\<exists>c lo es. flushed d s = Some c \<and> lo \<le> length c \<and> drop lo c = concat es \<and>
    list_all is_element es \<and> settled d s' (take lo c @ concat (qsort compare_set_of_element es)) \<and>
    lo = chain_end 0 (take d (children s))))"
proof (cases "CBB_flush h d s")
  case (Pair r1 s1)
  note fl = flush_ok [OF assms(1) Pair]
  show ?thesis
  proof (cases r1)
    case False
    then show ?thesis using assms(2) Pair fl(1) by (simp add: CBB_flush_asn1_set_of_def)
  next
    case True
    then obtain c where c: "flushed d s = Some c" "settled d s1 c" "children s1 = take d (children s)"
      using fl(2) by auto
    let ?lo = "content_start d s1"
    have lo: "?lo \<le> length c" "?lo = chain_end 0 (take d (children s))"
      using rewind_settled(2) [OF c(2)] content_start_end [OF settled_depth [OF c(2)]] c(3) by simp_all
    obtain off k where off: "prefix_of d s1 = (off, k)" "off + k = ?lo"
      by (cases "prefix_of d s1") (simp add: content_start_def)
    let ?s2 = "s1\<lparr>base := map_option (\<lambda>b. b\<lparr>len := ?lo\<rparr>) (base s1)\<rparr>"
    note run = assms(2) [unfolded CBB_flush_asn1_set_of_def Pair, unfolded settled_data [OF c(2)]]
    show ?thesis
    proof (cases "split_elements (drop ?lo c)")
      case None
      then show ?thesis using run True fl(1) settled_data [OF c(2)] by simp
    next
      case (Some es)
      note el = split_elements_ok [OF Some]
      have cases: "(\<not> r \<and> s' = s1) \<or> (r \<and> s' = s1 \<and> length es < 2) \<or>
        add_all CBB_add_bytes h d ?s2 (qsort compare_set_of_element es) = (r, s')"
        using run True Some off settled_data [OF c(2)]
        by (auto simp: Let_def add_children_all split: if_splits)
      have small: "list_all (\<lambda>e. length e < size_mod) (qsort compare_set_of_element es)"
      proof -
        have "length c < size_mod"
          using c(2) length_contents by (fastforce simp: settled_def buf_ok_def split: option.splits)
        then have "length (concat es) < size_mod" using el by simp
        moreover have "length e \<le> length (concat es)" if "e \<in> set es" for e
          using that by (induction es) auto
        ultimately have "length e < size_mod" if "e \<in> set es" for e using that by (meson le_less_trans)
        then show ?thesis using qsort_mset [of compare_set_of_element es] by (metis list_all_iff mset_eq_setD)
      qed
      note s2 = rewind_settled(1) [OF c(2)]
      from cases show ?thesis
      proof (elim disjE)
        assume "\<not> r \<and> s' = s1"
        then show ?thesis using fl(1) by simp
      next
        assume a: "r \<and> s' = s1 \<and> length es < 2"
        then have "qsort compare_set_of_element es = es" by (cases es) (auto simp: qsort_def)
        then have "settled d s' (take ?lo c @ concat (qsort compare_set_of_element es))" using a c(2) el by simp
        then show ?thesis using a fl(1) c(1) lo el
          by (intro conjI impI exI [of _ c] exI [of _ ?lo] exI [of _ es]) simp_all
      next
        assume a: "add_all CBB_add_bytes h d ?s2 (qsort compare_set_of_element es) = (r, s')"
        have "r \<Longrightarrow> settled d s' (take ?lo c @ concat (qsort compare_set_of_element es))"
          using add_bytes.all_appends [OF s2 small] a by simp
        then show ?thesis using add_bytes.all_keeps [OF s2 small a] c(1) lo el
          by (intro conjI impI exI [of _ c] exI [of _ ?lo] exI [of _ es]) simp_all
      qed
    qed
  qed
qed

section \<open>The builder as a state machine\<close>

text \<open>
  The states that a program reaches with the heap \<open>h\<close>, starting from \<open>CBB_init\<close> or
  \<open>CBB_init_fixed\<close>.  The result of an operation is not looked at, so that failures are included.
  Sizes are \<open>size_t\<close> values; the contents of a failed builder are undefined, so that
  \<open>CBB_discard_child\<close> is only used on one that has not failed.
\<close>

inductive cbb_reachable :: "heap_env \<Rightarrow> CBB \<Rightarrow> bool" for h where
  init: "n < size_mod \<Longrightarrow> cbb_reachable h (snd (CBB_init h n))"
| init_fixed: "length bs < size_mod \<Longrightarrow> cbb_reachable h (snd (CBB_init_fixed h bs))"
| flush: "cbb_reachable h s \<Longrightarrow> cbb_reachable h (snd (CBB_flush h d s))"
| finish: "cbb_reachable h s \<Longrightarrow> cbb_reachable h (snd (CBB_finish h d s out_data out_len))"
| cleanup: "cbb_reachable h s \<Longrightarrow> cbb_reachable h (CBB_cleanup d s)"
| u8_prefixed: "cbb_reachable h s \<Longrightarrow> cbb_reachable h (snd (CBB_add_u8_length_prefixed h d s))"
| u16_prefixed: "cbb_reachable h s \<Longrightarrow> cbb_reachable h (snd (CBB_add_u16_length_prefixed h d s))"
| u24_prefixed: "cbb_reachable h s \<Longrightarrow> cbb_reachable h (snd (CBB_add_u24_length_prefixed h d s))"
| asn1: "cbb_reachable h s \<Longrightarrow> cbb_reachable h (snd (CBB_add_asn1 h d s t))"
| bytes: "cbb_reachable h s \<Longrightarrow> length data < size_mod \<Longrightarrow> cbb_reachable h (snd (CBB_add_bytes h d s data))"
| zeros: "cbb_reachable h s \<Longrightarrow> n < size_mod \<Longrightarrow> cbb_reachable h (snd (CBB_add_zeros h d s n))"
| space: "cbb_reachable h s \<Longrightarrow> n < size_mod \<Longrightarrow> cbb_reachable h (snd (CBB_add_space h d s n))"
| reserve: "cbb_reachable h s \<Longrightarrow> n < size_mod \<Longrightarrow> cbb_reachable h (snd (CBB_reserve h d s n))"
| did_write: "cbb_reachable h s \<Longrightarrow> cbb_reachable h (snd (CBB_did_write d s n))"
| u8: "cbb_reachable h s \<Longrightarrow> cbb_reachable h (snd (CBB_add_u8 h d s v8))"
| u16: "cbb_reachable h s \<Longrightarrow> cbb_reachable h (snd (CBB_add_u16 h d s v16))"
| u24: "cbb_reachable h s \<Longrightarrow> cbb_reachable h (snd (CBB_add_u24 h d s v24))"
| u32: "cbb_reachable h s \<Longrightarrow> cbb_reachable h (snd (CBB_add_u32 h d s v32))"
| u64: "cbb_reachable h s \<Longrightarrow> cbb_reachable h (snd (CBB_add_u64 h d s v64))"
| discard: "cbb_reachable h s \<Longrightarrow> \<not> cbb_error s \<Longrightarrow> cbb_reachable h (CBB_discard_child d s)"
| uint64: "cbb_reachable h s \<Longrightarrow> cbb_reachable h (snd (CBB_add_asn1_uint64 h d s v64))"
| int64: "cbb_reachable h s \<Longrightarrow> cbb_reachable h (snd (CBB_add_asn1_int64 h d s (to_signed 64 (unat (v64 :: 64 word)))))"
| octet_string: "cbb_reachable h s \<Longrightarrow> length data < size_mod \<Longrightarrow>
    cbb_reachable h (snd (CBB_add_asn1_octet_string h d s data))"
| boolean: "cbb_reachable h s \<Longrightarrow> cbb_reachable h (snd (CBB_add_asn1_bool h d s v))"
| oid: "cbb_reachable h s \<Longrightarrow> cbb_reachable h (snd (CBB_add_asn1_oid_from_text h d s text n))"
| set_of: "cbb_reachable h s \<Longrightarrow> cbb_reachable h (snd (CBB_flush_asn1_set_of h d s))"

lemma init_keeps: "n < size_mod \<Longrightarrow> cbb_ok (snd (CBB_init h n))"
  by (auto simp: CBB_init_def cbb_init_def CBB_zero_def cbb_ok_def buf_ok_def)

lemma init_fixed_keeps: "length bs < size_mod \<Longrightarrow> cbb_ok (snd (CBB_init_fixed h bs))"
  by (auto simp: CBB_init_fixed_def cbb_init_def CBB_zero_def cbb_ok_def buf_ok_def)

lemma finish_keeps: "cbb_ok s \<Longrightarrow> cbb_ok (snd (CBB_finish h d s out_data out_len))"
  using flush_ok(1) [of s h d]
  by (auto simp: CBB_finish_def CBB_cleanup_def cbb_ok_def [of "_\<lparr>base := None\<rparr>"] split: prod.splits bool.splits option.splits)

lemma snd_keeps: "(\<And>r s'. x = (r, s') \<Longrightarrow> cbb_ok s') \<Longrightarrow> cbb_ok (snd x)"
  by (cases x) simp

context appender
begin

lemma keeps_snd: "cbb_ok s \<Longrightarrow> pre v \<Longrightarrow> cbb_ok (snd (op h d s v))"
  by (rule snd_keeps) (rule keeps)

end

lemma length_prefixed_keeps_snd:
  "cbb_ok s \<Longrightarrow> cbb_ok (snd (CBB_add_u8_length_prefixed h d s))"
  "cbb_ok s \<Longrightarrow> cbb_ok (snd (CBB_add_u16_length_prefixed h d s))"
  "cbb_ok s \<Longrightarrow> cbb_ok (snd (CBB_add_u24_length_prefixed h d s))"
  unfolding CBB_add_u8_length_prefixed_def CBB_add_u16_length_prefixed_def CBB_add_u24_length_prefixed_def
  by (rule snd_keeps, erule length_prefixed_keeps [rotated 3]; simp)+

lemma other_keeps_snd:
  "cbb_ok s \<Longrightarrow> cbb_ok (snd (CBB_flush h d s))"
  "cbb_ok s \<Longrightarrow> cbb_ok (snd (CBB_add_asn1 h d s t))"
  "cbb_ok s \<Longrightarrow> n < size_mod \<Longrightarrow> cbb_ok (snd (CBB_add_space h d s n))"
  "cbb_ok s \<Longrightarrow> n < size_mod \<Longrightarrow> cbb_ok (snd (CBB_reserve h d s n))"
  "cbb_ok s \<Longrightarrow> cbb_ok (snd (CBB_did_write d s n))"
  "cbb_ok s \<Longrightarrow> cbb_ok (snd (CBB_add_asn1_oid_from_text h d s text n))"
  "cbb_ok s \<Longrightarrow> cbb_ok (snd (CBB_flush_asn1_set_of h d s))"
  using flush_ok(1) add_asn1_keeps add_space_keeps reserve_keeps did_write_keeps oid_from_text_keeps set_of_ok
  by (metis prod.collapse)+

lemmas keeps_rules =
  length_prefixed_keeps_snd other_keeps_snd add_bytes.keeps_snd add_zeros.keeps_snd add_u8.keeps_snd
  add_u16.keeps_snd add_u24.keeps_snd add_u32.keeps_snd add_u64.keeps_snd add_uint64.keeps_snd
  add_int64.keeps_snd octet_string.keeps_snd add_bool.keeps_snd

lemma reachable_ok: "cbb_reachable h s \<Longrightarrow> cbb_ok s"
proof (induction rule: cbb_reachable.induct)
  case (init n)
  then show ?case by (rule init_keeps)
next
  case (init_fixed bs)
  then show ?case by (rule init_fixed_keeps)
next
  case (finish s d out_data out_len)
  then show ?case using finish_keeps by blast
next
  case (cleanup s d)
  then show ?case by (simp add: CBB_cleanup_def cbb_ok_def)
next
  case (discard s d)
  then show ?case using discard_child_keeps by blast
qed (simp_all add: keeps_rules)

section \<open>Properties\<close>

text \<open>C14. The builder stays inside its buffer: in every state that the operations of \<open>cbb.c\<close> reach, in
  any order, with failing allocations and with fixed buffers included, the buffer is a block of
  \<open>cap\<close> bytes of which \<open>len \<le> cap\<close> are in use, no store has gone outside of it, and, unless an
  error was hit, the prefixes of the open children lie one after the other in the used part.\<close>

theorem builder_invariant:
  assumes "cbb_reachable h s" "base s = Some b"
  shows "length (buf b) = cap b \<and> len b \<le> cap b \<and> \<not> fault b \<and>
    (\<not> error b \<longrightarrow> chain_ok 0 (len b) (children s))"
  using reachable_ok [OF assms(1)] assms(2) by (simp add: cbb_ok_def buf_ok_def)

theorem builder_invariant_witness:
  "let h = \<lparr>can_alloc = \<lambda>_. True, junk = \<lambda>_. 0\<rparr>; s = snd (CBB_add_u8 h 0 (snd (CBB_init_fixed h [7, 7])) 9);
       b = the (base s)
   in buf b = [9, 7] \<and> length (buf b) = cap b \<and> len b \<le> cap b \<and> \<not> fault b"
proof -
  let ?h = "\<lparr>can_alloc = \<lambda>_. True, junk = \<lambda>_. 0\<rparr>"
  let ?s = "snd (CBB_add_u8 ?h 0 (snd (CBB_init_fixed ?h [7, 7])) 9)"
  have r: "cbb_reachable ?h ?s"
    by (intro cbb_reachable.u8 cbb_reachable.init_fixed) (simp add: size_mod_def)
  have b: "base ?s = Some \<lparr>buf = [9, 7], len = 1, cap = 2, can_resize = False, error = False, fault = False\<rparr>"
    by (simp add: CBB_init_fixed_def cbb_init_def CBB_zero_def CBB_add_u8_def with_buffer_def on_buffer_def
        CBB_flush_def cbb_buffer_add_u_def cbb_buffer_add_def cbb_buffer_reserve_def size_mod_def store_def)
  show ?thesis using builder_invariant [OF r b] b by (simp add: Let_def)
qed


lemma split_elements_step:
  assumes "length c < 2 ^ 32" "e = der_element t c"
  shows "split_elements (e @ rest) = map_option ((#) e) (split_elements rest)"
proof -
  have "CBS_get_any_asn1_element (e @ rest) = (Some (e, t, length (der_header t (length c))), rest)"
    unfolding CBS_get_any_asn1_element_iff using assms by auto
  moreover have "e \<noteq> []" using assms(2) by (simp add: der_element_def der_header_def der_tag_def Let_def)
  ultimately show ?thesis by (simp add: split_elements.simps [of "e @ rest"] CBS_len_def)
qed

lemma split_elements_concat: "list_all is_element es \<Longrightarrow> split_elements (concat es) = Some es"
  by (induction es) (auto simp: is_element_def split_elements_step split_elements.simps [of "[]"] CBS_len_def)


text \<open>C18. Errors stick: once a buffer is marked as failed, flushing, adding and opening children fail at
  every depth and leave the state as it is, and \<open>CBB_finish\<close> does not hand out the bytes.\<close>

theorem errors_stick:
  assumes "cbb_error s"
  shows "CBB_flush h d s = (False, s) \<and> CBB_add_bytes h d s data = (False, s) \<and> CBB_add_u64 h d s v = (False, s) \<and>
    CBB_add_asn1 h d s t = (False, s) \<and> cbb_add_length_prefixed h d s k = (False, s) \<and>
    CBB_flush_asn1_set_of h d s = (False, s) \<and> CBB_finish h d s out_data out_len = (None, s)"
proof -
  obtain b where b: "base s = Some b" "error b" using assms by (auto simp: cbb_error_def split: option.splits)
  have fl: "CBB_flush h d s = (False, s)" for d
  proof (cases "drop d (children s)")
    case Nil
    then show ?thesis using b by (cases s) (simp add: CBB_flush_def)
  next
    case (Cons c cs)
    then have "take d (children s) @ c # cs = children s" by (metis append_take_drop_id)
    then show ?thesis using b Cons by (cases s) (simp add: CBB_flush_def)
  qed
  then show ?thesis
    by (simp add: CBB_add_bytes_def CBB_add_u64_def with_buffer_def CBB_add_asn1_def cbb_add_length_prefixed_def
        CBB_flush_asn1_set_of_def CBB_finish_def)
qed

theorem errors_stick_witness:
  "let h = \<lparr>can_alloc = \<lambda>_. True, junk = \<lambda>_. 0\<rparr>;
       s = \<lparr>base = Some \<lparr>buf = [1], len = 1, cap = 1, can_resize = True, error = True, fault = False\<rparr>, children = []\<rparr>
   in CBB_add_bytes h 0 s [2] = (False, s) \<and> CBB_finish h 0 s True True = (None, s)"
proof -
  let ?s = "\<lparr>base = Some \<lparr>buf = [1], len = 1, cap = 1, can_resize = True, error = True, fault = False\<rparr>, children = []\<rparr>"
  have "cbb_error ?s" by (simp add: cbb_error_def)
  from errors_stick [OF this] show ?thesis by (simp add: Let_def)
qed

end
