(* ===== verification/Cbb_Oid.thy ===== *)
theory Cbb_Oid
  imports Cbb_Inv
begin

unbundle bit_operations_syntax

text \<open>
  Object identifiers: the builder accepts exactly the dotted decimal texts of valid identifiers and
  writes their DER contents, and the parser turns the contents back into the text.
\<close>

section \<open>Texts and contents of identifiers\<close>

fun oid_text :: "nat list \<Rightarrow> byte list" where
  "oid_text [] = []"
| "oid_text [c] = decimal_digits c"
| "oid_text (c # c' # cs) = decimal_digits c @ 0x2e # oid_text (c' # cs)"

fun oid_der :: "nat list \<Rightarrow> byte list" where
  "oid_der (a # b # cs) = base128 (40 * a + b) @ concat (map base128 cs)"
| "oid_der _ = []"

text \<open>The identifiers that the encoding can hold, with components of 64 bits.\<close>

fun oid_ok :: "nat list \<Rightarrow> bool" where
  "oid_ok (a # b # cs) \<longleftrightarrow>
     a \<le> 2 \<and> (a < 2 \<longrightarrow> b \<le> 39) \<and> b \<le> 2 ^ 64 - 1 - 80 \<and> list_all (\<lambda>c. c < 2 ^ 64) cs"
| "oid_ok _ \<longleftrightarrow> False"

section \<open>Decimal components\<close>

lemma decimal_digits_ne [simp]: "decimal_digits n \<noteq> []"
  by (subst decimal_digits.simps) simp

lemma decimal_digits_snoc:
  "0 < m \<Longrightarrow> c < 10 \<Longrightarrow> decimal_digits (10 * m + c) = decimal_digits m @ [word_of_nat (48 + c)]"
  by (subst decimal_digits.simps) (simp add: div_mult_self3)

text \<open>A digit, and the two tests against overflow.\<close>

lemma digit_byte:
  "\<not> (u < 0x30 \<or> u > 0x39) \<longleftrightarrow> (\<exists>c < 10. u = word_of_nat (48 + c))" for u :: byte
proof
  assume "\<not> (u < 0x30 \<or> u > 0x39)"
  then have "48 \<le> unat u" "unat u \<le> 57" by (simp_all add: word_less_nat_alt not_less)
  then show "\<exists>c < 10. u = word_of_nat (48 + c)"
    by (intro exI [of _ "unat u - 48"]) (simp add: word_unat_eq_iff)
next
  assume "\<exists>c < 10. u = word_of_nat (48 + c)"
  then obtain c where c: "c < 10" "u = word_of_nat (48 + c)" by blast
  then have "unat u = 48 + c" by (simp add: unat_byte_of_nat del: of_nat_add)
  then show "\<not> (u < 0x30 \<or> u > 0x39)" using c(1) by (simp add: word_less_nat_alt)
qed

lemma digit_value: "c < 10 \<Longrightarrow> unat (ucast (word_of_nat (48 + c) - 0x30 :: byte) :: 64 word) = c"
  using unat_byte_of_nat [of c] by simp

lemma digit_fits:
  assumes "m < 2 ^ 64" "c < 10"
  shows "(word_of_nat m :: 64 word) > (- 1) div 10 \<or> word_of_nat m * 10 > (- 1) - (word_of_nat c :: 64 word)
    \<longleftrightarrow> 2 ^ 64 \<le> 10 * m + c"
proof -
  have max: "unat (- 1 :: 64 word) = 2 ^ 64 - 1" by (simp add: unsigned_minus_1_eq_mask mask_eq_exp_minus_1)
  have um: "unat (word_of_nat m :: 64 word) = m" using unat_64 [OF assms(1)] .
  have uc: "unat (word_of_nat c :: 64 word) = c" using assms(2) by (intro unat_64) simp
  have q: "unat ((- 1 :: 64 word) div 10) = (2 ^ 64 - 1) div 10" by (simp add: unat_div max)
  have first: "(word_of_nat m :: 64 word) > (- 1) div 10 \<longleftrightarrow> (2 ^ 64 - 1) div 10 < m"
    by (simp add: word_less_nat_alt q um)
  have sub: "unat ((- 1) - (word_of_nat c :: 64 word)) = 2 ^ 64 - 1 - c"
    by (subst unat_sub) (simp_all add: max uc)
  show ?thesis
  proof (cases "(2 ^ 64 - 1) div 10 < m")
    case True
    then show ?thesis using first by simp
  next
    case False
    then have "unat (word_of_nat m * 10 :: 64 word) = 10 * m"
      using unat_64 [of "10 * m"] by (simp add: mult.commute)
    then have "word_of_nat m * 10 > (- 1) - (word_of_nat c :: 64 word) \<longleftrightarrow> 2 ^ 64 - 1 - c < 10 * m"
      by (simp only: word_less_nat_alt sub)
    then show ?thesis using first False assms(2) by auto
  qed
qed

text \<open>The loop over numbers; the digits read so far are those of \<open>m\<close>.\<close>

lemma dotted_loop_Cons:
  assumes "m < 2 ^ 64"
  shows "dotted_loop (word_of_nat m) seen (u # cbs) =
    (if u = 0x2e \<and> cbs \<noteq> [] then (if seen then Some (word_of_nat m) else None, cbs)
     else if \<exists>c < 10. u = word_of_nat (48 + c) \<and> \<not> (seen \<and> m = 0) \<and> 10 * m + c < 2 ^ 64
     then dotted_loop (word_of_nat (10 * m + (unat u - 48))) True cbs
     else (None, cbs))"
proof (cases "u = 0x2e \<and> cbs \<noteq> []")
  case True
  then show ?thesis by (simp add: CBS_len_def)
next
  case dot: False
  show ?thesis
  proof (cases "\<exists>c < 10. u = word_of_nat (48 + c)")
    case False
    then have "u < 0x30 \<or> u > 0x39" using digit_byte by blast
    moreover have "\<not> (\<exists>c < 10. u = word_of_nat (48 + c) \<and> \<not> (seen \<and> m = 0) \<and> 10 * m + c < 2 ^ 64)"
      using False by blast
    ultimately show ?thesis using dot by (simp only: dotted_loop.simps CBS_len_def length_greater_0_conv if_False) auto
  next
    case True
    then obtain c where c: "c < 10" "u = word_of_nat (48 + c)" by blast
    have range: "\<not> (u < 0x30 \<or> u > 0x39)" using True digit_byte by blast
    have uu: "unat u = 48 + c" using c by (simp add: unat_byte_of_nat del: of_nat_add)
    have val: "(ucast (u - 0x30) :: 64 word) = word_of_nat c"
      using digit_value [OF c(1)] c unat_64 [of c] by (intro word_unat_eq_iff [THEN iffD2]) simp
    have nz: "(word_of_nat m :: 64 word) = 0 \<longleftrightarrow> m = 0" using of_nat_eq_0 [OF assms] .
    have ex: "(\<exists>c' < 10. u = word_of_nat (48 + c') \<and> \<not> (seen \<and> m = 0) \<and> 10 * m + c' < 2 ^ 64) \<longleftrightarrow>
      \<not> (seen \<and> m = 0) \<and> 10 * m + c < 2 ^ 64"
    proof -
      have "c' = c" if "c' < 10" "u = word_of_nat (48 + c')" for c'
        using that uu unat_byte_of_nat [of "48 + c'"] by (simp del: of_nat_add)
      then show ?thesis using c by blast
    qed
    have step: "(word_of_nat m * 10 + word_of_nat c :: 64 word) = word_of_nat (10 * m + c)" by (simp add: mult.commute)
    have "dotted_loop (word_of_nat m) seen (u # cbs) =
      (if seen \<and> m = 0 \<or> 2 ^ 64 \<le> 10 * m + c then (None, cbs)
       else dotted_loop (word_of_nat (10 * m + c)) True cbs)"
      unfolding dotted_loop.simps val nz step [symmetric] digit_fits [OF assms c(1), symmetric]
      using dot range by (auto simp: CBS_len_def)
    then show ?thesis using dot ex uu by (auto simp: not_le)
  qed
qed

lemma dotted_loop_digits:
  "n < 2 ^ 64 \<Longrightarrow> dotted_loop 0 False (decimal_digits n @ tail) = dotted_loop (word_of_nat n) True tail"
proof (induction n arbitrary: tail rule: decimal_digits.induct)
  case (1 n)
  have dig: "word_of_nat (48 + c) \<noteq> (0x2e :: byte) \<and> unat (word_of_nat (48 + c) :: byte) - 48 = c" if "c < 10" for c
  proof -
    have u: "unat (word_of_nat (48 + c) :: byte) = 48 + c" using that by (intro unat_byte_of_nat) simp
    then show ?thesis by (auto simp del: of_nat_add)
  qed
  show ?case
  proof (cases "n < 10")
    case True
    then have "decimal_digits n = [word_of_nat (48 + n)]" by (simp add: decimal_digits.simps [of n])
    then show ?thesis
      using dotted_loop_Cons [of 0 False "word_of_nat (48 + n)" tail] dig [OF True] True
      by (auto simp del: of_nat_add dotted_loop.simps)
  next
    case False
    let ?q = "n div 10" and ?c = "n mod 10"
    have q: "?q < 2 ^ 64" "?q \<noteq> 0" using 1(2) False by auto
    have c: "?c < 10" by simp
    have "decimal_digits n @ tail = decimal_digits ?q @ word_of_nat (48 + ?c) # tail"
      using False by (simp add: decimal_digits.simps [of n])
    moreover have "dotted_loop (word_of_nat ?q) True (word_of_nat (48 + ?c) # tail) = dotted_loop (word_of_nat n) True tail"
    proof -
      have "10 * ?q + ?c = n" by simp
      then show ?thesis
        using dotted_loop_Cons [OF q(1), of True "word_of_nat (48 + ?c)" tail] dig [OF c] c q(2) 1(2)
        by (auto simp del: of_nat_add dotted_loop.simps)
    qed
    ultimately show ?thesis using 1(1) [OF False q(1)] by simp
  qed
qed

lemma parse_decimal_complete:
  assumes "n < 2 ^ 64"
  shows "parse_dotted_decimal (decimal_digits n) = (Some (word_of_nat n), [])"
    and "rest \<noteq> [] \<Longrightarrow> parse_dotted_decimal (decimal_digits n @ 0x2e # rest) = (Some (word_of_nat n), rest)"
  using dotted_loop_digits [OF assms, of "[]"] dotted_loop_digits [OF assms, of "0x2e # rest"]
  by (simp_all add: parse_dotted_decimal_def CBS_len_def)

lemma dotted_loop_sound:
  "dotted_loop (word_of_nat m) seen cbs = (Some v, rest) \<Longrightarrow> m < 2 ^ 64 \<Longrightarrow> (\<not> seen \<Longrightarrow> m = 0) \<Longrightarrow>
   \<exists>n < 2 ^ 64. v = word_of_nat n \<and>
     (let read = (if seen then decimal_digits m else []) in
      read @ cbs = decimal_digits n \<and> rest = [] \<or> read @ cbs = decimal_digits n @ 0x2e # rest \<and> rest \<noteq> [])"
proof (induction cbs arbitrary: m seen)
  case Nil
  then show ?case by (auto simp: Let_def split: if_splits)
next
  case (Cons u cbs)
  note run = Cons.prems(1) [unfolded dotted_loop_Cons [OF Cons.prems(2)]]
  show ?case
  proof (cases "u = 0x2e \<and> cbs \<noteq> []")
    case True
    then show ?thesis using run Cons.prems(2) by (auto simp: Let_def split: if_splits)
  next
    case False
    then obtain c where c: "c < 10" "u = word_of_nat (48 + c)" "\<not> (seen \<and> m = 0)" "10 * m + c < 2 ^ 64"
      using run by (auto split: if_splits)
    then have uu: "unat u - 48 = c" using unat_byte_of_nat [of "48 + c"] by (simp del: of_nat_add)
    have next_run: "dotted_loop (word_of_nat (10 * m + c)) True cbs = (Some v, rest)"
      using run False c uu by (auto simp del: of_nat_add split: if_splits)
    have read: "(if seen then decimal_digits m else []) @ [u] = decimal_digits (10 * m + c)"
    proof (cases seen)
      case True
      then show ?thesis using c decimal_digits_snoc [of m c] by simp
    next
      case no: False
      then show ?thesis using Cons.prems(3) c by (simp add: decimal_digits.simps [of c])
    qed
    have e: "(if seen then decimal_digits m else []) @ u # cbs = decimal_digits (10 * m + c) @ cbs"
      by (simp only: read [symmetric] append_assoc append_Cons append_Nil)
    have "\<exists>n < 2 ^ 64. v = word_of_nat n \<and>
      (decimal_digits (10 * m + c) @ cbs = decimal_digits n \<and> rest = [] \<or>
       decimal_digits (10 * m + c) @ cbs = decimal_digits n @ 0x2e # rest \<and> rest \<noteq> [])"
      using Cons.IH [OF next_run c(4)] by (simp only: Let_def if_True) blast
    then show ?thesis unfolding Let_def e .
  qed
qed

lemma parse_decimal_sound:
  "parse_dotted_decimal cbs = (Some v, rest) \<Longrightarrow>
   \<exists>n < 2 ^ 64. v = word_of_nat n \<and>
     (cbs = decimal_digits n \<and> rest = [] \<or> cbs = decimal_digits n @ 0x2e # rest \<and> rest \<noteq> [])"
  using dotted_loop_sound [of 0 False cbs v rest] by (simp add: parse_dotted_decimal_def Let_def)

section \<open>From the text\<close>

lemma oid_text_ne [simp]: "cs \<noteq> [] \<Longrightarrow> oid_text cs \<noteq> []"
  by (cases cs rule: oid_text.cases) simp_all

lemma parse_component:
  "n < 2 ^ 64 \<Longrightarrow> parse_dotted_decimal (oid_text (n # cs)) = (Some (word_of_nat n), oid_text cs)"
  using parse_decimal_complete by (cases cs) simp_all

lemma parse_component_sound:
  "parse_dotted_decimal cbs = (Some v, rest) \<Longrightarrow>
   \<exists>n < 2 ^ 64. v = word_of_nat n \<and> (\<forall>cs. rest = oid_text cs \<longrightarrow> cbs = oid_text (n # cs))"
proof -
  assume "parse_dotted_decimal cbs = (Some v, rest)"
  then obtain n where n: "n < 2 ^ 64" "v = word_of_nat n"
    "cbs = decimal_digits n \<and> rest = [] \<or> cbs = decimal_digits n @ 0x2e # rest \<and> rest \<noteq> []"
    using parse_decimal_sound by blast
  have "cbs = oid_text (n # cs)" if "rest = oid_text cs" for cs
    using that n(3) by (cases cs) auto
  then show ?thesis using n(1, 2) by blast
qed

lemma components_loop_run:
  "list_all (\<lambda>c. c < 2 ^ 64) cs \<Longrightarrow>
   oid_components_loop h d s (oid_text cs) = add_all CBB_add_u8 h d s (concat (map base128 cs))"
proof (induction cs arbitrary: s)
  case Nil
  then show ?case by (simp add: oid_components_loop.simps [of h d s "[]"] CBS_len_def)
next
  case (Cons c cs)
  have "unat (word_of_nat c :: 64 word) = c" using Cons.prems by (intro unat_64) simp
  then have base: "add_base128_integer h d s (word_of_nat c) = add_all CBB_add_u8 h d s (base128 c)" for s
    by (simp add: add_base128_all)
  have parse: "parse_dotted_decimal (oid_text (c # cs)) = (Some (word_of_nat c), oid_text cs)"
    using Cons.prems by (intro parse_component) simp
  have pos: "CBS_len (oid_text (c # cs)) > 0" by (simp add: CBS_len_def)
  have ih: "oid_components_loop h d s (oid_text cs) = add_all CBB_add_u8 h d s (concat (map base128 cs))" for s
    using Cons by simp
  show ?case
    unfolding oid_components_loop.simps [of h d s "oid_text (c # cs)"]
    by (simp only: pos if_True parse prod.case option.case base ih list.map concat.simps add_all_append)
qed

lemma components_loop_sound:
  "oid_components_loop h d s cbs = (True, s') \<Longrightarrow> \<exists>cs. list_all (\<lambda>c. c < 2 ^ 64) cs \<and> cbs = oid_text cs"
proof (induction h d s cbs rule: oid_components_loop.induct)
  case (1 h d s cbs)
  show ?case
  proof (cases "CBS_len cbs > 0")
    case False
    then show ?thesis by (intro exI [of _ "[]"]) (simp add: CBS_len_def)
  next
    case True
    obtain v rest s1 where run: "parse_dotted_decimal cbs = (Some v, rest)"
      "add_base128_integer h d s v = (True, s1)" "oid_components_loop h d s1 rest = (True, s')"
      using 1(2) True unfolding oid_components_loop.simps [of h d s cbs]
      by (auto split: prod.splits option.splits bool.splits)
    obtain cs where cs: "list_all (\<lambda>c. c < 2 ^ 64) cs" "rest = oid_text cs"
      using 1(1) [OF True run(1) [symmetric] refl run(2) [symmetric] refl run(3)] by blast
    obtain n where "n < 2 ^ 64" "cbs = oid_text (n # cs)" using parse_component_sound [OF run(1)] cs(2) by blast
    then show ?thesis using cs(1) by (intro exI [of _ "n # cs"]) simp
  qed
qed

lemma first_components:
  assumes "a < 2 ^ 64" "b < 2 ^ 64"
  shows "\<not> (word_of_nat a > (2 :: 64 word) \<or> word_of_nat a < (2 :: 64 word) \<and> word_of_nat b > (39 :: 64 word)
      \<or> word_of_nat b > (- 1) - (80 :: 64 word)) \<longleftrightarrow> a \<le> 2 \<and> (a < 2 \<longrightarrow> b \<le> 39) \<and> b \<le> 2 ^ 64 - 1 - 80"
    and "a \<le> 2 \<Longrightarrow> b \<le> 2 ^ 64 - 1 - 80 \<Longrightarrow> unat (40 * word_of_nat a + word_of_nat b :: 64 word) = 40 * a + b"
proof -
  have max: "unat (- 1 :: 64 word) = 2 ^ 64 - 1" by (simp add: unsigned_minus_1_eq_mask mask_eq_exp_minus_1)
  have "unat ((- 1) - (80 :: 64 word)) = 2 ^ 64 - 1 - 80"
    by (subst unat_sub) (simp_all add: max word_le_nat_alt)
  then show "\<not> (word_of_nat a > (2 :: 64 word) \<or> word_of_nat a < (2 :: 64 word) \<and> word_of_nat b > (39 :: 64 word)
      \<or> word_of_nat b > (- 1) - (80 :: 64 word)) \<longleftrightarrow> a \<le> 2 \<and> (a < 2 \<longrightarrow> b \<le> 39) \<and> b \<le> 2 ^ 64 - 1 - 80"
    by (auto simp: word_less_nat_alt unat_64 [OF assms(1)] unat_64 [OF assms(2)])
  show "unat (40 * word_of_nat a + word_of_nat b :: 64 word) = 40 * a + b"
    if "a \<le> 2" "b \<le> 2 ^ 64 - 1 - 80"
    using unat_64 [of "40 * a + b"] that by simp
qed

lemma oid_from_text_eq:
  assumes "CBB_flush h d s = (True, s1)" "oid_ok comps" "take n text = oid_text comps"
  shows "CBB_add_asn1_oid_from_text h d s text n = add_all CBB_add_u8 h d s1 (oid_der comps)"
proof -
  obtain a b cs where comps: "comps = a # b # cs" using assms(2) by (cases comps rule: oid_ok.cases) auto
  then have ok: "a \<le> 2" "a < 2 \<longrightarrow> b \<le> 39" "b \<le> 2 ^ 64 - 1 - 80" "list_all (\<lambda>c. c < 2 ^ 64) cs"
    using assms(2) by auto
  then have lt: "a < 2 ^ 64" "b < 2 ^ 64" by auto
  note f = first_components [OF lt]
  have parse: "parse_dotted_decimal (CBS_init text n) = (Some (word_of_nat a), oid_text (b # cs))"
    "parse_dotted_decimal (oid_text (b # cs)) = (Some (word_of_nat b), oid_text cs)"
    unfolding CBS_init_def assms(3) comps by (rule parse_component [OF lt(1)], rule parse_component [OF lt(2)])
  have base: "add_base128_integer h d s1 (40 * word_of_nat a + word_of_nat b) =
    add_all CBB_add_u8 h d s1 (base128 (40 * a + b))"
    using f(2) [OF ok(1, 3)] by (simp add: add_base128_all)
  have cond: "\<not> (word_of_nat a > (2 :: 64 word) \<or> word_of_nat a < (2 :: 64 word) \<and> word_of_nat b > (39 :: 64 word)
      \<or> word_of_nat b > (- 1) - (80 :: 64 word))" using f(1) ok by blast
  show ?thesis
    unfolding CBB_add_asn1_oid_from_text_def comps
    by (simp only: assms(1) parse prod.case option.case bool.case cond if_False base oid_der.simps add_all_append
        components_loop_run [OF ok(4)])
qed

lemma oid_from_text_sound:
  assumes "CBB_add_asn1_oid_from_text h d s text n = (True, s')"
  shows "\<exists>comps. oid_ok comps \<and> take n text = oid_text comps"
proof -
  obtain va vb r1 r2 s1 s2 where run: "parse_dotted_decimal (CBS_init text n) = (Some va, r1)"
    "parse_dotted_decimal r1 = (Some vb, r2)"
    "\<not> (va > 2 \<or> va < 2 \<and> vb > 39 \<or> vb > (- 1) - 80)" "oid_components_loop h d s2 r2 = (True, s')"
    using assms unfolding CBB_add_asn1_oid_from_text_def
    by (auto split: prod.splits option.splits bool.splits if_splits)
  obtain cs where cs: "list_all (\<lambda>c. c < 2 ^ 64) cs" "r2 = oid_text cs" using components_loop_sound [OF run(4)] by blast
  obtain b where b: "b < 2 ^ 64" "vb = word_of_nat b" "r1 = oid_text (b # cs)"
    using parse_component_sound [OF run(2)] cs(2) by blast
  obtain a where a: "a < 2 ^ 64" "va = word_of_nat a" "CBS_init text n = oid_text (a # b # cs)"
    using parse_component_sound [OF run(1)] b(3) by blast
  have "oid_ok (a # b # cs)" using first_components(1) [OF a(1) b(1)] run(3) a(2) b(2) cs(1) by simp
  then show ?thesis using a(3) by (simp only: CBS_init_def) blast
qed

section \<open>To the text\<close>

lemma oid_text_loop_run:
  "settled 0 s c \<Longrightarrow> grows h s \<Longrightarrow> list_all (\<lambda>c. c < 2 ^ 64) cs \<Longrightarrow>
   length (c @ concat (map (\<lambda>c. 0x2e # decimal_digits c) cs)) < size_mod \<Longrightarrow>
   \<exists>s'. oid_text_loop h s (concat (map base128 cs)) = (True, s') \<and>
     settled 0 s' (c @ concat (map (\<lambda>c. 0x2e # decimal_digits c) cs)) \<and> grows h s'"
proof (induction cs arbitrary: s c)
  case Nil
  then show ?case by (simp add: oid_text_loop.simps [of h s "[]"] CBS_len_def)
next
  case (Cons n cs)
  let ?rest = "concat (map base128 cs)"
  have u: "unat (word_of_nat n :: 64 word) = n" using Cons.prems(3) by (intro unat_64) simp
  have parse: "parse_base128_integer (concat (map base128 (n # cs))) = (Some (word_of_nat n), ?rest)"
    using Cons.prems(3) by (subst parse_base128_iff) auto
  have pos: "CBS_len (concat (map base128 (n # cs))) \<noteq> 0" by (simp add: CBS_len_def base128_def)
  obtain s1 where s1: "CBB_add_u8 h 0 s 0x2e = (True, s1)" "settled 0 s1 (c @ [0x2e])" "grows h s1"
    using add_u8.run [OF Cons.prems(1), where v = "0x2e" and h = h] Cons.prems(2, 4) by auto
  have l: "length (decimal_digits n) < size_mod" "length ((c @ [0x2e]) @ decimal_digits n) < size_mod"
    using Cons.prems(4) by simp_all
  obtain s2 where s2: "add_decimal h s1 (word_of_nat n) = (True, s2)"
    "settled 0 s2 ((c @ [0x2e]) @ decimal_digits n)" "grows h s2"
    using add_bytes.run [OF s1(2) l(1) _ s1(3) l(2)] u by (auto simp: add_decimal_def)
  have "oid_text_loop h s (concat (map base128 (n # cs))) = oid_text_loop h s2 ?rest"
    unfolding oid_text_loop.simps [of h s "concat (map base128 (n # cs))"]
    using pos parse s1(1) s2(1) by simp
  moreover have "\<exists>s'. oid_text_loop h s2 ?rest = (True, s') \<and>
      settled 0 s' (((c @ [0x2e]) @ decimal_digits n) @ concat (map (\<lambda>c. 0x2e # decimal_digits c) cs)) \<and> grows h s'"
    using Cons.prems(3, 4) by (intro Cons.IH [OF s2(2, 3)]) simp_all
  ultimately show ?case by simp
qed

lemma oid_text_tail:
  "oid_text (c # cs) = decimal_digits c @ concat (map (\<lambda>c. 0x2e # decimal_digits c) cs)"
  by (induction cs arbitrary: c) simp_all

lemma add_decimal_run:
  assumes "settled 0 s c" "grows h s" "unat v = n" "length (c @ decimal_digits n) < size_mod"
  shows "\<exists>s'. add_decimal h s v = (True, s') \<and> settled 0 s' (c @ decimal_digits n) \<and> grows h s'"
  using add_bytes.run [OF assms(1), where v = "decimal_digits n" and h = h] assms(2-4)
  by (auto simp: add_decimal_def)

text \<open>The first two components from their common number.\<close>

lemma first_text_run:
  assumes "settled 0 s []" "grows h s" "a \<le> 2" "a < 2 \<longrightarrow> b \<le> 39" "b \<le> 2 ^ 64 - 1 - 80"
    "length (decimal_digits a @ 0x2e # decimal_digits b) < size_mod"
  defines "v \<equiv> word_of_nat (40 * a + b) :: 64 word"
  shows "\<exists>s'. (if v \<ge> 80 then
        (case CBB_add_bytes h 0 s [0x32, 0x2e] of
           (False, s1) \<Rightarrow> (False, s1) | (True, s1) \<Rightarrow> add_decimal h s1 (v - 80))
      else
        (case add_decimal h s (v div 40) of
           (False, s1) \<Rightarrow> (False, s1)
         | (True, s1) \<Rightarrow>
             (case CBB_add_u8 h 0 s1 0x2e of (False, s2) \<Rightarrow> (False, s2) | (True, s2) \<Rightarrow> add_decimal h s2 (v mod 40))))
      = (True, s') \<and> settled 0 s' (decimal_digits a @ 0x2e # decimal_digits b) \<and> grows h s'"
proof -
  have lt: "40 * a + b < 2 ^ 64" using assms(3, 5) by simp
  have uv: "unat v = 40 * a + b" unfolding v_def using unat_64 [OF lt] .
  have ge: "v \<ge> 80 \<longleftrightarrow> a = 2"
    using assms(3, 4) by (auto simp: word_le_nat_alt uv)
  show ?thesis
  proof (cases "a = 2")
    case True
    have two: "decimal_digits a @ 0x2e # decimal_digits b = [0x32, 0x2e] @ decimal_digits b"
      using True by (simp add: decimal_digits.simps [of 2])
    have len: "length ([0x32, 0x2e] @ decimal_digits b) < size_mod"
      using assms(6) unfolding two .
    obtain s1 where s1: "CBB_add_bytes h 0 s [0x32, 0x2e] = (True, s1)" "settled 0 s1 [0x32, 0x2e]" "grows h s1"
      using add_bytes.run [OF assms(1), where v = "[0x32, 0x2e]" and h = h] assms(2) len by auto
    have "80 \<le> v" using ge True by blast
    then have "unat (v - 80) = b" using uv True by (simp add: unat_sub)
    then have "\<exists>s'. add_decimal h s1 (v - 80) = (True, s') \<and> settled 0 s' ([0x32, 0x2e] @ decimal_digits b) \<and> grows h s'"
      by (rule add_decimal_run [OF s1(2, 3) _ len])
    then show ?thesis using ge True s1(1) two by simp
  next
    case False
    then have b: "b \<le> 39" using assms(3, 4) by auto
    have q: "unat (v div 40) = a" "unat (v mod 40) = b" using uv b by (simp_all add: unat_div unat_mod)
    have la: "length ([] @ decimal_digits a) < size_mod" using assms(6) by simp
    obtain s1 where s1: "add_decimal h s (v div 40) = (True, s1)" "settled 0 s1 (decimal_digits a)" "grows h s1"
      using add_decimal_run [OF assms(1, 2) q(1) la] by auto
    obtain s2 where s2: "CBB_add_u8 h 0 s1 0x2e = (True, s2)" "settled 0 s2 (decimal_digits a @ [0x2e])" "grows h s2"
      using add_u8.run [OF s1(2), where v = "0x2e" and h = h] s1(3) assms(6) by auto
    have "length ((decimal_digits a @ [0x2e]) @ decimal_digits b) < size_mod" using assms(6) by simp
    from add_decimal_run [OF s2(2, 3) q(2) this] show ?thesis using ge False s1(1) s2(1) by simp
  qed
qed

lemma oid_to_text_run:
  assumes "\<forall>k. can_alloc h k" "oid_ok comps" "length (oid_text comps) + 1 < size_mod"
  shows "CBS_asn1_oid_to_text h (oid_der comps) = Some (oid_text comps @ [0])"
proof -
  obtain a b cs where comps: "comps = a # b # cs" using assms(2) by (cases comps rule: oid_ok.cases) auto
  then have ok: "a \<le> 2" "a < 2 \<longrightarrow> b \<le> 39" "b \<le> 2 ^ 64 - 1 - 80" "list_all (\<lambda>c. c < 2 ^ 64) cs"
    using assms(2) by auto
  let ?ab = "decimal_digits a @ 0x2e # decimal_digits b" and ?cs = "concat (map (\<lambda>c. 0x2e # decimal_digits c) cs)"
  have form: "oid_text comps = ?ab @ ?cs" unfolding comps using oid_text_tail [of b cs] by simp
  have len: "length ?ab < size_mod" "length (?ab @ ?cs) < size_mod" "length ((?ab @ ?cs) @ [0 :: byte]) < size_mod"
    using assms(3) unfolding form by simp_all
  obtain s where s: "CBB_init h 32 = (True, s)" "settled 0 s []" "grows h s"
    using CBB_init_settled [OF assms(1), of 32] by (auto simp: size_mod_def)
  have parse: "parse_base128_integer (oid_der comps) = (Some (word_of_nat (40 * a + b)), concat (map base128 cs))"
    unfolding comps oid_der.simps using ok by (subst parse_base128_iff) (intro exI [of _ "40 * a + b"], simp)
  obtain s1 where s1: "(if word_of_nat (40 * a + b) \<ge> (80 :: 64 word) then
        (case CBB_add_bytes h 0 s [0x32, 0x2e] of
           (False, s1) \<Rightarrow> (False, s1) | (True, s1) \<Rightarrow> add_decimal h s1 (word_of_nat (40 * a + b) - 80))
      else
        (case add_decimal h s (word_of_nat (40 * a + b) div 40) of
           (False, s1) \<Rightarrow> (False, s1)
         | (True, s1) \<Rightarrow>
             (case CBB_add_u8 h 0 s1 0x2e of (False, s2) \<Rightarrow> (False, s2)
              | (True, s2) \<Rightarrow> add_decimal h s2 (word_of_nat (40 * a + b) mod 40))))
      = (True, s1)" "settled 0 s1 ?ab" "grows h s1"
    using first_text_run [OF s(2, 3) ok(1-3) len(1)] by blast
  obtain s2 where s2: "oid_text_loop h s1 (concat (map base128 cs)) = (True, s2)" "settled 0 s2 (?ab @ ?cs)" "grows h s2"
    using oid_text_loop_run [OF s1(2, 3) ok(4) len(2)] by blast
  obtain s3 where s3: "CBB_add_u8 h 0 s2 0 = (True, s3)" "settled 0 s3 ((?ab @ ?cs) @ [0])"
    using add_u8.run [OF s2(2) _ _ s2(3) len(3)] by auto
  obtain bb s4 where s4: "CBB_finish h 0 s3 True True = (Some (bb, length ((?ab @ ?cs) @ [0 :: byte])), s4)"
    "take (length ((?ab @ ?cs) @ [0 :: byte])) bb = (?ab @ ?cs) @ [0]"
    using CBB_finish_settled [OF s3(2)] by blast
  show ?thesis
    unfolding CBS_asn1_oid_to_text_def form
    by (simp only: s(1) parse prod.case option.case bool.case s1(1) s2(1) s3(1) s4)
qed

section \<open>Properties\<close>

text \<open>C20. \<open>CBB_add_asn1_oid_from_text\<close> accepts a text only if it is the dotted decimal form, without leading
  zeros, of an object identifier whose components fit (the first at most 2, the second at most 39
  under 0 and 1, all of 64 bits), and then appends exactly the DER contents of this identifier.\<close>

theorem oid_from_text_accepts_exactly:
  assumes "cbb_ok s" "CBB_add_asn1_oid_from_text h d s text n = (True, s')"
  shows "\<exists>comps. oid_ok comps \<and> take n text = oid_text comps \<and> appended h d s (oid_der comps) s'"
proof -
  obtain comps where comps: "oid_ok comps" "take n text = oid_text comps"
    using oid_from_text_sound [OF assms(2)] by blast
  obtain s1 where s1: "CBB_flush h d s = (True, s1)"
    using assms(2) by (auto simp: CBB_add_asn1_oid_from_text_def split: prod.splits bool.splits)
  then have app: "appended h d s [] s1" using flush_appended [OF assms(1)] by simp
  then obtain c where c: "settled d s1 c" by (auto simp: appended_def)
  have "add_all CBB_add_u8 h d s1 (oid_der comps) = (True, s')"
    using oid_from_text_eq [OF s1 comps] assms(2) by simp
  then have "appended h d s1 (oid_der comps) s'"
    using add_u8.all_appends [OF c all_true] settled_flushed [OF c] settled_depth [OF c] by (auto simp: appended_def)
  then show ?thesis using comps appended_trans [OF app] by auto
qed

theorem oid_from_text_accepts_exactly_witness:
  "let h = \<lparr>can_alloc = \<lambda>_. True, junk = \<lambda>_. 0\<rparr>;
       s = \<lparr>base = Some \<lparr>buf = [0, 0], len = 0, cap = 2, can_resize = False, error = False, fault = False\<rparr>, children = []\<rparr>
   in \<exists>s' comps. CBB_add_asn1_oid_from_text h 0 s [0x31, 0x2e, 0x32] 3 = (True, s') \<and>
        oid_ok comps \<and> [0x31, 0x2e, 0x32] = oid_text comps \<and> appended h 0 s (oid_der comps) s'"
proof -
  let ?h = "\<lparr>can_alloc = \<lambda>_. True, junk = \<lambda>_. 0\<rparr>"
  let ?s = "\<lparr>base = Some \<lparr>buf = [0, 0], len = 0, cap = 2, can_resize = False, error = False, fault = False\<rparr>, children = []\<rparr>"
  let ?t = "[0x31, 0x2e, 0x32] :: byte list"
  have set: "settled 0 ?s []" by (simp add: settled_def buf_ok_def contents_def size_mod_def)
  have form: "take 3 ?t = oid_text [1, 2]" by (simp add: decimal_digits.simps)
  have "oid_der [1, 2] = [42]" by code_simp
  then have "CBB_add_asn1_oid_from_text ?h 0 ?s ?t 3 = CBB_add_u8 ?h 0 ?s 42"
    using oid_from_text_eq [OF flush_settled [OF set] _ form] by (simp split: prod.splits bool.splits)
  also have "\<exists>s'. CBB_add_u8 ?h 0 ?s 42 = (True, s')"
    by (simp add: CBB_add_u8_def with_buffer_def on_buffer_def CBB_flush_def cbb_buffer_add_u_def cbb_buffer_add_def
        cbb_buffer_reserve_def size_mod_def store_def)
  finally obtain s' where run: "CBB_add_asn1_oid_from_text ?h 0 ?s ?t 3 = (True, s')" by blast
  have "take 3 ?t = ?t" by simp
  with oid_from_text_accepts_exactly [OF settled_ok [OF set] run] run show ?thesis unfolding Let_def by metis
qed

text \<open>C19. Texts of object identifiers make the round trip: from the text of any valid identifier the
  builder makes DER contents that \<open>CBS_asn1_oid_to_text\<close> turns back into the same text with its
  terminator, and no step fails when the heap has memory.\<close>

theorem oid_text_round_trip:
  assumes "\<forall>k. can_alloc h k" "k < size_mod" "oid_ok comps" "length (oid_text comps) + 1 < size_mod"
    "length (oid_der comps) < size_mod"
  shows "\<exists>s s' s'' b m. CBB_init h k = (True, s) \<and>
    CBB_add_asn1_oid_from_text h 0 s (oid_text comps) (length (oid_text comps)) = (True, s') \<and>
    CBB_finish h 0 s' True True = (Some (b, m), s'') \<and>
    CBS_asn1_oid_to_text h (take m b) = Some (oid_text comps @ [0])"
proof -
  obtain s where s: "CBB_init h k = (True, s)" "settled 0 s []" "grows h s"
    using CBB_init_settled [OF assms(1, 2)] by auto
  have eq: "CBB_add_asn1_oid_from_text h 0 s (oid_text comps) (length (oid_text comps)) =
      add_all CBB_add_u8 h 0 s (oid_der comps)"
    by (rule oid_from_text_eq [OF flush_settled [OF s(2)] assms(3)]) simp
  obtain s' where s': "add_all CBB_add_u8 h 0 s (oid_der comps) = (True, s')" "settled 0 s' (oid_der comps)"
    using filler.run [OF add_u8.all_filler s(2) all_true all_true s(3), where v = "oid_der comps"] assms(5) by auto
  obtain b s'' where b: "CBB_finish h 0 s' True True = (Some (b, length (oid_der comps)), s'')"
    "take (length (oid_der comps)) b = oid_der comps" using CBB_finish_settled [OF s'(2)] by blast
  show ?thesis
    using s(1) eq s'(1) b oid_to_text_run [OF assms(1, 3, 4)] by metis
qed

theorem oid_text_round_trip_witness:
  "let h = \<lparr>can_alloc = \<lambda>_. True, junk = \<lambda>_. 0\<rparr> in
   \<exists>s s' s'' b m. CBB_init h 0 = (True, s) \<and>
    CBB_add_asn1_oid_from_text h 0 s (oid_text [1, 2, 840]) (length (oid_text [1, 2, 840])) = (True, s') \<and>
    CBB_finish h 0 s' True True = (Some (b, m), s'') \<and>
    CBS_asn1_oid_to_text h (take m b) = Some (oid_text [1, 2, 840] @ [0])"
proof -
  let ?h = "\<lparr>can_alloc = \<lambda>_. True, junk = \<lambda>_. 0\<rparr>"
  have "\<forall>k. can_alloc ?h k" "0 < size_mod" "oid_ok [1, 2, 840]" by simp_all
  moreover have "length (oid_text [1, 2, 840]) = 7" "length (oid_der [1, 2, 840]) = 3"
    by (simp add: decimal_digits.simps) code_simp
  then have "length (oid_text [1, 2, 840]) + 1 < size_mod" "length (oid_der [1, 2, 840]) < size_mod"
    by (simp_all only: size_mod_def) simp_all
  ultimately show ?thesis unfolding Let_def by (rule oid_text_round_trip)
qed

end
