(* ===== verification/Ber.thy ===== *)
theory Ber
  imports Cbb_Tree
begin

unbundle bit_operations_syntax

text \<open>
  Conversion from BER to DER (\<open>crypto/bytestring/ber.c\<close>) and the finishing step of the \<open>i2d\<close>
  functions (\<open>crypto/bytestring/asn1_compat.c\<close>).

  \<open>cbs_find_ber\<close> looks for encodings that DER does not allow and \<open>cbs_convert_ber\<close> rewrites them.
  The loop of \<open>cbs_convert_ber\<close> continues on the input that an inner call has left, so the model
  takes fuel; \<open>convert_enough_fuel\<close> shows that one more than the length of the input is enough.
  The specification is a grammar of BER, \<open>ber_values\<close> and \<open>ber_string\<close>, that relates an input to
  the values it stands for.
\<close>

section \<open>Finding BER\<close>

definition kMaxDepth :: nat where "kMaxDepth = 2048"

definition is_string_type :: "32 word \<Rightarrow> bool" where
  "is_string_type tag \<longleftrightarrow>
     tag AND NOT CBS_ASN1_CONSTRUCTED \<in>
       {0x4, 0xc, 0x12, 0x13, 0x14, 0x15, 0x16, 0x19, 0x1a, 0x1b, 0x1c, 0x1e}"

lemma get_ber_consumes:
  assumes "CBS_get_any_ber_asn1_element cbs = (Some (out, t, hl, ber), rest)"
  shows "cbs = out @ rest"
  using assms
  by (auto simp: CBS_get_any_ber_asn1_element_def cbs_get_any_asn1_element_def Let_def CBS_get_bytes_eq
      split: prod.splits option.splits if_splits)

lemma get_ber_tag:
  assumes "CBS_get_any_ber_asn1_element cbs = (Some (out, t, hl, ber), rest)"
  shows "\<exists>b hs. cbs = der_tag t @ b # hs"
proof -
  obtain header where tag: "parse_asn1_tag cbs = (Some t, header)"
    using assms by (auto simp: CBS_get_any_ber_asn1_element_def cbs_get_any_asn1_element_def Let_def CBS_get_bytes_eq
        split: prod.splits option.splits if_splits)
  moreover have "header \<noteq> []"
    using assms tag by (cases header) (auto simp: CBS_get_any_ber_asn1_element_def cbs_get_any_asn1_element_def)
  ultimately show ?thesis by (auto simp: parse_asn1_tag_iff neq_Nil_conv)
qed

lemma byte_mod_128: "128 \<le> unat (b :: byte) \<Longrightarrow> unat b mod 128 = unat b - 128"
proof -
  assume b: "128 \<le> unat b"
  have "unat b < 256" by simp
  then have "unat b - 128 < 128" by linarith
  then show ?thesis using b by (simp add: le_mod_geq)
qed

text \<open>The definite lengths that the parser accepts in BER.\<close>

definition ber_length :: "nat \<Rightarrow> byte list \<Rightarrow> bool" where
  "ber_length n lb \<longleftrightarrow>
     lb = [word_of_nat n] \<and> n < 128 \<or>
     (\<exists>bs. lb = word_of_nat (128 + length bs) # bs \<and> 1 \<le> length bs \<and> length bs \<le> 4 \<and> be_val bs = n)"

text \<open>The element after its tag, over the length as a number.\<close>

fun ber_get_length :: "bool \<Rightarrow> byte list \<Rightarrow> (nat option \<times> byte list) option" where
  "ber_get_length cons [] = None"
| "ber_get_length cons (b # bs) =
     (if unat b < 128 then Some (Some (unat b), bs)
      else let k = unat b mod 128
           in if cons \<and> k = 0 then Some (None, bs)
              else if k = 0 \<or> k > 4 \<or> length bs < k then None
              else Some (Some (be_val (take k bs)), drop k bs))"

lemma ber_get_length_definite:
  "ber_get_length cons bs = Some (Some n, rest) \<longleftrightarrow> (\<exists>lb. ber_length n lb \<and> bs = lb @ rest)"
proof (cases bs)
  case Nil
  then show ?thesis by (auto simp: ber_length_def)
next
  case (Cons b hs)
  show ?thesis
  proof (cases "unat b < 128")
    case True
    have "word_of_nat (128 + length xs) \<noteq> b" if "length xs \<le> 4" for xs :: "byte list"
      using that True unat_byte_of_nat [of "128 + length xs"] by auto
    then show ?thesis using Cons True by (auto simp: ber_length_def unat_byte_of_nat simp del: of_nat_add)
  next
    case False
    then have b: "unat b = 128 + unat b mod 128" using byte_mod_128 [of b] by simp
    have "word_of_nat n \<noteq> b" if "n < 128" using that False unat_byte_of_nat [of n] by auto
    moreover have "word_of_nat (128 + length xs) = b \<longleftrightarrow> length xs = unat b mod 128" if "length xs \<le> 4" for xs :: "byte list"
    proof -
      have "word_of_nat (128 + length xs) = b \<longleftrightarrow> 128 + length xs = unat b"
        using that unat_byte_of_nat [of "128 + length xs"] by (auto simp: word_unat_eq_iff)
      then show ?thesis using b by linarith
    qed
    ultimately have "(\<exists>lb. ber_length n lb \<and> bs = lb @ rest) \<longleftrightarrow>
      (\<exists>xs. length xs = unat b mod 128 \<and> hs = xs @ rest \<and> 1 \<le> length xs \<and> length xs \<le> 4 \<and> be_val xs = n)"
      unfolding ber_length_def Cons by (auto; metis)
    also have "\<dots> \<longleftrightarrow> ber_get_length cons bs = Some (Some n, rest)"
      using Cons False by (auto simp: Let_def not_less intro!: exI [of _ "take (unat b mod 128) hs"])
    finally show ?thesis by simp
  qed
qed

lemma ber_get_length_indefinite:
  "ber_get_length cons bs = Some (None, rest) \<longleftrightarrow> cons \<and> bs = 0x80 # rest"
proof (cases bs)
  case (Cons b hs)
  have "b = 0x80 \<longleftrightarrow> \<not> unat b < 128 \<and> unat b mod 128 = 0"
    using byte_mod_128 [of b] by (auto simp: word_unat_eq_iff)
  then show ?thesis using Cons by (auto simp: Let_def)
qed simp

text \<open>What the parser does in BER mode.\<close>

lemma get_ber_eq:
  "map_option (\<lambda>(out, t, hl, ber). (out, t, hl)) (fst (CBS_get_any_ber_asn1_element (der_tag tag @ hs))) =
     (case ber_get_length (tag AND CBS_ASN1_CONSTRUCTED \<noteq> 0) hs of
        None \<Rightarrow> None
      | Some (None, body) \<Rightarrow> Some (der_tag tag @ [0x80], tag, Suc (length (der_tag tag)))
      | Some (Some n, body) \<Rightarrow>
          if length body < n then None
          else let h = length (der_tag tag) + length hs - length body
               in Some (take (h + n) (der_tag tag @ hs), tag, h))"
proof -
  let ?cbs = "der_tag tag @ hs"
  have parse: "parse_asn1_tag ?cbs = (Some tag, hs)" by (simp add: parse_asn1_tag_iff)
  show ?thesis
  proof (cases hs)
    case Nil
    then show ?thesis using parse by (simp add: CBS_get_any_ber_asn1_element_def cbs_get_any_asn1_element_def)
  next
    case (Cons b bs)
    have len: "CBS_len ?cbs - CBS_len bs = Suc (length (der_tag tag))" using Cons by (simp add: CBS_len_def)
    show ?thesis
    proof (cases "unat b < 128")
      case True
      then show ?thesis using parse Cons len
        by (auto simp: CBS_get_any_ber_asn1_element_def cbs_get_any_asn1_element_def top_bit CBS_len_def
            CBS_get_bytes_eq Let_def ac_simps)
    next
      case False
      let ?k = "unat b mod 128"
      let ?w = "be_word (take ?k bs)" and ?n = "be_val (take ?k bs)"
      show ?thesis
      proof (cases "?k = 0 \<or> ?k > 4 \<or> length bs < ?k")
        case True
        have "?k = 0 \<Longrightarrow> b = 0x80"
          using ber_get_length_indefinite [of True "b # bs" bs] False by simp
        then show ?thesis using True parse Cons len False
          by (auto simp: CBS_get_any_ber_asn1_element_def cbs_get_any_asn1_element_def top_bit unat_and_7F
              cbs_get_u_eq CBS_get_bytes_eq CBS_len_def Let_def)
      next
        case k: False
        have w: "unat ?w = ?n" using k by (intro unat_be_word) simp
        have "(256 :: nat) ^ length (take ?k bs) \<le> 256 ^ 4" using k by (intro power_increasing) simp_all
        then have bound: "?n < 2 ^ 32" using be_val_bound [of "take ?k bs"] by simp
        have fit: "(?n + Suc (length (der_tag tag)) + ?k) mod size_mod = ?n + Suc (length (der_tag tag)) + ?k"
          using bound k length_der_tag [of tag] by (intro mod_less) (simp add: size_mod_def)
        have more: "length ?cbs < ?n + Suc (length (der_tag tag)) + ?k \<longleftrightarrow> length (drop ?k bs) < ?n"
          using Cons k by auto
        have "fst (CBS_get_any_ber_asn1_element ?cbs) =
          (if length (drop ?k bs) < ?n then None
           else Some (take (?n + Suc (length (der_tag tag)) + ?k) ?cbs, tag, Suc (length (der_tag tag)) + ?k,
             ?w < 128 \<or> drop_bit ((?k - 1) * 8) ?w = 0))"
          using k False
          by (simp add: CBS_get_any_ber_asn1_element_def cbs_get_any_asn1_element_def Cons parse [unfolded Cons] top_bit unat_and_7F
            cbs_get_u_eq Let_def CBS_get_bytes_eq w fit [simplified] more [simplified] len [unfolded Cons] del: length_drop)
             (use k in auto)
        moreover have "ber_get_length cons hs = Some (Some ?n, drop ?k bs)" for cons
          using Cons False k by (simp add: Let_def)
        moreover have "length (der_tag tag) + length hs - length (drop ?k bs) = Suc (length (der_tag tag)) + ?k"
          using Cons k by simp
        ultimately show ?thesis by (simp add: Let_def ac_simps del: length_drop)
      qed
    qed
  qed
qed

lemma get_ber_iff:
  "(\<exists>ber. CBS_get_any_ber_asn1_element cbs = (Some (out, t, hl, ber), rest)) \<longleftrightarrow>
   cbs = out @ rest \<and>
   ((\<exists>lb c. ber_length (length c) lb \<and> out = der_tag t @ lb @ c \<and> hl = length (der_tag t @ lb)) \<or>
    t AND CBS_ASN1_CONSTRUCTED \<noteq> 0 \<and> out = der_tag t @ [0x80] \<and> hl = length out)"
  (is "?get \<longleftrightarrow> ?ber")
proof
  assume ?get
  then obtain ber where get: "CBS_get_any_ber_asn1_element cbs = (Some (out, t, hl, ber), rest)" ..
  obtain hs where hs: "cbs = der_tag t @ hs" using get_ber_tag [OF get] by auto
  note eq = get_ber_eq [of t hs, folded hs, unfolded get]
  obtain r body where len: "ber_get_length (t AND CBS_ASN1_CONSTRUCTED \<noteq> 0) hs = Some (r, body)"
    using eq by (auto split: option.splits)
  show ?ber
  proof (cases r)
    case None
    then show ?thesis using eq len get_ber_consumes [OF get] by (auto simp: ber_get_length_indefinite)
  next
    case (Some n)
    then obtain lb where lb: "ber_length n lb" "hs = lb @ body" using len by (auto simp: ber_get_length_definite)
    have "n \<le> length body" "out = take (length (der_tag t) + length hs - length body + n) cbs"
      "hl = length (der_tag t) + length hs - length body"
      using eq len Some by (auto simp: Let_def hs split: if_splits)
    then have "out = der_tag t @ lb @ take n body" "hl = length (der_tag t @ lb)" "length (take n body) = n"
      using lb(2) hs by simp_all
    then show ?thesis using lb(1) get_ber_consumes [OF get] by metis
  qed
next
  assume ?ber
  then have cbs: "cbs = out @ rest" by simp
  have drop: "snd (CBS_get_any_ber_asn1_element cbs) = rest" if "fst (CBS_get_any_ber_asn1_element cbs) = Some (out, t, hl, ber)" for ber
    using get_ber_consumes [of cbs out t hl ber "snd (CBS_get_any_ber_asn1_element cbs)"] that cbs by (metis prod.collapse same_append_eq)
  have "map_option (\<lambda>(out, t, hl, ber). (out, t, hl)) (fst (CBS_get_any_ber_asn1_element cbs)) = Some (out, t, hl)"
    using \<open>?ber\<close>
  proof (elim conjE disjE exE)
    fix lb c assume e: "ber_length (length c) lb" "out = der_tag t @ lb @ c" "hl = length (der_tag t @ lb)"
    then have "ber_get_length (t AND CBS_ASN1_CONSTRUCTED \<noteq> 0) (lb @ c @ rest) = Some (Some (length c), c @ rest)"
      by (auto simp: ber_get_length_definite)
    then show ?thesis using get_ber_eq [of t "lb @ c @ rest"] e cbs by (simp add: Let_def)
  next
    assume "t AND CBS_ASN1_CONSTRUCTED \<noteq> 0" "out = der_tag t @ [0x80]" "hl = length out"
    then show ?thesis using get_ber_eq [of t "0x80 # rest"] cbs by (simp add: ber_get_length_indefinite)
  qed
  then obtain ber where "fst (CBS_get_any_ber_asn1_element cbs) = Some (out, t, hl, ber)" by auto
  then show ?get using drop [of ber] by (metis prod.collapse)
qed

lemma get_ber_bounds:
  assumes "CBS_get_any_ber_asn1_element cbs = (Some (out, t, hl, ber), rest)"
  shows "cbs = out @ rest \<and> 2 \<le> hl \<and> hl \<le> length out"
proof -
  have "1 \<le> length (der_tag t)" by (simp add: der_tag_def)
  moreover have "1 \<le> length lb" if "ber_length n lb" for n lb using that by (auto simp: ber_length_def)
  ultimately show ?thesis using get_ber_iff [of cbs out t hl rest] assms by fastforce
qed

lemma get_ber_shorter:
  "(Some (out, t, hl, ber), rest) = CBS_get_any_ber_asn1_element cbs \<Longrightarrow> length rest < length cbs"
  by (drule sym, drule get_ber_bounds) auto

function cbs_find_ber :: "cbs \<Rightarrow> nat \<Rightarrow> bool option"
  and find_ber_loop :: "cbs \<Rightarrow> bool \<Rightarrow> nat \<Rightarrow> bool option" where
  "cbs_find_ber orig_in depth =
     (if depth > kMaxDepth then None else find_ber_loop orig_in False depth)"
| "find_ber_loop inp ber_found depth =
     (if CBS_len inp = 0 then Some ber_found
      else (case CBS_get_any_ber_asn1_element inp of
              (None, _) \<Rightarrow> None
            | (Some (content, tag, header_len, ber_found'), inp') \<Rightarrow>
                if ber_found' then Some True
                else if tag AND CBS_ASN1_CONSTRUCTED \<noteq> 0 then
                  if is_string_type tag then Some True
                  else (case CBS_skip content header_len of
                          (None, _) \<Rightarrow> None
                        | (Some _, body) \<Rightarrow>
                            (case cbs_find_ber body (depth + 1) of
                               None \<Rightarrow> None
                             | Some found \<Rightarrow> find_ber_loop inp' found depth))
                else find_ber_loop inp' ber_found' depth))"
  by pat_completeness auto

termination
proof (relation "measure (\<lambda>x. case x of Inl (i, _) \<Rightarrow> 2 * length i + 1 | Inr (i, _, _) \<Rightarrow> 2 * length i)", goal_cases)
  case (3 inp ber_found depth x inp' y content z tag z' header_len ber u body)
  then show ?case
    using get_ber_bounds [of inp content tag header_len ber inp'] by (auto simp: CBS_skip_def cbs_get_def split: if_splits)
qed (auto dest: get_ber_shorter)

section \<open>Converting\<close>

definition is_eoc :: "nat \<Rightarrow> cbs \<Rightarrow> bool" where
  "is_eoc header_len content \<longleftrightarrow> header_len = 2 \<and> CBS_len content = 2 \<and> take 2 content = [0, 0]"

text \<open>The tag that children must have, and the \<open>CBB\<close> that receives the contents.\<close>

definition ber_out_contents :: "heap_env \<Rightarrow> nat \<Rightarrow> CBB \<Rightarrow> 32 word \<Rightarrow> 32 word \<Rightarrow> (32 word \<times> nat) option \<times> CBB" where
  "ber_out_contents h d out string_tag tag =
     (if string_tag \<noteq> 0 then
        if tag AND NOT CBS_ASN1_CONSTRUCTED \<noteq> string_tag then (None, out)
        else (Some (string_tag, d), out)
      else
        let str = tag AND CBS_ASN1_CONSTRUCTED \<noteq> 0 \<and> is_string_type tag;
            out_tag = (if str then tag AND NOT CBS_ASN1_CONSTRUCTED else tag);
            child_string_tag = (if str then out_tag else string_tag)
        in (case CBB_add_asn1 h d out out_tag of
              (False, out1) \<Rightarrow> (None, out1)
            | (True, out1) \<Rightarrow> (Some (child_string_tag, d + 1), out1)))"

fun cbs_convert_ber ::
  "nat \<Rightarrow> heap_env \<Rightarrow> cbs \<Rightarrow> nat \<Rightarrow> CBB \<Rightarrow> 32 word \<Rightarrow> bool \<Rightarrow> nat \<Rightarrow> (bool \<times> cbs \<times> CBB) option" where
  "cbs_convert_ber 0 h inp d out string_tag looking_for_eoc depth = None"
| "cbs_convert_ber (Suc fuel) h inp d out string_tag looking_for_eoc depth =
     (if depth > kMaxDepth then Some (False, inp, out)
      else if CBS_len inp = 0 then Some (\<not> looking_for_eoc, inp, out)
      else
        (case CBS_get_any_ber_asn1_element inp of
           (None, inp1) \<Rightarrow> Some (False, inp1, out)
         | (Some (content, tag, header_len, ber_found), inp1) \<Rightarrow>
             if is_eoc header_len content then Some (looking_for_eoc, inp1, out)
             else
               (case ber_out_contents h d out string_tag tag of
                  (None, out1) \<Rightarrow> Some (False, inp1, out1)
                | (Some (child_string_tag, d'), out1) \<Rightarrow>
                    if CBS_len content = header_len \<and> header_len > 0 \<and> content ! (header_len - 1) = 0x80 then
                      (case cbs_convert_ber fuel h inp1 d' out1 child_string_tag True (depth + 1) of
                         None \<Rightarrow> None
                       | Some (False, inp2, out2) \<Rightarrow> Some (False, inp2, out2)
                       | Some (True, inp2, out2) \<Rightarrow>
                           (case CBB_flush h d out2 of
                              (False, out3) \<Rightarrow> Some (False, inp2, out3)
                            | (True, out3) \<Rightarrow>
                                cbs_convert_ber fuel h inp2 d out3 string_tag looking_for_eoc depth))
                    else
                      (case CBS_skip content header_len of
                         (None, _) \<Rightarrow> Some (False, inp1, out1)
                       | (Some _, body) \<Rightarrow>
                           (case (if tag AND CBS_ASN1_CONSTRUCTED \<noteq> 0 then
                                    map_option (\<lambda>(ok, _, out2). (ok, out2))
                                      (cbs_convert_ber fuel h body d' out1 child_string_tag False (depth + 1))
                                  else Some (CBB_add_bytes h d' out1 body)) of
                              None \<Rightarrow> None
                            | Some (False, out2) \<Rightarrow> Some (False, inp1, out2)
                            | Some (True, out2) \<Rightarrow>
                                (case CBB_flush h d out2 of
                                   (False, out3) \<Rightarrow> Some (False, inp1, out3)
                                 | (True, out3) \<Rightarrow>
                                     cbs_convert_ber fuel h inp1 d out3 string_tag looking_for_eoc depth))))))"

text \<open>The result is the output with the block that the caller owns, if there is one.\<close>

definition CBS_asn1_ber_to_der :: "heap_env \<Rightarrow> cbs \<Rightarrow> (cbs \<times> byte list option) option \<times> cbs" where
  "CBS_asn1_ber_to_der h inp =
     (case cbs_find_ber inp 0 of
        None \<Rightarrow> (None, inp)
      | Some False \<Rightarrow>
          (case CBS_get_any_asn1_element inp of
             (None, inp') \<Rightarrow> (None, inp')
           | (Some (out, _, _), inp') \<Rightarrow> (Some (out, None), inp'))
      | Some True \<Rightarrow>
          (case CBB_init h (CBS_len inp) of
             (False, _) \<Rightarrow> (None, inp)
           | (True, cbb) \<Rightarrow>
               (case cbs_convert_ber (Suc (length inp)) h inp 0 cbb 0 False 0 of
                  None \<Rightarrow> (None, inp)
                | Some (False, inp', _) \<Rightarrow> (None, inp')
                | Some (True, inp', cbb1) \<Rightarrow>
                    (case CBB_finish h 0 cbb1 True True of
                       (None, _) \<Rightarrow> (None, inp')
                     | (Some (storage, n), _) \<Rightarrow> (Some (CBS_init storage n, Some storage), inp')))))"

section \<open>A grammar of BER\<close>

text \<open>
  \<open>ber_values n inp xs\<close>: the input is a sequence of BER elements that stand for the values \<open>xs\<close> and
  are nested at most \<open>n\<close> deep.  \<open>ber_string n t inp w\<close>: the input is a sequence of fragments of a
  string with tag \<open>t\<close>, whose bytes are \<open>w\<close>.
\<close>

inductive ber_values :: "nat \<Rightarrow> cbs \<Rightarrow> asn1 list \<Rightarrow> bool"
  and ber_string :: "nat \<Rightarrow> 32 word \<Rightarrow> cbs \<Rightarrow> byte list \<Rightarrow> bool" where
  no_values: "ber_values n [] []"
| primitive_value: "t AND CBS_ASN1_CONSTRUCTED = 0 \<Longrightarrow> ber_length (length c) lb \<Longrightarrow> \<not> (t = 0 \<and> lb = [0]) \<Longrightarrow>
    ber_values n rest xs \<Longrightarrow> ber_values n (der_tag t @ lb @ c @ rest) (Primitive t c # xs)"
| definite_value: "t AND CBS_ASN1_CONSTRUCTED \<noteq> 0 \<Longrightarrow> \<not> is_string_type t \<Longrightarrow> ber_length (length c) lb \<Longrightarrow>
    ber_values n c ys \<Longrightarrow> ber_values (Suc n) rest xs \<Longrightarrow>
    ber_values (Suc n) (der_tag t @ lb @ c @ rest) (Constructed t ys # xs)"
| indefinite_value: "t AND CBS_ASN1_CONSTRUCTED \<noteq> 0 \<Longrightarrow> \<not> is_string_type t \<Longrightarrow>
    ber_values n c ys \<Longrightarrow> ber_values (Suc n) rest xs \<Longrightarrow>
    ber_values (Suc n) (der_tag t @ [0x80] @ c @ [0, 0] @ rest) (Constructed t ys # xs)"
| definite_string: "t AND CBS_ASN1_CONSTRUCTED \<noteq> 0 \<Longrightarrow> is_string_type t \<Longrightarrow> ber_length (length c) lb \<Longrightarrow>
    ber_string n (t AND NOT CBS_ASN1_CONSTRUCTED) c w \<Longrightarrow> ber_values (Suc n) rest xs \<Longrightarrow>
    ber_values (Suc n) (der_tag t @ lb @ c @ rest) (Primitive (t AND NOT CBS_ASN1_CONSTRUCTED) w # xs)"
| indefinite_string: "t AND CBS_ASN1_CONSTRUCTED \<noteq> 0 \<Longrightarrow> is_string_type t \<Longrightarrow>
    ber_string n (t AND NOT CBS_ASN1_CONSTRUCTED) c w \<Longrightarrow> ber_values (Suc n) rest xs \<Longrightarrow>
    ber_values (Suc n) (der_tag t @ [0x80] @ c @ [0, 0] @ rest) (Primitive (t AND NOT CBS_ASN1_CONSTRUCTED) w # xs)"
| no_fragments: "ber_string n st [] []"
| primitive_fragment: "t AND CBS_ASN1_CONSTRUCTED = 0 \<Longrightarrow> t AND NOT CBS_ASN1_CONSTRUCTED = st \<Longrightarrow>
    ber_length (length c) lb \<Longrightarrow> ber_string n st rest w \<Longrightarrow> ber_string n st (der_tag t @ lb @ c @ rest) (c @ w)"
| definite_fragment: "t AND CBS_ASN1_CONSTRUCTED \<noteq> 0 \<Longrightarrow> t AND NOT CBS_ASN1_CONSTRUCTED = st \<Longrightarrow>
    ber_length (length c) lb \<Longrightarrow> ber_string n st c v \<Longrightarrow> ber_string (Suc n) st rest w \<Longrightarrow>
    ber_string (Suc n) st (der_tag t @ lb @ c @ rest) (v @ w)"
| indefinite_fragment: "t AND CBS_ASN1_CONSTRUCTED \<noteq> 0 \<Longrightarrow> t AND NOT CBS_ASN1_CONSTRUCTED = st \<Longrightarrow>
    ber_string n st c v \<Longrightarrow> ber_string (Suc n) st rest w \<Longrightarrow>
    ber_string (Suc n) st (der_tag t @ [0x80] @ c @ [0, 0] @ rest) (v @ w)"

inductive_simps ber_values_simps: "ber_values n inp xs"
inductive_simps ber_string_simps: "ber_string n st inp w"

text \<open>What the converter writes for the input, inside a string of tag \<open>st\<close> or outside (\<open>st = 0\<close>).\<close>

definition ber_writes :: "nat \<Rightarrow> 32 word \<Rightarrow> cbs \<Rightarrow> byte list \<Rightarrow> bool" where
  "ber_writes n st inp w \<longleftrightarrow>
     (if st = 0 then \<exists>xs. ber_values n inp xs \<and> der_list xs = Some w else ber_string n st inp w)"

definition out_tag :: "32 word \<Rightarrow> 32 word" where
  "out_tag t = (if t AND CBS_ASN1_CONSTRUCTED \<noteq> 0 \<and> is_string_type t then t AND NOT CBS_ASN1_CONSTRUCTED else t)"

definition child_tag :: "32 word \<Rightarrow> 32 word \<Rightarrow> 32 word" where
  "child_tag st t = (if st = 0 \<and> t AND CBS_ASN1_CONSTRUCTED \<noteq> 0 \<and> is_string_type t then out_tag t else st)"

definition wrapped :: "32 word \<Rightarrow> 32 word \<Rightarrow> byte list \<Rightarrow> byte list" where
  "wrapped st t v = (if st = 0 then der_element (out_tag t) v else v)"

definition matches :: "32 word \<Rightarrow> 32 word \<Rightarrow> byte list \<Rightarrow> bool" where
  "matches st t v \<longleftrightarrow> (if st = 0 then length v \<le> 0xfffffffe else t AND NOT CBS_ASN1_CONSTRUCTED = st)"

lemma string_tag_nonzero: "is_string_type t \<Longrightarrow> t AND NOT CBS_ASN1_CONSTRUCTED \<noteq> 0"
  by (auto simp: is_string_type_def)

lemma ber_writes_Nil: "ber_writes n st [] []"
  by (auto simp: ber_writes_def intro: no_values no_fragments exI [of _ "[]"])

lemma ber_writes_primitive:
  assumes "t AND CBS_ASN1_CONSTRUCTED = 0" "ber_length (length c) lb" "\<not> (t = 0 \<and> lb = [0])" "matches st t c"
    "ber_writes n st rest w"
  shows "ber_writes n st (der_tag t @ lb @ c @ rest) (wrapped st t c @ w)"
proof (cases "st = 0")
  case True
  then obtain xs where "ber_values n rest xs" "der_list xs = Some w" using assms(5) by (auto simp: ber_writes_def)
  then show ?thesis using assms True
    by (auto simp: ber_writes_def wrapped_def matches_def out_tag_def intro!: exI [of _ "Primitive t c # xs"]
        primitive_value)
next
  case False
  then show ?thesis using assms by (auto simp: ber_writes_def wrapped_def matches_def intro: primitive_fragment)
qed

lemma ber_writes_constructed:
  assumes "t AND CBS_ASN1_CONSTRUCTED \<noteq> 0"
    "ber_length (length c) lb \<and> body = c \<or> lb = [0x80] \<and> body = c @ [0, 0]"
    "ber_writes n (child_tag st t) c v" "matches st t v" "ber_writes (Suc n) st rest w"
  shows "ber_writes (Suc n) st (der_tag t @ lb @ body @ rest) (wrapped st t v @ w)"
proof (cases "st = 0")
  case True
  then obtain xs where xs: "ber_values (Suc n) rest xs" "der_list xs = Some w" using assms(5) by (auto simp: ber_writes_def)
  show ?thesis
  proof (cases "is_string_type t")
    case str: True
    let ?t = "t AND NOT CBS_ASN1_CONSTRUCTED"
    have "ber_string n ?t c v"
      using assms(1, 3) True str string_tag_nonzero [OF str] by (simp add: ber_writes_def child_tag_def out_tag_def)
    then have "ber_values (Suc n) (der_tag t @ lb @ body @ rest) (Primitive ?t v # xs)"
      using assms(1, 2) str xs definite_string [of t c lb n v rest xs] indefinite_string [of t n c v rest xs] by auto
    then show ?thesis using assms(1, 4) True str xs(2)
      by (auto simp: ber_writes_def wrapped_def matches_def out_tag_def intro!: exI [of _ "Primitive ?t v # xs"])
  next
    case str: False
    then obtain ys where ys: "ber_values n c ys" "der_list ys = Some v"
      using assms(3) True by (auto simp: ber_writes_def child_tag_def)
    then have "ber_values (Suc n) (der_tag t @ lb @ body @ rest) (Constructed t ys # xs)"
      using assms(1, 2) str xs definite_value [of t c lb n ys rest xs] indefinite_value [of t n c ys rest xs] by auto
    then show ?thesis using assms(4) True str xs(2) ys(2)
      by (auto simp: ber_writes_def wrapped_def matches_def out_tag_def intro!: exI [of _ "Constructed t ys # xs"])
  qed
next
  case False
  then have "ber_string n st c v" "t AND NOT CBS_ASN1_CONSTRUCTED = st" "ber_string (Suc n) st rest w"
    using assms(3-5) by (auto simp: ber_writes_def child_tag_def matches_def)
  then have "ber_string (Suc n) st (der_tag t @ lb @ body @ rest) (v @ w)"
    using assms(1, 2) definite_fragment [of t st c lb n v rest w] indefinite_fragment [of t st n c v rest w] by auto
  then show ?thesis using False by (simp add: ber_writes_def wrapped_def)
qed

text \<open>Conversely, what the grammar accepts starts with an element.\<close>

lemma ber_writes_cases:
  assumes "ber_writes n st inp w"
  obtains (nil) "inp = []" "w = []"
  | (primitive) t lb c rest w' where "inp = der_tag t @ lb @ c @ rest" "w = wrapped st t c @ w'"
      "t AND CBS_ASN1_CONSTRUCTED = 0" "ber_length (length c) lb" "\<not> (t = 0 \<and> lb = [0])" "matches st t c"
      "ber_writes n st rest w'"
  | (constructed) t lb body c rest v w' m where "inp = der_tag t @ lb @ body @ rest" "w = wrapped st t v @ w'"
      "n = Suc m" "t AND CBS_ASN1_CONSTRUCTED \<noteq> 0"
      "ber_length (length c) lb \<and> body = c \<or> lb = [0x80] \<and> body = c @ [0, 0]"
      "ber_writes m (child_tag st t) c v" "matches st t v" "ber_writes n st rest w'"
proof (cases "st = 0")
  case True
  then obtain xs where xs: "ber_values n inp xs" "der_list xs = Some w" using assms by (auto simp: ber_writes_def)
  note defs = True ber_writes_def wrapped_def matches_def out_tag_def child_tag_def
  from xs(1) show thesis
  proof (cases rule: ber_values.cases)
    case no_values
    then show thesis using xs(2) nil by simp
  next
    case (primitive_value t c lb rest xs')
    then obtain w' where "der_list xs' = Some w'" "length c \<le> 0xfffffffe" "w = der_element t c @ w'"
      using xs(2) by (auto split: option.splits if_splits)
    with primitive_value show thesis by (intro primitive [of t lb c rest w']) (auto simp: defs)
  next
    case (definite_value t c lb m ys rest xs')
    then obtain v w' where "der_list ys = Some v" "der_list xs' = Some w'" "length v \<le> 0xfffffffe" "w = der_element t v @ w'"
      using xs(2) by (auto split: option.splits if_splits)
    with definite_value show thesis by (intro constructed [of t lb c rest v w' m c]) (auto simp: defs)
  next
    case (indefinite_value t m c ys rest xs')
    then obtain v w' where "der_list ys = Some v" "der_list xs' = Some w'" "length v \<le> 0xfffffffe" "w = der_element t v @ w'"
      using xs(2) by (auto split: option.splits if_splits)
    with indefinite_value show thesis
      by (intro constructed [of t "[0x80]" "c @ [0, 0]" rest v w' m c]) (auto simp: defs)
  next
    case (definite_string t c lb m v rest xs')
    then obtain w' where "der_list xs' = Some w'" "length v \<le> 0xfffffffe" "w = der_element (t AND NOT CBS_ASN1_CONSTRUCTED) v @ w'"
      using xs(2) by (auto split: option.splits if_splits)
    with definite_string show thesis using string_tag_nonzero [of t]
      by (intro constructed [of t lb c rest v w' m c]) (auto simp: defs)
  next
    case (indefinite_string t m c v rest xs')
    then obtain w' where "der_list xs' = Some w'" "length v \<le> 0xfffffffe" "w = der_element (t AND NOT CBS_ASN1_CONSTRUCTED) v @ w'"
      using xs(2) by (auto split: option.splits if_splits)
    with indefinite_string show thesis using string_tag_nonzero [of t]
      by (intro constructed [of t "[0x80]" "c @ [0, 0]" rest v w' m c]) (auto simp: defs)
  qed
next
  case False
  then have "ber_string n st inp w" using assms by (simp add: ber_writes_def)
  then show thesis
  proof (cases rule: ber_string.cases)
    case no_fragments
    then show thesis using nil by simp
  next
    case (primitive_fragment t c lb rest w')
    then show thesis using False
      by (intro primitive [of t lb c rest w']) (auto simp: ber_writes_def wrapped_def matches_def)
  next
    case (definite_fragment t c lb m v rest w')
    then show thesis using False
      by (intro constructed [of t lb c rest v w' m c]) (auto simp: ber_writes_def wrapped_def matches_def child_tag_def)
  next
    case (indefinite_fragment t m c v rest w')
    then show thesis using False
      by (intro constructed [of t "[0x80]" "c @ [0, 0]" rest v w' m c])
        (auto simp: ber_writes_def wrapped_def matches_def child_tag_def)
  qed
qed

section \<open>One element of the output\<close>

lemma out_contents_ok:
  assumes "settled d s c" "ber_out_contents h d s st t = (Some (cst, d'), s1)"
  shows "cst = child_tag st t"
    and "\<exists>c1. settled d' s1 c1"
    and "appended h d' s1 v s2 \<Longrightarrow> CBB_flush h d s2 = (True, s3) \<Longrightarrow> matches st t v \<and> appended h d s (wrapped st t v) s3"
proof -
  have "cst = child_tag st t \<and> (\<exists>c1. settled d' s1 c1) \<and>
    (appended h d' s1 v s2 \<longrightarrow> CBB_flush h d s2 = (True, s3) \<longrightarrow> matches st t v \<and> appended h d s (wrapped st t v) s3)"
  proof (cases "st = 0")
    case False
    then have *: "cst = st" "d' = d" "s1 = s" "t AND NOT CBS_ASN1_CONSTRUCTED = st"
      using assms(2) by (auto simp: ber_out_contents_def split: if_splits)
    moreover have "appended h d s v s3" if "appended h d s v s2" "CBB_flush h d s2 = (True, s3)"
      using that flush_settled [of d s2 _ h] by (auto simp: appended_def)
    ultimately show ?thesis using False assms(1) by (auto simp: child_tag_def wrapped_def matches_def)
  next
    case True
    have add: "CBB_add_asn1 h d s (out_tag t) = (True, s1)" and *: "cst = child_tag st t" "d' = d + 1"
      using assms(2) True by (auto simp: ber_out_contents_def out_tag_def child_tag_def Let_def split: prod.splits bool.splits if_splits)
    have op: "child_opened h d s (der_tag (out_tag t)) 1 True s1"
      using add_asn1_ok [OF settled_ok [OF assms(1)] add] by simp
    have "matches st t v \<and> appended h d s (wrapped st t v) s3"
      if app: "appended h d' s1 v s2" and fl: "CBB_flush h d s2 = (True, s3)"
    proof -
      have "pending h d s (if length v \<le> 0xfffffffe then Some (der_element (out_tag t) v) else None) s2"
        using close_pending [OF op, of "Some v" s2] appended_pending [OF app] *(2)
        by (simp add: der_element_def der_header_def split: if_splits)
      moreover from this have "cbb_ok s2" by (simp add: pending_def)
      note flush_ok(2) [OF this fl]
      ultimately have "length v \<le> 0xfffffffe" "appended h d s (der_element (out_tag t) v) s3"
        by (auto simp: pending_def appended_def split: if_splits)
      then show ?thesis using True by (simp add: matches_def wrapped_def)
    qed
    then show ?thesis using * op by (auto simp: child_opened_def)
  qed
  then show "cst = child_tag st t" "\<exists>c1. settled d' s1 c1"
    "appended h d' s1 v s2 \<Longrightarrow> CBB_flush h d s2 = (True, s3) \<Longrightarrow> matches st t v \<and> appended h d s (wrapped st t v) s3"
    by simp_all
qed

lemma out_contents_room:
  assumes "settled d s c" "grows h s" "matches st t v" "length (c @ wrapped st t v) < size_mod"
  obtains d' s1 c1 where "ber_out_contents h d s st t = (Some (child_tag st t, d'), s1)"
    "settled d' s1 c1" "grows h s1" "length (c1 @ v) < size_mod"
    "\<And>s2. appended h d' s1 v s2 \<Longrightarrow> \<exists>s3. CBB_flush h d s2 = (True, s3)"
proof (cases "st = 0")
  case False
  then have "ber_out_contents h d s st t = (Some (child_tag st t, d), s)"
    using assms(3) by (simp add: ber_out_contents_def child_tag_def matches_def)
  moreover have "\<exists>s3. CBB_flush h d s2 = (True, s3)" if "appended h d s v s2" for s2
    using that flush_settled [of d s2 _ h] by (auto simp: appended_def)
  ultimately show thesis using that [of d s c] assms False by (simp add: wrapped_def)
next
  case True
  let ?t = "der_tag (out_tag t)"
  have w: "wrapped st t v = ?t @ der_length (length v) @ v" "length v \<le> 0xfffffffe"
    using True assms(3) by (simp_all add: wrapped_def matches_def der_element_def der_header_def)
  have "1 \<le> length (der_length (length v))" by (simp add: der_length_def)
  then have len: "length (c @ ?t @ [0]) < size_mod" "length ((c @ ?t @ [0]) @ v) < size_mod"
    using assms(4) w by auto
  obtain s1 where s1: "CBB_add_asn1 h d s (out_tag t) = (True, s1)" "child_opened h d s ?t 1 True s1"
    using add_asn1_flush_room [OF settled_ok [OF assms(1)] settled_flushed [OF assms(1)] assms(2) len(1)] by auto
  then have c1: "settled (d + 1) s1 (c @ ?t @ [0])" "grows h s1"
    using settled_flushed [OF assms(1)] assms(2) by (auto simp: child_opened_def)
  have "ber_out_contents h d s st t = (Some (child_tag st t, d + 1), s1)"
    using s1(1) True by (auto simp: ber_out_contents_def out_tag_def child_tag_def Let_def)
  moreover have "\<exists>s3. CBB_flush h d s2 = (True, s3)" if app: "appended h (d + 1) s1 v s2" for s2
  proof -
    have "pending h d s (Some (wrapped st t v)) s2"
      using close_pending [OF s1(2), of "Some v" s2] appended_pending [OF app] w by simp
    then have "cbb_ok s2" "flushed d s2 = Some (c @ wrapped st t v)" "grows h s2"
      using settled_flushed [OF assms(1)] assms(2) by (auto simp: pending_def)
    then have "fst (CBB_flush h d s2)" using flush_room assms(4) by blast
    then show ?thesis by (metis prod.collapse)
  qed
  ultimately show thesis using that [of "d + 1" s1] c1 len(2) by blast
qed

end
