(* ===== verification/Ber_Convert.thy ===== *)
theory Ber_Convert
  imports Ber
begin

unbundle bit_operations_syntax

text \<open>
  What the conversion from BER to DER computes.  The loop of \<open>cbs_convert_ber\<close> is first rewritten over
  the shape of the element at the front of the input; the grammar of \<open>Ber\<close> then describes it exactly.
\<close>

section \<open>One step of the loop\<close>

lemma der_tag_0: "der_tag t @ lb @ c = [0, 0] \<and> lb \<noteq> [] \<longleftrightarrow> t = 0 \<and> lb = [0] \<and> c = []"
proof -
  have zero: "der_tag 0 = [0]" by code_simp
  have ne: "der_tag t \<noteq> []" by (simp add: der_tag_def)
  have "der_tag t = [0] \<longleftrightarrow> t = 0"
  proof
    assume "der_tag t = [0]"
    then have "parse_asn1_tag (der_tag 0) = (Some t, [])" "parse_asn1_tag (der_tag 0) = (Some 0, [])"
      by (simp_all add: parse_asn1_tag_iff zero)
    then show "t = 0" by simp
  qed (simp add: zero)
  then show ?thesis using ne by (auto simp: append_eq_Cons_conv zero)
qed

lemma ber_length_nonempty: "ber_length n lb \<Longrightarrow> lb \<noteq> []"
  by (auto simp: ber_length_def)

lemma ber_length_0_last: "ber_length 0 lb \<Longrightarrow> last lb \<noteq> 0x80"
proof -
  assume "ber_length 0 lb"
  then consider "lb = [0]" | b bs where "lb = b # bs" "be_val bs = 0" "bs \<noteq> []"
    by (auto simp: ber_length_def Suc_le_length_iff)
  then show ?thesis
  proof cases
    case (2 b bs)
    then have "be_val (butlast bs @ [last bs]) = 0" by simp
    then have "unat (last bs) = 0" by (simp only: be_val_snoc)
    then show ?thesis using 2 by auto
  qed simp
qed

lemma get_ber_definite:
  assumes "ber_length (length c) lb"
  shows "\<exists>ber. CBS_get_any_ber_asn1_element (der_tag t @ lb @ c @ rest) =
    (Some (der_tag t @ lb @ c, t, length (der_tag t @ lb), ber), rest)"
  using get_ber_iff [of "der_tag t @ lb @ c @ rest" "der_tag t @ lb @ c" t "length (der_tag t @ lb)" rest] assms
  by auto

lemma get_ber_indefinite:
  assumes "t AND CBS_ASN1_CONSTRUCTED \<noteq> 0"
  shows "\<exists>ber. CBS_get_any_ber_asn1_element (der_tag t @ 0x80 # rest) =
    (Some (der_tag t @ [0x80], t, Suc (length (der_tag t)), ber), rest)"
  using get_ber_iff [of "der_tag t @ 0x80 # rest" "der_tag t @ [0x80]" t "Suc (length (der_tag t))" rest] assms
  by auto

lemma input_cases:
  obtains (empty) "inp = []"
  | (bad) inp1 where "inp \<noteq> []" "CBS_get_any_ber_asn1_element inp = (None, inp1)"
  | (eoc) rest where "inp = 0 # 0 # rest"
  | (definite) t lb c rest where "inp = der_tag t @ lb @ c @ rest" "ber_length (length c) lb" "\<not> (t = 0 \<and> lb = [0])"
  | (indefinite) t rest where "inp = der_tag t @ 0x80 # rest" "t AND CBS_ASN1_CONSTRUCTED \<noteq> 0"
proof (cases "inp = [] \<or> fst (CBS_get_any_ber_asn1_element inp) = None")
  case True
  then show thesis using empty bad by (metis prod.collapse)
next
  case False
  then obtain content t hl ber rest where get: "CBS_get_any_ber_asn1_element inp = (Some (content, t, hl, ber), rest)"
    by (metis option.exhaust prod.collapse)
  then have inp: "inp = content @ rest"
    "(\<exists>lb c. ber_length (length c) lb \<and> content = der_tag t @ lb @ c \<and> hl = length (der_tag t @ lb)) \<or>
     t AND CBS_ASN1_CONSTRUCTED \<noteq> 0 \<and> content = der_tag t @ [0x80] \<and> hl = length content"
    using get_ber_iff by blast+
  from inp(2) show thesis
  proof (elim disjE exE conjE)
    fix lb c assume e: "ber_length (length c) lb" "content = der_tag t @ lb @ c"
    show thesis
    proof (cases "t = 0 \<and> lb = [0]")
      case True
      then have "c = []" using e(1) by (auto simp: ber_length_def word_unat_eq_iff unat_byte_of_nat)
      moreover have "der_tag 0 = [0]" by code_simp
      ultimately show thesis using True e inp(1) eoc by simp
    next
      case False
      then show thesis using e inp(1) definite by simp
    qed
  qed (use inp(1) indefinite in simp)
qed

lemma convert_Nil [simp]:
  "depth \<le> kMaxDepth \<Longrightarrow> cbs_convert_ber (Suc fuel) h [] d s st eoc depth = Some (\<not> eoc, [], s)"
  by (simp add: CBS_len_def)

lemma convert_bad:
  "depth \<le> kMaxDepth \<Longrightarrow> inp \<noteq> [] \<Longrightarrow> CBS_get_any_ber_asn1_element inp = (None, inp1) \<Longrightarrow>
   cbs_convert_ber (Suc fuel) h inp d s st eoc depth = Some (False, inp1, s)"
  by (simp add: CBS_len_def)

lemma convert_deep: "kMaxDepth < depth \<Longrightarrow> cbs_convert_ber (Suc fuel) h inp d s st eoc depth = Some (False, inp, s)"
  by simp

lemma convert_eoc:
  assumes "depth \<le> kMaxDepth"
  shows "cbs_convert_ber (Suc fuel) h (0 # 0 # rest) d s st eoc depth = Some (eoc, rest, s)"
proof -
  have "der_tag 0 = [0]" by code_simp
  moreover have "ber_length (length []) [0]" by (simp add: ber_length_def)
  ultimately obtain ber where "CBS_get_any_ber_asn1_element (0 # 0 # rest) = (Some ([0, 0], 0, 2, ber), rest)"
    using get_ber_definite [of "[]" "[0]" 0 rest] by (auto simp: numeral_2_eq_2)
  then show ?thesis using assms by (simp add: CBS_len_def is_eoc_def)
qed

text \<open>What happens after the contents have been written.\<close>

definition convert_rest ::
  "nat \<Rightarrow> heap_env \<Rightarrow> cbs \<Rightarrow> nat \<Rightarrow> CBB \<Rightarrow> 32 word \<Rightarrow> bool \<Rightarrow> nat \<Rightarrow> bool \<Rightarrow> (bool \<times> cbs \<times> CBB) option" where
  "convert_rest fuel h inp d s st eoc depth ok =
     (if \<not> ok then Some (False, inp, s)
      else case CBB_flush h d s of
             (False, s') \<Rightarrow> Some (False, inp, s')
           | (True, s') \<Rightarrow> cbs_convert_ber fuel h inp d s' st eoc depth)"

lemma convert_definite:
  assumes "depth \<le> kMaxDepth" "ber_length (length c) lb" "\<not> (t = 0 \<and> lb = [0])"
  shows "cbs_convert_ber (Suc fuel) h (der_tag t @ lb @ c @ rest) d s st eoc depth =
    (case ber_out_contents h d s st t of
       (None, s1) \<Rightarrow> Some (False, rest, s1)
     | (Some (cst, d'), s1) \<Rightarrow>
         (case (if t AND CBS_ASN1_CONSTRUCTED \<noteq> 0 then
                  map_option (\<lambda>(ok, _, s2). (ok, s2)) (cbs_convert_ber fuel h c d' s1 cst False (depth + 1))
                else Some (CBB_add_bytes h d' s1 c)) of
            None \<Rightarrow> None
          | Some (ok, s2) \<Rightarrow> convert_rest fuel h rest d s2 st eoc depth ok))"
proof -
  let ?e = "der_tag t @ lb @ c" and ?hl = "length (der_tag t @ lb)"
  obtain ber where get: "CBS_get_any_ber_asn1_element (der_tag t @ lb @ c @ rest) = (Some (?e, t, ?hl, ber), rest)"
    using get_ber_definite [OF assms(2)] by blast
  have "?e \<noteq> [0, 0]" using der_tag_0 [of t lb c] assms(3) ber_length_nonempty [OF assms(2)] by blast
  then have eoc: "\<not> is_eoc ?hl ?e" by (auto simp: is_eoc_def CBS_len_def)
  have ind: "\<not> (CBS_len ?e = ?hl \<and> ?hl > 0 \<and> ?e ! (?hl - 1) = 0x80)"
  proof
    assume a: "CBS_len ?e = ?hl \<and> ?hl > 0 \<and> ?e ! (?hl - 1) = 0x80"
    then have "c = []" by (simp add: CBS_len_def)
    then have "last (der_tag t @ lb) = 0x80"
      using a ber_length_nonempty [OF assms(2)] by (subst last_conv_nth) simp_all
    then have "last lb = 0x80" using ber_length_nonempty [OF assms(2)] by simp
    then show False using ber_length_0_last assms(2) \<open>c = []\<close> by simp
  qed
  have skip: "CBS_skip ?e ?hl = (Some (), c)" by (simp add: CBS_skip_def cbs_get_def)
  have ne: "CBS_len (der_tag t @ lb @ c @ rest) \<noteq> 0"
    using ber_length_nonempty [OF assms(2)] by (simp add: CBS_len_def)
  note step = prod.case option.case eoc ind skip ne leD [OF assms(1)] if_False if_True not_True_eq_False
  show ?thesis
    unfolding cbs_convert_ber.simps get convert_rest_def
    by (simp only: step) (intro prod.case_cong option.case_cong refl if_cong;
      (simp only: step, simp split: option.split prod.split bool.split)?)
qed

lemma convert_indefinite:
  assumes "depth \<le> kMaxDepth" "t AND CBS_ASN1_CONSTRUCTED \<noteq> 0"
  shows "cbs_convert_ber (Suc fuel) h (der_tag t @ 0x80 # rest) d s st eoc depth =
    (case ber_out_contents h d s st t of
       (None, s1) \<Rightarrow> Some (False, rest, s1)
     | (Some (cst, d'), s1) \<Rightarrow>
         (case cbs_convert_ber fuel h rest d' s1 cst True (depth + 1) of
            None \<Rightarrow> None
          | Some (ok, rest', s2) \<Rightarrow> convert_rest fuel h rest' d s2 st eoc depth ok))"
proof -
  let ?e = "der_tag t @ [0x80]" and ?hl = "Suc (length (der_tag t))"
  obtain ber where get: "CBS_get_any_ber_asn1_element (der_tag t @ 0x80 # rest) = (Some (?e, t, ?hl, ber), rest)"
    using get_ber_indefinite [OF assms(2)] by blast
  have eoc: "\<not> is_eoc ?hl ?e" using der_tag_0 [of t "[0x80]" "[]"] by (auto simp: is_eoc_def CBS_len_def)
  have ind: "CBS_len ?e = ?hl \<and> ?hl > 0 \<and> ?e ! (?hl - 1) = 0x80" by (simp add: CBS_len_def)
  have ne: "CBS_len (der_tag t @ 0x80 # rest) \<noteq> 0" by (simp add: CBS_len_def)
  note step = prod.case option.case eoc ind ne leD [OF assms(1)] if_False if_True not_True_eq_False
  show ?thesis
    unfolding cbs_convert_ber.simps get convert_rest_def
    by (simp only: step) (intro prod.case_cong option.case_cong refl if_cong; simp split: option.split prod.split bool.split)
qed

lemmas convert_steps = convert_Nil convert_eoc convert_definite convert_indefinite

declare cbs_convert_ber.simps [simp del]

section \<open>Enough fuel\<close>

lemma get_ber_fails: "CBS_get_any_ber_asn1_element inp = (None, inp1) \<Longrightarrow> inp1 = inp"
  by (auto simp: CBS_get_any_ber_asn1_element_def cbs_get_any_asn1_element_def Let_def CBS_get_bytes_eq
      split: prod.splits option.splits if_splits)

lemma der_tag_nonempty: "1 \<le> length (der_tag t)"
  by (simp add: der_tag_def)

lemma convert_enough_fuel:
  "length inp < fuel \<Longrightarrow>
   \<exists>r inp' s'. cbs_convert_ber fuel h inp d s st eoc depth = Some (r, inp', s') \<and> length inp' \<le> length inp"
proof (induction fuel arbitrary: inp d s st eoc depth)
  case (Suc fuel)
  have rest: "\<exists>r inp' s2. convert_rest fuel h i d s' st eoc depth ok = Some (r, inp', s2) \<and> length inp' \<le> length inp"
    if "length i < length inp" for i s' ok
  proof (cases "\<not> ok \<or> \<not> fst (CBB_flush h d s')")
    case True
    then show ?thesis using that by (cases "CBB_flush h d s'") (auto simp: convert_rest_def)
  next
    case False
    then obtain s'' where "convert_rest fuel h i d s' st eoc depth ok = cbs_convert_ber fuel h i d s'' st eoc depth"
      by (cases "CBB_flush h d s'") (auto simp: convert_rest_def)
    then show ?thesis using Suc.IH [of i d s'' st eoc depth] Suc.prems that by fastforce
  qed
  show ?case
  proof (cases "depth \<le> kMaxDepth")
    case False
    then show ?thesis using convert_deep [of depth fuel h inp d s st eoc] by auto
  next
    case deep: True
    show ?thesis
    proof (cases inp rule: input_cases)
      case (bad inp1)
      then show ?thesis using convert_bad [OF deep bad] get_ber_fails [OF bad(2)] by blast
    next
      case (definite t lb c rst)
      then have len: "length c < fuel" "length rst < length inp"
        using Suc.prems der_tag_nonempty [of t] by auto
      note step = convert_definite [OF deep definite(2, 3), where rest = rst, folded definite(1)]
      show ?thesis
      proof (cases "ber_out_contents h d s st t")
        case (Pair r s1)
        show ?thesis
        proof (cases r)
          case None
          then show ?thesis using Pair len(2) by (auto simp: step)
        next
          case (Some p)
          obtain cst d' where p: "p = (cst, d')" by force
          obtain ok s2 where "(if t AND CBS_ASN1_CONSTRUCTED \<noteq> 0 then
              map_option (\<lambda>(ok, _, s2). (ok, s2)) (cbs_convert_ber fuel h c d' s1 cst False (depth + 1))
            else Some (CBB_add_bytes h d' s1 c)) = Some (ok, s2)"
            using Suc.IH [OF len(1), of d' s1 cst False "depth + 1"]
            by (cases "t AND CBS_ASN1_CONSTRUCTED = 0"; cases "CBB_add_bytes h d' s1 c") auto
          then have "cbs_convert_ber (Suc fuel) h inp d s st eoc depth = convert_rest fuel h rst d s2 st eoc depth ok"
            unfolding step Pair Some p by simp
          then show ?thesis using rest [OF len(2)] by simp
        qed
      qed
    next
      case (indefinite t rst)
      then have len: "length rst < fuel" "length rst < length inp" using Suc.prems by auto
      note step = convert_indefinite [OF deep indefinite(2), where rest = rst, folded indefinite(1)]
      show ?thesis
      proof (cases "ber_out_contents h d s st t")
        case (Pair r s1)
        show ?thesis
        proof (cases r)
          case None
          then show ?thesis using Pair len(2) by (auto simp: step)
        next
          case (Some p)
          obtain cst d' where p: "p = (cst, d')" by force
          obtain ok rst' s2 where rec: "cbs_convert_ber fuel h rst d' s1 cst True (depth + 1) = Some (ok, rst', s2)"
            "length rst' \<le> length rst"
            using Suc.IH [OF len(1)] by blast
          then have "cbs_convert_ber (Suc fuel) h inp d s st eoc depth = convert_rest fuel h rst' d s2 st eoc depth ok"
            unfolding step Pair Some p by simp
          then show ?thesis using rest [of rst' s2 ok] rec(2) len(2) by simp
        qed
      qed
    qed (use deep in \<open>simp_all add: convert_eoc del: cbs_convert_ber.simps\<close>)
  qed
qed simp

section \<open>Soundness\<close>

text \<open>What a successful call leaves, from an output at rest.\<close>

definition converted ::
  "heap_env \<Rightarrow> cbs \<Rightarrow> nat \<Rightarrow> CBB \<Rightarrow> 32 word \<Rightarrow> bool \<Rightarrow> nat \<Rightarrow> cbs \<Rightarrow> CBB \<Rightarrow> bool" where
  "converted h inp d s st eoc depth inp' s' \<longleftrightarrow>
     (\<exists>used w. inp = used @ (if eoc then [0, 0] else []) @ inp' \<and> (\<not> eoc \<longrightarrow> inp' = []) \<and>
        depth \<le> kMaxDepth \<and> ber_writes (kMaxDepth - depth) st used w \<and> appended h d s w s')"

lemma settled_appended: "settled d s c \<Longrightarrow> appended h d s [] s"
  using settled_flushed settled_depth by (fastforce simp: appended_def)

lemma converted_cons:
  assumes "converted h rest d s1 st eoc depth inp' s'" "appended h d s v s1"
    "\<And>used w. ber_writes (kMaxDepth - depth) st used w \<Longrightarrow> ber_writes (kMaxDepth - depth) st (e @ used) (v @ w)"
  shows "converted h (e @ rest) d s st eoc depth inp' s'"
proof -
  obtain used w where "rest = used @ (if eoc then [0, 0] else []) @ inp'" "\<not> eoc \<longrightarrow> inp' = []"
    "depth \<le> kMaxDepth" "ber_writes (kMaxDepth - depth) st used w" "appended h d s1 w s'"
    using assms(1) by (auto simp: converted_def)
  then show ?thesis unfolding converted_def
    using assms(3) appended_trans [OF assms(2)] by (intro exI [of _ "e @ used"] exI [of _ "v @ w"]) simp
qed

lemma convert_rest_True:
  "convert_rest fuel h inp d s st eoc depth ok = Some (True, inp', s') \<Longrightarrow>
   ok \<and> (\<exists>s1. CBB_flush h d s = (True, s1) \<and> cbs_convert_ber fuel h inp d s1 st eoc depth = Some (True, inp', s'))"
  by (auto simp: convert_rest_def split: if_splits prod.splits bool.splits)

lemma convert_sound:
  "cbs_convert_ber fuel h inp d s st eoc depth = Some (True, inp', s') \<Longrightarrow> settled d s c \<Longrightarrow>
   length inp < size_mod \<Longrightarrow> converted h inp d s st eoc depth inp' s'"
proof (induction fuel arbitrary: inp d s st eoc depth inp' s' c)
  case 0
  then show ?case by (simp add: cbs_convert_ber.simps)
next
  case (Suc fuel)
  note run = Suc.prems(1) and set = Suc.prems(2) and size = Suc.prems(3)
  have deep: "depth \<le> kMaxDepth" using run convert_deep [of depth fuel h inp d s st eoc] by (cases "depth \<le> kMaxDepth") auto
  note here = settled_appended [OF set] ber_writes_Nil
  show ?case
  proof (cases inp rule: input_cases)
    case empty
    then show ?thesis using run deep here by (auto simp: converted_def)
  next
    case (bad inp1)
    then show ?thesis using run convert_bad [OF deep bad] by simp
  next
    case (eoc rest)
    then show ?thesis using run deep here by (auto simp: converted_def convert_eoc)
  next
    case (definite t lb body rest)
    obtain cst d' s1 ok s2 where oc: "ber_out_contents h d s st t = (Some (cst, d'), s1)"
      and mid: "(if t AND CBS_ASN1_CONSTRUCTED \<noteq> 0 then
              map_option (\<lambda>(ok, _, s2). (ok, s2)) (cbs_convert_ber fuel h body d' s1 cst False (depth + 1))
            else Some (CBB_add_bytes h d' s1 body)) = Some (ok, s2)"
      and "convert_rest fuel h rest d s2 st eoc depth ok = Some (True, inp', s')"
      using run unfolding definite(1) convert_definite [OF deep definite(2, 3)]
      by (auto split: prod.splits option.splits)
    then obtain s3 where ok: "ok" and s3: "CBB_flush h d s2 = (True, s3)"
      "cbs_convert_ber fuel h rest d s3 st eoc depth = Some (True, inp', s')"
      using convert_rest_True by blast
    note cst = out_contents_ok(1) [OF set oc]
    obtain c1 where c1: "settled d' s1 c1" using out_contents_ok(2) [OF set oc] by blast
    note closed = out_contents_ok(3) [OF set oc _ s3(1)]
    show ?thesis
    proof (cases "t AND CBS_ASN1_CONSTRUCTED = 0")
      case True
      then have "CBB_add_bytes h d' s1 body = (True, s2)" using mid ok by simp
      then have "appended h d' s1 body s2"
        using add_bytes.appends [OF settled_ok [OF c1]] size definite(1) by auto
      then have v: "matches st t body" "appended h d s (wrapped st t body) s3" using closed by auto
      then have "converted h rest d s3 st eoc depth inp' s'"
        using Suc.IH [OF s3(2)] size definite(1) by (auto simp: appended_def)
      from converted_cons [OF this v(2), of "der_tag t @ lb @ body"] show ?thesis
        using ber_writes_primitive [OF True definite(2, 3) v(1)] definite(1) by simp
    next
      case False
      then obtain i where "cbs_convert_ber fuel h body d' s1 (child_tag st t) False (depth + 1) = Some (True, i, s2)"
        using mid ok cst by auto
      then have "converted h body d' s1 (child_tag st t) False (depth + 1) i s2"
        using Suc.IH [OF _ c1] size definite(1) by auto
      then obtain v where w: "depth + 1 \<le> kMaxDepth" "ber_writes (kMaxDepth - (depth + 1)) (child_tag st t) body v"
        "appended h d' s1 v s2" by (auto simp: converted_def)
      then have v: "matches st t v" "appended h d s (wrapped st t v) s3" using closed by auto
      then have "converted h rest d s3 st eoc depth inp' s'"
        using Suc.IH [OF s3(2)] size definite(1) by (auto simp: appended_def)
      from converted_cons [OF this v(2), of "der_tag t @ lb @ body"] show ?thesis
        using ber_writes_constructed [OF False _ w(2) v(1), of lb body] definite w(1) Suc_diff_Suc [of depth kMaxDepth] by simp
    qed
  next
    case (indefinite t rest)
    obtain cst d' s1 ok rest' s2 where oc: "ber_out_contents h d s st t = (Some (cst, d'), s1)"
      and rec: "cbs_convert_ber fuel h rest d' s1 cst True (depth + 1) = Some (ok, rest', s2)"
      and "convert_rest fuel h rest' d s2 st eoc depth ok = Some (True, inp', s')"
      using run unfolding indefinite(1) convert_indefinite [OF deep indefinite(2)]
      by (auto split: prod.splits option.splits)
    then obtain s3 where ok: "ok" and s3: "CBB_flush h d s2 = (True, s3)"
      "cbs_convert_ber fuel h rest' d s3 st eoc depth = Some (True, inp', s')"
      using convert_rest_True by blast
    note cst = out_contents_ok(1) [OF set oc]
    obtain c1 where c1: "settled d' s1 c1" using out_contents_ok(2) [OF set oc] by blast
    have "converted h rest d' s1 (child_tag st t) True (depth + 1) rest' s2"
      using Suc.IH [OF _ c1] rec ok cst size indefinite(1) by auto
    then obtain body v where w: "rest = body @ [0, 0] @ rest'" "depth + 1 \<le> kMaxDepth"
      "ber_writes (kMaxDepth - (depth + 1)) (child_tag st t) body v" "appended h d' s1 v s2" by (auto simp: converted_def)
    then have v: "matches st t v" "appended h d s (wrapped st t v) s3"
      using out_contents_ok(3) [OF set oc w(4) s3(1)] by auto
    then have "converted h rest' d s3 st eoc depth inp' s'"
      using Suc.IH [OF s3(2)] size indefinite(1) w(1) by (auto simp: appended_def)
    from converted_cons [OF this v(2), of "der_tag t @ [0x80] @ body @ [0, 0]"] show ?thesis
      using ber_writes_constructed [OF indefinite(2) _ w(3) v(1), of "[0x80]" "body @ [0, 0]"]
        indefinite(1) w(1, 2) Suc_diff_Suc [of depth kMaxDepth] by simp
  qed
qed

section \<open>Completeness\<close>

lemma convert_rest_ok:
  assumes "settled d s c" "ber_out_contents h d s st t = (Some (cst, d'), s1)" "appended h d' s1 v s2"
    "CBB_flush h d s2 = (True, s3)" "grows h s" "length (c @ wrapped st t v @ w) < size_mod"
    "\<And>s'. settled d s' (c @ wrapped st t v) \<Longrightarrow> grows h s' \<Longrightarrow> length ((c @ wrapped st t v) @ w) < size_mod \<Longrightarrow>
      \<exists>s''. cbs_convert_ber fuel h rest d s' st eoc depth = Some (True, inp', s'') \<and> appended h d s' w s''"
  shows "\<exists>s''. convert_rest fuel h rest d s2 st eoc depth True = Some (True, inp', s'') \<and>
    appended h d s (wrapped st t v @ w) s''"
proof -
  have app: "appended h d s (wrapped st t v) s3" using out_contents_ok(3) [OF assms(1-4)] by simp
  then obtain s'' where "cbs_convert_ber fuel h rest d s3 st eoc depth = Some (True, inp', s'')" "appended h d s3 w s''"
    using assms(7) [of s3] appended_settled [OF app assms(1)] assms(5, 6) by auto
  then show ?thesis using appended_trans [OF app] assms(4) by (auto simp: convert_rest_def)
qed

lemma convert_complete:
  assumes "ber_writes (kMaxDepth - depth) st used w" "depth \<le> kMaxDepth" "settled d s c" "grows h s"
    "length (c @ w) < size_mod" "length used < size_mod" "\<not> eoc \<longrightarrow> inp' = []"
    "length (used @ (if eoc then [0, 0] else []) @ inp') < fuel"
  shows "\<exists>s'. cbs_convert_ber fuel h (used @ (if eoc then [0, 0] else []) @ inp') d s st eoc depth = Some (True, inp', s') \<and>
    appended h d s w s'"
  using assms
proof (induction fuel arbitrary: depth st used w d s c eoc inp')
  case 0
  then show ?case by simp
next
  case (Suc fuel)
  note deep = Suc.prems(2) and set = Suc.prems(3) and grows = Suc.prems(4)
  let ?tail = "(if eoc then [0, 0] else []) @ inp'"
  have go_on: "\<exists>s''. cbs_convert_ber fuel h (rest @ ?tail) d s' st eoc depth = Some (True, inp', s'') \<and> appended h d s' w' s''"
    if "ber_writes (kMaxDepth - depth) st rest w'" "settled d s' c'" "grows h s'" "length (c' @ w') < size_mod"
      "length rest < length used" for rest w' s' c'
    using Suc.IH [OF that(1) deep that(2-4)] Suc.prems(6-8) that(5) by simp
  from Suc.prems(1) show ?case
  proof (cases rule: ber_writes_cases)
    case nil
    then show ?thesis using deep Suc.prems(7) settled_appended [OF set] by (auto simp: convert_eoc)
  next
    case (primitive t lb v rest w')
    have len: "length (c @ wrapped st t v) < size_mod" using Suc.prems(5) primitive(2) by simp
    obtain d' s1 c1 where o: "ber_out_contents h d s st t = (Some (child_tag st t, d'), s1)" "settled d' s1 c1" "grows h s1"
      "length (c1 @ v) < size_mod" "\<And>s2. appended h d' s1 v s2 \<Longrightarrow> \<exists>s3. CBB_flush h d s2 = (True, s3)"
      using out_contents_room [OF set grows primitive(6) len] by blast
    have "fst (CBB_add_bytes h d' s1 v)" using add_bytes.succeeds [OF o(2) _ _ o(3, 4)] o(4) by simp
    then obtain s2 where s2: "CBB_add_bytes h d' s1 v = (True, s2)" by (metis prod.collapse)
    then have app: "appended h d' s1 v s2" using add_bytes.appends [OF settled_ok [OF o(2)] _ s2] o(4) by simp
    then obtain s3 where s3: "CBB_flush h d s2 = (True, s3)" using o(5) by blast
    have "\<exists>s''. convert_rest fuel h (rest @ ?tail) d s2 st eoc depth True = Some (True, inp', s'') \<and>
      appended h d s (wrapped st t v @ w') s''"
      using Suc.prems(5-8) primitive(1, 2) der_tag_nonempty [of t]
      by (intro convert_rest_ok [OF set o(1) app s3 grows] go_on [OF primitive(7)]) auto
    moreover have "cbs_convert_ber (Suc fuel) h (used @ ?tail) d s st eoc depth =
      convert_rest fuel h (rest @ ?tail) d s2 st eoc depth True"
      using convert_definite [OF deep primitive(4, 5), of fuel h "rest @ ?tail" d s st eoc] o(1) primitive(1, 3) s2 by simp
    ultimately show ?thesis using primitive(2) by simp
  next
    case (constructed t lb body e rest v w' m)
    have m: "depth + 1 \<le> kMaxDepth" "m = kMaxDepth - (depth + 1)" using constructed(3) by auto
    have len: "length (c @ wrapped st t v) < size_mod" using Suc.prems(5) constructed(2) by simp
    have e: "length e < size_mod" "length e < fuel" "lb = [0x80] \<Longrightarrow> body = e @ [0, 0] \<Longrightarrow> length (e @ [0, 0] @ rest @ ?tail) < fuel"
      using constructed(1, 5) Suc.prems(6, 8) der_tag_nonempty [of t] by auto
    obtain d' s1 c1 where o: "ber_out_contents h d s st t = (Some (child_tag st t, d'), s1)" "settled d' s1 c1" "grows h s1"
      "length (c1 @ v) < size_mod" "\<And>s2. appended h d' s1 v s2 \<Longrightarrow> \<exists>s3. CBB_flush h d s2 = (True, s3)"
      using out_contents_room [OF set grows constructed(7) len] by blast
    note inner = Suc.IH [OF constructed(6) [unfolded m(2)] m(1) o(2-4) e(1)]
    obtain s2 where app: "appended h d' s1 v s2" and "cbs_convert_ber (Suc fuel) h (used @ ?tail) d s st eoc depth =
      convert_rest fuel h (rest @ ?tail) d s2 st eoc depth True"
      using constructed(5)
    proof (elim disjE conjE)
      assume b: "ber_length (length e) lb" "body = e"
      obtain s2 where "cbs_convert_ber fuel h e d' s1 (child_tag st t) False (depth + 1) = Some (True, [], s2)" "appended h d' s1 v s2"
        using inner [of False "[]"] e(2) by auto
      moreover have "\<not> (t = 0 \<and> lb = [0])" using constructed(4) by auto
      ultimately show thesis
        using that convert_definite [OF deep b(1), of t fuel h "rest @ ?tail" d s st eoc] o(1) constructed(1, 4) b(2) by simp
    next
      assume b: "lb = [0x80]" "body = e @ [0, 0]"
      obtain s2 where "cbs_convert_ber fuel h (e @ [0, 0] @ rest @ ?tail) d' s1 (child_tag st t) True (depth + 1) = Some (True, rest @ ?tail, s2)"
        "appended h d' s1 v s2"
        using inner [of True "rest @ ?tail"] e(3) [OF b] by auto
      then show thesis
        using that convert_indefinite [OF deep constructed(4), of fuel h "e @ [0, 0] @ rest @ ?tail" d s st eoc] o(1) constructed(1) b by simp
    qed
    moreover from this obtain s3 where s3: "CBB_flush h d s2 = (True, s3)" using o(5) by blast
    have "\<exists>s''. convert_rest fuel h (rest @ ?tail) d s2 st eoc depth True = Some (True, inp', s'') \<and>
      appended h d s (wrapped st t v @ w') s''"
      using Suc.prems(5-8) constructed(1, 2) der_tag_nonempty [of t]
      by (intro convert_rest_ok [OF set o(1) app s3 grows] go_on [OF constructed(8)]) auto
    ultimately show ?thesis using constructed(2) by simp
  qed
qed

end
