(* ===== verification/Ber_Der.thy ===== *)
theory Ber_Der
  imports Ber_Convert
begin

unbundle bit_operations_syntax

text \<open>
  The entry points of \<open>ber.c\<close>: what \<open>CBS_asn1_ber_to_der\<close> returns for BER and for DER, an input on
  which its search for BER fails, and the strings that \<open>CBS_get_asn1_implicit_string\<close> joins.
\<close>

section \<open>Termination and the conversion\<close>

text \<open>C22. Termination: the recursion of \<open>cbs_convert_ber\<close> ends on every input, well formed or not, within
  one step more than the input has bytes, and never leaves more input than it was given.\<close>

theorem convert_ber_terminates:
  "\<exists>r inp' s'. cbs_convert_ber (Suc (length inp)) h inp d s st eoc depth = Some (r, inp', s') \<and>
     length inp' \<le> length inp"
  by (rule convert_enough_fuel) simp

text \<open>C21. BER to DER: where \<open>cbs_find_ber\<close> reports BER, \<open>CBS_asn1_ber_to_der\<close> returns exactly the DER
  encoding of the values that the input stands for in the grammar of BER (indefinite lengths, long
  lengths and strings in fragments included), for values nested at most \<open>kMaxDepth\<close> deep; it fails
  on every other input. The heap has memory, and input and output have the sizes of C objects.\<close>

theorem ber_to_der_exact:
  assumes "\<forall>k. can_alloc h k" "length inp < size_mod" "cbs_find_ber inp 0 = Some True" "length out < size_mod"
  shows "(\<exists>b rest. CBS_asn1_ber_to_der h inp = (Some (out, Some b), rest)) \<longleftrightarrow>
    (\<exists>xs. ber_values kMaxDepth inp xs \<and> der_list xs = Some out)"
proof -
  obtain s where s: "CBB_init h (CBS_len inp) = (True, s)" "settled 0 s []" "grows h s"
    using CBB_init_settled [OF assms(1)] assms(2) by (auto simp: CBS_len_def)
  let ?run = "cbs_convert_ber (Suc (length inp)) h inp 0 s 0 False 0"
  have spec: "ber_writes (kMaxDepth - 0) 0 inp w \<longleftrightarrow> (\<exists>xs. ber_values kMaxDepth inp xs \<and> der_list xs = Some w)" for w
    by (simp add: ber_writes_def)
  have finish: "\<exists>b. CBS_asn1_ber_to_der h inp = (Some (w, Some b), inp')"
    if "?run = Some (True, inp', s')" "settled 0 s' w" for w inp' s'
    using that(1) CBB_finish_settled [OF that(2), of h] s(1) assms(3)
    by (auto simp: CBS_asn1_ber_to_der_def CBS_init_def)
  show ?thesis
  proof
    assume "\<exists>b rest. CBS_asn1_ber_to_der h inp = (Some (out, Some b), rest)"
    then obtain b rest where der: "CBS_asn1_ber_to_der h inp = (Some (out, Some b), rest)" by blast
    then obtain inp' s' where run: "?run = Some (True, inp', s')"
      using s(1) assms(3) by (auto simp: CBS_asn1_ber_to_der_def split: option.splits bool.splits prod.splits)
    obtain w where w: "ber_writes (kMaxDepth - 0) 0 inp w" "appended h 0 s w s'"
      using convert_sound [OF run s(2) assms(2)] by (auto simp: converted_def)
    then have "settled 0 s' w" using appended_settled [OF w(2) s(2)] by simp
    then have "out = w" using finish [OF run] der by auto
    then show "\<exists>xs. ber_values kMaxDepth inp xs \<and> der_list xs = Some out" using w(1) spec by simp
  next
    assume "\<exists>xs. ber_values kMaxDepth inp xs \<and> der_list xs = Some out"
    then obtain s' where s': "?run = Some (True, [], s')" "appended h 0 s out s'"
      using convert_complete [of 0 0 inp out 0 s "[]" h False "[]" "Suc (length inp)"] spec s(2, 3) assms(2, 4) by auto
    then have "settled 0 s' out" using appended_settled [OF s'(2) s(2)] by simp
    then show "\<exists>b rest. CBS_asn1_ber_to_der h inp = (Some (out, Some b), rest)"
      using finish [OF s'(1)] by blast
  qed
qed

section \<open>The search for BER\<close>

lemma get_ber_mode:
  assumes "cbs_get_any_asn1_element cbs False = (Some r, rest)"
  shows "cbs_get_any_asn1_element cbs True = (Some r, rest)"
proof -
  obtain tag header where tag: "parse_asn1_tag cbs = (Some tag, header)"
    using assms by (cases "parse_asn1_tag cbs"; cases "fst (parse_asn1_tag cbs)") (auto simp: cbs_get_any_asn1_element_def)
  obtain lb hs where lb: "CBS_get_u8 header = (Some lb, hs)"
    using assms tag by (cases "CBS_get_u8 header"; cases "fst (CBS_get_u8 header)") (auto simp: cbs_get_any_asn1_element_def)
  note unfold = cbs_get_any_asn1_element_def tag lb prod.case option.case Let_def
  show ?thesis
  proof (cases "lb AND 0x80 = 0")
    case True
    with assms show ?thesis by (simp add: unfold)
  next
    case False
    let ?k = "unat (lb AND 0x7f)"
    have "\<not> (?k = 0 \<or> ?k > 4)" using assms False by (auto simp: unfold split: if_split_asm)
    moreover from this obtain n hs' where "cbs_get_u hs ?k = (Some n, hs')"
      using assms False by (cases "cbs_get_u hs ?k"; cases "fst (cbs_get_u hs ?k)") (auto simp: unfold)
    ultimately show ?thesis using assms False by (simp add: unfold split: if_splits)
  qed
qed

lemma get_ber_der:
  assumes "length c < 2 ^ 32"
  shows "CBS_get_any_ber_asn1_element (der_element t c @ rest) =
    (Some (der_element t c, t, length (der_header t (length c)), False), rest)"
  unfolding CBS_get_any_ber_asn1_element_def using assms by (intro get_ber_mode) (auto simp: get_element_iff)

declare cbs_find_ber.simps [simp del] find_ber_loop.simps [simp del]

lemma find_ber_Nil [simp]: "find_ber_loop [] found depth = Some found"
  by (simp add: find_ber_loop.simps CBS_len_def)

lemma find_ber_der:
  assumes "length c < 2 ^ 32"
  shows "find_ber_loop (der_element t c @ rest) found depth =
    (if t AND CBS_ASN1_CONSTRUCTED \<noteq> 0 then
       if is_string_type t then Some True
       else (case cbs_find_ber c (depth + 1) of None \<Rightarrow> None | Some f \<Rightarrow> find_ber_loop rest f depth)
     else find_ber_loop rest False depth)"
proof -
  let ?e = "der_element t c" and ?h = "length (der_header t (length c))"
  have "CBS_skip ?e ?h = (Some (), c)" by (simp add: CBS_skip_def cbs_get_def der_element_def)
  moreover have "CBS_len (?e @ rest) \<noteq> 0" by (simp add: CBS_len_def der_element_def der_header_def der_length_def)
  ultimately show ?thesis
    by (subst find_ber_loop.simps) (simp add: get_ber_der [OF assms])
qed

text \<open>Values without constructed strings, nested at most \<open>n\<close> deep, whose tags say what they are.\<close>

fun plain :: "nat \<Rightarrow> asn1 \<Rightarrow> bool" and plain_list :: "nat \<Rightarrow> asn1 list \<Rightarrow> bool" where
  "plain n (Primitive t c) \<longleftrightarrow> t AND CBS_ASN1_CONSTRUCTED = 0"
| "plain n (Constructed t xs) \<longleftrightarrow>
     t AND CBS_ASN1_CONSTRUCTED \<noteq> 0 \<and> \<not> is_string_type t \<and> 0 < n \<and> plain_list (n - 1) xs"
| "plain_list n [] \<longleftrightarrow> True"
| "plain_list n (x # xs) \<longleftrightarrow> plain n x \<and> plain_list n xs"

lemma find_ber_plain:
  shows "plain n x \<Longrightarrow> der x = Some w \<Longrightarrow> depth + n \<le> kMaxDepth \<Longrightarrow>
      find_ber_loop (w @ rest) found depth = find_ber_loop rest False depth"
    and "plain_list n xs \<Longrightarrow> der_list xs = Some w \<Longrightarrow> depth + n \<le> kMaxDepth \<Longrightarrow> find_ber_loop w False depth = Some False"
proof (induction n x and n xs arbitrary: w depth rest found and w depth rule: plain_plain_list.induct)
  case (1 n t c)
  then show ?case using find_ber_der [of c] by (auto split: if_splits)
next
  case (2 n t xs)
  obtain c where c: "der_list xs = Some c" "length c \<le> 0xfffffffe" "w = der_element t c"
    using 2(3) by (auto split: option.splits if_splits)
  then have "cbs_find_ber c (depth + 1) = Some False"
    using 2(1) [of c "depth + 1"] 2(2, 4) by (simp add: cbs_find_ber.simps)
  then show ?case using c(2, 3) 2(2) find_ber_der [of c t rest found depth] by simp
next
  case (3 n)
  then show ?case by simp
next
  case (4 n x xs)
  obtain v vs where v: "der x = Some v" "der_list xs = Some vs" "w = v @ vs"
    using 4(4) by (auto split: option.splits)
  then show ?case using 4(1) [of v depth vs False] 4(2) [of vs depth] 4(3, 5) by simp
qed

text \<open>C23. DER is left alone: on the DER encoding of values without constructed strings, nested at most
  \<open>kMaxDepth\<close> deep, \<open>CBS_asn1_ber_to_der\<close> allocates nothing, returns the first element byte for byte
  and advances over it.\<close>

theorem ber_to_der_keeps_der:
  assumes "plain_list kMaxDepth (x # xs)" "der x = Some c" "der_list xs = Some w"
  shows "CBS_asn1_ber_to_der h (c @ w) = (Some (c, None), w)"
proof -
  have "cbs_find_ber (c @ w) 0 = Some False"
    using find_ber_plain(2) [OF assms(1), of "c @ w" 0] assms(2, 3) by (simp add: cbs_find_ber.simps)
  moreover obtain t v where "c = der_element t v" "length v < 2 ^ 32"
    using assms(2) by (cases x) (auto split: option.splits if_splits)
  then have "CBS_get_any_asn1_element (c @ w) = (Some (c, t, length (der_header t (length v))), w)"
    by (auto simp: CBS_get_any_asn1_element_iff)
  ultimately show ?thesis by (simp add: CBS_asn1_ber_to_der_def)
qed

theorem ber_to_der_keeps_der_witness:
  "CBS_asn1_ber_to_der \<lparr>can_alloc = \<lambda>_. True, junk = \<lambda>_. 0\<rparr> ([0x30, 3, 2, 1, 5] @ [4, 1, 9]) =
    (Some ([0x30, 3, 2, 1, 5], None), [4, 1, 9])"
proof -
  have tags: "der_tag 0x20000010 = [0x30]" "der_tag 2 = [2]" "der_tag 4 = [4]" by code_simp+
  have "plain_list kMaxDepth [Constructed 0x20000010 [Primitive 2 [5]], Primitive 4 [9]]"
    by (simp add: kMaxDepth_def is_string_type_def)
  moreover have "der (Constructed 0x20000010 [Primitive 2 [5]]) = Some [0x30, 3, 2, 1, 5]"
    "der_list [Primitive 4 [9]] = Some [4, 1, 9]"
    by (simp_all add: der_element_def der_header_def der_length_def tags)
  ultimately show ?thesis by (rule ber_to_der_keeps_der)
qed

lemma find_ber_indefinite:
  assumes "t AND CBS_ASN1_CONSTRUCTED \<noteq> 0" "depth \<le> kMaxDepth"
  shows "cbs_find_ber (der_tag t @ 0x80 # rest) depth = Some True"
proof -
  have "parse_asn1_tag (der_tag t @ 0x80 # rest) = (Some t, 0x80 # rest)" by (simp add: parse_asn1_tag_iff)
  then have "CBS_get_any_ber_asn1_element (der_tag t @ 0x80 # rest) =
    (Some (der_tag t @ [0x80], t, Suc (length (der_tag t)), True), rest)"
    using assms(1) by (simp add: CBS_get_any_ber_asn1_element_def cbs_get_any_asn1_element_def CBS_len_def CBS_get_bytes_eq)
  then show ?thesis using assms(2) by (simp add: cbs_find_ber.simps find_ber_loop.simps CBS_len_def)
qed

theorem ber_to_der_exact_witness:
  "\<exists>b rest. CBS_asn1_ber_to_der \<lparr>can_alloc = \<lambda>_. True, junk = \<lambda>_. 0\<rparr>
     [0x30, 0x80, 0x24, 0x80, 4, 1, 7, 4, 1, 8, 0, 0, 0, 0] = (Some ([0x30, 4, 4, 2, 7, 8], Some b), rest)"
proof -
  let ?h = "\<lparr>can_alloc = \<lambda>_. True, junk = \<lambda>_. 0\<rparr>"
  let ?inp = "[0x30, 0x80, 0x24, 0x80, 4, 1, 7, 4, 1, 8, 0, 0, 0, 0] :: byte list"
  let ?out = "[0x30, 4, 4, 2, 7, 8] :: byte list"
  have tags: "der_tag 0x20000010 = [0x30]" "der_tag 4 = [4]" "der_tag 0x20000004 = [0x24]" by code_simp+
  have "cbs_find_ber ?inp 0 = Some True"
    using find_ber_indefinite [of "0x20000010" 0 "drop 2 ?inp"] tags by simp
  moreover have "ber_length (length [b]) [1]" for b :: byte by (simp add: ber_length_def)
  then have "ber_string n 4 [4, 1, 7, 4, 1, 8] [7, 8]" for n
    using primitive_fragment [of 4 4 "[7]" "[1]" n "[4, 1, 8]" "[8]"] primitive_fragment [of 4 4 "[8]" "[1]" n "[]" "[]"]
      no_fragments [of n 4] tags by simp
  then have "ber_values (Suc n) (drop 2 (take 12 ?inp)) [Primitive 4 [7, 8]]" for n
    using indefinite_string [of "0x20000004" n "[4, 1, 7, 4, 1, 8]" "[7, 8]" "[]" "[]"] no_values [of "Suc n"] tags
    by (simp add: is_string_type_def)
  then have "ber_values (Suc (Suc n)) ?inp [Constructed 0x20000010 [Primitive 4 [7, 8]]]" for n
    using indefinite_value [of "0x20000010" "Suc n" "drop 2 (take 12 ?inp)" "[Primitive 4 [7, 8]]" "[]" "[]"]
      no_values [of "Suc (Suc n)"] tags by (simp add: is_string_type_def)
  then have "ber_values kMaxDepth ?inp [Constructed 0x20000010 [Primitive 4 [7, 8]]]"
    by (simp add: kMaxDepth_def numeral_eq_Suc)
  moreover have "der_list [Constructed 0x20000010 [Primitive 4 [7, 8]]] = Some ?out"
    by (simp add: der_element_def der_header_def der_length_def tags)
  moreover have "\<forall>k. can_alloc ?h k" "length ?inp < size_mod" "length ?out < size_mod" by (simp_all add: size_mod_def)
  ultimately show ?thesis using ber_to_der_exact [of ?h ?inp ?out] by blast
qed

text \<open>C25. A BER encoding that is missed: \<open>cbs_find_ber\<close> forgets what an inner call found, because the
  parser resets the flag on the next sibling.  On a SEQUENCE whose first element holds a constructed
  OCTET STRING and whose second is NULL it reports no BER, and \<open>CBS_asn1_ber_to_der\<close> returns the
  constructed string as it is, though the grammar assigns the input another DER encoding.\<close>

theorem find_ber_forgets_nested:
  "let inp = [0x30, 8, 0x30, 4, 0x24, 2, 4, 0, 5, 0] in
     cbs_find_ber inp 0 = Some False \<and> CBS_asn1_ber_to_der h inp = (Some (inp, None), []) \<and>
     (\<exists>xs. ber_values kMaxDepth inp xs \<and> der_list xs = Some [0x30, 6, 0x30, 2, 4, 0, 5, 0])"
proof -
  let ?inp = "[0x30, 8, 0x30, 4, 0x24, 2, 4, 0, 5, 0] :: byte list"
  have tags: "der_tag 0x20000010 = [0x30]" "der_tag 4 = [4]" "der_tag 0x20000004 = [0x24]" "der_tag 5 = [5]"
    by code_simp+
  note enc = der_element_def der_header_def der_length_def tags
  note str = is_string_type_def
  have "find_ber_loop [0x24, 2, 4, 0] False (Suc (Suc 0)) = Some True"
    using find_ber_der [of "[4, 0]" "0x20000004" "[]" False "Suc (Suc 0)"] by (simp add: enc str)
  then have "find_ber_loop [0x30, 4, 0x24, 2, 4, 0, 5, 0] False 1 = find_ber_loop [5, 0] True 1"
    using find_ber_der [of "[0x24, 2, 4, 0]" "0x20000010" "[5, 0]" False 1]
    by (simp add: enc str cbs_find_ber.simps kMaxDepth_def)
  also have "\<dots> = Some False" using find_ber_der [of "[]" 5 "[]" True 1] by (simp add: enc)
  finally have found: "cbs_find_ber ?inp 0 = Some False"
    using find_ber_der [of "drop 2 ?inp" "0x20000010" "[]" False 0]
    by (simp add: enc str cbs_find_ber.simps kMaxDepth_def)
  have "CBS_get_any_asn1_element ?inp = (Some (?inp, 0x20000010, 2), [])"
    by (simp add: CBS_get_any_asn1_element_iff enc exI [of _ "drop 2 ?inp"])
  then have der: "CBS_asn1_ber_to_der h ?inp = (Some (?inp, None), [])" using found by (simp add: CBS_asn1_ber_to_der_def)
  have len: "ber_length (length c) [word_of_nat (length c)]" if "length c < 128" for c :: "byte list"
    using that by (simp add: ber_length_def)
  have "ber_string n 4 [4, 0] []" for n
    using primitive_fragment [of 4 4 "[]" "[0]" n "[]" "[]"] no_fragments [of n 4] len [of "[]"] tags by simp
  then have "ber_values (Suc n) [0x24, 2, 4, 0] [Primitive 4 []]" for n
    using definite_string [of "0x20000004" "[4, 0]" "[2]" n "[]" "[]" "[]"] no_values [of "Suc n"] len [of "[4, 0]"] tags
    by (simp add: str)
  moreover have "ber_values n [5, 0] [Primitive 5 []]" for n
    using primitive_value [of 5 "[]" "[0]" n "[]" "[]"] no_values [of n] len [of "[]"] tags by simp
  ultimately have "ber_values (Suc (Suc n)) (drop 2 ?inp) [Constructed 0x20000010 [Primitive 4 []], Primitive 5 []]" for n
    using definite_value [of "0x20000010" "[0x24, 2, 4, 0]" "[4]" "Suc n" "[Primitive 4 []]" "[5, 0]" "[Primitive 5 []]"]
      len [of "[0x24, 2, 4, 0]"] tags by (simp add: str)
  then have "ber_values (Suc (Suc (Suc n))) ?inp
    [Constructed 0x20000010 [Constructed 0x20000010 [Primitive 4 []], Primitive 5 []]]" for n
    using definite_value [of "0x20000010" "drop 2 ?inp" "[8]" "Suc (Suc n)" _ "[]" "[]"]
      no_values [of "Suc (Suc (Suc n))"] len [of "drop 2 ?inp"] tags by (simp add: str)
  then have "ber_values kMaxDepth ?inp [Constructed 0x20000010 [Constructed 0x20000010 [Primitive 4 []], Primitive 5 []]]"
    by (simp add: kMaxDepth_def numeral_eq_Suc)
  moreover have "der_list [Constructed 0x20000010 [Constructed 0x20000010 [Primitive 4 []], Primitive 5 []]] =
      Some [0x30, 6, 0x30, 2, 4, 0, 5, 0]" by (simp add: enc)
  ultimately show ?thesis unfolding Let_def using found der by blast
qed

section \<open>Implicitly tagged strings\<close>

function implicit_loop :: "heap_env \<Rightarrow> cbs \<Rightarrow> CBB \<Rightarrow> 32 word \<Rightarrow> bool \<times> CBB" where
  "implicit_loop h child result inner_tag =
     (if CBS_len child = 0 then (True, result)
      else (case CBS_get_asn1 child inner_tag of
              (None, _) \<Rightarrow> (False, result)
            | (Some chunk, child') \<Rightarrow>
                (case CBB_add_bytes h 0 result chunk of
                   (False, result') \<Rightarrow> (False, result')
                 | (True, result') \<Rightarrow> implicit_loop h child' result' inner_tag)))"
  by pat_completeness auto

termination
  by (relation "measure (\<lambda>(_, child, _, _). length child)")
     (auto dest!: sym [of "(_, _)" "CBS_get_asn1 _ _"] simp: CBS_get_asn1_iff der_element_def der_header_def der_length_def)

definition CBS_get_asn1_implicit_string ::
  "heap_env \<Rightarrow> cbs \<Rightarrow> 32 word \<Rightarrow> 32 word \<Rightarrow> (cbs \<times> byte list option) option \<times> cbs" where
  "CBS_get_asn1_implicit_string h inp outer_tag inner_tag =
     (if CBS_peek_asn1_tag inp outer_tag then
        (case CBS_get_asn1 inp outer_tag of
           (None, inp') \<Rightarrow> (None, inp')
         | (Some out, inp') \<Rightarrow> (Some (out, None), inp'))
      else
        (case CBB_init h (CBS_len inp) of
           (False, _) \<Rightarrow> (None, inp)
         | (True, result) \<Rightarrow>
             (case CBS_get_asn1 inp (outer_tag OR CBS_ASN1_CONSTRUCTED) of
                (None, inp') \<Rightarrow> (None, inp')
              | (Some child, inp') \<Rightarrow>
                  (case implicit_loop h child result inner_tag of
                     (False, _) \<Rightarrow> (None, inp')
                   | (True, result') \<Rightarrow>
                       (case CBB_finish h 0 result' True True of
                          (None, _) \<Rightarrow> (None, inp')
                        | (Some (data, n), _) \<Rightarrow> (Some (CBS_init data n, Some data), inp'))))))"

text \<open>\<open>CBB_finish_i2d\<close>: \<open>outp\<close> is \<open>NULL\<close>, points to \<open>NULL\<close>, or points at a place in a block of the caller.
  \<open>None\<close> where the copy would leave that block.\<close>

datatype i2d_outp = Outp_NULL | Outp_empty | Outp_at "byte list" nat

definition CBB_finish_i2d :: "heap_env \<Rightarrow> CBB \<Rightarrow> i2d_outp \<Rightarrow> (int \<times> i2d_outp \<times> CBB) option" where
  "CBB_finish_i2d h cbb outp =
     (case CBB_finish h 0 cbb True True of
        (None, cbb') \<Rightarrow> Some (- 1, outp, CBB_cleanup 0 cbb')
      | (Some (data, data_len), cbb') \<Rightarrow>
          if data_len > 0x7fffffff then Some (- 1, outp, cbb')
          else (case outp of
                  Outp_NULL \<Rightarrow> Some (int data_len, outp, cbb')
                | Outp_empty \<Rightarrow> Some (int data_len, Outp_at data 0, cbb')
                | Outp_at block i \<Rightarrow>
                    if i + data_len > length block then None
                    else Some (int data_len,
                      Outp_at (take i block @ take data_len data @ drop (i + data_len) block) (i + data_len), cbb')))"

declare implicit_loop.simps [simp del]

lemma implicit_loop_Nil [simp]: "implicit_loop h [] s t = (True, s)"
  by (simp add: implicit_loop.simps CBS_len_def)

lemma implicit_loop_Cons:
  assumes "length c < 2 ^ 32"
  shows "implicit_loop h (der_element t c @ rest) s t =
    (case CBB_add_bytes h 0 s c of (False, s') \<Rightarrow> (False, s') | (True, s') \<Rightarrow> implicit_loop h rest s' t)"
proof -
  have "CBS_get_asn1 (der_element t c @ rest) t = (Some c, rest)" using assms by (simp add: CBS_get_asn1_iff)
  moreover have "CBS_len (der_element t c @ rest) \<noteq> 0" by (simp add: CBS_len_def der_element_def der_header_def der_length_def)
  ultimately show ?thesis by (subst implicit_loop.simps) (simp split: prod.split)
qed

lemma implicit_loop_sound:
  "implicit_loop h child s t = (True, s') \<Longrightarrow> settled 0 s c \<Longrightarrow> length child < size_mod \<Longrightarrow>
   \<exists>chunks. child = concat (map (der_element t) chunks) \<and> settled 0 s' (c @ concat chunks)"
proof (induction h child s t arbitrary: c rule: implicit_loop.induct)
  case (1 h child s t)
  show ?case
  proof (cases "child = []")
    case True
    then show ?thesis using 1(2, 3) by (auto intro: exI [of _ "[]"])
  next
    case False
    then obtain chunk child' where get: "CBS_get_asn1 child t = (Some chunk, child')"
      using 1(2) by (subst (asm) implicit_loop.simps) (auto simp: CBS_len_def split: prod.splits option.splits)
    then have child: "child = der_element t chunk @ child'" "length chunk < 2 ^ 32" by (simp_all add: CBS_get_asn1_iff)
    then obtain s1 where s1: "CBB_add_bytes h 0 s chunk = (True, s1)" "implicit_loop h child' s1 t = (True, s')"
      using 1(2) implicit_loop_Cons [OF child(2), of h t child' s] by (auto split: prod.splits bool.splits)
    have "settled 0 s1 (c @ chunk)"
      using add_bytes.fill_appends [OF 1(3) _ s1(1)] child 1(4) by (auto simp: der_element_def)
    moreover have "CBS_len child \<noteq> 0" using False by (simp add: CBS_len_def)
    ultimately obtain chunks where "child' = concat (map (der_element t) chunks)" "settled 0 s' ((c @ chunk) @ concat chunks)"
      using 1(1) [OF _ get [symmetric] refl s1(1) [symmetric] refl s1(2), of "c @ chunk"] child(1) 1(4) by auto
    then show ?thesis using child(1) by (intro exI [of _ "chunk # chunks"]) simp
  qed
qed

lemma implicit_loop_complete:
  "list_all (\<lambda>c. length c < 2 ^ 32) chunks \<Longrightarrow> settled 0 s c \<Longrightarrow> grows h s \<Longrightarrow> length (c @ concat chunks) < size_mod \<Longrightarrow>
   \<exists>s'. implicit_loop h (concat (map (der_element t) chunks)) s t = (True, s') \<and> settled 0 s' (c @ concat chunks)"
proof (induction chunks arbitrary: s c)
  case (Cons chunk chunks)
  then obtain s1 where s1: "CBB_add_bytes h 0 s chunk = (True, s1)" "settled 0 s1 (c @ chunk)" "grows h s1"
    using add_bytes.run [OF Cons.prems(2), of chunk h] by auto
  then show ?case using Cons.IH [of s1 "c @ chunk"] Cons.prems implicit_loop_Cons [of chunk h t _ s] by simp
qed simp

lemma chunk_lengths:
  "length chunk \<le> length (concat chunks)" if "chunk \<in> set chunks" for chunk :: "'a list"
  using that by (induction chunks) auto

lemma concat_map_length:
  "(\<And>x. length x \<le> length (f x)) \<Longrightarrow> length (concat xs) \<le> length (concat (map f xs))"
  by (induction xs) (auto intro: add_mono)

text \<open>C24. Implicitly tagged strings: \<open>CBS_get_asn1_implicit_string\<close> returns the contents of a primitive
  element with the outer tag, or the joined contents of a constructed one whose children all carry
  the inner tag, and nothing else; it consumes exactly that element. The outer tag is given without the
  constructed bit, as the function asserts, and the heap has memory for the joined contents.\<close>

theorem implicit_string_exact:
  assumes "\<forall>k. can_alloc h k" "length inp < size_mod" "outer AND CBS_ASN1_CONSTRUCTED = 0"
  shows "(\<exists>storage. CBS_get_asn1_implicit_string h inp outer inner = (Some (out, storage), rest)) \<longleftrightarrow>
    length out < 2 ^ 32 \<and> inp = der_element outer out @ rest \<or>
    (\<exists>chunks body. body = concat (map (der_element inner) chunks) \<and> length body < 2 ^ 32 \<and>
       inp = der_element (outer OR CBS_ASN1_CONSTRUCTED) body @ rest \<and> out = concat chunks)"
proof (cases "CBS_peek_asn1_tag inp outer")
  case True
  have "outer \<noteq> outer OR CBS_ASN1_CONSTRUCTED"
  proof
    have "bit (outer OR CBS_ASN1_CONSTRUCTED) 29" by (simp add: bit_or_iff)
    moreover assume "outer = outer OR CBS_ASN1_CONSTRUCTED"
    ultimately have "bit outer 29" by metis
    then have "bit (outer AND CBS_ASN1_CONSTRUCTED) 29" by (simp add: bit_and_iff)
    then show False using assms(3) by simp
  qed
  then have "inp \<noteq> der_element (outer OR CBS_ASN1_CONSTRUCTED) body @ rest" for body
    using True tag.unambiguous [where v = outer and w = "outer OR CBS_ASN1_CONSTRUCTED"] by (auto simp: peek_tag_iff der_element_def der_header_def)
  moreover have "(\<exists>storage. CBS_get_asn1_implicit_string h inp outer inner = (Some (out, storage), rest)) \<longleftrightarrow>
    CBS_get_asn1 inp outer = (Some out, rest)"
    using True by (cases "CBS_get_asn1 inp outer"; cases "fst (CBS_get_asn1 inp outer)")
      (auto simp: CBS_get_asn1_implicit_string_def)
  ultimately show ?thesis by (auto simp: CBS_get_asn1_iff)
next
  case False
  then have prim: "inp \<noteq> der_element outer out @ rest" by (auto simp: peek_tag_iff der_element_def der_header_def)
  let ?outer = "outer OR CBS_ASN1_CONSTRUCTED"
  obtain s where s: "CBB_init h (CBS_len inp) = (True, s)" "settled 0 s []" "grows h s"
    using CBB_init_settled [OF assms(1)] assms(2) by (auto simp: CBS_len_def)
  have fin: "\<exists>storage. CBS_get_asn1_implicit_string h inp outer inner = (Some (w, storage), inp')"
    if "CBS_get_asn1 inp ?outer = (Some child, inp')" "implicit_loop h child s inner = (True, s')" "settled 0 s' w" for child inp' s' w
    using that(1, 2) CBB_finish_settled [OF that(3), of h] s(1) False
    by (auto simp: CBS_get_asn1_implicit_string_def CBS_init_def)
  have "(\<exists>storage. CBS_get_asn1_implicit_string h inp outer inner = (Some (out, storage), rest)) \<longleftrightarrow>
    (\<exists>chunks body. body = concat (map (der_element inner) chunks) \<and> length body < 2 ^ 32 \<and>
       inp = der_element ?outer body @ rest \<and> out = concat chunks)" (is "?get \<longleftrightarrow> ?chunks")
  proof
    assume ?get
    then obtain child s' where c: "CBS_get_asn1 inp ?outer = (Some child, rest)" "implicit_loop h child s inner = (True, s')"
      using False s(1) by (auto simp: CBS_get_asn1_implicit_string_def split: prod.splits option.splits bool.splits)
    then have child: "inp = der_element ?outer child @ rest" "length child < 2 ^ 32" by (simp_all add: CBS_get_asn1_iff)
    then obtain chunks where ch: "child = concat (map (der_element inner) chunks)" "settled 0 s' (concat chunks)"
      using implicit_loop_sound [OF c(2) s(2)] by (auto simp: size_mod_def)
    then have "out = concat chunks" using fin [OF c ch(2)] \<open>?get\<close> by auto
    then show ?chunks using ch(1) child by blast
  next
    assume ?chunks
    then obtain chunks where ch: "length (concat (map (der_element inner) chunks)) < 2 ^ 32"
      "inp = der_element ?outer (concat (map (der_element inner) chunks)) @ rest" "out = concat chunks" by blast
    have len: "length (concat chunks) < 2 ^ 32"
      using concat_map_length [of "der_element inner" chunks] ch(1) by (fastforce simp: der_element_def)
    then have "list_all (\<lambda>c. length c < 2 ^ 32) chunks"
      using chunk_lengths le_less_trans unfolding list_all_iff by blast
    then obtain s' where "implicit_loop h (concat (map (der_element inner) chunks)) s inner = (True, s')" "settled 0 s' out"
      using implicit_loop_complete [OF _ s(2, 3)] len ch(3) by (fastforce simp: size_mod_def)
    moreover have "CBS_get_asn1 inp ?outer = (Some (concat (map (der_element inner) chunks)), rest)"
      using ch(1, 2) by (simp add: CBS_get_asn1_iff)
    ultimately show ?get using fin by blast
  qed
  then show ?thesis using prim by simp
qed

theorem implicit_string_exact_witness:
  "\<exists>storage. CBS_get_asn1_implicit_string \<lparr>can_alloc = \<lambda>_. True, junk = \<lambda>_. 0\<rparr>
     [0xa0, 6, 4, 1, 7, 4, 1, 8, 5] 0x80000000 4 = (Some ([7, 8], storage), [5])"
proof -
  let ?h = "\<lparr>can_alloc = \<lambda>_. True, junk = \<lambda>_. 0\<rparr>" and ?inp = "[0xa0, 6, 4, 1, 7, 4, 1, 8, 5] :: byte list"
  have tags: "der_tag (0x80000000 OR CBS_ASN1_CONSTRUCTED) = [0xa0]" "der_tag 4 = [4]" by code_simp+
  have "concat (map (der_element 4) [[7], [8]]) = [4, 1, 7, 4, 1, 8]"
    "?inp = der_element (0x80000000 OR CBS_ASN1_CONSTRUCTED) [4, 1, 7, 4, 1, 8] @ [5]"
    unfolding der_element_def der_header_def tags list.map concat.simps by (simp_all add: der_length_def)
  then have "\<exists>chunks body. body = concat (map (der_element 4) chunks) \<and> length body < 2 ^ 32 \<and>
    ?inp = der_element (0x80000000 OR CBS_ASN1_CONSTRUCTED) body @ [5] \<and> [7, 8] = concat chunks"
    by (intro exI [of _ "[[7], [8]]"] exI [of _ "[4, 1, 7, 4, 1, 8]"]) simp
  moreover have "\<forall>k. can_alloc ?h k" "length ?inp < size_mod" "(0x80000000 :: 32 word) AND CBS_ASN1_CONSTRUCTED = 0"
    by (simp_all add: size_mod_def)
  ultimately show ?thesis using implicit_string_exact [of ?h ?inp "0x80000000" 4 "[7, 8]" "[5]"] by blast
qed

text \<open>What \<open>CBB_finish_i2d\<close> returns.\<close>

lemma finish_i2d_settled:
  assumes "settled 0 s c" "length c \<le> 0x7fffffff"
  shows "\<exists>s'. CBB_finish_i2d h s Outp_NULL = Some (int (length c), Outp_NULL, s')"
    and "\<exists>b s'. CBB_finish_i2d h s Outp_empty = Some (int (length c), Outp_at b 0, s') \<and> take (length c) b = c"
    and "\<exists>s'. CBB_finish_i2d h s (Outp_at (x @ y @ z) (length x)) =
      (if length (y @ z) < length c then None
       else Some (int (length c), Outp_at (x @ c @ drop (length c) (y @ z)) (length (x @ c)), s'))"
  using CBB_finish_settled [OF assms(1), of h] assms(2) by (auto simp: CBB_finish_i2d_def)

end
