(* ===== verification/Unicode.thy ===== *)
theory Unicode
  imports Ber_Der
begin

unbundle bit_operations_syntax

text \<open>
  Code points in strings (\<open>crypto/bytestring/unicode.c\<close>): reading from a parser and writing to a
  builder in UTF-8, Latin-1, UCS-2 and UTF-32.  Each reader is a \<open>prefix_codec\<close> and each writer an
  \<open>appender\<close> for the same encoding, so the locale \<open>round_trip\<close> applies to all four.
\<close>

section \<open>The code\<close>

definition is_valid_code_point :: "32 word \<Rightarrow> bool" where
  "is_valid_code_point v \<longleftrightarrow>
     \<not> (v > 0x10ffff \<or> v AND 0xfffe = 0xfffe \<or> v \<ge> 0xfdd0 \<and> v \<le> 0xfdef \<or> v \<ge> 0xd800 \<and> v \<le> 0xdfff)"

definition BOTTOM_BITS :: "nat \<Rightarrow> byte" where
  "BOTTOM_BITS n = push_bit n 1 - 1"

definition TOP_BITS :: "nat \<Rightarrow> byte" where
  "TOP_BITS n = NOT (BOTTOM_BITS (8 - n))"

fun utf8_loop :: "nat \<Rightarrow> 32 word \<Rightarrow> cbs \<Rightarrow> 32 word option \<times> cbs" where
  "utf8_loop 0 v cbs = (Some v, cbs)"
| "utf8_loop (Suc n) v cbs =
     (case CBS_get_u8 cbs of
        (None, cbs') \<Rightarrow> (None, cbs')
      | (Some c, cbs') \<Rightarrow>
          if c AND TOP_BITS 2 \<noteq> TOP_BITS 1 then (None, cbs')
          else utf8_loop n (push_bit 6 v OR ucast (c AND BOTTOM_BITS 6)) cbs')"

definition cbs_get_utf8 :: "cbs \<Rightarrow> 32 word option \<times> cbs" where
  "cbs_get_utf8 cbs =
     (case CBS_get_u8 cbs of
        (None, cbs') \<Rightarrow> (None, cbs')
      | (Some c, cbs') \<Rightarrow>
          if c \<le> 0x7f then (Some (ucast c), cbs')
          else
            let finish = (\<lambda>v n lower_bound.
                  case utf8_loop n (ucast v) cbs' of
                    (None, cbs'') \<Rightarrow> (None, cbs'')
                  | (Some v, cbs'') \<Rightarrow>
                      if \<not> is_valid_code_point v \<or> v < lower_bound then (None, cbs'') else (Some v, cbs''))
            in if c AND TOP_BITS 3 = TOP_BITS 2 then finish (c AND BOTTOM_BITS 5) 1 0x80
               else if c AND TOP_BITS 4 = TOP_BITS 3 then finish (c AND BOTTOM_BITS 4) 2 0x800
               else if c AND TOP_BITS 5 = TOP_BITS 4 then finish (c AND BOTTOM_BITS 3) 3 0x10000
               else (None, cbs'))"

definition cbs_get_latin1 :: "cbs \<Rightarrow> 32 word option \<times> cbs" where
  "cbs_get_latin1 cbs = (case CBS_get_u8 cbs of (r, cbs') \<Rightarrow> (map_option ucast r, cbs'))"

definition cbs_get_ucs2_be :: "cbs \<Rightarrow> 32 word option \<times> cbs" where
  "cbs_get_ucs2_be cbs =
     (case CBS_get_u16 cbs of
        (None, cbs') \<Rightarrow> (None, cbs')
      | (Some c, cbs') \<Rightarrow> if \<not> is_valid_code_point (ucast c) then (None, cbs') else (Some (ucast c), cbs'))"

definition cbs_get_utf32_be :: "cbs \<Rightarrow> 32 word option \<times> cbs" where
  "cbs_get_utf32_be cbs =
     (case CBS_get_u32 cbs of
        (None, cbs') \<Rightarrow> (None, cbs')
      | (Some c, cbs') \<Rightarrow> if is_valid_code_point c then (Some c, cbs') else (None, cbs'))"

definition cbb_get_utf8_len :: "32 word \<Rightarrow> nat" where
  "cbb_get_utf8_len u = (if u \<le> 0x7f then 1 else if u \<le> 0x7ff then 2 else if u \<le> 0xffff then 3 else 4)"

text \<open>A conversion to \<open>uint8_t\<close>, as when a 32-bit value is passed to \<open>CBB_add_u8\<close>.\<close>

definition top_or :: "nat \<Rightarrow> 32 word \<Rightarrow> byte" where
  "top_or n u = ucast (ucast (TOP_BITS n) OR u)"

definition cbb_add_utf8 :: "heap_env \<Rightarrow> nat \<Rightarrow> CBB \<Rightarrow> 32 word \<Rightarrow> bool \<times> CBB" where
  "cbb_add_utf8 h d cbb u =
     (let low6 = (\<lambda>x. x AND ucast (BOTTOM_BITS 6)) in
      if \<not> is_valid_code_point u then (False, cbb)
      else if u \<le> 0x7f then CBB_add_u8 h d cbb (ucast u)
      else if u \<le> 0x7ff then
        add_all CBB_add_u8 h d cbb [top_or 2 (drop_bit 6 u), top_or 1 (low6 u)]
      else if u \<le> 0xffff then
        add_all CBB_add_u8 h d cbb [top_or 3 (drop_bit 12 u), top_or 1 (low6 (drop_bit 6 u)), top_or 1 (low6 u)]
      else if u \<le> 0x10ffff then
        add_all CBB_add_u8 h d cbb
          [top_or 4 (drop_bit 18 u), top_or 1 (low6 (drop_bit 12 u)), top_or 1 (low6 (drop_bit 6 u)), top_or 1 (low6 u)]
      else (False, cbb))"

definition cbb_add_latin1 :: "heap_env \<Rightarrow> nat \<Rightarrow> CBB \<Rightarrow> 32 word \<Rightarrow> bool \<times> CBB" where
  "cbb_add_latin1 h d cbb u = (if u \<le> 0xff then CBB_add_u8 h d cbb (ucast u) else (False, cbb))"

definition cbb_add_ucs2_be :: "heap_env \<Rightarrow> nat \<Rightarrow> CBB \<Rightarrow> 32 word \<Rightarrow> bool \<times> CBB" where
  "cbb_add_ucs2_be h d cbb u =
     (if u \<le> 0xffff \<and> is_valid_code_point u then CBB_add_u16 h d cbb (ucast u) else (False, cbb))"

definition cbb_add_utf32_be :: "heap_env \<Rightarrow> nat \<Rightarrow> CBB \<Rightarrow> 32 word \<Rightarrow> bool \<times> CBB" where
  "cbb_add_utf32_be h d cbb u = (if is_valid_code_point u then CBB_add_u32 h d cbb u else (False, cbb))"

section \<open>UTF-8\<close>

text \<open>The encoding of a code point (RFC 3629): \<open>conts k n\<close> are the last \<open>k\<close> continuation bytes.\<close>

fun conts :: "nat \<Rightarrow> nat \<Rightarrow> byte list" where
  "conts 0 n = []"
| "conts (Suc k) n = word_of_nat (0x80 + n div 64 ^ k mod 64) # conts k n"

definition utf8 :: "nat \<Rightarrow> byte list" where
  "utf8 n =
     (if n < 0x80 then [word_of_nat n]
      else if n < 0x800 then word_of_nat (0xc0 + n div 64 ^ 1) # conts 1 n
      else if n < 0x10000 then word_of_nat (0xe0 + n div 64 ^ 2) # conts 2 n
      else word_of_nat (0xf0 + n div 64 ^ 3) # conts 3 n)"

lemma bottom_mask: "BOTTOM_BITS n = mask n"
  by (simp add: BOTTOM_BITS_def mask_eq_decr_exp push_bit_eq_mult)

lemma unat_and_bottom: "unat (c AND BOTTOM_BITS n) = unat c mod 2 ^ n"
  unfolding bottom_mask take_bit_eq_mask [symmetric] unsigned_take_bit_eq by (simp add: take_bit_eq_mod)

lemma unat_and_top: "n \<le> 8 \<Longrightarrow> unat (c AND TOP_BITS n) = unat c div 2 ^ (8 - n) * 2 ^ (8 - n)"
proof -
  assume "n \<le> 8"
  have "c AND TOP_BITS n = push_bit (8 - n) (drop_bit (8 - n) c)"
    by (rule bit_eqI) (auto simp: TOP_BITS_def bottom_mask bit_simps)
  then have "unat (c AND TOP_BITS n) = take_bit 8 (unat c div 2 ^ (8 - n) * 2 ^ (8 - n))"
    by (simp only: unsigned_push_bit_eq unsigned_drop_bit_eq) 
      (simp add: push_bit_eq_mult drop_bit_eq_div take_bit_nat_eq_self unat_byte_less)
  also have "unat c div 2 ^ (8 - n) * 2 ^ (8 - n) < 2 ^ 8"
    by (rule le_less_trans [OF div_times_less_eq_dividend]) simp
  then have "take_bit 8 (unat c div 2 ^ (8 - n) * 2 ^ (8 - n)) = unat c div 2 ^ (8 - n) * 2 ^ (8 - n)"
    by (rule take_bit_nat_eq_self)
  finally show ?thesis .
qed

lemma top_values: "unat (TOP_BITS 1) = 0x80" "unat (TOP_BITS 2) = 0xc0" "unat (TOP_BITS 3) = 0xe0" "unat (TOP_BITS 4) = 0xf0"
  by code_simp+

lemma interval: "0 < m \<Longrightarrow> x div m * m = q * m \<longleftrightarrow> q * m \<le> x \<and> x < Suc q * m" for x :: nat
proof -
  assume m: "0 < m"
  have "x div m = q \<longleftrightarrow> q \<le> x div m \<and> x div m < Suc q" by auto
  then show ?thesis using m by (simp only: less_eq_div_iff_mult_less_eq div_less_iff_less_mult mult_cancel2) simp
qed

lemma lead_bytes:
  "c AND TOP_BITS 3 = TOP_BITS 2 \<longleftrightarrow> 0xc0 \<le> unat c \<and> unat c < 0xe0"
  "c AND TOP_BITS 4 = TOP_BITS 3 \<longleftrightarrow> 0xe0 \<le> unat c \<and> unat c < 0xf0"
  "c AND TOP_BITS 5 = TOP_BITS 4 \<longleftrightarrow> 0xf0 \<le> unat c \<and> unat c < 0xf8"
  "c AND TOP_BITS 2 = TOP_BITS 1 \<longleftrightarrow> 0x80 \<le> unat c \<and> unat c < 0xc0"
proof -
  have *: "x div 32 * 32 = 192 \<longleftrightarrow> 192 \<le> x \<and> x < 224" "x div 16 * 16 = 224 \<longleftrightarrow> 224 \<le> x \<and> x < 240"
    "x div 8 * 8 = 240 \<longleftrightarrow> 240 \<le> x \<and> x < 248" "x div 64 * 64 = 128 \<longleftrightarrow> 128 \<le> x \<and> x < 192" for x :: nat
    by (simp_all add: interval [of 32 x 6, simplified] interval [of 16 x 14, simplified] interval [of 8 x 30, simplified]
      interval [of 64 x 2, simplified] del: div_mult_self_is_m)
  show "c AND TOP_BITS 3 = TOP_BITS 2 \<longleftrightarrow> 0xc0 \<le> unat c \<and> unat c < 0xe0"
    unfolding word_unat_eq_iff top_values using unat_and_top [of 3 c] *(1) [of "unat c"] by simp
  show "c AND TOP_BITS 4 = TOP_BITS 3 \<longleftrightarrow> 0xe0 \<le> unat c \<and> unat c < 0xf0"
    unfolding word_unat_eq_iff top_values using unat_and_top [of 4 c] *(2) [of "unat c"] by simp
  show "c AND TOP_BITS 5 = TOP_BITS 4 \<longleftrightarrow> 0xf0 \<le> unat c \<and> unat c < 0xf8"
    unfolding word_unat_eq_iff top_values using unat_and_top [of 5 c] *(3) [of "unat c"] by simp
  show "c AND TOP_BITS 2 = TOP_BITS 1 \<longleftrightarrow> 0x80 \<le> unat c \<and> unat c < 0xc0"
    unfolding word_unat_eq_iff top_values using unat_and_top [of 2 c] *(4) [of "unat c"] by simp
qed

lemma mod_interval: "0 < m \<Longrightarrow> q * m \<le> x \<Longrightarrow> x < Suc q * m \<Longrightarrow> x mod m = x - q * m" for x :: nat
  using interval [of m x q] by (simp add: minus_div_mult_eq_mod [symmetric])

lemma div_mod_unique: "r < m \<Longrightarrow> q = m * v + r \<longleftrightarrow> q div m = v \<and> q mod m = r" for q :: nat
  using mult_div_mod_eq [of m q] by auto

lemma lead_range: "(q < r \<longleftrightarrow> n < t) \<Longrightarrow>
    l \<le> u \<and> u < l + r \<and> s \<le> n \<and> q = u - l \<longleftrightarrow> s \<le> n \<and> n < t \<and> u = l + q" for q :: nat
  by auto

lemma unat_cont: "unat (word_of_nat (128 + n mod 64) :: byte) = 128 + n mod 64"
proof -
  have "n mod 64 < 64" by simp
  then show ?thesis by (intro unat_byte_of_nat) linarith
qed

lemma unat_ucast_byte_32 [simp]: "unat (ucast (b :: byte) :: 32 word) = unat b"
  by (simp add: unsigned_ucast_eq take_bit_nat_eq_self less_trans [OF unat_byte_less])

lemma utf8_step:
  assumes "unat v < 2 ^ 26"
  shows "unat (push_bit 6 v OR ucast (c AND BOTTOM_BITS 6) :: 32 word) = 64 * unat v + unat c mod 64"
proof -
  have "unat (ucast (c AND BOTTOM_BITS 6) :: 32 word) = unat c mod 64"
    using unat_and_bottom [of c 6] by simp
  then have "push_bit 6 v OR ucast (c AND BOTTOM_BITS 6) = word_of_nat (64 * unat v + unat c mod 64)"
    using shift_or_add [of "ucast (c AND BOTTOM_BITS 6)" 6 v] by simp
  moreover have "unat c mod 64 < 64" by simp
  then have "64 * unat v + unat c mod 64 < 2 ^ 32" using assms by simp
  ultimately show ?thesis by (simp only: unat_32)
qed

lemma utf8_loop_iff:
  "6 * k \<le> 32 \<Longrightarrow> unat v < 2 ^ (32 - 6 * k) \<Longrightarrow> utf8_loop k v cbs = (Some w, rest) \<longleftrightarrow>
     unat w div 64 ^ k = unat v \<and> cbs = conts k (unat w) @ rest"
proof (induction k arbitrary: v cbs)
  case 0
  then show ?case by (auto simp: word_unat_eq_iff)
next
  case (Suc k)
  show ?case
  proof (cases cbs)
    case Nil
    then show ?thesis by simp
  next
    case (Cons c cs)
    show ?thesis
    proof (cases "0x80 \<le> unat c \<and> unat c < 0xc0")
      case False
      have "c \<noteq> word_of_nat (128 + n mod 64)" for n
      proof
        have "n mod 64 < 64" by simp
        moreover assume "c = word_of_nat (128 + n mod 64)"
        ultimately show False using unat_cont [of n] False by simp
      qed
      then show ?thesis using Cons False by (auto simp: lead_bytes [simplified])
    next
      case True
      let ?v = "push_bit 6 v OR ucast (c AND BOTTOM_BITS 6)" and ?m = "64 * unat v + unat c mod 64"
      have c: "unat c mod 64 = unat c - 0x80" using mod_interval [of 64 2 "unat c"] True by simp
      have pow: "(2 :: nat) ^ (32 - 6 * k) = 64 * 2 ^ (32 - 6 * Suc k)"
      proof -
        have "32 - 6 * k = 6 + (32 - 6 * Suc k)" using Suc.prems(1) by simp
        then show ?thesis by (simp only: power_add) simp
      qed
      have "(2 :: nat) ^ (32 - 6 * Suc k) \<le> 2 ^ 26" by (intro power_increasing) simp_all
      then have v: "unat ?v = ?m" using Suc.prems(2) by (intro utf8_step) linarith
      have "unat c mod 64 < 64" by simp
      then have "unat ?v < 2 ^ (32 - 6 * k)" using Suc.prems(2) v pow by linarith
      then have "utf8_loop k ?v cs = (Some w, rest) \<longleftrightarrow> unat w div 64 ^ k = ?m \<and> cs = conts k (unat w) @ rest"
        using Suc.IH [of ?v cs] Suc.prems(1) v by simp
      moreover have "unat w div 64 ^ k = ?m \<longleftrightarrow> unat w div 64 ^ Suc k = unat v \<and> unat w div 64 ^ k mod 64 = unat c mod 64"
      proof -
        have "unat w div 64 ^ Suc k = unat w div 64 ^ k div 64" by (simp add: div_mult2_eq [symmetric] mult.commute)
        then show ?thesis using div_mod_unique [of "unat c mod 64" 64 "unat w div 64 ^ k" "unat v"] by simp
      qed
      moreover have "c = word_of_nat (128 + n mod 64) \<longleftrightarrow> n mod 64 = unat c mod 64" for n
        using unat_cont [of n] True c by (auto simp: word_unat_eq_iff simp del: of_nat_add)
      ultimately show ?thesis using Cons True by (auto simp: lead_bytes [simplified])
    qed
  qed
qed

text \<open>The reader and the encoding on the first byte.\<close>

lemma get_utf8_Cons:
  "cbs_get_utf8 (c # cs) = (Some w, rest) \<longleftrightarrow>
    (unat c < 0x80 \<and> w = ucast c) \<and> cs = rest \<or>
    is_valid_code_point w \<and>
      ((0xc0 \<le> unat c \<and> unat c < 0xe0 \<and> 0x80 \<le> unat w \<and> unat w div 64 ^ 1 = unat c - 0xc0) \<and> cs = conts 1 (unat w) @ rest \<or>
       (0xe0 \<le> unat c \<and> unat c < 0xf0 \<and> 0x800 \<le> unat w \<and> unat w div 64 ^ 2 = unat c - 0xe0) \<and> cs = conts 2 (unat w) @ rest \<or>
       (0xf0 \<le> unat c \<and> unat c < 0xf8 \<and> 0x10000 \<le> unat w \<and> unat w div 64 ^ 3 = unat c - 0xf0) \<and> cs = conts 3 (unat w) @ rest)"
proof -
  have fin: "(case utf8_loop k (ucast v) cs of
        (None, cs') \<Rightarrow> (None, cs')
      | (Some v, cs') \<Rightarrow> if \<not> is_valid_code_point v \<or> v < low then (None, cs') else (Some v, cs')) = (Some w, rest) \<longleftrightarrow>
      is_valid_code_point w \<and> unat low \<le> unat w \<and> unat w div 64 ^ k = unat v \<and> cs = conts k (unat w) @ rest"
    if "k \<le> 3" for k low and v :: byte
  proof -
    have "unat v < 2 ^ (32 - 6 * k)"
    proof -
      have "(2 :: nat) ^ 8 \<le> 2 ^ (32 - 6 * k)" using that by (intro power_increasing) simp_all
      then show ?thesis using less_le_trans [OF unat_byte_less [of v]] by simp
    qed
    then have "utf8_loop k (ucast v) cs = (Some w, rest) \<longleftrightarrow> unat w div 64 ^ k = unat v \<and> cs = conts k (unat w) @ rest"
      using utf8_loop_iff [of k "ucast v" cs w rest] that by simp
    moreover have "w < low \<longleftrightarrow> unat w < unat low" by (simp add: word_less_nat_alt)
    ultimately show ?thesis
      by (cases "utf8_loop k (ucast v) cs"; cases "fst (utf8_loop k (ucast v) cs)") (auto simp: not_less)
  qed
  have low: "unat c mod 32 = unat c - 0xc0" if "0xc0 \<le> unat c \<and> unat c < 0xe0" using mod_interval [of 32 6 "unat c"] that by simp
  have mid: "unat c mod 16 = unat c - 0xe0" if "0xe0 \<le> unat c \<and> unat c < 0xf0" using mod_interval [of 16 14 "unat c"] that by simp
  have high: "unat c mod 8 = unat c - 0xf0" if "0xf0 \<le> unat c \<and> unat c < 0xf8" using mod_interval [of 8 30 "unat c"] that by simp
  have le: "c \<le> 0x7f \<longleftrightarrow> unat c < 0x80" by (auto simp: word_le_nat_alt)
  consider "unat c < 0x80" | "0x80 \<le> unat c" "unat c < 0xc0" | "0xc0 \<le> unat c \<and> unat c < 0xe0" | "0xe0 \<le> unat c \<and> unat c < 0xf0"
    | "0xf0 \<le> unat c \<and> unat c < 0xf8" | "0xf8 \<le> unat c" by linarith
  then show ?thesis
  proof cases
    case 1
    then show ?thesis by (auto simp: cbs_get_utf8_def le)
  next
    case 3
    then show ?thesis unfolding cbs_get_utf8_def CBS_get_u8_simps prod.case option.case le lead_bytes Let_def
      using fin [of 1 "0x80" "c AND BOTTOM_BITS 5"] low by (auto simp: unat_and_bottom)
  next
    case 4
    then show ?thesis unfolding cbs_get_utf8_def CBS_get_u8_simps prod.case option.case le lead_bytes Let_def
      using fin [of 2 "0x800" "c AND BOTTOM_BITS 4"] mid by (auto simp: unat_and_bottom)
  next
    case 5
    then show ?thesis unfolding cbs_get_utf8_def CBS_get_u8_simps prod.case option.case le lead_bytes Let_def
      using fin [of 3 "0x10000" "c AND BOTTOM_BITS 3"] high by (auto simp: unat_and_bottom)
  qed (auto simp: cbs_get_utf8_def le lead_bytes Let_def)
qed

lemma valid_bound: "is_valid_code_point w \<Longrightarrow> unat w \<le> 0x10ffff"
  by (auto simp: is_valid_code_point_def word_le_nat_alt word_less_nat_alt not_less)

lemma valid_small:
  assumes "unat w < 0x80"
  shows "is_valid_code_point w"
proof -
  have "w AND 0xfffe \<noteq> 0xfffe"
  proof
    assume "w AND 0xfffe = 0xfffe"
    moreover have "w AND 0xfffe \<le> w" by (rule word_and_le2)
    ultimately show False using assms by (simp add: word_le_nat_alt)
  qed
  then show ?thesis using assms by (simp add: is_valid_code_point_def word_le_nat_alt word_less_nat_alt)
qed

lemma utf8_Cons:
  assumes "n \<le> 0x10ffff"
  shows "c # cs = utf8 n @ rest \<longleftrightarrow>
    (n < 0x80 \<and> unat c = n) \<and> cs = rest \<or>
    (0x80 \<le> n \<and> n < 0x800 \<and> unat c = 0xc0 + n div 64 ^ 1) \<and> cs = conts 1 n @ rest \<or>
    (0x800 \<le> n \<and> n < 0x10000 \<and> unat c = 0xe0 + n div 64 ^ 2) \<and> cs = conts 2 n @ rest \<or>
    (0x10000 \<le> n \<and> unat c = 0xf0 + n div 64 ^ 3) \<and> cs = conts 3 n @ rest"
proof -
  have byte: "c = word_of_nat m \<longleftrightarrow> unat c = m" if "m < 256" for m
    using unat_byte_of_nat [OF that] by (auto simp: word_unat_eq_iff)
  have bytes: "n < 0x800 \<Longrightarrow> c = word_of_nat (0xc0 + n div 64) \<longleftrightarrow> unat c = 0xc0 + n div 64"
    "n < 0x10000 \<Longrightarrow> c = word_of_nat (0xe0 + n div 4096) \<longleftrightarrow> unat c = 0xe0 + n div 4096"
    "c = word_of_nat (0xf0 + n div 262144) \<longleftrightarrow> unat c = 0xf0 + n div 262144"
    using assms by (auto intro!: byte simp: div_less_iff_less_mult less_diff_conv2 [symmetric] simp del: of_nat_add)
  consider "n < 0x80" | "0x80 \<le> n" "n < 0x800" | "0x800 \<le> n" "n < 0x10000" | "0x10000 \<le> n" by linarith
  then show ?thesis
    by cases (auto simp: utf8_def byte bytes simp del: of_nat_add)
qed

lemma get_utf8_iff: "cbs_get_utf8 cbs = (Some w, rest) \<longleftrightarrow> is_valid_code_point w \<and> cbs = utf8 (unat w) @ rest"
proof (cases cbs)
  case Nil
  then show ?thesis by (auto simp: cbs_get_utf8_def utf8_def)
next
  case (Cons c cs)
  show ?thesis
  proof (cases "is_valid_code_point w")
    case False
    then show ?thesis using valid_small [of w] unfolding Cons get_utf8_Cons by auto
  next
    case True
    note bound = valid_bound [OF True]
    let ?n = "unat w" and ?u = "unat c"
    have lt: "?n div 64 ^ 1 < 32 \<longleftrightarrow> ?n < 0x800" "?n div 64 ^ 2 < 16 \<longleftrightarrow> ?n < 0x10000" "?n div 64 ^ 3 < 8 \<longleftrightarrow> ?n < 0x200000"
      by (auto simp: div_less_iff_less_mult)
    have "?u < 0x80 \<and> w = ucast c \<longleftrightarrow> ?n < 0x80 \<and> ?u = ?n" by (auto simp: word_unat_eq_iff)
    moreover have "0xc0 \<le> ?u \<and> ?u < 0xe0 \<and> 0x80 \<le> ?n \<and> ?n div 64 ^ 1 = ?u - 0xc0 \<longleftrightarrow>
        0x80 \<le> ?n \<and> ?n < 0x800 \<and> ?u = 0xc0 + ?n div 64 ^ 1"
      using lead_range [OF lt(1), of "0xc0" ?u "0x80"] by simp
    moreover have "0xe0 \<le> ?u \<and> ?u < 0xf0 \<and> 0x800 \<le> ?n \<and> ?n div 64 ^ 2 = ?u - 0xe0 \<longleftrightarrow>
        0x800 \<le> ?n \<and> ?n < 0x10000 \<and> ?u = 0xe0 + ?n div 64 ^ 2"
      using lead_range [OF lt(2), of "0xe0" ?u "0x800"] by simp
    moreover have "0xf0 \<le> ?u \<and> ?u < 0xf8 \<and> 0x10000 \<le> ?n \<and> ?n div 64 ^ 3 = ?u - 0xf0 \<longleftrightarrow>
        0x10000 \<le> ?n \<and> ?u = 0xf0 + ?n div 64 ^ 3"
      using lead_range [OF lt(3), of "0xf0" ?u "0x10000"] bound by simp
    ultimately show ?thesis
      unfolding Cons get_utf8_Cons utf8_Cons [OF bound] using True by simp
  qed
qed

interpretation utf8: prefix_codec cbs_get_utf8 "\<lambda>w. utf8 (unat w)" is_valid_code_point
  by unfold_locales (rule get_utf8_iff)

section \<open>The other readers\<close>

lemma unat_ucast_16 [simp]: "unat (ucast (x :: 16 word) :: 32 word) = unat x"
proof -
  have "unat x < 2 ^ 32" using unsigned_less [where 'a = nat, of x] by (rule less_trans) simp
  then show ?thesis by (simp add: unsigned_ucast_eq take_bit_nat_eq_self)
qed

lemma ucast_eq_iff:
  "w = ucast (c :: byte) \<longleftrightarrow> unat w < 256 \<and> c = ucast (w :: 32 word)"
  "w = ucast (x :: 16 word) \<longleftrightarrow> unat w < 65536 \<and> unat x = unat w"
proof -
  have "unat (ucast w :: byte) = unat w" if "unat w < 256"
    using that by (simp add: unsigned_ucast_eq take_bit_nat_eq_self)
  then show "w = ucast c \<longleftrightarrow> unat w < 256 \<and> c = ucast w" by (auto simp: word_unat_eq_iff)
  show "w = ucast x \<longleftrightarrow> unat w < 65536 \<and> unat x = unat w"
    using unsigned_less [where 'a = nat, of x] by (auto simp: word_unat_eq_iff)
qed

interpretation latin1: prefix_codec cbs_get_latin1 "\<lambda>w. [ucast w]" "\<lambda>w. unat w < 256"
proof
  have "cbs_get_latin1 (c # cs) = (Some w, rest) \<longleftrightarrow> w = ucast c \<and> cs = rest" for c cs w rest
    by (auto simp: cbs_get_latin1_def)
  then show "cbs_get_latin1 cbs = (Some w, rest) \<longleftrightarrow> unat w < 256 \<and> cbs = [ucast w] @ rest" for cbs w rest
    by (cases cbs) (auto simp: cbs_get_latin1_def ucast_eq_iff(1))
qed

interpretation ucs2: prefix_codec cbs_get_ucs2_be "\<lambda>w. be_bytes 2 (unat w)" "\<lambda>w. unat w < 65536 \<and> is_valid_code_point w"
proof
  fix cbs w rest
  have "cbs_get_ucs2_be cbs = (Some w, rest) \<longleftrightarrow>
    (\<exists>x. CBS_get_u16 cbs = (Some x, rest) \<and> w = ucast x \<and> is_valid_code_point w)"
    by (auto simp: cbs_get_ucs2_be_def split: prod.splits option.splits if_splits)
  also have "\<dots> \<longleftrightarrow> (\<exists>x :: 16 word. cbs = be_bytes 2 (unat w) @ rest \<and> unat w < 65536 \<and> unat x = unat w \<and> is_valid_code_point w)"
    unfolding u16.get_iff ucast_eq_iff by (auto; metis)
  also have "\<dots> \<longleftrightarrow> (unat w < 65536 \<and> is_valid_code_point w) \<and> cbs = be_bytes 2 (unat w) @ rest"
    by (auto simp: unsigned_ucast_eq take_bit_nat_eq_self intro!: exI [of _ "ucast w"])
  finally show "cbs_get_ucs2_be cbs = (Some w, rest) \<longleftrightarrow>
    (unat w < 65536 \<and> is_valid_code_point w) \<and> cbs = be_bytes 2 (unat w) @ rest" .
qed

interpretation utf32: prefix_codec cbs_get_utf32_be "\<lambda>w. be_bytes 4 (unat w)" is_valid_code_point
proof
  fix cbs w rest
  have "cbs_get_utf32_be cbs = (Some w, rest) \<longleftrightarrow> CBS_get_u32 cbs = (Some w, rest) \<and> is_valid_code_point w"
    by (auto simp: cbs_get_utf32_be_def split: prod.splits option.splits if_splits)
  then show "cbs_get_utf32_be cbs = (Some w, rest) \<longleftrightarrow> is_valid_code_point w \<and> cbs = be_bytes 4 (unat w) @ rest"
    by (auto simp: u32.get_iff)
qed

section \<open>The writers\<close>

lemma guarded_appender:
  assumes "appender op enc pre fits" "\<And>h d s v. op' h d s v = (if g v then op h d s v else (False, s))"
  shows "appender op' enc pre (\<lambda>v. g v \<and> fits v)"
proof
  show "cbb_ok s'" if "cbb_ok s" "pre v" "op' h d s v = (r, s')" for s v h d r s'
    using appender.keeps [OF assms(1) that(1, 2)] that(1, 3) by (auto simp: assms(2) split: if_splits)
  show "(g v \<and> fits v) \<and> appended h d s (enc v) s'" if "cbb_ok s" "pre v" "op' h d s v = (True, s')" for s v h d s'
    using appender.appends [OF assms(1) that(1, 2)] that(3) by (auto simp: assms(2) split: if_splits)
  show "fst (op' h d s v)"
    if "settled d s c" "pre v" "g v \<and> fits v" "grows h s" "length (c @ enc v) < size_mod" for d s c v h
    using appender.succeeds [OF assms(1) that(1, 2) _ that(4, 5)] that(3) by (simp add: assms(2))
qed

text \<open>Writing a non-empty run of values.\<close>

context appender
begin

lemma run_appender:
  assumes "\<And>v. f v \<noteq> []"
  shows "appender (\<lambda>h d s v. add_all op h d s (f v)) (\<lambda>v. concat (map enc (f v)))
    (\<lambda>v. list_all pre (f v)) (\<lambda>v. list_all fits (f v))"
  proof
    fix s v h d r s'
    obtain x xs where f: "f v = x # xs" using assms by (meson neq_Nil_conv)
    assume a: "cbb_ok s" "list_all pre (f v)" "add_all op h d s (f v) = (r, s')"
    obtain r1 s1 where op: "op h d s x = (r1, s1)" by (cases "op h d s x")
    note keep = keeps [OF a(1) _ op]
    show "cbb_ok s'"
    proof (cases r1)
      case False
      then show ?thesis using keep a(2, 3) f op by auto
    next
      case True
      then obtain c where "settled d s1 c"
        using appends [OF a(1), of x h d s1] a(2) f op by (auto simp: appended_def)
      then show ?thesis using all_keeps a(2, 3) f op True by auto
    qed
  next
    fix s v h d s'
    obtain x xs where f: "f v = x # xs" using assms by (meson neq_Nil_conv)
    assume a: "cbb_ok s" "list_all pre (f v)" "add_all op h d s (f v) = (True, s')"
    obtain s1 where op: "op h d s x = (True, s1)" "add_all op h d s1 xs = (True, s')"
      using a(3) f by (auto split: prod.splits bool.splits)
    have app: "fits x" "appended h d s (enc x) s1" using appends [OF a(1) _ op(1)] a(2) f by auto
    then obtain c where c: "flushed d s = Some c" "settled d s1 (c @ enc x)" "children s1 = take d (children s)"
      "grows h s1 = grows h s" by (auto simp: appended_def)
    then show "list_all fits (f v) \<and> appended h d s (concat (map enc (f v))) s'"
      using all_appends [OF c(2) _ op(2)] a(2) f app(1) by (auto simp: appended_def)
  next
    show "fst (add_all op h d s (f v))"
      if "settled d s c" "list_all pre (f v)" "list_all fits (f v)" "grows h s" "length (c @ concat (map enc (f v))) < size_mod"
      for d s c v h
      using all_succeeds [OF that] .
  qed

end

text \<open>The bytes that \<open>cbb_add_utf8\<close> writes.\<close>

lemma top_or_byte:
  assumes "unat x < 2 ^ k" "ucast (TOP_BITS n) = push_bit k (v :: 32 word)" "2 ^ k * unat v + unat x < 256"
  shows "top_or n x = word_of_nat (2 ^ k * unat v + unat x)"
proof -
  have "(ucast (word_of_nat m :: 32 word) :: byte) = word_of_nat m" if "m < 256" for m
    using that by (simp add: word_unat_eq_iff unsigned_ucast_eq unsigned_of_nat take_bit_nat_eq_self)
  then show ?thesis using shift_or_add [OF assms(1), of v] assms(3) by (simp only: top_or_def assms(2))
qed

lemma top_or_bytes:
  "unat x < 2 ^ 7 \<Longrightarrow> top_or 1 x = word_of_nat (0x80 + unat x)"
  "unat x < 2 ^ 6 \<Longrightarrow> top_or 2 x = word_of_nat (0xc0 + unat x)"
  "unat x < 2 ^ 5 \<Longrightarrow> top_or 3 x = word_of_nat (0xe0 + unat x)"
  "unat x < 2 ^ 4 \<Longrightarrow> top_or 4 x = word_of_nat (0xf0 + unat x)"
proof -
  have top: "(ucast (TOP_BITS 1) :: 32 word) = push_bit 7 1" "(ucast (TOP_BITS 2) :: 32 word) = push_bit 6 3"
    "(ucast (TOP_BITS 3) :: 32 word) = push_bit 5 7" "(ucast (TOP_BITS 4) :: 32 word) = push_bit 4 15"
    by code_simp+
  show "unat x < 2 ^ 7 \<Longrightarrow> top_or 1 x = word_of_nat (0x80 + unat x)" using top_or_byte [OF _ top(1), of x] by simp
  show "unat x < 2 ^ 6 \<Longrightarrow> top_or 2 x = word_of_nat (0xc0 + unat x)" using top_or_byte [OF _ top(2), of x] by simp
  show "unat x < 2 ^ 5 \<Longrightarrow> top_or 3 x = word_of_nat (0xe0 + unat x)" using top_or_byte [OF _ top(3), of x] by simp
  show "unat x < 2 ^ 4 \<Longrightarrow> top_or 4 x = word_of_nat (0xf0 + unat x)" using top_or_byte [OF _ top(4), of x] by simp
qed

lemma unat_low6: "unat (x AND ucast (BOTTOM_BITS 6) :: 32 word) = unat x mod 64"
proof -
  have "(ucast (BOTTOM_BITS 6) :: 32 word) = mask 6" by code_simp
  then have "x AND ucast (BOTTOM_BITS 6) = take_bit 6 x" by (simp add: take_bit_eq_mask)
  then show ?thesis by (simp only: unsigned_take_bit_eq) (simp add: take_bit_eq_mod)
qed

lemma unat_drop_bit_32: "unat (drop_bit n (u :: 32 word)) = unat u div 2 ^ n"
  by (simp only: unat_drop_bit_eq) (simp add: drop_bit_eq_div)

lemma length_conts [simp]: "length (conts k n) = k"
  by (induction k) simp_all

lemma conts_list:
  "conts 1 n = [word_of_nat (0x80 + n mod 64)]"
  "conts 2 n = [word_of_nat (0x80 + n div 64 mod 64), word_of_nat (0x80 + n mod 64)]"
  "conts 3 n = [word_of_nat (0x80 + n div 4096 mod 64), word_of_nat (0x80 + n div 64 mod 64), word_of_nat (0x80 + n mod 64)]"
  unfolding numeral_2_eq_2 numeral_3_eq_3 One_nat_def by (simp_all del: of_nat_add)

lemma add_utf8_eq:
  "cbb_add_utf8 h d s u =
    (if is_valid_code_point u then add_all CBB_add_u8 h d s (utf8 (unat u)) else (False, s))"
proof (cases "is_valid_code_point u")
  case True
  let ?n = "unat u"
  have le: "u \<le> 0x7f \<longleftrightarrow> ?n < 0x80" "u \<le> 0x7ff \<longleftrightarrow> ?n < 0x800" "u \<le> 0xffff \<longleftrightarrow> ?n < 0x10000"
    by (auto simp: word_le_nat_alt)
  have max: "u \<le> 0x10ffff" using valid_bound [OF True] by (simp add: word_le_nat_alt)
  have cont: "top_or 1 (x AND ucast (BOTTOM_BITS 6)) = word_of_nat (0x80 + unat x mod 64)" for x
  proof -
    have "unat x mod 64 < 64" by simp
    then show ?thesis using top_or_bytes(1) [of "x AND ucast (BOTTOM_BITS 6)"] unat_low6 [of x] by simp
  qed
  consider "?n < 0x80" | "0x80 \<le> ?n" "?n < 0x800" | "0x800 \<le> ?n" "?n < 0x10000" | "0x10000 \<le> ?n" by linarith
  then show ?thesis
  proof cases
    case 1
    have "(ucast u :: byte) = word_of_nat ?n" by (simp add: word_unat_eq_iff unsigned_ucast_eq unsigned_of_nat)
    then show ?thesis using 1 True
      by (cases "CBB_add_u8 h d s (ucast u)") (simp add: cbb_add_utf8_def le utf8_def split: bool.split)
  next
    case 2
    then have "?n div 64 < 32" by (simp add: div_less_iff_less_mult)
    then have "top_or 2 (drop_bit 6 u) = word_of_nat (0xc0 + ?n div 64)"
      using top_or_bytes(2) [of "drop_bit 6 u"] by (simp add: unat_drop_bit_32)
    then show ?thesis using 2 True
      by (simp add: cbb_add_utf8_def le utf8_def conts_list [unfolded One_nat_def] cont [unfolded One_nat_def] unat_drop_bit_32 Let_def del: of_nat_add add_all.simps)
  next
    case 3
    then have "?n div 4096 < 16" by (simp add: div_less_iff_less_mult)
    then have "top_or 3 (drop_bit 12 u) = word_of_nat (0xe0 + ?n div 4096)"
      using top_or_bytes(3) [of "drop_bit 12 u"] by (simp add: unat_drop_bit_32)
    then show ?thesis using 3 True
      by (simp add: cbb_add_utf8_def le utf8_def conts_list cont [unfolded One_nat_def] unat_drop_bit_32 Let_def del: of_nat_add add_all.simps)
  next
    case 4
    then have "?n div 262144 < 5" using valid_bound [OF True] by (simp add: div_less_iff_less_mult)
    then have "top_or 4 (drop_bit 18 u) = word_of_nat (0xf0 + ?n div 262144)"
      using top_or_bytes(4) [of "drop_bit 18 u"] by (simp add: unat_drop_bit_32)
    then show ?thesis using 4 True max
      by (simp add: cbb_add_utf8_def le utf8_def conts_list cont [unfolded One_nat_def] unat_drop_bit_32 Let_def del: of_nat_add add_all.simps)
  qed
qed (simp add: cbb_add_utf8_def)

interpretation add_utf8: appender cbb_add_utf8 "\<lambda>u. utf8 (unat u)" "\<lambda>_. True" is_valid_code_point
proof -
  have "utf8 (unat u) \<noteq> []" for u :: "32 word" by (simp add: utf8_def)
  from guarded_appender [OF add_u8.run_appender [OF this] add_utf8_eq]
  show "appender cbb_add_utf8 (\<lambda>u. utf8 (unat u)) (\<lambda>_. True) is_valid_code_point" by (simp add: list_all_iff)
qed

interpretation add_latin1: appender cbb_add_latin1 "\<lambda>u. [ucast u]" "\<lambda>_. True" "\<lambda>u. unat u < 256"
proof -
  have "u \<le> 0xff \<longleftrightarrow> unat u < 256" for u :: "32 word" by (auto simp: word_le_nat_alt)
  with guarded_appender [OF appender_comp [OF add_u8.appender_axioms, of ucast], of cbb_add_latin1 "\<lambda>u. u \<le> 0xff"]
  show "appender cbb_add_latin1 (\<lambda>u. [ucast u]) (\<lambda>_. True) (\<lambda>u. unat u < 256)" by (simp add: cbb_add_latin1_def)
qed

interpretation add_ucs2: appender cbb_add_ucs2_be "\<lambda>u. be_bytes 2 (unat u)" "\<lambda>_. True"
  "\<lambda>u. unat u < 65536 \<and> is_valid_code_point u"
proof -
  have le: "u \<le> 0xffff \<longleftrightarrow> unat u < 65536" for u :: "32 word" by (auto simp: word_le_nat_alt)
  have low: "unat (ucast u :: 16 word) = unat u" if "unat u < 65536" for u :: "32 word"
    using that by (simp add: unsigned_ucast_eq take_bit_nat_eq_self)
  show "appender cbb_add_ucs2_be (\<lambda>u. be_bytes 2 (unat u)) (\<lambda>_. True) (\<lambda>u. unat u < 65536 \<and> is_valid_code_point u)"
    by (rule appender_cong [OF guarded_appender [OF appender_comp [OF add_u16.appender_axioms, of ucast],
        of cbb_add_ucs2_be "\<lambda>u. u \<le> 0xffff \<and> is_valid_code_point u"]])
      (auto simp: cbb_add_ucs2_be_def le low)
qed

interpretation add_utf32: appender cbb_add_utf32_be "\<lambda>u. be_bytes 4 (unat u)" "\<lambda>_. True" is_valid_code_point
proof -
  have "unat (u :: 32 word) < 256 ^ 4" for u using unsigned_less [where 'a = nat, of u] by simp
  then show "appender cbb_add_utf32_be (\<lambda>u. be_bytes 4 (unat u)) (\<lambda>_. True) is_valid_code_point"
    by (intro appender_cong [OF guarded_appender [OF add_u32.appender_axioms, of cbb_add_utf32_be is_valid_code_point]])
      (simp_all add: cbb_add_utf32_be_def)
qed

interpretation rt_utf8: round_trip cbb_add_utf8 "\<lambda>u. utf8 (unat u)" "\<lambda>_. True" is_valid_code_point
  cbs_get_utf8 is_valid_code_point
  by unfold_locales simp

interpretation rt_latin1: round_trip cbb_add_latin1 "\<lambda>u. [ucast u]" "\<lambda>_. True" "\<lambda>u. unat u < 256"
  cbs_get_latin1 "\<lambda>u. unat u < 256"
  by unfold_locales simp

interpretation rt_ucs2: round_trip cbb_add_ucs2_be "\<lambda>u. be_bytes 2 (unat u)" "\<lambda>_. True"
  "\<lambda>u. unat u < 65536 \<and> is_valid_code_point u" cbs_get_ucs2_be "\<lambda>u. unat u < 65536 \<and> is_valid_code_point u"
  by unfold_locales simp

interpretation rt_utf32: round_trip cbb_add_utf32_be "\<lambda>u. be_bytes 4 (unat u)" "\<lambda>_. True" is_valid_code_point
  cbs_get_utf32_be is_valid_code_point
  by unfold_locales simp

section \<open>Properties\<close>

text \<open>C26. UTF-8 is read strictly: \<open>cbs_get_utf8\<close> returns a code point exactly when the input starts with
  the one UTF-8 encoding of a valid code point (no overlong forms, surrogates or noncharacters), and
  consumes as many bytes as \<open>cbb_get_utf8_len\<close> says.\<close>

theorem utf8_accepts_exactly:
  "cbs_get_utf8 cbs = (Some w, rest) \<longleftrightarrow>
   is_valid_code_point w \<and> cbs = utf8 (unat w) @ rest \<and> length cbs = cbb_get_utf8_len w + length rest"
proof -
  have "length (utf8 (unat w)) = cbb_get_utf8_len w"
    by (auto simp: utf8_def cbb_get_utf8_len_def word_le_nat_alt)
  then show ?thesis by (auto simp: get_utf8_iff)
qed

text \<open>Code points survive a round trip: any list of valid code points written with \<open>cbb_add_utf8\<close>,
  finished and read with \<open>cbs_get_utf8\<close> comes back unchanged with nothing left over, and no step
  fails when the heap has memory.\<close>

theorem utf8_list_round_trip:
  assumes "\<forall>k. can_alloc h k" "n < size_mod" "list_all is_valid_code_point vs" "4 * length vs < size_mod"
  shows "\<exists>s s' s'' b m. CBB_init h n = (True, s) \<and> add_all cbb_add_utf8 h 0 s vs = (True, s') \<and>
    CBB_finish h 0 s' True True = (Some (b, m), s'') \<and>
    read_n cbs_get_utf8 (length vs) (take m b) = (Some vs, [])"
proof -
  have "length (utf8 n) \<le> 4" for n by (simp add: utf8_def)
  then have "length (concat (map (\<lambda>u. utf8 (unat u)) vs)) \<le> 4 * length vs"
    by (induction vs) (auto intro: add_mono)
  then show ?thesis using assms(4) by (intro rt_utf8.list_round_trip [OF assms(1, 2) _ assms(3)]) (auto simp: list_all_iff)
qed

theorem utf8_list_round_trip_witness:
  "let h = \<lparr>can_alloc = \<lambda>_. True, junk = \<lambda>_. 0\<rparr> in \<exists>s s' s'' b m. CBB_init h 0 = (True, s) \<and>
    add_all cbb_add_utf8 h 0 s [0x41, 0xe9, 0x20ac, 0x1f600] = (True, s') \<and>
    CBB_finish h 0 s' True True = (Some (b, m), s'') \<and>
    read_n cbs_get_utf8 4 (take m b) = (Some [0x41, 0xe9, 0x20ac, 0x1f600], [])"
proof -
  let ?h = "\<lparr>can_alloc = \<lambda>_. True, junk = \<lambda>_. 0\<rparr>" and ?vs = "[0x41, 0xe9, 0x20ac, 0x1f600] :: 32 word list"
  have "list_all is_valid_code_point ?vs" by code_simp
  moreover have "\<forall>k. can_alloc ?h k" "0 < size_mod" "4 * length ?vs < size_mod" by (simp_all add: size_mod_def)
  ultimately have "\<exists>s s' s'' b m. CBB_init ?h 0 = (True, s) \<and> add_all cbb_add_utf8 ?h 0 s ?vs = (True, s') \<and>
    CBB_finish ?h 0 s' True True = (Some (b, m), s'') \<and> read_n cbs_get_utf8 (length ?vs) (take m b) = (Some ?vs, [])"
    by (intro utf8_list_round_trip)
  moreover have "length ?vs = 4" by simp
  ultimately show ?thesis unfolding Let_def by (simp only:)
qed

end
