(* ===== verification/Const_Time.thy ===== *)
theory Const_Time
  imports Prelude "HOL-Library.Word"
begin

unbundle bit_operations_syntax

text \<open>
  The constant-time comparisons and selections of \<open>crypto/internal.h\<close>, on the 64-bit \<open>crypto_word_t\<close> of the
  64-bit builds.  \<open>value_barrier_w\<close> is the identity: it only hides a value from the compiler.
\<close>

section \<open>Masks and selection\<close>

type_synonym crypto_word_t = "64 word"

definition constant_time_msb_w :: "crypto_word_t \<Rightarrow> crypto_word_t" where
  "constant_time_msb_w a = 0 - drop_bit 63 a"

definition constant_time_lt_w :: "crypto_word_t \<Rightarrow> crypto_word_t \<Rightarrow> crypto_word_t" where
  "constant_time_lt_w a b = constant_time_msb_w (a XOR ((a XOR b) OR ((a - b) XOR a)))"

definition constant_time_lt_8 :: "crypto_word_t \<Rightarrow> crypto_word_t \<Rightarrow> 8 word" where
  "constant_time_lt_8 a b = ucast (constant_time_lt_w a b)"

definition constant_time_ge_w :: "crypto_word_t \<Rightarrow> crypto_word_t \<Rightarrow> crypto_word_t" where
  "constant_time_ge_w a b = NOT (constant_time_lt_w a b)"

definition constant_time_ge_8 :: "crypto_word_t \<Rightarrow> crypto_word_t \<Rightarrow> 8 word" where
  "constant_time_ge_8 a b = ucast (constant_time_ge_w a b)"

definition constant_time_is_zero_w :: "crypto_word_t \<Rightarrow> crypto_word_t" where
  "constant_time_is_zero_w a = constant_time_msb_w (NOT a AND (a - 1))"

definition constant_time_is_zero_8 :: "crypto_word_t \<Rightarrow> 8 word" where
  "constant_time_is_zero_8 a = ucast (constant_time_is_zero_w a)"

definition constant_time_eq_w :: "crypto_word_t \<Rightarrow> crypto_word_t \<Rightarrow> crypto_word_t" where
  "constant_time_eq_w a b = constant_time_is_zero_w (a XOR b)"

definition constant_time_eq_8 :: "crypto_word_t \<Rightarrow> crypto_word_t \<Rightarrow> 8 word" where
  "constant_time_eq_8 a b = ucast (constant_time_eq_w a b)"

definition constant_time_eq_int :: "32 word \<Rightarrow> 32 word \<Rightarrow> crypto_word_t" where
  "constant_time_eq_int a b = constant_time_eq_w (scast a) (scast b)"

definition constant_time_eq_int_8 :: "32 word \<Rightarrow> 32 word \<Rightarrow> 8 word" where
  "constant_time_eq_int_8 a b = constant_time_eq_8 (scast a) (scast b)"

definition constant_time_select_w :: "crypto_word_t \<Rightarrow> crypto_word_t \<Rightarrow> crypto_word_t \<Rightarrow> crypto_word_t" where
  "constant_time_select_w m a b = (m AND a) OR (NOT m AND b)"

definition constant_time_select_8 :: "8 word \<Rightarrow> 8 word \<Rightarrow> 8 word \<Rightarrow> 8 word" where
  "constant_time_select_8 m a b = ucast (constant_time_select_w (ucast m) (ucast a) (ucast b))"

definition constant_time_select_int :: "crypto_word_t \<Rightarrow> 32 word \<Rightarrow> 32 word \<Rightarrow> 32 word" where
  "constant_time_select_int m a b = ucast (constant_time_select_w m (scast a) (scast b))"

section \<open>They agree with plain comparisons\<close>

named_theorems const_time

lemma bit_iff_odd_unat: "bit a n \<longleftrightarrow> odd (unat a div 2 ^ n)" for a :: "64 word"
proof -
  have "bit (unat a) n \<longleftrightarrow> bit a n" by (simp add: bit_unsigned_iff)
  then show ?thesis by (simp add: bit_iff_odd)
qed

text \<open>The highest bit, as a comparison of numbers.\<close>

lemma bit_top: "bit a 63 \<longleftrightarrow> 2 ^ 63 \<le> unat a" for a :: "64 word"
proof -
  have less: "unat a < 2 ^ 64" using unsigned_less [of a] by simp
  have "bit a 63 \<longleftrightarrow> odd (unat a div 2 ^ 63)" by (simp only: bit_iff_odd_unat)
  also have "\<dots> \<longleftrightarrow> 2 ^ 63 \<le> unat a"
  proof (cases "2 ^ 63 \<le> unat a")
    case True
    then have "unat a div 2 ^ 63 = 1" using less by (intro div_nat_eqI) simp_all
    then show ?thesis using True by simp
  next
    case False
    then have "unat a div 2 ^ 63 = 0" by simp
    then show ?thesis using False by simp
  qed
  finally show ?thesis .
qed

lemma msb_mask: "constant_time_msb_w a = (if bit a 63 then - 1 else 0)"
proof -
  have "drop_bit 63 a = (if bit a 63 then 1 else 0)"
  proof (rule bit_word_eqI)
    fix n assume n: "n < LENGTH(64)"
    show "bit (drop_bit 63 a) n = bit (if bit a 63 then 1 else 0 :: 64 word) n"
    proof (cases n)
      case 0
      then show ?thesis by (simp add: bit_drop_bit_eq)
    next
      case (Suc k)
      then have "\<not> bit a (63 + n)" by (simp add: bit_word.rep_eq)
      then show ?thesis using Suc by (simp add: bit_drop_bit_eq bit_1_iff)
    qed
  qed
  then show ?thesis by (simp add: constant_time_msb_w_def)
qed

lemma unat_sub: "unat (a - b) = (if b \<le> a then unat a - unat b else unat a + 2 ^ 64 - unat b)" for a b :: "64 word"
proof -
  have "unat (a - b) = (if unat b \<le> unat a then unat a - unat b else unat a + 2 ^ size a - unat b)"
    by (rule unat_sub_if_size)
  then show ?thesis by (simp add: word_le_nat_alt word_size)
qed

lemma lt_w_mask [const_time]: "constant_time_lt_w a b = (if a < b then - 1 else 0)"
proof -
  have less: "unat a < 2 ^ 64" "unat b < 2 ^ 64" using unsigned_less [of a] unsigned_less [of b] by simp_all
  have "bit (a XOR ((a XOR b) OR ((a - b) XOR a))) 63 \<longleftrightarrow> (if bit a 63 = bit b 63 then bit (a - b) 63 else bit b 63)"
    by (auto simp: bit_xor_iff bit_or_iff)
  also have "\<dots> \<longleftrightarrow> unat a < unat b"
    unfolding bit_top unat_sub word_le_nat_alt using less by auto
  finally show ?thesis by (simp add: constant_time_lt_w_def msb_mask word_less_nat_alt)
qed

lemma is_zero_w_mask [const_time]: "constant_time_is_zero_w a = (if a = 0 then - 1 else 0)"
proof -
  have less: "unat a < 2 ^ 64" using unsigned_less [of a] by simp
  have "bit (NOT a AND (a - 1)) 63 \<longleftrightarrow> \<not> bit a 63 \<and> bit (a - 1) 63" by (simp add: bit_and_iff bit_not_iff)
  also have "\<dots> \<longleftrightarrow> a = 0"
    unfolding bit_top unat_sub word_le_nat_alt using less unat_eq_0 [of a] by auto
  finally show ?thesis by (simp add: constant_time_is_zero_w_def msb_mask)
qed

lemma eq_w_mask [const_time]: "constant_time_eq_w a b = (if a = b then - 1 else 0)"
proof -
  have "a XOR b = 0 \<longleftrightarrow> a = b" by (metis xor_self_eq bit.xor_left_self xor.right_neutral)
  then show ?thesis by (simp add: constant_time_eq_w_def is_zero_w_mask)
qed

lemma ge_w_mask [const_time]: "constant_time_ge_w a b = (if a \<ge> b then - 1 else 0)"
  by (auto simp: constant_time_ge_w_def lt_w_mask not_less leD)

lemma ucast_mask: "(ucast (if P then - 1 else 0 :: crypto_word_t) :: 8 word) = (if P then 0xff else 0)"
proof -
  have "(ucast (- 1 :: crypto_word_t) :: 8 word) = 0xff" by code_simp
  then show ?thesis by simp
qed

lemma mask_8 [const_time]:
  "constant_time_lt_8 a b = (if a < b then 0xff else 0)" "constant_time_ge_8 a b = (if a \<ge> b then 0xff else 0)"
  "constant_time_is_zero_8 a = (if a = 0 then 0xff else 0)" "constant_time_eq_8 a b = (if a = b then 0xff else 0)"
  by (simp_all only: constant_time_lt_8_def constant_time_ge_8_def constant_time_is_zero_8_def constant_time_eq_8_def
    lt_w_mask ge_w_mask is_zero_w_mask eq_w_mask ucast_mask)

lemma ucast_scast: "(ucast (scast a :: 64 word) :: 32 word) = a"
  by (rule bit_word_eqI) (simp add: bit_ucast_iff bit_signed_iff)

lemma scast_eq: "(scast a :: 64 word) = scast b \<longleftrightarrow> a = b" for a b :: "32 word"
proof
  assume "(scast a :: 64 word) = scast b"
  then have "(ucast (scast a :: 64 word) :: 32 word) = ucast (scast b :: 64 word)" by simp
  then show "a = b" by (simp add: ucast_scast)
qed simp

lemma eq_int_mask [const_time]:
  "constant_time_eq_int a b = (if a = b then - 1 else 0)" "constant_time_eq_int_8 a b = (if a = b then 0xff else 0)"
  by (simp_all only: constant_time_eq_int_def constant_time_eq_int_8_def eq_w_mask mask_8 scast_eq)

lemma select_w_mask [const_time]: "constant_time_select_w (if P then - 1 else 0) a b = (if P then a else b)"
  by (simp add: constant_time_select_w_def)

lemma select_8_bits: "constant_time_select_8 m a b = (m AND a) OR (NOT m AND b)"
  by (rule bit_word_eqI)
    (auto simp: constant_time_select_8_def constant_time_select_w_def bit_ucast_iff bit_or_iff bit_and_iff bit_not_iff)

lemma select_8_mask [const_time]: "constant_time_select_8 (if P then 0xff else 0) a b = (if P then a else b)"
proof -
  have "(0xff :: 8 word) = - 1" by code_simp
  then have "constant_time_select_8 0xff a b = a" by (simp only: select_8_bits) simp
  then show ?thesis by (simp add: select_8_bits)
qed

lemma select_int_mask [const_time]: "constant_time_select_int (if P then - 1 else 0) a b = (if P then a else b)"
  by (simp add: constant_time_select_int_def constant_time_select_w_def ucast_scast)

text \<open>C34. The constant-time primitives compute what the branches they replace would: the masks are all ones
  exactly when the comparison of the unsigned words holds and zero otherwise, in the wide forms and, for
  \<open>lt\<close>, \<open>eq\<close> and selection, in the 8-bit forms, and a selection by such a mask takes its first or its second value.\<close>

theorem constant_time_exact:
  "constant_time_lt_w a b = (if a < b then - 1 else 0) \<and> constant_time_ge_w a b = (if a \<ge> b then - 1 else 0) \<and>
   constant_time_eq_w a b = (if a = b then - 1 else 0) \<and> constant_time_is_zero_w a = (if a = 0 then - 1 else 0) \<and>
   constant_time_lt_8 a b = (if a < b then 0xff else 0) \<and> constant_time_eq_8 a b = (if a = b then 0xff else 0) \<and>
   constant_time_eq_int i j = (if i = j then - 1 else 0) \<and>
   constant_time_select_w (constant_time_lt_w a b) x y = (if a < b then x else y) \<and>
   constant_time_select_8 (constant_time_lt_8 a b) p q = (if a < b then p else q) \<and>
   constant_time_select_int (constant_time_eq_int i j) u v = (if i = j then u else v)"
  by (simp only: const_time)

end
