(* ===== verification/Base64.thy ===== *)
theory Base64
  imports Const_Time
begin

unbundle bit_operations_syntax

text \<open>
  Base64 (\<open>crypto/base64/base64.c\<close>): the encoder and the decoder of blocks, and the streaming ones that PEM
  uses, which wrap lines after 48 bytes of input and skip white space.

  A function that writes to \<open>out\<close> returns the bytes that it stores there from the start of the buffer on; the value
  of \<open>*out_len\<close> is returned beside them.  An assertion that fails is \<open>None\<close>.
\<close>

section \<open>Characters\<close>

definition constant_time_lt_args_8 :: "byte \<Rightarrow> byte \<Rightarrow> byte" where
  "constant_time_lt_args_8 a b = ucast (constant_time_msb_w (ucast a - ucast b))"

definition constant_time_in_range_8 :: "byte \<Rightarrow> byte \<Rightarrow> byte \<Rightarrow> byte" where
  "constant_time_in_range_8 a mn mx = constant_time_lt_args_8 (a - mn) (mx - mn + 1)"

text \<open>A character constant of the source.\<close>

definition chr :: "char \<Rightarrow> byte" where
  "chr c = of_char c"

definition conv_bin2ascii :: "byte \<Rightarrow> byte" where
  "conv_bin2ascii a0 =
     (let a = a0 AND 0x3f;
          ret = constant_time_select_8 (constant_time_eq_8 (ucast a) 62) (chr CHR ''+'') (chr CHR ''/'');
          ret = constant_time_select_8 (constant_time_lt_args_8 a 62) (a - 52 + chr CHR ''0'') ret;
          ret = constant_time_select_8 (constant_time_lt_args_8 a 52) (a - 26 + chr CHR ''a'') ret
      in constant_time_select_8 (constant_time_lt_args_8 a 26) (a + chr CHR ''A'') ret)"

definition base64_ascii_to_bin :: "byte \<Rightarrow> byte" where
  "base64_ascii_to_bin a =
     (let is_upper = constant_time_in_range_8 a (chr CHR ''A'') (chr CHR ''Z'');
          is_lower = constant_time_in_range_8 a (chr CHR ''a'') (chr CHR ''z'');
          is_digit = constant_time_in_range_8 a (chr CHR ''0'') (chr CHR ''9'');
          is_plus = constant_time_eq_8 (ucast a) (ucast (chr CHR ''+''));
          is_slash = constant_time_eq_8 (ucast a) (ucast (chr CHR ''/''));
          is_equals = constant_time_eq_8 (ucast a) (ucast (chr CHR ''=''));
          ret = 0;
          ret = ret OR (is_upper AND (a - chr CHR ''A''));
          ret = ret OR (is_lower AND (a - chr CHR ''a'' + 26));
          ret = ret OR (is_digit AND (a - chr CHR ''0'' + 52));
          ret = ret OR (is_plus AND 62);
          ret = ret OR (is_slash AND 63);
          is_valid = is_upper OR is_lower OR is_digit OR is_plus OR is_slash OR is_equals
      in ret OR NOT is_valid)"

section \<open>Blocks\<close>

definition EVP_EncodedLength :: "nat \<Rightarrow> nat option" where
  "EVP_EncodedLength n =
     (if (n + 2) mod 2 ^ 64 < n then None
      else
        let m = (n + 2) mod 2 ^ 64 div 3 in
        if (m * 4 mod 2 ^ 64) div 4 \<noteq> m then None
        else
          let k = m * 4 mod 2 ^ 64 in
          if (k + 1) mod 2 ^ 64 < k then None else Some ((k + 1) mod 2 ^ 64))"

text \<open>The loop of \<open>EVP_EncodeBlock\<close>: the characters it stores and the value of \<open>ret\<close>.\<close>

fun encode_quads :: "byte list \<Rightarrow> byte list \<times> nat" where
  "encode_quads [] = ([], 0)"
| "encode_quads [x] =
     (let l = push_bit 16 (ucast x) :: 32 word
      in ([conv_bin2ascii (ucast (drop_bit 18 l)), conv_bin2ascii (ucast (drop_bit 12 l)), chr CHR ''='', chr CHR ''=''], 4))"
| "encode_quads [x, y] =
     (let l = push_bit 16 (ucast x) OR push_bit 8 (ucast y) :: 32 word
      in ([conv_bin2ascii (ucast (drop_bit 18 l)), conv_bin2ascii (ucast (drop_bit 12 l)),
           conv_bin2ascii (ucast (drop_bit 6 l)), chr CHR ''=''], 4))"
| "encode_quads (x # y # z # src) =
     (let l = push_bit 16 (ucast x) OR push_bit 8 (ucast y) OR ucast z :: 32 word;
          (dst, ret) = encode_quads src
      in ([conv_bin2ascii (ucast (drop_bit 18 l)), conv_bin2ascii (ucast (drop_bit 12 l)),
           conv_bin2ascii (ucast (drop_bit 6 l)), conv_bin2ascii (ucast l)] @ dst, (ret + 4) mod 2 ^ 64))"

definition EVP_EncodeBlock :: "byte list \<Rightarrow> byte list \<times> nat" where
  "EVP_EncodeBlock src = (let (dst, ret) = encode_quads src in (dst @ [0], ret))"

definition EVP_DecodedLength :: "nat \<Rightarrow> nat option" where
  "EVP_DecodedLength n = (if n mod 4 \<noteq> 0 then None else Some (n div 4 * 3))"

text \<open>\<open>None\<close> is the error; the length of the list is \<open>*out_num_bytes\<close>.\<close>

definition base64_decode_quad :: "byte \<Rightarrow> byte \<Rightarrow> byte \<Rightarrow> byte \<Rightarrow> byte list option" where
  "base64_decode_quad in0 in1 in2 in3 =
     (let a = base64_ascii_to_bin in0;
          b = base64_ascii_to_bin in1;
          c = base64_ascii_to_bin in2;
          d = base64_ascii_to_bin in3
      in if a = 0xff \<or> b = 0xff \<or> c = 0xff \<or> d = 0xff then None
         else
           let v = push_bit 18 (ucast a) OR push_bit 12 (ucast b) OR push_bit 6 (ucast c) OR ucast d :: 32 word;
               padding_pattern = of_bool (in0 = chr CHR ''='') * 8 + of_bool (in1 = chr CHR ''='') * 4 +
                 of_bool (in2 = chr CHR ''='') * 2 + of_bool (in3 = chr CHR ''='') :: nat
           in if padding_pattern = 0 then Some [ucast (drop_bit 16 v), ucast (drop_bit 8 v), ucast v]
              else if padding_pattern = 1 then Some [ucast (drop_bit 16 v), ucast (drop_bit 8 v)]
              else if padding_pattern = 3 then Some [ucast (drop_bit 16 v)]
              else None)"

fun decode_quads :: "byte list \<Rightarrow> byte list option" where
  "decode_quads (w # x # y # z # rest) =
     (case base64_decode_quad w x y z of
        None \<Rightarrow> None
      | Some bs \<Rightarrow>
          if length bs \<noteq> 3 \<and> rest \<noteq> [] then None
          else (case decode_quads rest of None \<Rightarrow> None | Some r \<Rightarrow> Some (bs @ r)))"
| "decode_quads _ = Some []"

definition EVP_DecodeBase64 :: "nat \<Rightarrow> byte list \<Rightarrow> byte list option" where
  "EVP_DecodeBase64 max_out inp =
     (if length inp mod 4 \<noteq> 0 then None
      else
        case EVP_DecodedLength (length inp) of
          None \<Rightarrow> None
        | Some max_len \<Rightarrow> if max_out < max_len then None else decode_quads inp)"

text \<open>The zero bytes are those that \<open>EVP_DecodeBlock\<close> puts back; the result is \<open>None\<close> for minus one.\<close>

fun pad_zeros :: "byte list \<Rightarrow> byte list" where
  "pad_zeros dst = (if length dst mod 3 \<noteq> 0 then dst @ replicate (3 - length dst mod 3) 0 else dst)"

definition EVP_DecodeBlock :: "byte list \<Rightarrow> byte list option" where
  "EVP_DecodeBlock src0 =
     (let src1 = dropWhile (\<lambda>c. c = chr CHR '' '' \<or> c = 9) src0;
          src = rev (dropWhile (\<lambda>c. c = chr CHR '' '' \<or> c = 9 \<or> c = 13 \<or> c = 10) (rev src1))
      in case EVP_DecodedLength (length src) of
           None \<Rightarrow> None
         | Some dst_len \<Rightarrow>
             if dst_len > 2147483647 then None
             else (case EVP_DecodeBase64 dst_len src of None \<Rightarrow> None | Some dst \<Rightarrow> Some (pad_zeros dst)))"

section \<open>Streams\<close>

record evp_encode_ctx =
  data_used :: nat
  ctx_data :: "byte list"
  eof_seen :: bool
  error_encountered :: bool

definition EVP_EncodeInit :: evp_encode_ctx where
  "EVP_EncodeInit = \<lparr>data_used = 0, ctx_data = replicate 48 0, eof_seen = False, error_encountered = False\<rparr>"

definition EVP_ENCODE_CTX_new :: "bool \<Rightarrow> evp_encode_ctx option" where
  "EVP_ENCODE_CTX_new mem_ok =
     (if mem_ok then Some \<lparr>data_used = 0, ctx_data = replicate 48 0, eof_seen = False, error_encountered = False\<rparr> else None)"

definition store :: "byte list \<Rightarrow> nat \<Rightarrow> byte list \<Rightarrow> byte list" where
  "store buf i bs = take i buf @ bs @ drop (i + length bs) buf"

text \<open>The loop over whole lines: the lines, each with its line feed, the rest of the input and the total;
  \<open>None\<close> for a total that overflows.\<close>

function encode_lines :: "byte list \<Rightarrow> nat \<Rightarrow> byte list \<times> (byte list \<times> nat) option" where
  "encode_lines inp tot =
     (if length inp \<ge> 48 then
        let (blk, encoded) = EVP_EncodeBlock (take 48 inp);
            line = take encoded blk @ [10]
        in if (tot + encoded + 1) mod 2 ^ 64 < tot then (line, None)
           else
             let (lines, r) = encode_lines (drop 48 inp) ((tot + encoded + 1) mod 2 ^ 64)
             in (line @ lines, r)
      else ([], Some (inp, tot)))"
  by pat_completeness auto

termination
  by (relation "measure (\<lambda>(inp, _). length inp)") auto

declare encode_lines.simps [simp del]

definition EVP_EncodeUpdate :: "evp_encode_ctx \<Rightarrow> byte list \<Rightarrow> (byte list \<times> nat \<times> evp_encode_ctx) option" where
  "EVP_EncodeUpdate ctx inp =
     (if inp = [] then Some ([], 0, ctx)
      else if \<not> data_used ctx < 48 then None
      else if 48 - data_used ctx > length inp then
        Some ([], 0, ctx\<lparr>ctx_data := store (ctx_data ctx) (data_used ctx) inp, data_used := data_used ctx + length inp\<rparr>)
      else
        let todo = 48 - data_used ctx;
            (first, ctx1, inp1, tot) =
              (if data_used ctx \<noteq> 0 then
                 let buf = store (ctx_data ctx) (data_used ctx) (take todo inp);
                     (blk, encoded) = EVP_EncodeBlock buf
                 in (take encoded blk @ [10], ctx\<lparr>ctx_data := buf, data_used := 0\<rparr>, drop todo inp, encoded + 1)
               else ([], ctx, inp, 0));
            (lines, r) = encode_lines inp1 tot
        in case r of
             None \<Rightarrow> Some (first @ lines @ [0], 0, ctx1)
           | Some (rest, tot) \<Rightarrow>
               let ctx2 = (if rest \<noteq> [] then ctx1\<lparr>ctx_data := store (ctx_data ctx1) 0 rest\<rparr> else ctx1);
                   tot = (if tot > 2147483647 then 0 else tot)
               in Some (first @ lines @ [0], tot, ctx2\<lparr>data_used := length rest\<rparr>))"

definition EVP_EncodeFinal :: "evp_encode_ctx \<Rightarrow> byte list \<times> nat \<times> evp_encode_ctx" where
  "EVP_EncodeFinal ctx =
     (if data_used ctx = 0 then ([], 0, ctx)
      else
        let (blk, encoded) = EVP_EncodeBlock (take (data_used ctx) (ctx_data ctx))
        in (take encoded blk @ [10, 0], encoded + 1, ctx\<lparr>data_used := 0\<rparr>))"

definition EVP_DecodeInit :: evp_encode_ctx where
  "EVP_DecodeInit = \<lparr>data_used = 0, ctx_data = replicate 48 0, eof_seen = False, error_encountered = False\<rparr>"

text \<open>The loop of \<open>EVP_DecodeUpdate\<close>: whether it reached the end of the input, the bytes stored, the context.\<close>

fun decode_loop :: "evp_encode_ctx \<Rightarrow> byte list \<Rightarrow> bool \<times> byte list \<times> evp_encode_ctx" where
  "decode_loop ctx [] = (True, [], ctx)"
| "decode_loop ctx (c # inp) =
     (if c = chr CHR '' '' \<or> c = 9 \<or> c = 13 \<or> c = 10 then decode_loop ctx inp
      else if eof_seen ctx then (False, [], ctx\<lparr>error_encountered := True\<rparr>)
      else
        let buf = store (ctx_data ctx) (data_used ctx) [c];
            ctx1 = ctx\<lparr>ctx_data := buf, data_used := data_used ctx + 1\<rparr>
        in if data_used ctx1 = 4 then
             (case base64_decode_quad (buf ! 0) (buf ! 1) (buf ! 2) (buf ! 3) of
                None \<Rightarrow> (False, [], ctx1\<lparr>error_encountered := True\<rparr>)
              | Some bs \<Rightarrow>
                  let ctx2 = ctx1\<lparr>data_used := 0\<rparr>;
                      ctx3 = (if length bs < 3 then ctx2\<lparr>eof_seen := True\<rparr> else ctx2);
                      (ok, out, ctx4) = decode_loop ctx3 inp
                  in (ok, bs @ out, ctx4))
           else decode_loop ctx1 inp)"

definition EVP_DecodeUpdate :: "evp_encode_ctx \<Rightarrow> byte list \<Rightarrow> int \<times> byte list \<times> nat \<times> evp_encode_ctx" where
  "EVP_DecodeUpdate ctx inp =
     (if error_encountered ctx then (- 1, [], 0, ctx)
      else
        let (ok, out, ctx1) = decode_loop ctx inp
        in if \<not> ok then (- 1, out, 0, ctx1)
           else if length out > 2147483647 then (- 1, out, 0, ctx1\<lparr>error_encountered := True\<rparr>)
           else (if eof_seen ctx1 then 0 else 1, out, length out, ctx1))"

definition EVP_DecodeFinal :: "evp_encode_ctx \<Rightarrow> int" where
  "EVP_DecodeFinal ctx = (if error_encountered ctx \<or> data_used ctx \<noteq> 0 then - 1 else 1)"

end
