(* ===== verification/Base64_Quad.thy ===== *)
theory Base64_Quad
  imports Base64
begin

unbundle bit_operations_syntax

text \<open>
  Characters and groups of four: the constant-time conversions are the table of RFC 4648, and decoding a
  group undoes encoding it.
\<close>

section \<open>The table\<close>

lemma unat_ucast_64: "unat (ucast a :: 64 word) = unat a" for a :: byte
proof -
  have "unat a < 2 ^ LENGTH(64)" by (rule less_le_trans [OF unat_byte_less]) simp
  then show ?thesis by (simp only: unsigned_ucast_eq take_bit_nat_eq_self)
qed

text \<open>The two comparisons, on numbers.\<close>

lemma wrapped_less: "a < 256 \<Longrightarrow> b < 256 \<Longrightarrow> 2 ^ 63 \<le> (if b \<le> a then a - b else a + 2 ^ 64 - b) \<longleftrightarrow> a < (b :: nat)"
  by auto

lemma wrapped_range:
  "m \<le> n \<Longrightarrow> n < 256 \<Longrightarrow> (if m \<le> a then a - m else a + 256 - m) < n - m + 1 \<longleftrightarrow> m \<le> a \<and> a \<le> (n :: nat)"
  by auto

lemma lt_args_8_mask [const_time]: "constant_time_lt_args_8 a b = (if a < b then 0xff else 0)"
proof -
  have "bit (ucast a - ucast b :: 64 word) 63 \<longleftrightarrow> a < b"
    unfolding bit_top unat_sub word_le_nat_alt word_less_nat_alt unat_ucast_64
    by (rule wrapped_less [OF unat_byte_less unat_byte_less])
  then show ?thesis by (simp only: constant_time_lt_args_8_def msb_mask ucast_mask)
qed

lemma in_range_8_mask:
  assumes "unat mn \<le> unat mx" "unat mx < unat mn + 255"
  shows "constant_time_in_range_8 a mn mx = (if mn \<le> a \<and> a \<le> mx then 0xff else 0)"
proof -
  have sub: "unat (x - y) = (if unat y \<le> unat x then unat x - unat y else unat x + 256 - unat y)" for x y :: byte
    using unat_sub_if_size [of x y] by (simp add: word_size)
  have top: "unat (mx - mn + 1) = unat mx - unat mn + 1"
    using assms sub [of mx mn] by (simp add: unat_word_ariths)
  have "a - mn < mx - mn + 1 \<longleftrightarrow> mn \<le> a \<and> a \<le> mx"
    unfolding word_less_nat_alt word_le_nat_alt top sub [of a mn] by (rule wrapped_range [OF assms(1) unat_byte_less])
  then show ?thesis by (simp add: constant_time_in_range_8_def lt_args_8_mask)
qed

text \<open>The alphabet, and the value of a character as a comparison of ranges.\<close>

definition alphabet :: string where
  "alphabet = ''ABCDEFGHIJKLMNOPQRSTUVWXYZabcdefghijklmnopqrstuvwxyz0123456789+/''"

definition ascii_value :: "byte \<Rightarrow> byte" where
  "ascii_value a =
     (if 65 \<le> a \<and> a \<le> 90 then a - 65
      else if 97 \<le> a \<and> a \<le> 122 then a - 97 + 26
      else if 48 \<le> a \<and> a \<le> 57 then a - 48 + 52
      else if a = 43 then 62 else if a = 47 then 63 else if a = 61 then 0 else 0xff)"

lemma chr_values: "chr CHR ''A'' = 65" "chr CHR ''Z'' = 90" "chr CHR ''a'' = 97" "chr CHR ''z'' = 122" "chr CHR ''0'' = 48"
  "chr CHR ''9'' = 57" "chr CHR ''+'' = 43" "chr CHR ''/'' = 47" "chr CHR ''='' = 61" "chr CHR '' '' = 32"
  by (simp_all add: chr_def of_char_def)

lemma ucast_eq_byte: "(ucast a :: 64 word) = ucast b \<longleftrightarrow> a = b" for a b :: byte
  using unat_ucast_64 [of a] unat_ucast_64 [of b] by (metis word_unat_eq_iff)

lemma ascii_to_bin_value: "base64_ascii_to_bin a = ascii_value a"
proof -
  let ?m = "\<lambda>P. if P then 0xff else 0 :: byte"
  have masks: "constant_time_in_range_8 a 65 90 = ?m (65 \<le> a \<and> a \<le> 90)" "constant_time_in_range_8 a 97 122 = ?m (97 \<le> a \<and> a \<le> 122)"
    "constant_time_in_range_8 a 48 57 = ?m (48 \<le> a \<and> a \<le> 57)"
    "constant_time_eq_8 (ucast a) (ucast b) = ?m (a = b)" for b :: byte
    by (simp_all add: in_range_8_mask mask_8 ucast_eq_byte)
  have and_ff: "0xff AND x = x" for x :: byte
  proof -
    have "(0xff :: byte) = - 1" by code_simp
    then show ?thesis by (simp only: and.left_neutral)
  qed
  have not_ff: "(- 256 :: byte) = 0" by code_simp
  consider "65 \<le> a \<and> a \<le> 90" | "97 \<le> a \<and> a \<le> 122" | "48 \<le> a \<and> a \<le> 57" | "a = 43" | "a = 47" | "a = 61"
    | "\<not> (65 \<le> a \<and> a \<le> 90)" "\<not> (97 \<le> a \<and> a \<le> 122)" "\<not> (48 \<le> a \<and> a \<le> 57)" "a \<noteq> 43" "a \<noteq> 47" "a \<noteq> 61" by blast
  then show ?thesis
    unfolding base64_ascii_to_bin_def Let_def chr_values masks ascii_value_def
    by cases (auto simp: and_ff not_ff word_le_nat_alt)
qed

definition ascii_char :: "byte \<Rightarrow> byte" where
  "ascii_char b =
     (if b < 26 then b + 65 else if b < 52 then b - 26 + 97 else if b < 62 then b - 52 + 48 else if b = 62 then 43 else 47)"

lemma conv_ascii_char: "conv_bin2ascii a = ascii_char (a AND 63)"
proof -
  have "(ucast (a AND 63) :: 64 word) = 62 \<longleftrightarrow> a AND 63 = 62"
    using ucast_eq_byte [of "a AND 63" 62] by simp
  then show ?thesis
    unfolding conv_bin2ascii_def Let_def chr_values ascii_char_def by (simp only: const_time)
qed

text \<open>Facts about every byte, by evaluation.\<close>

lemma all_bytes: "list_all (\<lambda>i. P (word_of_int i)) [0..255] \<Longrightarrow> P (b :: byte)"
proof -
  assume "list_all (\<lambda>i. P (word_of_int i)) [0..255]"
  moreover have "uint b \<in> {0..255}" using uint_range_size [of b] by (simp add: word_size)
  ultimately have "P (word_of_int (uint b))" by (auto simp only: list_all_iff set_upto)
  then show ?thesis by (simp only: word_of_int_uint)
qed

lemma value_char: "ascii_value (ascii_char (b AND 63)) = b AND 63 \<and> ascii_char (b AND 63) \<noteq> 61"
  by (rule all_bytes [where P = "\<lambda>b. ascii_value (ascii_char (b AND 63)) = b AND 63 \<and> ascii_char (b AND 63) \<noteq> 61"]) code_simp

lemma char_value: "ascii_value c \<noteq> 0xff \<Longrightarrow> c \<noteq> 61 \<Longrightarrow> ascii_char (ascii_value c) = c \<and> ascii_value c < 64"
proof -
  have "ascii_value c = 0xff \<or> c = 61 \<or> ascii_char (ascii_value c) = c \<and> ascii_value c < 64"
    by (rule all_bytes [where P = "\<lambda>c. ascii_value c = 0xff \<or> c = 61 \<or> ascii_char (ascii_value c) = c \<and> ascii_value c < 64"]) code_simp
  then show "ascii_value c \<noteq> 0xff \<Longrightarrow> c \<noteq> 61 \<Longrightarrow> ascii_char (ascii_value c) = c \<and> ascii_value c < 64" by blast
qed

lemma char_alphabet: "ascii_char (b AND 63) = chr (alphabet ! nat (uint (b AND 63)))"
  by (rule all_bytes [where P = "\<lambda>b. ascii_char (b AND 63) = chr (alphabet ! nat (uint (b AND 63)))"]) code_simp

section \<open>Groups\<close>

lemma mask_63: "(63 :: byte) = mask 6"
  by code_simp

lemma six_bits: "unat (a AND 63) = unat a mod 64" for a :: byte
proof -
  have "a AND 63 = take_bit 6 a" by (simp only: take_bit_eq_mask mask_63)
  then have "unat (a AND 63) = take_bit 6 (unat a)" by (simp only: unsigned_take_bit_eq)
  then show ?thesis by (simp only: take_bit_eq_mod) simp
qed

lemma bit_63: "bit (63 :: byte) i \<longleftrightarrow> i < 6"
  unfolding mask_63 bit_mask_iff possible_bit_word by auto

text \<open>Four values of six bits, cut out of a word of 24 bits, make up the word again.\<close>

lemma bit_group:
  "bit (push_bit k (ucast (ucast (drop_bit k l) AND 63 :: byte)) :: 32 word) n \<longleftrightarrow> k \<le> n \<and> n < k + 6 \<and> bit l n" for l :: "32 word"
proof -
  have "bit l n \<Longrightarrow> n < 32" using bit_imp_le_length [of l n] by simp
  then show ?thesis
    unfolding bit_push_bit_iff bit_ucast_iff bit_and_iff bit_63 bit_drop_bit_eq comp_def possible_bit_word by auto
qed

lemma join_groups:
  fixes l :: "32 word"
  assumes "take_bit 24 l = l"
  shows "push_bit 18 (ucast (ucast (drop_bit 18 l) AND 63 :: byte)) OR push_bit 12 (ucast (ucast (drop_bit 12 l) AND 63 :: byte)) OR
    push_bit 6 (ucast (ucast (drop_bit 6 l) AND 63 :: byte)) OR ucast (ucast l AND 63 :: byte) = l" (is "?v = l")
proof (rule bit_word_eqI)
  fix n
  have top: "bit l n \<Longrightarrow> n < 24" using assms by (metis bit_take_bit_iff)
  have low: "bit (ucast (ucast l AND 63 :: byte) :: 32 word) n \<longleftrightarrow> n < 6 \<and> bit l n" using bit_group [of 0 l n] by simp
  show "bit ?v n = bit l n"
    unfolding bit_or_iff bit_group low using top by auto
qed

lemma bit_byte: "bit (x :: byte) n \<Longrightarrow> n < 8"
  using bit_imp_le_length [of x n] by simp

lemma bytes_24:
  fixes x y z :: byte
  defines "l \<equiv> push_bit 16 (ucast x) OR push_bit 8 (ucast y) OR ucast z :: 32 word"
  shows "take_bit 24 l = l" "ucast (drop_bit 16 l) = x" "ucast (drop_bit 8 l) = y" "ucast l = z"
proof -
  have l: "bit l n \<longleftrightarrow> n < 24 \<and> (if n < 8 then bit z n else if n < 16 then bit y (n - 8) else bit x (n - 16))" for n
    unfolding l_def bit_or_iff bit_push_bit_iff bit_ucast_iff
    using bit_byte [of x "n - 16"] bit_byte [of y "n - 8"] bit_byte [of z n] by auto
  show "take_bit 24 l = l" by (rule bit_word_eqI) (auto simp: bit_take_bit_iff l)
  show "ucast (drop_bit 16 l) = x" "ucast (drop_bit 8 l) = y" "ucast l = z"
    by (rule bit_word_eqI; simp add: bit_ucast_iff bit_drop_bit_eq l)+
qed

text \<open>Decoding four characters that stand for six bits each.\<close>

lemma decode_quad_value:
  assumes "take_bit 24 l = (l :: 32 word)" "w = conv_bin2ascii (ucast (drop_bit 18 l))" "x = conv_bin2ascii (ucast (drop_bit 12 l))"
    "y = conv_bin2ascii (ucast (drop_bit 6 l)) \<or> y = chr CHR ''='' \<and> (ucast (drop_bit 6 l) AND 63 :: byte) = 0"
    "z = conv_bin2ascii (ucast l) \<or> z = chr CHR ''='' \<and> (ucast l AND 63 :: byte) = 0"
  shows "base64_decode_quad w x y z =
    (if y \<noteq> chr CHR ''='' \<and> z \<noteq> chr CHR ''='' then Some [ucast (drop_bit 16 l), ucast (drop_bit 8 l), ucast l]
     else if y \<noteq> chr CHR ''='' then Some [ucast (drop_bit 16 l), ucast (drop_bit 8 l)]
     else if z = chr CHR ''='' then Some [ucast (drop_bit 16 l)] else None)"
proof -
  have conv: "base64_ascii_to_bin (conv_bin2ascii a) = a AND 63" "conv_bin2ascii a \<noteq> chr CHR ''=''" for a
    using value_char [of a] by (simp_all only: ascii_to_bin_value conv_ascii_char chr_values) simp_all
  have eq: "base64_ascii_to_bin (chr CHR ''='') = 0" by (simp add: ascii_to_bin_value chr_values ascii_value_def word_le_nat_alt)
  have ne: "a AND 63 \<noteq> (0xff :: byte)" for a
  proof
    assume "a AND 63 = 0xff"
    then have "unat (a AND 63) = unat (0xff :: byte)" by (rule arg_cong)
    then show False by (simp only: six_bits) simp
  qed
  have v: "base64_ascii_to_bin w = ucast (drop_bit 18 l) AND 63" "base64_ascii_to_bin x = ucast (drop_bit 12 l) AND 63"
    "base64_ascii_to_bin y = ucast (drop_bit 6 l) AND 63" "base64_ascii_to_bin z = ucast l AND 63"
    using assms(2-5) conv(1) eq by auto
  have wx: "w \<noteq> chr CHR ''=''" "x \<noteq> chr CHR ''=''" using assms(2, 3) conv(2) by auto
  show ?thesis
    unfolding base64_decode_quad_def v Let_def join_groups [OF assms(1)] using ne wx by (simp split: if_splits)
qed

section \<open>The table of the standard\<close>

lemma char_index: "ascii_char (b AND 63) = chr (alphabet ! (unat b mod 64))"
  using char_alphabet [of b] six_bits [of b] by (simp only: nat_uint_eq)

definition table_index :: "byte \<Rightarrow> nat option" where
  "table_index c = map_of (zip (map chr alphabet) [0..<64]) c"

lemma length_alphabet: "length alphabet = 64"
  by (simp add: alphabet_def)

lemma value_of_index: "i < 64 \<Longrightarrow> ascii_value (chr (alphabet ! i)) = word_of_nat i"
proof -
  assume i: "i < 64"
  then have u: "unat (word_of_nat i :: byte) = i" by (simp add: unat_of_nat)
  then have "word_of_nat i AND 63 = (word_of_nat i :: byte)" using six_bits [of "word_of_nat i"] i by (metis mod_less word_unat_eq_iff)
  then show ?thesis using value_char [of "word_of_nat i"] char_index [of "word_of_nat i"] u i by simp
qed

text \<open>The character conversions, which avoid tables and branches, are the table of RFC 4648: the lower six
  bits of a byte select the character of the alphabet; back, a character of the alphabet has its
  index as value, the padding character has the value zero, and every other byte is marked invalid.\<close>

theorem base64_table_exact:
  "conv_bin2ascii b = chr (alphabet ! (unat b mod 64)) \<and>
   base64_ascii_to_bin c =
     (case table_index c of Some i \<Rightarrow> word_of_nat i | None \<Rightarrow> if c = chr CHR ''='' then 0 else 0xff)"
proof
  show "conv_bin2ascii b = chr (alphabet ! (unat b mod 64))" by (simp only: conv_ascii_char char_index)
  show "base64_ascii_to_bin c = (case table_index c of Some i \<Rightarrow> word_of_nat i | None \<Rightarrow> if c = chr CHR ''='' then 0 else 0xff)"
  proof (cases "table_index c")
    case None
    then have "c \<notin> set (map chr alphabet)" by (simp add: table_index_def map_of_zip_is_None length_alphabet)
    then have out: "c \<noteq> chr (alphabet ! i)" if "i < 64" for i using that length_alphabet by (metis length_map nth_map nth_mem)
    have "ascii_value c = 0xff" if "c \<noteq> 61"
    proof (rule ccontr)
      assume "ascii_value c \<noteq> 0xff"
      then have v: "ascii_char (ascii_value c) = c" "ascii_value c < 64" using char_value that by blast+
      then have "ascii_value c AND 63 = ascii_value c"
        using six_bits [of "ascii_value c"] by (simp add: word_less_nat_alt word_unat_eq_iff)
      then have "c = chr (alphabet ! (unat (ascii_value c) mod 64))" using char_index [of "ascii_value c"] v(1) by simp
      then show False using out by simp
    qed
    moreover have "ascii_value 61 = 0" by (simp add: ascii_value_def word_le_nat_alt)
    ultimately show ?thesis using None by (simp add: ascii_to_bin_value chr_values)
  next
    case (Some i)
    then have "(c, i) \<in> set (zip (map chr alphabet) [0..<64])" by (simp add: table_index_def map_of_SomeD)
    then have "i < 64" "c = chr (alphabet ! i)" by (auto simp: set_zip length_alphabet)
    then show ?thesis using Some value_of_index by (simp add: ascii_to_bin_value)
  qed
qed

end
