(* ===== verification/Base64_Stream.thy ===== *)
theory Base64_Stream
  imports Base64_Quad
begin

unbundle bit_operations_syntax

text \<open>
  Whole texts: the block functions and the streaming functions undo each other, however the input
  and the text are cut into chunks.
\<close>

section \<open>Blocks\<close>

definition quads :: "byte list \<Rightarrow> byte list" where
  "quads bs = fst (encode_quads bs)"

text \<open>The four characters for the 24 bits of \<open>l\<close>, the last one or two of them replaced by padding.\<close>

definition group :: "byte \<Rightarrow> byte \<Rightarrow> byte \<Rightarrow> byte list" where
  "group x y z =
     (let l = push_bit 16 (ucast x) OR push_bit 8 (ucast y) OR ucast z :: 32 word
      in [conv_bin2ascii (ucast (drop_bit 18 l)), conv_bin2ascii (ucast (drop_bit 12 l)), conv_bin2ascii (ucast (drop_bit 6 l)),
          conv_bin2ascii (ucast l)])"

abbreviation (input) padding :: byte where "padding \<equiv> chr CHR ''=''"

lemma quads_simps:
  "quads [] = []"
  "quads [x] = take 2 (group x 0 0) @ [padding, padding]"
  "quads [x, y] = take 3 (group x y 0) @ [padding]"
  "quads (x # y # z # bs) = group x y z @ quads bs"
  by (simp_all add: quads_def group_def Let_def split_beta)

lemma length_group [simp]: "length (group x y z) = 4"
  by (simp add: group_def Let_def)

lemma length_quads: "length (quads bs) = 4 * ((length bs + 2) div 3)"
proof (induction bs rule: encode_quads.induct)
  case (4 x y z src)
  have "(length (x # y # z # src) + 2) div 3 = (length src + 2) div 3 + 1" by simp
  then show ?case using 4 by (simp add: quads_simps)
qed (simp_all add: quads_simps)

lemma encode_quads_eq: "encode_quads bs = (quads bs, length (quads bs) mod 2 ^ 64)"
proof -
  have "snd (encode_quads bs) = length (quads bs) mod 2 ^ 64"
  proof (induction bs rule: encode_quads.induct)
    case (4 x y z src)
    then show ?case by (simp add: quads_simps Let_def split_beta mod_simps add.commute)
  qed (simp_all add: quads_simps Let_def)
  then show ?thesis by (simp add: quads_def prod_eq_iff)
qed

lemma quads_append: "length xs mod 3 = 0 \<Longrightarrow> quads (xs @ ys) = quads xs @ quads ys"
proof (induction xs rule: encode_quads.induct)
  case (4 x y z src)
  have "length (x # y # z # src) = length src + 3" by simp
  then have "length src mod 3 = 0" using 4(2) by (metis mod_add_self2)
  then show ?case using 4(1) by (simp add: quads_simps)
qed (simp_all add: quads_simps)

section \<open>The encoding of the standard\<close>

text \<open>
  RFC 4648, in numbers: three bytes are read as a number below \<open>2\<^sup>2\<^sup>4\<close>, whose four digits to the base 64
  are indices into the alphabet; the digits that no bit of the input reaches are padding.
\<close>

definition sextet :: "nat \<Rightarrow> nat \<Rightarrow> byte" where
  "sextet n i = chr (alphabet ! (n div 64 ^ i mod 64))"

fun rfc4648 :: "byte list \<Rightarrow> byte list" where
  "rfc4648 [] = []"
| "rfc4648 [x] = map (sextet (unat x * 65536)) [3, 2] @ [chr CHR ''='', chr CHR ''='']"
| "rfc4648 [x, y] = map (sextet (unat x * 65536 + unat y * 256)) [3, 2, 1] @ [chr CHR ''='']"
| "rfc4648 (x # y # z # bs) = map (sextet (unat x * 65536 + unat y * 256 + unat z)) [3, 2, 1, 0] @ rfc4648 bs"

lemma unat_byte_of: "unat (ucast w :: byte) = unat w mod 256" for w :: "32 word"
  by (simp add: unsigned_ucast_eq take_bit_eq_mod)

lemma unat_shift: "unat (drop_bit n w) = unat w div 2 ^ n" for w :: "32 word"
  unfolding unat_drop_bit_eq by (simp only: drop_bit_eq_div)

lemma three_bytes: "n < 2 ^ 24 \<Longrightarrow> n = (n div 65536 mod 256) * 65536 + (n div 256 mod 256) * 256 + n mod (256 :: nat)"
proof -
  assume "n < 2 ^ 24"
  then have "n div 65536 mod 256 = n div 256 div 256" by (simp add: div_mult2_eq [symmetric])
  then show ?thesis using mult_div_mod_eq [of 256 n] mult_div_mod_eq [of 256 "n div 256"] by linarith
qed

lemma unat_24:
  fixes x y z :: byte
  defines "l \<equiv> push_bit 16 (ucast x) OR push_bit 8 (ucast y) OR ucast z :: 32 word"
  shows "unat l = unat x * 65536 + unat y * 256 + unat z"
proof -
  note b = bytes_24 [of x y z, folded l_def]
  have "unat l = unat (take_bit 24 l)" using b(1) by simp
  then have "unat l < 2 ^ 24" by (metis take_bit_nat_less_exp unsigned_take_bit_eq)
  moreover have "unat x = unat l div 65536 mod 256" "unat y = unat l div 256 mod 256" "unat z = unat l mod 256"
    using arg_cong [OF b(2), of unat] arg_cong [OF b(3), of unat] arg_cong [OF b(4), of unat]
    unfolding unat_byte_of unat_shift by simp_all
  ultimately show ?thesis using three_bytes by presburger
qed

lemma conv_sextet: "conv_bin2ascii (ucast (drop_bit (6 * i) l)) = sextet (unat l) i" for l :: "32 word"
proof -
  have "unat (ucast (drop_bit (6 * i) l) :: byte) mod 64 = unat l div 64 ^ i mod 64"
    unfolding unat_byte_of unat_shift by (simp add: power_mult mod_mod_cancel)
  then show ?thesis by (simp only: conv_ascii_char char_index sextet_def)
qed

lemma group_sextets: "group x y z = map (sextet (unat x * 65536 + unat y * 256 + unat z)) [3, 2, 1, 0]"
  using conv_sextet [of 3] conv_sextet [of 2] conv_sextet [of 1] conv_sextet [of 0]
  by (simp add: group_def Let_def unat_24 del: drop_bit_or)

lemma quads_rfc4648: "quads bs = rfc4648 bs"
  by (induction bs rule: encode_quads.induct) (simp_all add: quads_simps group_sextets)

section \<open>A group of characters, decoded\<close>

lemma conv_not_eq: "conv_bin2ascii a \<noteq> padding"
  using value_char [of a] by (simp only: conv_ascii_char chr_values) simp

lemma zero_low: "(ucast (push_bit 16 (ucast x) OR push_bit 8 (ucast y) OR ucast (0 :: byte) :: 32 word) AND 63 :: byte) = 0"
  for x y :: byte
  using bytes_24(4) [of x y 0] by simp

lemma zero_mid:
  "(ucast (drop_bit 6 (push_bit 16 (ucast x) OR push_bit 8 (ucast (0 :: byte)) OR ucast (0 :: byte) :: 32 word)) AND 63 :: byte) = 0"
  for x :: byte
proof (rule bit_word_eqI)
  fix n
  show "bit (ucast (drop_bit 6 (push_bit 16 (ucast x) OR push_bit 8 (ucast (0 :: byte)) OR ucast (0 :: byte) :: 32 word)) AND 63 :: byte) n
    = bit (0 :: byte) n"
    unfolding bit_and_iff bit_63 bit_ucast_iff bit_drop_bit_eq comp_def bit_or_iff bit_push_bit_iff by auto
qed

lemma group_decodes:
  obtains a b c d where "group x y z = [a, b, c, d]" "base64_decode_quad a b c d = Some [x, y, z]"
    "z = 0 \<Longrightarrow> base64_decode_quad a b c padding = Some [x, y]"
    "y = 0 \<Longrightarrow> z = 0 \<Longrightarrow> base64_decode_quad a b padding padding = Some [x]"
proof -
  define l :: "32 word" where "l = push_bit 16 (ucast x) OR push_bit 8 (ucast y) OR ucast z"
  let ?a = "conv_bin2ascii (ucast (drop_bit 18 l))" and ?b = "conv_bin2ascii (ucast (drop_bit 12 l))"
    and ?c = "conv_bin2ascii (ucast (drop_bit 6 l))" and ?d = "conv_bin2ascii (ucast l)"
  note l = bytes_24 [of x y z, folded l_def]
  note dec = decode_quad_value [OF l(1) refl refl]
  show thesis
  proof (rule that)
    show "group x y z = [?a, ?b, ?c, ?d]" by (simp only: group_def Let_def l_def)
    show "base64_decode_quad ?a ?b ?c ?d = Some [x, y, z]" using dec [of ?c ?d] l conv_not_eq by simp
    show "base64_decode_quad ?a ?b ?c padding = Some [x, y]" if "z = 0"
    proof -
      have "(ucast l AND 63 :: byte) = 0" unfolding l_def that by (rule zero_low)
      then show ?thesis using dec [of ?c padding] l conv_not_eq by simp
    qed
    show "base64_decode_quad ?a ?b padding padding = Some [x]" if "y = 0" "z = 0"
    proof -
      have "(ucast l AND 63 :: byte) = 0" unfolding l_def that by (rule zero_low)
      moreover have "(ucast (drop_bit 6 l) AND 63 :: byte) = 0" unfolding l_def that by (rule zero_mid)
      ultimately show ?thesis using dec [of padding padding] l by simp
    qed
  qed
qed

lemma decode_quads_quads: "decode_quads (quads bs) = Some bs"
proof (induction bs rule: encode_quads.induct)
  case 1
  then show ?case by (simp add: quads_simps)
next
  case (2 x)
  obtain a b c d where "group x 0 0 = [a, b, c, d]" "base64_decode_quad a b padding padding = Some [x]"
    using group_decodes [of x 0 0] by metis
  then show ?case by (simp add: quads_simps)
next
  case (3 x y)
  obtain a b c d where "group x y 0 = [a, b, c, d]" "base64_decode_quad a b c padding = Some [x, y]"
    using group_decodes [of x y 0] by metis
  then show ?case by (simp add: quads_simps)
next
  case (4 x y z src)
  obtain a b c d where "group x y z = [a, b, c, d]" "base64_decode_quad a b c d = Some [x, y, z]"
    using group_decodes [of x y z] by metis
  then show ?case using 4 by (simp add: quads_simps)
qed

lemma encoded_length: "n < 2 ^ 62 \<Longrightarrow> EVP_EncodedLength n = Some (4 * ((n + 2) div 3) + 1)"
proof -
  assume n: "n < 2 ^ 62"
  let ?m = "(n + 2) div 3"
  have m: "4 * ?m + 1 < 2 ^ 64" using n by (simp add: div_le_mono)
  have "(n + 2) mod 2 ^ 64 = n + 2" "?m * 4 mod 2 ^ 64 = ?m * 4" "(?m * 4 + 1) mod 2 ^ 64 = ?m * 4 + 1"
    using n m by simp_all
  then show ?thesis by (simp add: EVP_EncodedLength_def Let_def)
qed

text \<open>Base64 blocks make the round trip.  For every input, \<open>EVP_EncodeBlock\<close> writes exactly as many bytes, the
  final NUL included, as \<open>EVP_EncodedLength\<close> says, and \<open>EVP_DecodeBase64\<close>, with a buffer of the size that
  \<open>EVP_DecodedLength\<close> asks for, gives the input back, whatever its length modulo three.\<close>

theorem base64_block_round_trip:
  assumes "length src < 2 ^ 62"
  shows "case EVP_EncodeBlock src of (dst, ret) \<Rightarrow>
    EVP_EncodedLength (length src) = Some (length dst) \<and> length dst = ret + 1 \<and> dst ! ret = 0 \<and>
    (\<exists>m. EVP_DecodedLength ret = Some m \<and> EVP_DecodeBase64 m (take ret dst) = Some src)"
proof -
  have "length (quads src) < 2 ^ 64" using assms by (simp add: length_quads)
  then have enc: "EVP_EncodeBlock src = (quads src @ [0], length (quads src))"
    by (simp add: EVP_EncodeBlock_def encode_quads_eq)
  have "length (quads src) mod 4 = 0" by (simp add: length_quads)
  then show ?thesis
    by (simp add: enc encoded_length [OF assms] EVP_DecodeBase64_def EVP_DecodedLength_def decode_quads_quads nth_append)
      (simp add: length_quads)
qed

theorem base64_block_round_trip_witness:
  "case EVP_EncodeBlock [0x66, 0x6f] of (dst, ret) \<Rightarrow> length dst = ret + 1 \<and>
    (\<exists>m. EVP_DecodedLength ret = Some m \<and> EVP_DecodeBase64 m (take ret dst) = Some [0x66, 0x6f])"
  using base64_block_round_trip [of "[0x66, 0x6f]"] by (simp add: split_beta)

section \<open>Encoding a stream\<close>

text \<open>Whole lines of a text, and the bytes that are left for the next line.\<close>

function full_lines :: "byte list \<Rightarrow> byte list" where
  "full_lines bs = (if length bs \<ge> 48 then quads (take 48 bs) @ [10] @ full_lines (drop 48 bs) else [])"
  by pat_completeness auto

termination
  by (relation "measure length") auto

declare full_lines.simps [simp del]

definition last_line :: "byte list \<Rightarrow> byte list" where
  "last_line bs = drop (48 * (length bs div 48)) bs"

lemma last_line_short: "length bs < 48 \<Longrightarrow> last_line bs = bs"
  by (simp add: last_line_def)

lemma last_line_drop: "48 \<le> length bs \<Longrightarrow> last_line bs = last_line (drop 48 bs)"
  by (simp add: last_line_def le_div_geq add.commute)

lemma length_last_line: "length (last_line bs) < 48"
proof -
  have "length (last_line bs) = length bs mod 48" by (simp add: last_line_def minus_mult_div_eq_mod)
  then show ?thesis by simp
qed

lemma length_full_lines: "length (full_lines bs) = 65 * (length bs div 48)"
proof (induction bs rule: full_lines.induct)
  case (1 bs)
  show ?case
  proof (cases "length bs \<ge> 48")
    case True
    then have "length (quads (take 48 bs)) = 64" by (simp add: length_quads)
    then show ?thesis using 1 True by (simp add: full_lines.simps [of bs] le_div_geq)
  next
    case False
    then show ?thesis by (simp add: full_lines.simps [of bs])
  qed
qed

lemma lines_append:
  "full_lines (xs @ ys) = full_lines xs @ full_lines (last_line xs @ ys) \<and> last_line (xs @ ys) = last_line (last_line xs @ ys)"
proof (induction xs rule: full_lines.induct)
  case (1 xs)
  show ?case
  proof (cases "length xs \<ge> 48")
    case True
    then show ?thesis
      using 1 by (simp add: full_lines.simps [of xs] full_lines.simps [of "xs @ ys"] last_line_drop [of xs] last_line_drop [of "xs @ ys"])
  next
    case False
    then show ?thesis by (simp add: last_line_short full_lines.simps [of xs])
  qed
qed

lemma encode_block_line:
  assumes "length bs = 48"
  shows "EVP_EncodeBlock bs = (quads bs @ [0], 64)" "length (quads bs) = 64"
proof -
  show "length (quads bs) = 64" using assms by (simp add: length_quads)
  then show "EVP_EncodeBlock bs = (quads bs @ [0], 64)" by (simp add: EVP_EncodeBlock_def encode_quads_eq)
qed

lemma encode_lines_eq:
  "tot + 65 * (length bs div 48) < 2 ^ 64 \<Longrightarrow>
   encode_lines bs tot = (full_lines bs, Some (last_line bs, tot + length (full_lines bs)))"
proof (induction bs arbitrary: tot rule: full_lines.induct)
  case (1 bs)
  show ?case
  proof (cases "length bs \<ge> 48")
    case True
    then have "tot + 65 + 65 * (length (drop 48 bs) div 48) < 2 ^ 64" using 1(2) by (simp add: le_div_geq)
    moreover from this have "(tot + 65) mod 2 ^ 64 = tot + 65" by simp
    moreover have "length (take 48 bs) = 48" using True by simp
    ultimately show ?thesis
      using 1(1) [OF True, of "65 + tot"] True
      by (simp add: add.commute [of tot 65] encode_lines.simps [of bs] full_lines.simps [of bs] last_line_drop [of bs] encode_block_line Let_def
        length_full_lines le_div_geq)
  next
    case False
    then show ?thesis by (simp add: encode_lines.simps [of bs] full_lines.simps [of bs] last_line_short)
  qed
qed

text \<open>The encoder between two calls: it holds the bytes \<open>p\<close> of an unfinished line.\<close>

definition pending :: "evp_encode_ctx \<Rightarrow> byte list \<Rightarrow> bool" where
  "pending ctx p \<longleftrightarrow> length (ctx_data ctx) = 48 \<and> length p < 48 \<and> data_used ctx = length p \<and> take (length p) (ctx_data ctx) = p"

lemma pending_init: "pending EVP_EncodeInit []"
  by (simp add: pending_def EVP_EncodeInit_def)

text \<open>The first step of an update completes the pending line.\<close>

definition first_line :: "evp_encode_ctx \<Rightarrow> byte list \<Rightarrow> byte list \<times> evp_encode_ctx \<times> byte list \<times> nat" where
  "first_line ctx inp =
     (let todo = 48 - data_used ctx in
      if data_used ctx \<noteq> 0 then
        let buf = store (ctx_data ctx) (data_used ctx) (take todo inp);
            (blk, encoded) = EVP_EncodeBlock buf
        in (take encoded blk @ [10], ctx\<lparr>ctx_data := buf, data_used := 0\<rparr>, drop todo inp, encoded + 1)
      else ([], ctx, inp, 0))"

lemma first_line_ok:
  assumes "pending ctx p" "length p + length inp \<ge> 48"
  shows "\<exists>first ctx1 inp1. first_line ctx inp = (first, ctx1, inp1, length first) \<and> full_lines (p @ inp) = first @ full_lines inp1 \<and>
    last_line (p @ inp) = last_line inp1 \<and> length (ctx_data ctx1) = 48 \<and> length inp1 \<le> length inp \<and> length first \<le> 65"
proof (cases "p = []")
  case True
  then show ?thesis using assms(1) by (simp add: first_line_def pending_def)
next
  case False
  note p = assms(1) [unfolded pending_def]
  let ?n = "48 - length p"
  have buf: "store (ctx_data ctx) (length p) (take ?n inp) = take 48 (p @ inp)" "length (take 48 (p @ inp)) = 48"
    using p assms(2) by (simp_all add: store_def)
  have drop: "drop 48 (p @ inp) = drop ?n inp" using p by simp
  have "first_line ctx inp = (quads (take 48 (p @ inp)) @ [10], ctx\<lparr>ctx_data := take 48 (p @ inp), data_used := 0\<rparr>, drop ?n inp, 65)"
  proof -
    define t where "t = take 48 (p @ inp)"
    show ?thesis
      using p False buf encode_block_line [OF buf(2)] unfolding t_def [symmetric] by (simp add: first_line_def Let_def)
  qed
  moreover have "full_lines (p @ inp) = quads (take 48 (p @ inp)) @ [10] @ full_lines (drop ?n inp)"
    using assms(2) drop by (simp add: full_lines.simps [of "p @ inp"])
  moreover have "last_line (p @ inp) = last_line (drop ?n inp)" using assms(2) drop last_line_drop [of "p @ inp"] by simp
  ultimately show ?thesis using encode_block_line(2) [OF buf(2)] buf(2) by (simp del: take_append)
qed

lemma encode_update:
  assumes "pending ctx p" "length inp < 2 ^ 30"
  shows "\<exists>out ctx'. EVP_EncodeUpdate ctx inp = Some (out, length (full_lines (p @ inp)), ctx') \<and>
    take (length (full_lines (p @ inp))) out = full_lines (p @ inp) \<and> pending ctx' (last_line (p @ inp))"
proof -
  note p = assms(1) [unfolded pending_def]
  consider "inp = []" | "inp \<noteq> []" "length inp < 48 - length p" | "inp \<noteq> []" "length p + length inp \<ge> 48" by linarith
  then show ?thesis
  proof cases
    case 1
    then show ?thesis
      using assms(1) p by (simp add: EVP_EncodeUpdate_def full_lines.simps last_line_short)
  next
    case 2
    then have "length p + length inp < 48" using p by linarith
    then show ?thesis
      using p 2 by (simp add: EVP_EncodeUpdate_def full_lines.simps last_line_short pending_def store_def)
  next
    case 3
    obtain first ctx1 inp1 where f: "first_line ctx inp = (first, ctx1, inp1, length first)"
      "full_lines (p @ inp) = first @ full_lines inp1" "last_line (p @ inp) = last_line inp1"
      "length (ctx_data ctx1) = 48" "length inp1 \<le> length inp" "length first \<le> 65"
      using first_line_ok [OF assms(1) 3(2)] by blast
    have small: "length first + 65 * (length inp1 div 48) \<le> 2147483647"
    proof -
      have "length inp1 \<le> 2 ^ 30" using f(5) assms(2) by linarith
      then have "length inp1 div 48 \<le> 2 ^ 30 div 48" by (rule div_le_mono)
      then show ?thesis using f(6) by simp
    qed
    then have lines: "encode_lines inp1 (length first) = (full_lines inp1, Some (last_line inp1, length first + length (full_lines inp1)))"
      by (intro encode_lines_eq) simp
    let ?rest = "last_line inp1"
    let ?ctx = "(if ?rest \<noteq> [] then ctx1\<lparr>ctx_data := store (ctx_data ctx1) 0 ?rest\<rparr> else ctx1)\<lparr>data_used := length ?rest\<rparr>"
    have step: "EVP_EncodeUpdate ctx inp =
      (case first_line ctx inp of (first, ctx1, inp1, tot) \<Rightarrow>
        (let (lines, r) = encode_lines inp1 tot
         in case r of
              None \<Rightarrow> Some (first @ lines @ [0], 0, ctx1)
            | Some (rest, tot) \<Rightarrow>
                let ctx2 = (if rest \<noteq> [] then ctx1\<lparr>ctx_data := store (ctx_data ctx1) 0 rest\<rparr> else ctx1);
                    tot = (if tot > 2147483647 then 0 else tot)
                in Some (first @ lines @ [0], tot, ctx2\<lparr>data_used := length rest\<rparr>)))"
    proof -
      have "\<not> 48 - data_used ctx > length inp" "data_used ctx < 48" using 3(2) p by linarith+
      then show ?thesis using 3(1) by (simp add: EVP_EncodeUpdate_def first_line_def Let_def)
    qed
    have "EVP_EncodeUpdate ctx inp = Some (first @ full_lines inp1 @ [0], length (full_lines (p @ inp)), ?ctx)"
      unfolding step f(1) using lines small by (simp add: f(2) length_full_lines)
    moreover have "pending ?ctx ?rest"
      using f(4) length_last_line [of inp1] by (simp add: pending_def store_def)
    ultimately show ?thesis by (simp add: f(2, 3))
  qed
qed

fun encode_chunks :: "evp_encode_ctx \<Rightarrow> byte list list \<Rightarrow> byte list option" where
  "encode_chunks ctx [] = (case EVP_EncodeFinal ctx of (out, n, _) \<Rightarrow> Some (take n out))"
| "encode_chunks ctx (c # cs) =
     (case EVP_EncodeUpdate ctx c of
        None \<Rightarrow> None
      | Some (out, n, ctx') \<Rightarrow> map_option ((@) (take n out)) (encode_chunks ctx' cs))"

definition pem_text :: "byte list \<Rightarrow> byte list" where
  "pem_text bs = full_lines bs @ (if last_line bs = [] then [] else quads (last_line bs) @ [10])"

lemma encode_chunks_eq:
  assumes "pending ctx p" "\<forall>c \<in> set cs. length c < 2 ^ 30"
  shows "encode_chunks ctx cs = Some (pem_text (p @ concat cs))"
  using assms
proof (induction cs arbitrary: ctx p)
  case Nil
  then have "length p < 48" by (simp add: pending_def)
  moreover from this have "length (quads p) \<le> 64" by (simp add: length_quads)
  ultimately show ?case
    using Nil(1) by (simp add: EVP_EncodeFinal_def EVP_EncodeBlock_def encode_quads_eq pem_text_def full_lines.simps [of p]
      last_line_short pending_def)
next
  case (Cons c cs)
  obtain out ctx' where u: "EVP_EncodeUpdate ctx c = Some (out, length (full_lines (p @ c)), ctx')"
    "take (length (full_lines (p @ c))) out = full_lines (p @ c)" "pending ctx' (last_line (p @ c))"
    using encode_update [OF Cons(2), of c] Cons(3) by auto
  have "encode_chunks ctx' cs = Some (pem_text (last_line (p @ c) @ concat cs))" using Cons(1) [OF u(3)] Cons(3) by simp
  then show ?case using u lines_append [of "p @ c" "concat cs"] by (simp add: pem_text_def)
qed

section \<open>Decoding a stream\<close>

definition white :: "byte \<Rightarrow> bool" where
  "white c \<longleftrightarrow> c = chr CHR '' '' \<or> c = 9 \<or> c = 13 \<or> c = 10"

lemma decode_loop_filter: "decode_loop ctx (filter (\<lambda>c. \<not> white c) inp) = decode_loop ctx inp"
proof (induction inp arbitrary: ctx)
  case (Cons c inp)
  show ?case
  proof (cases "white c")
    case True
    then show ?thesis using Cons [of ctx] by (auto simp: white_def)
  next
    case False
    then have f: "filter (\<lambda>c. \<not> white c) (c # inp) = c # filter (\<lambda>c. \<not> white c) inp" by simp
    show ?thesis unfolding f decode_loop.simps Cons ..
  qed
qed simp

lemma decode_loop_append:
  "decode_loop ctx (xs @ ys) =
    (case decode_loop ctx xs of (ok, out, ctx1) \<Rightarrow>
       if ok then (case decode_loop ctx1 ys of (ok2, out2, ctx2) \<Rightarrow> (ok2, out @ out2, ctx2)) else (False, out, ctx1))"
proof (induction ctx xs rule: decode_loop.induct)
  case (2 ctx c xs)
  then show ?case by (auto simp: Let_def split: option.split prod.split if_splits)
qed simp

lemma four_elements: "4 \<le> length xs \<Longrightarrow> \<exists>a b c d r. xs = a # b # c # d # r"
  by (auto simp: numeral_eq_Suc Suc_le_length_iff)

lemma decode_loop_ok: "decode_loop ctx inp = (ok, out, ctx') \<Longrightarrow> ok \<Longrightarrow> error_encountered ctx' = error_encountered ctx"
proof (induction ctx inp arbitrary: out rule: decode_loop.induct)
  case (2 ctx c inp)
  then show ?case by (auto simp: Let_def split: option.splits prod.splits if_splits)
qed simp

text \<open>Four characters that are not white space, from an empty buffer.\<close>

lemma decode_loop_quad:
  assumes "data_used ctx = 0" "\<not> eof_seen ctx" "length (ctx_data ctx) = 48" "\<not> white a" "\<not> white b" "\<not> white c" "\<not> white d"
    "base64_decode_quad a b c d = Some bs"
  shows "\<exists>ctx'. decode_loop ctx (a # b # c # d # inp) = (case decode_loop ctx' inp of (ok, out, ctx2) \<Rightarrow> (ok, bs @ out, ctx2)) \<and>
    data_used ctx' = 0 \<and> eof_seen ctx' = (length bs < 3) \<and> length (ctx_data ctx') = 48 \<and> error_encountered ctx' = error_encountered ctx"
proof -
  obtain x0 x1 x2 x3 r where r: "ctx_data ctx = x0 # x1 # x2 # x3 # r"
    using four_elements [of "ctx_data ctx"] assms(3) by auto
  let ?c2 = "ctx\<lparr>ctx_data := a # b # c # d # r, data_used := 0\<rparr>"
  let ?c = "if length bs < 3 then ?c2\<lparr>eof_seen := True\<rparr> else ?c2"
  have "decode_loop ctx (a # b # c # d # inp) = (case decode_loop ?c inp of (ok, out, ctx2) \<Rightarrow> (ok, bs @ out, ctx2))"
    using assms r by (simp add: white_def store_def Let_def)
  then show ?thesis using assms(2, 3) r by (intro exI [of _ ?c]) simp
qed

lemma conv_not_white: "\<not> white (conv_bin2ascii a)" and padding_not_white: "\<not> white padding"
proof -
  have "ascii_value c = 0xff" if "white c" for c
    using that by (auto simp: white_def chr_values ascii_value_def word_le_nat_alt)
  then show "\<not> white (conv_bin2ascii a)"
    using value_char [of a] six_bits [of a] by (auto simp: conv_ascii_char)
  show "\<not> white padding" by (simp add: white_def chr_values)
qed

lemma group_not_white: "\<forall>c \<in> set (group x y z). \<not> white c"
  by (simp add: group_def Let_def conv_not_white del: drop_bit_or)

lemma quads_not_white: "c \<in> set (quads bs) \<Longrightarrow> \<not> white c"
proof (induction bs rule: encode_quads.induct)
  case (2 x)
  then show ?case using group_not_white padding_not_white by (auto simp: quads_simps dest: in_set_takeD)
next
  case (3 x y)
  then show ?case using group_not_white padding_not_white by (auto simp: quads_simps dest: in_set_takeD)
next
  case (4 x y z src)
  then show ?case using group_not_white by (auto simp: quads_simps)
qed (simp add: quads_simps)

lemma decode_loop_quads:
  assumes "data_used ctx = 0" "\<not> eof_seen ctx" "length (ctx_data ctx) = 48"
  shows "\<exists>ctx'. decode_loop ctx (quads bs) = (True, bs, ctx') \<and> data_used ctx' = 0 \<and> error_encountered ctx' = error_encountered ctx"
  using assms
proof (induction bs arbitrary: ctx rule: encode_quads.induct)
  case 1
  then show ?case by (simp add: quads_simps)
next
  case (2 x)
  obtain a b c d where g: "group x 0 0 = [a, b, c, d]" "base64_decode_quad a b padding padding = Some [x]"
    using group_decodes [of x 0 0] by metis
  have w: "\<not> white a" "\<not> white b" using group_not_white [of x 0 0] g(1) by simp_all
  show ?case
    using decode_loop_quad [OF 2 w padding_not_white padding_not_white g(2), of "[]"] g(1)
    by (simp add: quads_simps del: decode_loop.simps(2)) blast
next
  case (3 x y)
  obtain a b c d where g: "group x y 0 = [a, b, c, d]" "base64_decode_quad a b c padding = Some [x, y]"
    using group_decodes [of x y 0] by metis
  have w: "\<not> white a" "\<not> white b" "\<not> white c" using group_not_white [of x y 0] g(1) by simp_all
  show ?case
    using decode_loop_quad [OF 3 w padding_not_white g(2), of "[]"] g(1)
    by (simp add: quads_simps del: decode_loop.simps(2)) blast
next
  case (4 x y z src)
  obtain a b c d where g: "group x y z = [a, b, c, d]" "base64_decode_quad a b c d = Some [x, y, z]"
    using group_decodes [of x y z] by metis
  have w: "\<not> white a" "\<not> white b" "\<not> white c" "\<not> white d" using group_not_white [of x y z] g(1) by simp_all
  obtain ctx' where s: "decode_loop ctx (a # b # c # d # quads src) =
      (case decode_loop ctx' (quads src) of (ok, out, ctx2) \<Rightarrow> (ok, [x, y, z] @ out, ctx2))"
    "data_used ctx' = 0" "\<not> eof_seen ctx'" "length (ctx_data ctx') = 48" "error_encountered ctx' = error_encountered ctx"
    using decode_loop_quad [OF 4(2-4) w g(2), of "quads src"] by (auto simp del: decode_loop.simps(2))
  then show ?case using 4(1) [OF refl s(2-4)] g(1) by (auto simp: quads_simps simp del: decode_loop.simps(2))
qed

section \<open>The round trip\<close>

lemma filter_pem_text: "filter (\<lambda>c. \<not> white c) (pem_text bs) = quads bs"
proof -
  have q: "filter (\<lambda>c. \<not> white c) (quads bs) = quads bs" for bs using quads_not_white by (simp add: filter_id_conv)
  have nl: "white 10" by (simp add: white_def)
  have "filter (\<lambda>c. \<not> white c) (full_lines bs) @ quads (last_line bs) = quads bs"
  proof (induction bs rule: full_lines.induct)
    case (1 bs)
    show ?case
    proof (cases "length bs \<ge> 48")
      case True
      then have "quads bs = quads (take 48 bs) @ quads (drop 48 bs)" using quads_append [of "take 48 bs" "drop 48 bs"] by simp
      then show ?thesis using 1 True q nl by (simp add: full_lines.simps [of bs] last_line_drop)
    next
      case False
      then show ?thesis by (simp add: full_lines.simps [of bs] last_line_short)
    qed
  qed
  then show ?thesis using q nl by (cases "last_line bs = []") (simp_all add: pem_text_def quads_simps)
qed

fun decode_chunks :: "evp_encode_ctx \<Rightarrow> byte list list \<Rightarrow> byte list option" where
  "decode_chunks ctx [] = (if EVP_DecodeFinal ctx = 1 then Some [] else None)"
| "decode_chunks ctx (c # cs) =
     (case EVP_DecodeUpdate ctx c of (r, out, n, ctx') \<Rightarrow>
        if r = - 1 then None else map_option ((@) (take n out)) (decode_chunks ctx' cs))"

text \<open>A call stores no more bytes than it is given characters, those pending in the context included.\<close>

lemma decode_quad_length: "base64_decode_quad a b c d = Some bs \<Longrightarrow> length bs \<le> 3"
  by (auto simp: base64_decode_quad_def Let_def split: if_splits)

lemma decode_loop_bound:
  "decode_loop ctx inp = (ok, out, ctx') \<Longrightarrow> ok \<Longrightarrow> data_used ctx < 4 \<Longrightarrow>
   length out + data_used ctx' \<le> data_used ctx + length inp \<and> data_used ctx' < 4"
proof (induction inp arbitrary: ctx out)
  case (Cons c inp)
  let ?buf = "store (ctx_data ctx) (data_used ctx) [c]"
  let ?ctx1 = "ctx\<lparr>ctx_data := ?buf, data_used := data_used ctx + 1\<rparr>"
  let ?full = "store (ctx_data ctx) 3 [c]"
  let ?ctx2 = "ctx\<lparr>ctx_data := ?full, data_used := 0\<rparr>"
  show ?case
  proof (cases "white c")
    case True
    then have "decode_loop ctx inp = (ok, out, ctx')" using Cons(2) by (simp only: decode_loop.simps white_def if_True)
    then show ?thesis using Cons(1) Cons(3, 4) by fastforce
  next
    case False
    then have eof: "\<not> eof_seen ctx" using Cons(2, 3) by (auto simp: white_def)
    show ?thesis
    proof (cases "data_used ctx + 1 = 4")
      case full: True
      then obtain bs out' where "base64_decode_quad (?full ! 0) (?full ! 1) (?full ! 2) (?full ! 3) = Some bs" "out = bs @ out'"
        "decode_loop (if length bs < 3 then ?ctx2\<lparr>eof_seen := True\<rparr> else ?ctx2) inp = (ok, out', ctx')"
        using Cons(2, 3) False eof by (auto simp: white_def Let_def split: option.splits prod.splits)
      moreover from this have "length out' + data_used ctx' \<le> length inp \<and> data_used ctx' < 4"
        using Cons(1) [OF _ Cons(3)] by (cases "length bs < 3") fastforce+
      moreover have "length bs \<le> 3" using calculation(1) by (rule decode_quad_length)
      ultimately show ?thesis using full by simp
    next
      case less: False
      then have "decode_loop ?ctx1 inp = (ok, out, ctx')" using Cons(2) False eof by (simp add: white_def Let_def)
      then show ?thesis using Cons(1) [of ?ctx1 out] Cons(3, 4) less by simp
    qed
  qed
qed simp

lemma decode_chunks_eq:
  assumes "decode_loop ctx (concat cs) = (True, out, ctx')" "\<not> error_encountered ctx" "\<not> error_encountered ctx'"
    "data_used ctx < 4" "data_used ctx' = 0" "\<forall>c \<in> set cs. length c < 2 ^ 30"
  shows "decode_chunks ctx cs = Some out"
  using assms
proof (induction cs arbitrary: ctx out)
  case Nil
  then show ?case by (simp add: EVP_DecodeFinal_def)
next
  case (Cons c cs)
  obtain ok o1 ctx1 where l: "decode_loop ctx c = (ok, o1, ctx1)" by (cases "decode_loop ctx c") auto
  obtain ok2 o2 ctx2 where l2: "decode_loop ctx1 (concat cs) = (ok2, o2, ctx2)" by (cases "decode_loop ctx1 (concat cs)") auto
  have r: "ok" "ok2" "out = o1 @ o2" "ctx2 = ctx'"
    using Cons(2) decode_loop_append [of ctx c "concat cs"] l l2 by (auto split: if_splits)
  have b: "length o1 \<le> 2147483647" "data_used ctx1 < 4"
    using decode_loop_bound [OF l r(1) Cons(5)] Cons(5, 7) by auto
  have "\<not> error_encountered ctx1" using decode_loop_ok [OF l] r(1) Cons(3) by simp
  then have "decode_chunks ctx1 cs = Some o2" using Cons(1) [of ctx1 o2] l2 r b(2) Cons(4, 6, 7) by simp
  then show ?case using l r b(1) Cons(3) by (simp add: EVP_DecodeUpdate_def)
qed

text \<open>The text, line by line.\<close>

lemma pem_text_step: "48 \<le> length bs \<Longrightarrow> pem_text bs = quads (take 48 bs) @ [10] @ pem_text (drop 48 bs)"
  by (simp add: pem_text_def full_lines.simps [of bs] last_line_drop [of bs])

lemma pem_text_lines:
  "\<exists>ls. pem_text bs = concat (map (\<lambda>l. l @ [10]) ls) \<and> concat ls = quads bs \<and>
    (\<forall>l \<in> set ls. 0 < length l \<and> length l \<le> 64) \<and> (\<forall>l \<in> set (butlast ls). length l = 64)"
proof (induction bs rule: full_lines.induct)
  case (1 bs)
  show ?case
  proof (cases "length bs \<ge> 48")
    case True
    then obtain ls where ls: "pem_text (drop 48 bs) = concat (map (\<lambda>l. l @ [10]) ls)" "concat ls = quads (drop 48 bs)"
      "\<forall>l \<in> set ls. 0 < length l \<and> length l \<le> 64" "\<forall>l \<in> set (butlast ls). length l = 64" using 1 by blast
    have n: "length (quads (take 48 bs)) = 64" using True by (simp add: length_quads)
    moreover have "quads (take 48 bs) \<noteq> []" using n by force
    moreover have "quads bs = quads (take 48 bs) @ quads (drop 48 bs)"
      using True quads_append [of "take 48 bs" "drop 48 bs"] by simp
    ultimately show ?thesis
      using ls pem_text_step [OF True] by (intro exI [of _ "quads (take 48 bs) # ls"]) simp
  next
    case False
    then have "length (quads bs) \<le> 64" by (simp add: length_quads)
    moreover have "0 < length (quads bs)" if "bs \<noteq> []"
    proof -
      have "3 \<le> length bs + 2" using that by (cases bs) simp_all
      then have "0 < (length bs + 2) div 3" unfolding div_greater_zero_iff by simp
      then show ?thesis unfolding length_quads by linarith
    qed
    ultimately show ?thesis
      using False by (intro exI [of _ "if bs = [] then [] else [quads bs]"])
        (simp add: pem_text_def full_lines.simps [of bs] last_line_short quads_simps)
  qed
qed

text \<open>C33. The streaming functions follow RFC 4648 and make the round trip, however the data is cut up, as long as
  each call gets less than \<open>2\<^sup>3\<^sup>0\<close> bytes (the number of calls, and so the total, is not bounded; a single call with
  more than \<open>INT_MAX\<close> bytes of output would report none of them, since \<open>EVP_EncodeUpdate\<close> has no way to
  return an error).  Bytes fed to \<open>EVP_EncodeUpdate\<close> in such chunks and finished with \<open>EVP_EncodeFinal\<close> give the base64
  encoding of RFC 4648, computed there from the bits of the input and the alphabet, broken into lines that end
  with a newline: lines of exactly 64 characters, and a last one of 1 to 64.  This text, fed to
  \<open>EVP_DecodeUpdate\<close> in any such chunks and finished with \<open>EVP_DecodeFinal\<close>, gives the bytes back, and no call
  reports an error.\<close>

theorem base64_stream_round_trip:
  assumes "\<forall>c \<in> set cs. length c < 2 ^ 30"
  shows "\<exists>s ls. encode_chunks EVP_EncodeInit cs = Some s \<and>
    s = concat (map (\<lambda>l. l @ [10]) ls) \<and> concat ls = rfc4648 (concat cs) \<and>
    (\<forall>l \<in> set ls. 0 < length l \<and> length l \<le> 64) \<and> (\<forall>l \<in> set (butlast ls). length l = 64) \<and>
    (\<forall>ts. concat ts = s \<and> (\<forall>t \<in> set ts. length t < 2 ^ 30) \<longrightarrow> decode_chunks EVP_DecodeInit ts = Some (concat cs))"
proof -
  have enc: "encode_chunks EVP_EncodeInit cs = Some (pem_text (concat cs))"
    using encode_chunks_eq [OF pending_init assms] by simp
  obtain ls where ls: "pem_text (concat cs) = concat (map (\<lambda>l. l @ [10]) ls)" "concat ls = rfc4648 (concat cs)"
    "\<forall>l \<in> set ls. 0 < length l \<and> length l \<le> 64" "\<forall>l \<in> set (butlast ls). length l = 64"
    using pem_text_lines [of "concat cs"] unfolding quads_rfc4648 by blast
  have "decode_chunks EVP_DecodeInit ts = Some (concat cs)"
    if ts: "concat ts = pem_text (concat cs)" "\<forall>t \<in> set ts. length t < 2 ^ 30" for ts
  proof -
    obtain ctx' where "decode_loop EVP_DecodeInit (quads (concat cs)) = (True, concat cs, ctx')" "data_used ctx' = 0"
      "\<not> error_encountered ctx'"
      using decode_loop_quads [of EVP_DecodeInit "concat cs"] by (auto simp: EVP_DecodeInit_def)
    moreover from this have "decode_loop EVP_DecodeInit (concat ts) = (True, concat cs, ctx')"
      using decode_loop_filter [of EVP_DecodeInit "concat ts"] filter_pem_text [of "concat cs"] ts(1) by simp
    moreover have "data_used EVP_DecodeInit < 4" "\<not> error_encountered EVP_DecodeInit" by (simp_all add: EVP_DecodeInit_def)
    ultimately show ?thesis using ts(2) by (intro decode_chunks_eq)
  qed
  with enc ls show ?thesis by blast
qed

lemma length_lines: "\<forall>l \<in> set ls. 0 < length l \<and> length l \<le> n \<Longrightarrow> length ls \<le> length (concat ls)"
proof (induction ls)
  case (Cons l ls)
  then have "0 < length l" "length ls \<le> length (concat ls)" by simp_all
  then show ?case by (simp only: list.size concat.simps length_append)
qed simp

theorem base64_stream_round_trip_witness:
  "\<exists>s ls. encode_chunks EVP_EncodeInit [[1, 2, 3], [], [4]] = Some s \<and> s = concat (map (\<lambda>l. l @ [10]) ls) \<and>
    concat ls = map chr ''AQIDBA=='' \<and> decode_chunks EVP_DecodeInit [take 3 s, drop 3 s] = Some [1, 2, 3, 4]"
proof -
  let ?cs = "[[1, 2, 3], [], [4]] :: byte list list"
  have "\<forall>c \<in> set ?cs. length c < 2 ^ 30" by simp
  from base64_stream_round_trip [OF this] obtain s ls where r: "encode_chunks EVP_EncodeInit ?cs = Some s"
    "s = concat (map (\<lambda>l. l @ [10]) ls)" "concat ls = rfc4648 (concat ?cs)" "\<forall>l \<in> set ls. 0 < length l \<and> length l \<le> 64"
    "\<forall>ts. concat ts = s \<and> (\<forall>t \<in> set ts. length t < 2 ^ 30) \<longrightarrow> decode_chunks EVP_DecodeInit ts = Some (concat ?cs)" by blast
  have a: "alphabet ! 0 = CHR ''A''" "alphabet ! 1 = CHR ''B''" "alphabet ! 3 = CHR ''D''" "alphabet ! 8 = CHR ''I''" "alphabet ! 16 = CHR ''Q''"
    by (simp_all add: alphabet_def)
  have c: "concat ls = map chr ''AQIDBA==''" unfolding r(3) using a by (simp add: sextet_def)
  then have n: "length (concat ls) = 8" by simp
  have "length ls \<le> length (concat ls)" using r(4) by (rule length_lines)
  moreover have "length s = length (concat ls) + length ls" unfolding r(2) by (induction ls) auto
  ultimately have "length s \<le> 16" using n by linarith
  then have "\<forall>t \<in> set [take 3 s, drop 3 s]. length t < 2 ^ 30" by auto
  moreover have "concat [take 3 s, drop 3 s] = s" by simp
  ultimately have "decode_chunks EVP_DecodeInit [take 3 s, drop 3 s] = Some (concat ?cs)" using r(5) by blast
  moreover have "concat ?cs = [1, 2, 3, 4]" by simp
  ultimately show ?thesis using r(1, 2) c by metis
qed

end
