(* ===== verification/Lhash.thy ===== *)
theory Lhash
  imports Prelude "HOL-Library.Word" "HOL-Library.Multiset"
begin

text \<open>
  The hash table of BoringSSL (\<open>crypto/lhash/lhash.c\<close>): an array of chains that doubles and halves with the number
  of elements.

  A chain is a list of items, in the order of the links.  A pointer to a link, as \<open>get_next_ptr_and_hash\<close> returns, is
  the index of a bucket with a position in its chain.  The function pointers \<open>lh->hash\<close> and \<open>lh->comp\<close>
  read the objects of the caller and are the arguments \<open>h\<close> and \<open>cmp\<close>; the arguments of type \<open>bool\<close> say whether the
  requests for memory succeed.  Freeing memory has no effect in the model.
\<close>

section \<open>The table\<close>

record 'd lhash_item =
  item_data :: 'd
  item_hash :: "32 word"

record 'd lhash =
  num_items :: nat
  buckets :: "'d lhash_item list list"
  num_buckets :: nat
  callback_depth :: nat

definition kMinNumBuckets :: nat where "kMinNumBuckets = 16"

definition kMaxAverageChainLength :: nat where "kMaxAverageChainLength = 2"

definition kMinAverageChainLength :: nat where "kMinAverageChainLength = 1"

definition OPENSSL_lh_new :: "bool \<Rightarrow> bool \<Rightarrow> 'd lhash option" where
  "OPENSSL_lh_new table_ok buckets_ok =
     (if \<not> table_ok then None
      else if \<not> buckets_ok then None
      else Some \<lparr>num_items = 0, buckets = replicate kMinNumBuckets [], num_buckets = kMinNumBuckets, callback_depth = 0\<rparr>)"

definition OPENSSL_lh_num_items :: "'d lhash \<Rightarrow> nat" where
  "OPENSSL_lh_num_items lh = num_items lh"

text \<open>The walk along a chain stops at the first item that satisfies \<open>P\<close>, or at its end.\<close>

fun chain_pos :: "('d lhash_item \<Rightarrow> bool) \<Rightarrow> 'd lhash_item list \<Rightarrow> nat" where
  "chain_pos P [] = 0"
| "chain_pos P (cur # rest) = (if P cur then 0 else Suc (chain_pos P rest))"

definition get_next_ptr_and_hash ::
  "('d \<Rightarrow> 32 word) \<Rightarrow> ('d \<Rightarrow> 'd \<Rightarrow> int) \<Rightarrow> 'd lhash \<Rightarrow> 'd \<Rightarrow> 32 word \<times> nat \<times> nat" where
  "get_next_ptr_and_hash h cmp lh d =
     (let hash = h d;
          b = unat hash mod num_buckets lh
      in (hash, b, chain_pos (\<lambda>cur. cmp (item_data cur) d = 0) (buckets lh ! b)))"

definition get_next_ptr_by_key :: "'d lhash \<Rightarrow> 'k \<Rightarrow> 32 word \<Rightarrow> ('k \<Rightarrow> 'd \<Rightarrow> int) \<Rightarrow> nat \<times> nat" where
  "get_next_ptr_by_key lh key key_hash cmp_key =
     (let b = unat key_hash mod num_buckets lh
      in (b, chain_pos (\<lambda>cur. cmp_key key (item_data cur) = 0) (buckets lh ! b)))"

definition read_ptr :: "'d lhash \<Rightarrow> nat \<times> nat \<Rightarrow> 'd lhash_item option" where
  "read_ptr lh p = (case p of (b, i) \<Rightarrow> if i < length (buckets lh ! b) then Some (buckets lh ! b ! i) else None)"

definition OPENSSL_lh_retrieve :: "('d \<Rightarrow> 32 word) \<Rightarrow> ('d \<Rightarrow> 'd \<Rightarrow> int) \<Rightarrow> 'd lhash \<Rightarrow> 'd \<Rightarrow> 'd option" where
  "OPENSSL_lh_retrieve h cmp lh d =
     (let (_, p) = get_next_ptr_and_hash h cmp lh d in map_option item_data (read_ptr lh p))"

definition OPENSSL_lh_retrieve_key :: "'d lhash \<Rightarrow> 'k \<Rightarrow> 32 word \<Rightarrow> ('k \<Rightarrow> 'd \<Rightarrow> int) \<Rightarrow> 'd option" where
  "OPENSSL_lh_retrieve_key lh key key_hash cmp_key =
     (let p = get_next_ptr_by_key lh key key_hash cmp_key in map_option item_data (read_ptr lh p))"

section \<open>Resizing\<close>

fun rebucket_chain :: "nat \<Rightarrow> 'd lhash_item list list \<Rightarrow> 'd lhash_item list \<Rightarrow> 'd lhash_item list list" where
  "rebucket_chain n new_buckets [] = new_buckets"
| "rebucket_chain n new_buckets (cur # rest) =
     (let new_bucket = unat (item_hash cur) mod n
      in rebucket_chain n (new_buckets[new_bucket := cur # new_buckets ! new_bucket]) rest)"

definition lh_rebucket :: "bool \<Rightarrow> 'd lhash \<Rightarrow> nat \<Rightarrow> 'd lhash" where
  "lh_rebucket ok lh new_num_buckets =
     (let alloc_size = 8 * new_num_buckets mod 2 ^ 64
      in if alloc_size div 8 \<noteq> new_num_buckets then lh
         else if \<not> ok then lh
         else lh\<lparr>num_buckets := new_num_buckets,
                 buckets := foldl (rebucket_chain new_num_buckets) (replicate new_num_buckets []) (buckets lh)\<rparr>)"

definition lh_maybe_resize :: "bool \<Rightarrow> 'd lhash \<Rightarrow> 'd lhash" where
  "lh_maybe_resize ok lh =
     (if callback_depth lh > 0 then lh
      else
        let avg_chain_length = num_items lh div num_buckets lh
        in if avg_chain_length > kMaxAverageChainLength then
             let new_num_buckets = num_buckets lh * 2 mod 2 ^ 64
             in if new_num_buckets > num_buckets lh then lh_rebucket ok lh new_num_buckets else lh
           else if avg_chain_length < kMinAverageChainLength \<and> num_buckets lh > kMinNumBuckets then
             let new_num_buckets = num_buckets lh div 2;
                 new_num_buckets = (if new_num_buckets < kMinNumBuckets then kMinNumBuckets else new_num_buckets)
             in lh_rebucket ok lh new_num_buckets
           else lh)"

section \<open>Insertion, deletion, iteration\<close>

text \<open>The result is the returned flag, \<open>*old_data\<close> and the table.\<close>

definition OPENSSL_lh_insert ::
  "('d \<Rightarrow> 32 word) \<Rightarrow> ('d \<Rightarrow> 'd \<Rightarrow> int) \<Rightarrow> bool \<Rightarrow> bool \<Rightarrow> 'd lhash \<Rightarrow> 'd \<Rightarrow> bool \<times> 'd option \<times> 'd lhash" where
  "OPENSSL_lh_insert h cmp item_ok buckets_ok lh d =
     (let (hash, b, i) = get_next_ptr_and_hash h cmp lh d;
          chain = buckets lh ! b
      in case read_ptr lh (b, i) of
           Some cur \<Rightarrow> (True, Some (item_data cur), lh\<lparr>buckets := (buckets lh)[b := chain[i := cur\<lparr>item_data := d\<rparr>]]\<rparr>)
         | None \<Rightarrow>
             if \<not> item_ok then (False, None, lh)
             else
               let lh1 = lh\<lparr>buckets := (buckets lh)[b := chain @ [\<lparr>item_data = d, item_hash = hash\<rparr>]],
                            num_items := (num_items lh + 1) mod 2 ^ 64\<rparr>
               in (True, None, lh_maybe_resize buckets_ok lh1))"

definition OPENSSL_lh_delete ::
  "('d \<Rightarrow> 32 word) \<Rightarrow> ('d \<Rightarrow> 'd \<Rightarrow> int) \<Rightarrow> bool \<Rightarrow> 'd lhash \<Rightarrow> 'd \<Rightarrow> 'd option \<times> 'd lhash" where
  "OPENSSL_lh_delete h cmp buckets_ok lh d =
     (let (_, b, i) = get_next_ptr_and_hash h cmp lh d;
          chain = buckets lh ! b
      in case read_ptr lh (b, i) of
           None \<Rightarrow> (None, lh)
         | Some item \<Rightarrow>
             let lh1 = lh\<lparr>buckets := (buckets lh)[b := take i chain @ drop (Suc i) chain],
                          num_items := (num_items lh + 2 ^ 64 - 1) mod 2 ^ 64\<rparr>
             in (Some (item_data item), lh_maybe_resize buckets_ok lh1))"

text \<open>For a callback that does not change the table; \<open>arg\<close> is the state that it works on.\<close>

definition OPENSSL_lh_doall_arg :: "bool \<Rightarrow> ('d \<Rightarrow> 's \<Rightarrow> 's) \<Rightarrow> 'd lhash \<Rightarrow> 's \<Rightarrow> 's \<times> 'd lhash" where
  "OPENSSL_lh_doall_arg buckets_ok func lh arg =
     (let lh1 = (if callback_depth lh < 2 ^ 32 - 1 then lh\<lparr>callback_depth := callback_depth lh + 1\<rparr> else lh);
          arg1 = foldl (foldl (\<lambda>s cur. func (item_data cur) s)) arg (buckets lh1);
          lh2 = (if callback_depth lh1 < 2 ^ 32 - 1 then lh1\<lparr>callback_depth := callback_depth lh1 - 1\<rparr> else lh1)
      in (arg1, lh_maybe_resize buckets_ok lh2))"

section \<open>Contents and invariant\<close>

definition content :: "'d lhash \<Rightarrow> 'd multiset" where
  "content lh = mset (map item_data (concat (buckets lh)))"

definition placed :: "('d \<Rightarrow> 32 word) \<Rightarrow> nat \<Rightarrow> 'd lhash_item list list \<Rightarrow> bool" where
  "placed h n bs \<longleftrightarrow>
     length bs = n \<and>
     (\<forall>b < n. \<forall>it \<in> set (bs ! b). item_hash it = h (item_data it) \<and> unat (item_hash it) mod n = b)"

text \<open>No two elements that compare as equal.\<close>

definition unique :: "('d \<Rightarrow> 'd \<Rightarrow> int) \<Rightarrow> 'd multiset \<Rightarrow> bool" where
  "unique cmp M \<longleftrightarrow> (\<forall>a. size {#x \<in># M. cmp x a = 0#} \<le> 1)"

definition lh_inv :: "('d \<Rightarrow> 32 word) \<Rightarrow> ('d \<Rightarrow> 'd \<Rightarrow> int) \<Rightarrow> 'd lhash \<Rightarrow> bool" where
  "lh_inv h cmp lh \<longleftrightarrow>
     placed h (num_buckets lh) (buckets lh) \<and> kMinNumBuckets \<le> num_buckets lh \<and> unique cmp (content lh) \<and>
     num_items lh = size (content lh) mod 2 ^ 64"

end
