(* ===== verification/Lhash_Map.thy ===== *)
theory Lhash_Map
  imports Lhash
begin

text \<open>
  The hash table as a map.  When the comparison is an equivalence that the hash respects, a table is a finite
  set of elements with one element for each class, and its operations are lookup, update and removal.
\<close>

section \<open>Chains and buckets\<close>

abbreviation (input) cont :: "'d lhash_item list list \<Rightarrow> 'd multiset" where
  "cont bs \<equiv> mset (map item_data (concat bs))"

lemma cont_update:
  "b < length bs \<Longrightarrow> cont (bs[b := c]) + mset (map item_data (bs ! b)) = cont bs + mset (map item_data c)"
proof -
  assume b: "b < length bs"
  have "cont (take b bs @ bs ! b # drop (Suc b) bs) = cont bs" using id_take_nth_drop [OF b] by simp
  then show ?thesis unfolding upd_conv_take_nth_drop [OF b] by (simp add: ac_simps)
qed

lemma placed_update:
  assumes "placed h n bs" "b < n" "\<And>it. it \<in> set c \<Longrightarrow> it \<in> set (bs ! b) \<or> item_hash it = h (item_data it) \<and> unat (item_hash it) mod n = b"
  shows "placed h n (bs[b := c])"
  unfolding placed_def
proof (intro conjI allI impI ballI)
  fix b' it assume "b' < n" "it \<in> set (bs[b := c] ! b')"
  then have "it \<in> set (bs ! b') \<or> b' = b \<and> item_hash it = h (item_data it) \<and> unat (item_hash it) mod n = b"
    using assms by (auto simp: placed_def nth_list_update split: if_splits)
  then show "item_hash it = h (item_data it)" "unat (item_hash it) mod n = b'"
    using assms(1) \<open>b' < n\<close> unfolding placed_def by metis+
qed (use assms(1) in \<open>simp add: placed_def\<close>)

lemma content_mem: "(\<forall>x \<in># content lh. P x) \<longleftrightarrow> (\<forall>c < length (buckets lh). \<forall>it \<in> set (buckets lh ! c). P (item_data it))"
  by (simp add: content_def) (metis in_set_conv_nth)

lemma chain_pos_le: "chain_pos P xs \<le> length xs"
  by (induction xs) auto

lemma chain_pos_found: "chain_pos P xs < length xs \<Longrightarrow> P (xs ! chain_pos P xs)"
  by (induction xs) (auto split: if_splits)

lemma chain_pos_none: "chain_pos P xs = length xs \<longleftrightarrow> (\<forall>x \<in> set xs. \<not> P x)"
  by (induction xs) auto

lemma rebucket_chain_ok:
  assumes "placed h n nb" "0 < n" "\<forall>it \<in> set chain. item_hash it = h (item_data it)"
  shows "placed h n (rebucket_chain n nb chain) \<and> cont (rebucket_chain n nb chain) = cont nb + mset (map item_data chain)"
  using assms
proof (induction chain arbitrary: nb)
  case (Cons cur rest)
  let ?b = "unat (item_hash cur) mod n" let ?nb = "nb[?b := cur # nb ! ?b]"
  have b: "?b < n" "?b < length nb" using Cons(2, 3) by (simp_all add: placed_def)
  have "placed h n ?nb" by (rule placed_update [OF Cons(2) b(1)]) (use Cons(4) in auto)
  moreover have "cont ?nb = add_mset (item_data cur) (cont nb)" using cont_update [OF b(2), of "cur # nb ! ?b"] by simp
  ultimately show ?case using Cons by (simp add: Let_def)
qed simp

lemma rebucket_ok:
  assumes "placed h n nb" "0 < n" "\<forall>chain \<in> set bs. \<forall>it \<in> set chain. item_hash it = h (item_data it)"
  shows "placed h n (foldl (rebucket_chain n) nb bs) \<and> cont (foldl (rebucket_chain n) nb bs) = cont nb + cont bs"
  using assms
proof (induction bs arbitrary: nb)
  case (Cons chain bs)
  then have "placed h n (rebucket_chain n nb chain)" "cont (rebucket_chain n nb chain) = cont nb + mset (map item_data chain)"
    using rebucket_chain_ok [of h n nb chain] by simp_all
  then show ?case using Cons by (simp add: union_assoc)
qed simp

lemma placed_hash: "placed h n bs \<Longrightarrow> chain \<in> set bs \<Longrightarrow> it \<in> set chain \<Longrightarrow> item_hash it = h (item_data it)"
  unfolding placed_def by (metis in_set_conv_nth)

lemma placed_empty: "placed h n (replicate n [])" "cont (replicate n []) = {#}"
  by (simp_all add: placed_def concat_replicate_trivial)

lemma option_eqI: "(\<And>x. u = Some x \<longleftrightarrow> v = Some x) \<Longrightarrow> u = v"
  by (cases u; cases v) auto

lemma dec_mod: "0 < s \<Longrightarrow> 0 < m \<Longrightarrow> (s mod m + m - 1) mod m = (s - 1) mod (m :: nat)"
  by (cases s) (auto simp: mod_Suc)

section \<open>Resizing keeps the contents\<close>

text \<open>What a resize, or the saturating counter, may change.\<close>

lemma lh_rebucket_ok:
  assumes "lh_inv h cmp lh" "kMinNumBuckets \<le> n"
  shows "lh_inv h cmp (lh_rebucket ok lh n) \<and> content (lh_rebucket ok lh n) = content lh"
proof -
  have p: "placed h (num_buckets lh) (buckets lh)" using assms(1) by (simp add: lh_inv_def)
  have "0 < n" using assms(2) by (simp add: kMinNumBuckets_def)
  then have "placed h n (foldl (rebucket_chain n) (replicate n []) (buckets lh)) \<and>
    cont (foldl (rebucket_chain n) (replicate n []) (buckets lh)) = cont (replicate n []) + cont (buckets lh)"
    using placed_hash [OF p] by (intro rebucket_ok placed_empty) auto
  moreover from this
  have "content (lh\<lparr>num_buckets := n, buckets := foldl (rebucket_chain n) (replicate n []) (buckets lh)\<rparr>) = content lh"
    by (simp add: content_def placed_empty)
  ultimately show ?thesis
    using assms by (simp add: lh_rebucket_def Let_def lh_inv_def)
qed

lemma lh_maybe_resize_ok:
  assumes "lh_inv h cmp lh"
  shows "lh_inv h cmp (lh_maybe_resize ok lh) \<and> content (lh_maybe_resize ok lh) = content lh"
proof -
  have "kMinNumBuckets \<le> num_buckets lh" using assms by (simp add: lh_inv_def)
  then show ?thesis
    using assms lh_rebucket_ok [OF assms] by (simp add: lh_maybe_resize_def Let_def)
qed

section \<open>The operations\<close>

locale lh_keys =
  fixes h :: "'d \<Rightarrow> 32 word" and cmp :: "'d \<Rightarrow> 'd \<Rightarrow> int"
  assumes cmp_refl: "cmp a a = 0"
    and cmp_sym: "cmp a b = 0 \<Longrightarrow> cmp b a = 0"
    and cmp_trans: "cmp a b = 0 \<Longrightarrow> cmp b c = 0 \<Longrightarrow> cmp a c = 0"
    and hash_cong: "cmp a b = 0 \<Longrightarrow> h a = h b"
begin

text \<open>Where the search ends: at the one element that is equal, or at the end of a chain without such.\<close>

lemma get_next_ptr:
  assumes "lh_inv h cmp lh" "get_next_ptr_and_hash h cmp lh d = (hs, b, i)"
  shows "hs = h d" "b < length (buckets lh)" "unat (h d) mod num_buckets lh = b"
    "read_ptr lh (b, i) = None \<Longrightarrow> i = length (buckets lh ! b) \<and> (\<forall>x \<in># content lh. cmp x d \<noteq> 0)"
    "read_ptr lh (b, i) = Some it \<Longrightarrow>
      i < length (buckets lh ! b) \<and> it = buckets lh ! b ! i \<and> cmp (item_data it) d = 0 \<and> item_data it \<in># content lh"
proof -
  have p: "placed h (num_buckets lh) (buckets lh)" and n: "0 < num_buckets lh"
    using assms(1) by (simp_all add: lh_inv_def kMinNumBuckets_def)
  let ?P = "\<lambda>cur. cmp (item_data cur) d = 0"
  have eq: "hs = h d" "b = unat (h d) mod num_buckets lh" "i = chain_pos ?P (buckets lh ! b)"
    using assms(2) by (auto simp: get_next_ptr_and_hash_def Let_def)
  show "hs = h d" "unat (h d) mod num_buckets lh = b" using eq by simp_all
  show b: "b < length (buckets lh)" using eq p n by (simp add: placed_def)
  show "i = length (buckets lh ! b) \<and> (\<forall>x \<in># content lh. cmp x d \<noteq> 0)" if none: "read_ptr lh (b, i) = None"
  proof -
    have i: "i = length (buckets lh ! b)" using none eq(3) chain_pos_le [of ?P "buckets lh ! b"] by (simp add: read_ptr_def split: if_splits)
    have "cmp (item_data it) d \<noteq> 0" if it: "it \<in> set (buckets lh ! c)" "c < length (buckets lh)" for it c
    proof
      assume e: "cmp (item_data it) d = 0"
      have "item_hash it = h d" "unat (item_hash it) mod num_buckets lh = c"
        using p it hash_cong [OF e] unfolding placed_def by metis+
      then have "c = b" using eq(2) by simp
      then show False using chain_pos_none [of ?P "buckets lh ! b"] i eq(3) it(1) e by auto
    qed
    then show ?thesis using i by (simp add: content_mem)
  qed
  show "i < length (buckets lh ! b) \<and> it = buckets lh ! b ! i \<and> cmp (item_data it) d = 0 \<and> item_data it \<in># content lh"
    if some: "read_ptr lh (b, i) = Some it"
  proof -
    have i: "i < length (buckets lh ! b)" "it = buckets lh ! b ! i" using some by (auto simp: read_ptr_def split: if_splits)
    then have "cmp (item_data it) d = 0" using chain_pos_found [of ?P "buckets lh ! b"] eq(3) by simp
    moreover have "item_data it \<in># content lh" using content_mem [of lh "\<lambda>x. x \<in># content lh"] i b by simp
    ultimately show ?thesis using i by simp
  qed
qed

lemma unique_eq:
  assumes "unique cmp M" "x \<in># M" "y \<in># M" "cmp x y = 0"
  shows "x = y"
proof (rule ccontr)
  assume ne: "x \<noteq> y"
  have "{#x, y#} \<subseteq># filter_mset (\<lambda>z. cmp z y = 0) M"
    using assms(2-4) cmp_refl [of y] ne by (auto simp: insert_subset_eq_iff in_diff_count)
  then have "2 \<le> size (filter_mset (\<lambda>z. cmp z y = 0) M)" using size_mset_mono by fastforce
  then show False using assms(1) unfolding unique_def by (metis not_less_eq_eq numeral_2_eq_2 One_nat_def)
qed

lemma retrieve_iff:
  assumes "lh_inv h cmp lh"
  shows "OPENSSL_lh_retrieve h cmp lh d = Some x \<longleftrightarrow> x \<in># content lh \<and> cmp x d = 0"
    and "OPENSSL_lh_retrieve h cmp lh d = None \<longleftrightarrow> (\<forall>x \<in># content lh. cmp x d \<noteq> 0)"
proof -
  obtain hs b i where g: "get_next_ptr_and_hash h cmp lh d = (hs, b, i)" by (metis prod.exhaust)
  note n = get_next_ptr [OF assms g]
  have u: "unique cmp (content lh)" using assms by (simp add: lh_inv_def)
  have r: "OPENSSL_lh_retrieve h cmp lh d = map_option item_data (read_ptr lh (b, i))"
    by (simp add: OPENSSL_lh_retrieve_def g)
  have one: "x = y" if "x \<in># content lh" "cmp x d = 0" "y \<in># content lh" "cmp y d = 0" for x y
    using unique_eq [OF u that(1, 3)] cmp_trans [OF that(2) cmp_sym [OF that(4)]] by blast
  show "OPENSSL_lh_retrieve h cmp lh d = Some x \<longleftrightarrow> x \<in># content lh \<and> cmp x d = 0"
    using r n(4, 5) one by (cases "read_ptr lh (b, i)") auto
  show "OPENSSL_lh_retrieve h cmp lh d = None \<longleftrightarrow> (\<forall>x \<in># content lh. cmp x d \<noteq> 0)"
    using r n(4, 5) by (cases "read_ptr lh (b, i)") auto
qed

lemma unique_add: "unique cmp M \<Longrightarrow> \<forall>y \<in># M. cmp y d \<noteq> 0 \<Longrightarrow> unique cmp (add_mset d M)"
proof (unfold unique_def, intro allI)
  fix a assume u: "\<forall>a. size {#x \<in># M. cmp x a = 0#} \<le> 1" and n: "\<forall>y \<in># M. cmp y d \<noteq> 0"
  show "size {#x \<in># add_mset d M. cmp x a = 0#} \<le> 1"
  proof (cases "cmp d a = 0")
    case True
    have "cmp y a \<noteq> 0" if "y \<in># M" for y using n that cmp_trans [OF _ cmp_sym [OF True], of y] by blast
    then have "{#x \<in># M. cmp x a = 0#} = {#x \<in># M. False#}" by (intro filter_mset_cong) auto
    then show ?thesis using True by simp
  next
    case False
    then show ?thesis using u by simp
  qed
qed

lemma unique_remove:
  assumes "unique cmp M" "x \<in># M"
  shows "unique cmp (M - {#x#})" "cmp x d = 0 \<Longrightarrow> \<forall>y \<in># M - {#x#}. cmp y d \<noteq> 0"
proof -
  obtain N where N: "M = add_mset x N" using multi_member_split [OF assms(2)] by blast
  have le: "size {#z \<in># add_mset x N. cmp z a = 0#} \<le> 1" for a using assms(1) by (simp add: unique_def N)
  have "size {#z \<in># N. cmp z a = 0#} \<le> 1" for a
  proof -
    have "size {#z \<in># N. cmp z a = 0#} \<le> size {#z \<in># add_mset x N. cmp z a = 0#}" by simp
    then show ?thesis using le [of a] by linarith
  qed
  then show "unique cmp (M - {#x#})" by (simp add: unique_def N)
  show "\<forall>y \<in># M - {#x#}. cmp y d \<noteq> 0" if "cmp x d = 0"
    using le [of d] that by (simp add: N)
qed

text \<open>The contents after a chain has changed.\<close>

lemma content_chain:
  assumes "b < length (buckets lh)" "mset (map item_data (buckets lh ! b)) = C" "mset (map item_data c) = C'"
  shows "content (lh\<lparr>buckets := (buckets lh)[b := c]\<rparr>) + C = content lh + C'"
  using cont_update [OF assms(1), of c] assms(2, 3) by (simp add: content_def)

lemma insert_content:
  assumes "lh_inv h cmp lh" "OPENSSL_lh_insert h cmp item_ok buckets_ok lh d = (ok, old, lh')"
  shows "lh_inv h cmp lh' \<and> old = OPENSSL_lh_retrieve h cmp lh d \<and> (ok \<longleftrightarrow> old \<noteq> None \<or> item_ok) \<and>
    (if ok then content lh' = add_mset d (case old of None \<Rightarrow> content lh | Some x \<Rightarrow> content lh - {#x#}) else lh' = lh)"
proof -
  obtain hs b i where g: "get_next_ptr_and_hash h cmp lh d = (hs, b, i)" by (metis prod.exhaust)
  note n = get_next_ptr [OF assms(1) g]
  note inv = assms(1) [unfolded lh_inv_def]
  have b: "b < num_buckets lh" using n(2) inv by (simp add: placed_def)
  have r: "OPENSSL_lh_retrieve h cmp lh d = map_option item_data (read_ptr lh (b, i))"
    by (simp add: OPENSSL_lh_retrieve_def g)
  let ?chain = "buckets lh ! b"
  show ?thesis
  proof (cases "read_ptr lh (b, i)")
    case None
    let ?lh = "lh\<lparr>buckets := (buckets lh)[b := ?chain @ [\<lparr>item_data = d, item_hash = hs\<rparr>]], num_items := (num_items lh + 1) mod 2 ^ 64\<rparr>"
    have "content (lh\<lparr>buckets := (buckets lh)[b := ?chain @ [\<lparr>item_data = d, item_hash = hs\<rparr>]]\<rparr>) = add_mset d (content lh)"
      using content_chain [OF n(2) refl refl, of "?chain @ [\<lparr>item_data = d, item_hash = hs\<rparr>]"] by simp
    then have c: "content ?lh = add_mset d (content lh)" by (simp add: content_def)
    have "placed h (num_buckets lh) ((buckets lh)[b := ?chain @ [\<lparr>item_data = d, item_hash = hs\<rparr>]])"
      by (rule placed_update) (use inv b n(1, 3) in auto)
    moreover have "unique cmp (add_mset d (content lh))" using unique_add inv n(4) [OF None] by blast
    ultimately have "lh_inv h cmp ?lh" using inv c by (simp add: lh_inv_def mod_Suc_eq)
    then show ?thesis
      using assms(2) None c lh_maybe_resize_ok [of h cmp ?lh buckets_ok] assms(1) r
      by (auto simp: OPENSSL_lh_insert_def g split: if_splits)
  next
    case (Some it)
    note it = n(5) [OF Some]
    let ?c = "?chain[i := it\<lparr>item_data := d\<rparr>]" let ?lh = "lh\<lparr>buckets := (buckets lh)[b := ?c]\<rparr>"
    have "mset (map item_data ?c) = add_mset d (mset (map item_data ?chain) - {#item_data it#})"
      using it by (simp add: map_update mset_update)
    moreover have "item_data it \<in># mset (map item_data ?chain)" using it by auto
    ultimately have c: "content ?lh = add_mset d (content lh - {#item_data it#})"
      using content_chain [OF n(2) refl refl, of ?c] it by (auto dest!: multi_member_split)
    have "placed h (num_buckets lh) ((buckets lh)[b := ?c])"
    proof (rule placed_update)
      fix x assume "x \<in> set ?c"
      then have "x \<in> set ?chain \<or> x = it\<lparr>item_data := d\<rparr>" using set_update_subset_insert by fastforce
      moreover have "item_hash it = h (item_data it)" using inv it b unfolding placed_def by (metis nth_mem)
      moreover have "h (item_data it) = h d" using hash_cong it by blast
      ultimately show "x \<in> set ?chain \<or> item_hash x = h (item_data x) \<and> unat (item_hash x) mod num_buckets lh = b"
        using n(3) by auto
    qed (use inv b in auto)
    moreover have "unique cmp (add_mset d (content lh - {#item_data it#}))"
      using unique_remove [of "content lh" "item_data it"] unique_add inv it by blast
    moreover have "size (content ?lh) = size (content lh)"
      unfolding c using it by (metis insert_DiffM size_add_mset)
    ultimately have "lh_inv h cmp ?lh" using inv c by (simp add: lh_inv_def)
    moreover have "OPENSSL_lh_insert h cmp item_ok buckets_ok lh d = (True, Some (item_data it), ?lh)"
      using Some by (simp add: OPENSSL_lh_insert_def g)
    ultimately show ?thesis using assms(2) Some c r by auto
  qed
qed

lemma delete_content:
  assumes "lh_inv h cmp lh" "OPENSSL_lh_delete h cmp buckets_ok lh d = (r, lh')"
  shows "lh_inv h cmp lh' \<and> r = OPENSSL_lh_retrieve h cmp lh d \<and>
    content lh' = (case r of None \<Rightarrow> content lh | Some x \<Rightarrow> content lh - {#x#})"
proof -
  obtain hs b i where g: "get_next_ptr_and_hash h cmp lh d = (hs, b, i)" by (metis prod.exhaust)
  note n = get_next_ptr [OF assms(1) g]
  note inv = assms(1) [unfolded lh_inv_def]
  have b: "b < num_buckets lh" using n(2) inv by (simp add: placed_def)
  have r: "OPENSSL_lh_retrieve h cmp lh d = map_option item_data (read_ptr lh (b, i))"
    by (simp add: OPENSSL_lh_retrieve_def g)
  let ?chain = "buckets lh ! b"
  show ?thesis
  proof (cases "read_ptr lh (b, i)")
    case None
    then show ?thesis using assms r by (simp add: OPENSSL_lh_delete_def g)
  next
    case (Some it)
    note it = n(5) [OF Some]
    let ?c = "take i ?chain @ drop (Suc i) ?chain"
    let ?lh = "lh\<lparr>buckets := (buckets lh)[b := ?c], num_items := (num_items lh + 2 ^ 64 - 1) mod 2 ^ 64\<rparr>"
    have "?chain = take i ?chain @ it # drop (Suc i) ?chain" using it id_take_nth_drop [of i ?chain] by simp
    then have "mset (map item_data ?chain) = add_mset (item_data it) (mset (map item_data ?c))"
      by (metis (no_types, lifting) list.simps(9) map_append mset.simps(2) mset_append union_mset_add_mset_right)
    then have "content (lh\<lparr>buckets := (buckets lh)[b := ?c]\<rparr>) = content lh - {#item_data it#}"
      using content_chain [OF n(2) refl refl, of ?c] it by (auto dest!: multi_member_split)
    then have c: "content ?lh = content lh - {#item_data it#}" by (simp add: content_def)
    have "placed h (num_buckets lh) ((buckets lh)[b := ?c])"
      by (rule placed_update) (use inv b in \<open>auto dest: in_set_takeD in_set_dropD\<close>)
    moreover have "unique cmp (content lh - {#item_data it#})" using unique_remove(1) inv it by blast
    moreover have "(size (content lh) mod 2 ^ 64 + 2 ^ 64 - 1) mod 2 ^ 64 = (size (content lh) - 1) mod 2 ^ 64"
      using it by (intro dec_mod) (auto simp: nonempty_has_size [symmetric])
    moreover have "size (content lh - {#item_data it#}) = size (content lh) - 1"
      by (rule size_Diff_singleton) (use it in blast)
    ultimately have "lh_inv h cmp ?lh" using inv c it by (simp add: lh_inv_def)
    moreover have "OPENSSL_lh_delete h cmp buckets_ok lh d = (Some (item_data it), lh_maybe_resize buckets_ok ?lh)"
      using Some by (simp add: OPENSSL_lh_delete_def g Let_def)
    ultimately show ?thesis
      using assms(2) Some c lh_maybe_resize_ok [of h cmp ?lh buckets_ok] r by auto
  qed
qed

lemma retrieve_after:
  assumes "lh_inv h cmp lh" "lh_inv h cmp lh'" "\<And>x. cmp x d \<noteq> 0 \<Longrightarrow> x \<in># content lh' \<longleftrightarrow> x \<in># content lh"
    "\<And>x. cmp x d = 0 \<Longrightarrow> x \<in># content lh' \<longleftrightarrow> r = Some x" "\<And>x. r = Some x \<Longrightarrow> cmp x d = 0"
  shows "OPENSSL_lh_retrieve h cmp lh' a = (if cmp d a = 0 then r else OPENSSL_lh_retrieve h cmp lh a)"
proof -
  have "OPENSSL_lh_retrieve h cmp lh' a = Some x \<longleftrightarrow> (if cmp d a = 0 then r else OPENSSL_lh_retrieve h cmp lh a) = Some x" for x
  proof (cases "cmp d a = 0")
    case True
    have "cmp x a = 0 \<longleftrightarrow> cmp x d = 0" using True cmp_trans cmp_sym by blast
    then show ?thesis using True assms(4) [of x] assms(5) [of x] retrieve_iff(1) [OF assms(2), of a x] by auto
  next
    case False
    have "cmp x d \<noteq> 0" if "cmp x a = 0" using that False cmp_trans cmp_sym by blast
    then show ?thesis
      using False assms(3) [of x] retrieve_iff(1) [OF assms(2), of a x] retrieve_iff(1) [OF assms(1), of a x] by auto
  qed
  then show ?thesis by (rule option_eqI)
qed

lemma content_card: "lh_inv h cmp lh \<Longrightarrow> size (content lh) = card (ran (OPENSSL_lh_retrieve h cmp lh))"
proof -
  assume i: "lh_inv h cmp lh"
  then have u: "unique cmp (content lh)" by (simp add: lh_inv_def)
  have "count (content lh) x \<le> 1" for x
  proof -
    have "count {#z \<in># content lh. cmp z x = 0#} x \<le> size {#z \<in># content lh. cmp z x = 0#}" by (rule count_le_size)
    also have "\<dots> \<le> 1" using u by (simp add: unique_def)
    finally show ?thesis by (simp add: cmp_refl)
  qed
  then have "count (content lh) x = 1" if "x \<in># content lh" for x
    using that by (metis One_nat_def Suc_leI count_greater_zero_iff le_antisym)
  then have "size (content lh) = card (set_mset (content lh))"
    by (simp add: size_multiset_overloaded_eq)
  moreover have "ran (OPENSSL_lh_retrieve h cmp lh) = set_mset (content lh)"
    using retrieve_iff(1) [OF i] cmp_refl unfolding ran_def by blast
  ultimately show ?thesis by simp
qed

text \<open>Insertion and removal as changes of the lookup function.\<close>

lemma insert_lookup:
  assumes "lh_inv h cmp lh" "OPENSSL_lh_insert h cmp item_ok buckets_ok lh d = (ok, old, lh')"
  shows "lh_inv h cmp lh' \<and> old = OPENSSL_lh_retrieve h cmp lh d \<and> (ok \<longleftrightarrow> old \<noteq> None \<or> item_ok) \<and>
    OPENSSL_lh_retrieve h cmp lh' a = (if ok \<and> cmp d a = 0 then Some d else OPENSSL_lh_retrieve h cmp lh a)"
proof -
  note c = insert_content [OF assms]
  show ?thesis
  proof (cases ok)
    case True
    define M where "M = (case old of None \<Rightarrow> content lh | Some x \<Rightarrow> content lh - {#x#})"
    have u: "unique cmp (content lh)" using assms(1) by (simp add: lh_inv_def)
    have M: "(\<forall>y \<in># M. cmp y d \<noteq> 0) \<and> (\<forall>x. cmp x d \<noteq> 0 \<longrightarrow> (x \<in># M \<longleftrightarrow> x \<in># content lh))"
    proof (cases old)
      case None
      then show ?thesis using c retrieve_iff(2) [OF assms(1), of d] by (simp add: M_def)
    next
      case (Some y)
      then have y: "y \<in># content lh" "cmp y d = 0" using c retrieve_iff(1) [OF assms(1), of d y] by auto
      then show ?thesis using unique_remove(2) [OF u y(1)] Some by (auto simp: M_def in_diff_count dest: in_diffD)
    qed
    have "content lh' = add_mset d M" using c True by (simp add: M_def)
    then have "OPENSSL_lh_retrieve h cmp lh' a = (if cmp d a = 0 then Some d else OPENSSL_lh_retrieve h cmp lh a)"
      using M c cmp_refl by (intro retrieve_after [OF assms(1)]) auto
    then show ?thesis using c True by auto
  next
    case False
    then show ?thesis using c by auto
  qed
qed

lemma delete_lookup:
  assumes "lh_inv h cmp lh" "OPENSSL_lh_delete h cmp buckets_ok lh d = (r, lh')"
  shows "lh_inv h cmp lh' \<and> r = OPENSSL_lh_retrieve h cmp lh d \<and>
    OPENSSL_lh_retrieve h cmp lh' a = (if cmp d a = 0 then None else OPENSSL_lh_retrieve h cmp lh a)"
proof -
  note c = delete_content [OF assms]
  have u: "unique cmp (content lh)" using assms(1) by (simp add: lh_inv_def)
  have M: "(\<forall>y \<in># content lh'. cmp y d \<noteq> 0) \<and> (\<forall>x. cmp x d \<noteq> 0 \<longrightarrow> (x \<in># content lh' \<longleftrightarrow> x \<in># content lh))"
  proof (cases r)
    case None
    then show ?thesis using c retrieve_iff(2) [OF assms(1), of d] by simp
  next
    case (Some y)
    then have y: "y \<in># content lh" "cmp y d = 0" using c retrieve_iff(1) [OF assms(1), of d y] by auto
    then show ?thesis using unique_remove(2) [OF u y(1)] Some c by (auto simp: in_diff_count dest: in_diffD)
  qed
  have "OPENSSL_lh_retrieve h cmp lh' a = (if cmp d a = 0 then None else OPENSSL_lh_retrieve h cmp lh a)"
    using M c by (intro retrieve_after [OF assms(1)]) auto
  then show ?thesis using c by simp
qed

end

section \<open>The contract of a map\<close>

text \<open>The lookup function is the map; an insertion may fail only when there is no memory for a new element.\<close>

locale key_map =
  fixes inv :: "'t \<Rightarrow> bool"
    and lookup :: "'t \<Rightarrow> 'd \<Rightarrow> 'd option"
    and ins :: "bool \<Rightarrow> bool \<Rightarrow> 't \<Rightarrow> 'd \<Rightarrow> bool \<times> 'd option \<times> 't"
    and del :: "bool \<Rightarrow> 't \<Rightarrow> 'd \<Rightarrow> 'd option \<times> 't"
    and eq :: "'d \<Rightarrow> 'd \<Rightarrow> bool"
  assumes ins_inv: "inv t \<Longrightarrow> ins m1 m2 t d = (ok, old, t') \<Longrightarrow> inv t' \<and> old = lookup t d \<and> (ok \<longleftrightarrow> old \<noteq> None \<or> m1)"
    and ins_lookup: "inv t \<Longrightarrow> ins m1 m2 t d = (ok, old, t') \<Longrightarrow> lookup t' a = (if ok \<and> eq d a then Some d else lookup t a)"
    and del_inv: "inv t \<Longrightarrow> del m2 t d = (r, t') \<Longrightarrow> inv t' \<and> r = lookup t d"
    and del_lookup: "inv t \<Longrightarrow> del m2 t d = (r, t') \<Longrightarrow> lookup t' a = (if eq d a then None else lookup t a)"

text \<open>A table with its keys meets the contract, by the laws of the keys.\<close>

sublocale lh_keys \<subseteq> table: key_map "lh_inv h cmp" "OPENSSL_lh_retrieve h cmp" "OPENSSL_lh_insert h cmp" "OPENSSL_lh_delete h cmp" "\<lambda>a b. cmp a b = 0"
  by unfold_locales (use insert_lookup delete_lookup in blast)+

datatype 'd table_op = Ins 'd bool bool | Del 'd bool

fun spec_step :: "('d \<Rightarrow> 'd \<Rightarrow> bool) \<Rightarrow> ('d \<Rightarrow> 'd option) \<Rightarrow> 'd table_op \<Rightarrow> (bool \<times> 'd option) \<times> ('d \<Rightarrow> 'd option)" where
  "spec_step eq m (Ins d m1 m2) =
     (if m d = None \<and> \<not> m1 then ((False, None), m) else ((True, m d), \<lambda>a. if eq d a then Some d else m a))"
| "spec_step eq m (Del d m2) = ((True, m d), \<lambda>a. if eq d a then None else m a)"

fun spec_run :: "('d \<Rightarrow> 'd \<Rightarrow> bool) \<Rightarrow> ('d \<Rightarrow> 'd option) \<Rightarrow> 'd table_op list \<Rightarrow> (bool \<times> 'd option) list \<times> ('d \<Rightarrow> 'd option)" where
  "spec_run eq m [] = ([], m)"
| "spec_run eq m (x # ops) =
     (let (r, m1) = spec_step eq m x; (rs, m2) = spec_run eq m1 ops in (r # rs, m2))"

fun lh_step :: "('d \<Rightarrow> 32 word) \<Rightarrow> ('d \<Rightarrow> 'd \<Rightarrow> int) \<Rightarrow> 'd lhash \<Rightarrow> 'd table_op \<Rightarrow> (bool \<times> 'd option) \<times> 'd lhash" where
  "lh_step h cmp lh (Ins d m1 m2) = (case OPENSSL_lh_insert h cmp m1 m2 lh d of (ok, old, lh') \<Rightarrow> ((ok, old), lh'))"
| "lh_step h cmp lh (Del d m2) = (case OPENSSL_lh_delete h cmp m2 lh d of (r, lh') \<Rightarrow> ((True, r), lh'))"

fun lh_run :: "('d \<Rightarrow> 32 word) \<Rightarrow> ('d \<Rightarrow> 'd \<Rightarrow> int) \<Rightarrow> 'd lhash \<Rightarrow> 'd table_op list \<Rightarrow> (bool \<times> 'd option) list \<times> 'd lhash" where
  "lh_run h cmp lh [] = ([], lh)"
| "lh_run h cmp lh (x # ops) =
     (let (r, lh1) = lh_step h cmp lh x; (rs, lh2) = lh_run h cmp lh1 ops in (r # rs, lh2))"

context lh_keys
begin

lemma step_refines:
  assumes "lh_inv h cmp lh" "lh_step h cmp lh x = (r, lh')"
  shows "lh_inv h cmp lh' \<and> spec_step (\<lambda>a b. cmp a b = 0) (OPENSSL_lh_retrieve h cmp lh) x = (r, OPENSSL_lh_retrieve h cmp lh')"
proof (cases x)
  case (Ins d m1 m2)
  obtain ok old where i: "OPENSSL_lh_insert h cmp m1 m2 lh d = (ok, old, lh')" "r = (ok, old)"
    using assms(2) Ins by (auto split: prod.splits)
  note l = table.ins_inv [OF assms(1) i(1)] and u = table.ins_lookup [OF assms(1) i(1)]
  have "OPENSSL_lh_retrieve h cmp lh' = (if ok then \<lambda>a. if cmp d a = 0 then Some d else OPENSSL_lh_retrieve h cmp lh a else OPENSSL_lh_retrieve h cmp lh)"
    using u by (auto simp: fun_eq_iff)
  then show ?thesis using l i(2) Ins by auto
next
  case (Del d m2)
  obtain s where i: "OPENSSL_lh_delete h cmp m2 lh d = (s, lh')" "r = (True, s)"
    using assms(2) Del by (auto split: prod.splits)
  show ?thesis using table.del_inv [OF assms(1) i(1)] table.del_lookup [OF assms(1) i(1)] i(2) Del by (auto simp: fun_eq_iff)
qed

lemma run_refines:
  assumes "lh_inv h cmp lh" "lh_run h cmp lh ops = (rs, lh')"
  shows "lh_inv h cmp lh' \<and> spec_run (\<lambda>a b. cmp a b = 0) (OPENSSL_lh_retrieve h cmp lh) ops = (rs, OPENSSL_lh_retrieve h cmp lh')"
  using assms
proof (induction ops arbitrary: lh rs)
  case (Cons x ops)
  obtain r lh1 where s: "lh_step h cmp lh x = (r, lh1)" by (cases "lh_step h cmp lh x")
  obtain rs1 where t: "lh_run h cmp lh1 ops = (rs1, lh')" "rs = r # rs1"
    using Cons(3) s by (auto split: prod.splits)
  show ?case using step_refines [OF Cons(2) s] Cons(1) [OF _ t(1)] t(2) by simp
qed simp

end

section \<open>The table refines a map\<close>

lemma lh_new_inv: "OPENSSL_lh_new m1 m2 = Some lh \<Longrightarrow> lh_inv h cmp lh \<and> content lh = {#}"
  by (auto simp: OPENSSL_lh_new_def lh_inv_def content_def placed_def unique_def split: if_splits)

text \<open>C29. The hash table is a map.  When the comparison is an equivalence that the hash respects, every sequence
  of insertions and deletions on a new table, with every pattern of failing allocations, gives the same
  results as on an abstract map, and afterwards every lookup finds what the map holds: growing, shrinking and
  the order of the chains cannot be observed.  The number of items is the number of elements of the map.\<close>

theorem lhash_refines_map:
  assumes "lh_keys h cmp" "OPENSSL_lh_new m1 m2 = Some lh0"
  shows "case lh_run h cmp lh0 ops of (rs, lh) \<Rightarrow>
    (case spec_run (\<lambda>a b. cmp a b = 0) (\<lambda>_. None) ops of (rs', m) \<Rightarrow>
       rs = rs' \<and> OPENSSL_lh_retrieve h cmp lh = m \<and> OPENSSL_lh_num_items lh = card (ran m) mod 2 ^ 64)"
proof -
  obtain rs lh where r: "lh_run h cmp lh0 ops = (rs, lh)" by (cases "lh_run h cmp lh0 ops")
  note new = lh_new_inv [OF assms(2), of h cmp]
  have "OPENSSL_lh_retrieve h cmp lh0 = (\<lambda>_. None)"
    using lh_keys.retrieve_iff(2) [OF assms(1) conjunct1 [OF new]] new by (auto simp: fun_eq_iff)
  moreover note run = lh_keys.run_refines [OF assms(1) conjunct1 [OF new] r]
  moreover have "OPENSSL_lh_num_items lh = card (ran (OPENSSL_lh_retrieve h cmp lh)) mod 2 ^ 64"
  proof -
    have i: "lh_inv h cmp lh" using run by (rule conjunct1)
    then have "num_items lh = size (content lh) mod 2 ^ 64" unfolding lh_inv_def by blast
    then show ?thesis by (simp only: OPENSSL_lh_num_items_def lh_keys.content_card [OF assms(1) i])
  qed
  ultimately show ?thesis using r by simp
qed

lemma nat_keys: "lh_keys (word_of_nat :: nat \<Rightarrow> 32 word) (\<lambda>a b. int a - int b)"
  by unfold_locales auto

theorem lhash_refines_map_witness:
  "\<exists>lh0. OPENSSL_lh_new True True = Some lh0 \<and>
    OPENSSL_lh_retrieve word_of_nat (\<lambda>a b. int a - int b)
      (snd (lh_run word_of_nat (\<lambda>a b. int a - int b) lh0 [Ins (3 :: nat) True False, Ins 19 True True, Del 3 True])) 19 = Some 19"
proof -
  obtain lh0 :: "nat lhash" where n: "OPENSSL_lh_new True True = Some lh0" by (simp add: OPENSSL_lh_new_def)
  show ?thesis
    using lhash_refines_map [OF nat_keys n, of "[Ins 3 True False, Ins 19 True True, Del 3 True]"] n
    by (auto simp: split_beta Let_def)
qed

section \<open>Iteration\<close>

lemma foldl_chains: "foldl (foldl (\<lambda>s cur. f (item_data cur) s)) s bs = fold f (map item_data (concat bs)) s"
proof (induction bs arbitrary: s)
  case (Cons c bs)
  have "foldl (\<lambda>s cur. f (item_data cur) s) s c = fold f (map item_data c) s" by (induction c arbitrary: s) simp_all
  then show ?case using Cons by simp
qed simp

text \<open>Iteration is exact: \<open>OPENSSL_lh_doall_arg\<close> calls the function once for every element of the table, in
  some order; it leaves the elements and the invariant as they are, the resize at its end included.\<close>

theorem lhash_doall_visits_all:
  assumes "lh_inv h cmp lh"
  shows "\<exists>xs lh'. OPENSSL_lh_doall_arg buckets_ok func lh arg = (fold func xs arg, lh') \<and> mset xs = content lh \<and>
    content lh' = content lh \<and> lh_inv h cmp lh'"
proof -
  define lh1 where "lh1 = (if callback_depth lh < 2 ^ 32 - 1 then lh\<lparr>callback_depth := callback_depth lh + 1\<rparr> else lh)"
  define lh2 where "lh2 = (if callback_depth lh1 < 2 ^ 32 - 1 then lh1\<lparr>callback_depth := callback_depth lh1 - 1\<rparr> else lh1)"
  have b: "buckets lh1 = buckets lh" by (simp add: lh1_def)
  have "lh_inv h cmp lh2" "content lh2 = content lh"
    using assms by (simp_all add: lh1_def lh2_def lh_inv_def content_def)
  then have "lh_inv h cmp (lh_maybe_resize buckets_ok lh2)" "content (lh_maybe_resize buckets_ok lh2) = content lh"
    using lh_maybe_resize_ok [of h cmp lh2 buckets_ok] by simp_all
  moreover have "OPENSSL_lh_doall_arg buckets_ok func lh arg =
    (fold func (map item_data (concat (buckets lh))) arg, lh_maybe_resize buckets_ok lh2)"
    unfolding OPENSSL_lh_doall_arg_def lh1_def [symmetric] Let_def lh2_def [symmetric] foldl_chains b ..
  moreover have "mset (map item_data (concat (buckets lh))) = content lh" by (simp only: content_def)
  ultimately show ?thesis by blast
qed

theorem lhash_doall_visits_all_witness:
  "\<exists>lh xs lh'. OPENSSL_lh_new True True = Some lh \<and> OPENSSL_lh_doall_arg True (#) lh [] = (fold (#) xs [], lh') \<and>
    mset xs = content (lh :: nat lhash) \<and> content lh' = {#}"
proof -
  obtain lh0 :: "nat lhash" where n: "OPENSSL_lh_new True True = Some lh0" by (simp add: OPENSSL_lh_new_def)
  note i = lh_new_inv [OF n, of word_of_nat "\<lambda>a b. int a - int b"]
  show ?thesis using lhash_doall_visits_all [OF conjunct1 [OF i], of True "(#)" "[]"] i n by auto
qed

end
