(* ===== verification/Pool.thy ===== *)
theory Pool
  imports Lhash_Map Cbs
begin

unbundle bit_operations_syntax

text \<open>
  Shared byte buffers (\<open>crypto/pool/pool.c\<close>) with their reference counts (\<open>crypto/refcount_c11.c\<close>), on the hash table.

  A buffer is known by its address; the objects that are allocated are a map from addresses to buffers, so an
  address outside it has been freed or was never allocated.  The bytes that \<open>data\<close> points to do not change, and are
  part of the buffer.  There is one pool.  The code between taking and releasing the lock of the pool is one step:
  \<open>crypto_buffer_new\<close> has two such sections with an allocation between them, and other threads may run in between.
\<close>

section \<open>Hashing and comparing\<close>

definition OPENSSL_hash32 :: "byte list \<Rightarrow> 32 word" where
  "OPENSSL_hash32 bs = foldl (\<lambda>h b. (h XOR ucast b) * 16777619) 2166136261 bs"

definition OPENSSL_memcmp :: "byte list \<Rightarrow> byte list \<Rightarrow> nat \<Rightarrow> int" where
  "OPENSSL_memcmp s1 s2 n = (if n = 0 then 0 else memcmp (take n s1) (take n s2))"

record crypto_buffer =
  pooled :: bool
  buf_data :: "byte list"
  references :: "32 word"
  data_is_static :: bool

definition CRYPTO_BUFFER_hash :: "(addr \<Rightarrow> crypto_buffer) \<Rightarrow> addr \<Rightarrow> 32 word" where
  "CRYPTO_BUFFER_hash obj a = OPENSSL_hash32 (buf_data (obj a))"

definition CRYPTO_BUFFER_cmp :: "(addr \<Rightarrow> crypto_buffer) \<Rightarrow> addr \<Rightarrow> addr \<Rightarrow> int" where
  "CRYPTO_BUFFER_cmp obj a b =
     (if length (buf_data (obj a)) \<noteq> length (buf_data (obj b)) then 1
      else OPENSSL_memcmp (buf_data (obj a)) (buf_data (obj b)) (length (buf_data (obj a))))"

section \<open>Reference counts\<close>

text \<open>The loops around the atomic exchange make one atomic change; \<open>None\<close> is the call of \<open>abort\<close>.\<close>

definition CRYPTO_refcount_inc :: "32 word \<Rightarrow> 32 word" where
  "CRYPTO_refcount_inc cnt = (if cnt \<noteq> - 1 then cnt + 1 else cnt)"

definition CRYPTO_refcount_dec_and_test_zero :: "32 word \<Rightarrow> (bool \<times> 32 word) option" where
  "CRYPTO_refcount_dec_and_test_zero cnt =
     (if cnt = 0 then None
      else if cnt = - 1 then Some (False, cnt)
      else Some (cnt - 1 = 0, cnt - 1))"

section \<open>The pool\<close>

record pool_state =
  bufs :: "addr lhash"
  objects :: "addr \<Rightarrow> crypto_buffer option"

text \<open>What the code reads at an address.\<close>

definition obj_at :: "pool_state \<Rightarrow> addr \<Rightarrow> crypto_buffer" where
  "obj_at st a = (case objects st a of Some b \<Rightarrow> b | None \<Rightarrow> \<lparr>pooled = False, buf_data = [], references = 0, data_is_static = False\<rparr>)"

definition set_obj :: "pool_state \<Rightarrow> addr \<Rightarrow> crypto_buffer option \<Rightarrow> pool_state" where
  "set_obj st a b = st\<lparr>objects := (objects st)(a := b)\<rparr>"

definition inc_ref :: "pool_state \<Rightarrow> addr \<Rightarrow> pool_state" where
  "inc_ref st a = set_obj st a (Some ((obj_at st a)\<lparr>references := CRYPTO_refcount_inc (references (obj_at st a))\<rparr>))"

definition CRYPTO_BUFFER_POOL_new :: "bool \<Rightarrow> bool \<Rightarrow> bool \<Rightarrow> addr lhash option" where
  "CRYPTO_BUFFER_POOL_new pool_ok table_ok buckets_ok = (if \<not> pool_ok then None else OPENSSL_lh_new table_ok buckets_ok)"

definition crypto_buffer_free_object :: "pool_state \<Rightarrow> addr \<Rightarrow> pool_state" where
  "crypto_buffer_free_object st a = set_obj st a None"

text \<open>\<open>None\<close> is a failed assertion, which a build with \<open>NDEBUG\<close> does not check; the pool is gone afterwards, and its
  table holds no reference to the buffers.\<close>

definition CRYPTO_BUFFER_POOL_free :: "bool \<Rightarrow> pool_state \<Rightarrow> unit option" where
  "CRYPTO_BUFFER_POOL_free ndebug st = (if \<not> ndebug \<and> OPENSSL_lh_num_items (bufs st) \<noteq> 0 then None else Some ())"

text \<open>The address 0 is \<open>NULL\<close>, and no object has it; the first section uses it for \<open>tmp\<close> that is on the stack.\<close>

definition lookup_section :: "pool_state \<Rightarrow> byte list \<Rightarrow> bool \<Rightarrow> addr option \<times> pool_state" where
  "lookup_section st data is_static =
     (let tmp = \<lparr>pooled = False, buf_data = data, references = 0, data_is_static = False\<rparr>;
          obj = (obj_at st)(0 := tmp);
          duplicate = OPENSSL_lh_retrieve (CRYPTO_BUFFER_hash obj) (CRYPTO_BUFFER_cmp obj) (bufs st) 0;
          duplicate = (case duplicate of
              Some d \<Rightarrow> if is_static \<and> \<not> data_is_static (obj d) then None else Some d
            | None \<Rightarrow> None)
      in case duplicate of
           Some d \<Rightarrow> (Some d, inc_ref st d)
         | None \<Rightarrow> (None, st))"

text \<open>The allocation: \<open>a\<close> is the address that the allocator returns, if it does, and \<open>dup_ok\<close> whether the
  bytes could be copied.\<close>

definition create_buffer :: "pool_state \<Rightarrow> addr option \<Rightarrow> bool \<Rightarrow> byte list \<Rightarrow> bool \<Rightarrow> bool \<Rightarrow> addr option \<times> pool_state" where
  "create_buffer st alloc dup_ok data is_static in_pool =
     (case alloc of
        None \<Rightarrow> (None, st)
      | Some a \<Rightarrow>
          if \<not> is_static \<and> data \<noteq> [] \<and> \<not> dup_ok then (None, st)
          else (Some a, set_obj st a (Some \<lparr>pooled = in_pool, buf_data = data, references = 1, data_is_static = is_static\<rparr>)))"

text \<open>The second section, and what follows it.\<close>

definition insert_section :: "pool_state \<Rightarrow> bool \<Rightarrow> bool \<Rightarrow> addr \<Rightarrow> bool \<Rightarrow> addr option \<times> pool_state" where
  "insert_section st item_ok buckets_ok buf is_static =
     (let obj = obj_at st;
          h = CRYPTO_BUFFER_hash obj;
          cmp = CRYPTO_BUFFER_cmp obj;
          duplicate = OPENSSL_lh_retrieve h cmp (bufs st) buf;
          duplicate = (case duplicate of
              Some d \<Rightarrow> if is_static \<and> \<not> data_is_static (obj d) then None else Some d
            | None \<Rightarrow> None)
      in case duplicate of
           None \<Rightarrow>
             (case OPENSSL_lh_insert h cmp item_ok buckets_ok (bufs st) buf of
                (inserted, _, t) \<Rightarrow>
                  let st1 = st\<lparr>bufs := t\<rparr>
                  in if inserted then (Some buf, st1) else (None, crypto_buffer_free_object st1 buf))
         | Some d \<Rightarrow> (Some d, crypto_buffer_free_object (inc_ref st d) buf))"

text \<open>The whole function, when no other thread runs in between.\<close>

definition crypto_buffer_new ::
  "pool_state \<Rightarrow> addr option \<Rightarrow> bool \<Rightarrow> bool \<Rightarrow> bool \<Rightarrow> byte list \<Rightarrow> bool \<Rightarrow> bool \<Rightarrow> addr option \<times> pool_state" where
  "crypto_buffer_new st alloc dup_ok item_ok buckets_ok data is_static in_pool =
     (case (if in_pool then lookup_section st data is_static else (None, st)) of
        (Some d, st1) \<Rightarrow> (Some d, st1)
      | (None, st1) \<Rightarrow>
          (case create_buffer st1 alloc dup_ok data is_static in_pool of
             (None, st2) \<Rightarrow> (None, st2)
           | (Some a, st2) \<Rightarrow>
               if \<not> in_pool then (Some a, st2) else insert_section st2 item_ok buckets_ok a is_static))"

definition CRYPTO_BUFFER_new ::
  "pool_state \<Rightarrow> addr option \<Rightarrow> bool \<Rightarrow> bool \<Rightarrow> bool \<Rightarrow> byte list \<Rightarrow> bool \<Rightarrow> addr option \<times> pool_state" where
  "CRYPTO_BUFFER_new st alloc dup_ok item_ok buckets_ok data in_pool =
     crypto_buffer_new st alloc dup_ok item_ok buckets_ok data False in_pool"

definition CRYPTO_BUFFER_new_from_static_data_unsafe ::
  "pool_state \<Rightarrow> addr option \<Rightarrow> bool \<Rightarrow> bool \<Rightarrow> bool \<Rightarrow> byte list \<Rightarrow> bool \<Rightarrow> addr option \<times> pool_state" where
  "CRYPTO_BUFFER_new_from_static_data_unsafe st alloc dup_ok item_ok buckets_ok data in_pool =
     crypto_buffer_new st alloc dup_ok item_ok buckets_ok data True in_pool"

definition CRYPTO_BUFFER_free :: "bool \<Rightarrow> pool_state \<Rightarrow> addr \<Rightarrow> pool_state option" where
  "CRYPTO_BUFFER_free buckets_ok st buf =
     (if buf = 0 then Some st
      else case CRYPTO_refcount_dec_and_test_zero (references (obj_at st buf)) of
        None \<Rightarrow> None
      | Some (zero, cnt) \<Rightarrow>
          let st1 = set_obj st buf (Some ((obj_at st buf)\<lparr>references := cnt\<rparr>))
          in if \<not> zero then Some st1
             else if \<not> pooled (obj_at st buf) then Some (crypto_buffer_free_object st1 buf)
             else
               let h = CRYPTO_BUFFER_hash (obj_at st1);
                   cmp = CRYPTO_BUFFER_cmp (obj_at st1)
               in if OPENSSL_lh_retrieve h cmp (bufs st1) buf = Some buf then
                    (case OPENSSL_lh_delete h cmp buckets_ok (bufs st1) buf of
                       (found, t) \<Rightarrow>
                         if found \<noteq> Some buf then None
                         else Some (crypto_buffer_free_object (st1\<lparr>bufs := t\<rparr>) buf))
                  else Some (crypto_buffer_free_object st1 buf))"

definition CRYPTO_BUFFER_up_ref :: "pool_state \<Rightarrow> addr \<Rightarrow> pool_state" where
  "CRYPTO_BUFFER_up_ref st buf = inc_ref st buf"

definition CRYPTO_BUFFER_data :: "pool_state \<Rightarrow> addr \<Rightarrow> byte list" where
  "CRYPTO_BUFFER_data st buf = buf_data (obj_at st buf)"

definition CRYPTO_BUFFER_len :: "pool_state \<Rightarrow> addr \<Rightarrow> nat" where
  "CRYPTO_BUFFER_len st buf = length (buf_data (obj_at st buf))"

text \<open>The bytes that the allocator returns are not initialised: \<open>data\<close> is what they happen to be.\<close>

definition CRYPTO_BUFFER_alloc :: "pool_state \<Rightarrow> addr option \<Rightarrow> bool \<Rightarrow> byte list \<Rightarrow> addr option \<times> pool_state" where
  "CRYPTO_BUFFER_alloc st alloc data_ok data =
     (case alloc of
        None \<Rightarrow> (None, st)
      | Some a \<Rightarrow>
          if data \<noteq> [] \<and> \<not> data_ok then (None, st)
          else (Some a, set_obj st a (Some \<lparr>pooled = False, buf_data = data, references = 1, data_is_static = False\<rparr>)))"

definition CRYPTO_BUFFER_new_from_CBS ::
  "pool_state \<Rightarrow> addr option \<Rightarrow> bool \<Rightarrow> bool \<Rightarrow> bool \<Rightarrow> cbs \<Rightarrow> bool \<Rightarrow> addr option \<times> pool_state" where
  "CRYPTO_BUFFER_new_from_CBS st alloc dup_ok item_ok buckets_ok cbs in_pool =
     CRYPTO_BUFFER_new st alloc dup_ok item_ok buckets_ok (take (CBS_len cbs) cbs) in_pool"

definition CRYPTO_BUFFER_init_CBS :: "pool_state \<Rightarrow> addr \<Rightarrow> cbs" where
  "CRYPTO_BUFFER_init_CBS st buf = CBS_init (CRYPTO_BUFFER_data st buf) (CRYPTO_BUFFER_len st buf)"

end
