(* ===== verification/Pool_Inv.thy ===== *)
theory Pool_Inv
  imports Pool
begin

text \<open>
  The pool never holds a buffer that has been freed, whatever threads do between its locked sections, and buffers
  with the same bytes are shared.
\<close>

section \<open>Buffers as keys\<close>

lemma memcmp_zero: "length xs = length ys \<Longrightarrow> memcmp xs ys = 0 \<longleftrightarrow> xs = ys"
  by (induction xs ys rule: memcmp.induct) (auto simp: not_less_iff_gr_or_eq)

lemma cmp_zero [simp]: "CRYPTO_BUFFER_cmp obj a b = 0 \<longleftrightarrow> buf_data (obj a) = buf_data (obj b)"
  by (auto simp: CRYPTO_BUFFER_cmp_def OPENSSL_memcmp_def memcmp_zero)

interpretation buffers: lh_keys "CRYPTO_BUFFER_hash obj" "CRYPTO_BUFFER_cmp obj" for obj
  by unfold_locales (simp_all add: CRYPTO_BUFFER_hash_def)

abbreviation (input) table_ok :: "(addr \<Rightarrow> crypto_buffer) \<Rightarrow> addr lhash \<Rightarrow> bool" where
  "table_ok obj t \<equiv> lh_inv (CRYPTO_BUFFER_hash obj) (CRYPTO_BUFFER_cmp obj) t"

text \<open>The table depends only on the bytes of the buffers that are in it.\<close>

lemma table_ok_cong:
  assumes "table_ok obj t" "\<And>x. x \<in># content t \<Longrightarrow> buf_data (obj' x) = buf_data (obj x)"
  shows "table_ok obj' t"
proof -
  have h: "CRYPTO_BUFFER_hash obj' x = CRYPTO_BUFFER_hash obj x" if "x \<in># content t" for x
    using assms(2) [OF that] by (simp add: CRYPTO_BUFFER_hash_def)
  have "placed (CRYPTO_BUFFER_hash obj') (num_buckets t) (buckets t)"
  proof -
    have p: "placed (CRYPTO_BUFFER_hash obj) (num_buckets t) (buckets t)" using assms(1) by (simp add: lh_inv_def)
    have "item_data it \<in># content t" if "b < num_buckets t" "it \<in> set (buckets t ! b)" for b it
      using content_mem [of t "\<lambda>x. x \<in># content t"] that p by (simp add: placed_def)
    then show ?thesis using p h unfolding placed_def by metis
  qed
  moreover have "unique (CRYPTO_BUFFER_cmp obj') (content t)"
    unfolding unique_def
  proof
    fix a
    show "size {#x \<in># content t. CRYPTO_BUFFER_cmp obj' x a = 0#} \<le> 1"
    proof (cases "\<exists>y \<in># content t. buf_data (obj y) = buf_data (obj' a)")
      case True
      then obtain y where y: "y \<in># content t" "buf_data (obj y) = buf_data (obj' a)" by blast
      have "{#x \<in># content t. CRYPTO_BUFFER_cmp obj' x a = 0#} = {#x \<in># content t. CRYPTO_BUFFER_cmp obj x y = 0#}"
        by (rule filter_mset_cong) (use y(2) assms(2) in auto)
      then show ?thesis using assms(1) by (simp add: lh_inv_def unique_def del: cmp_zero)
    next
      case False
      then have "{#x \<in># content t. CRYPTO_BUFFER_cmp obj' x a = 0#} = {#x \<in># content t. False#}"
        by (intro filter_mset_cong) (use assms(2) in auto)
      then show ?thesis by (simp only: filter_mset_False size_empty)
    qed
  qed
  ultimately show ?thesis using assms(1) by (simp add: lh_inv_def)
qed

section \<open>Threads\<close>

text \<open>The state of the pool with what the threads hold: \<open>held b\<close> references to \<open>b\<close>, and the buffers that were
  created and not yet offered to the pool.\<close>

record pool_conf =
  pst :: pool_state
  held :: "addr \<Rightarrow> nat"
  created :: "addr set"

inductive pool_step :: "pool_conf \<Rightarrow> pool_conf \<Rightarrow> bool" where
  found: "lookup_section (pst c) data is_static = (Some d, st) \<Longrightarrow>
    pool_step c (c\<lparr>pst := st, held := (held c)(d := held c d + 1)\<rparr>)"
| create: "objects (pst c) a = None \<Longrightarrow> a \<noteq> 0 \<Longrightarrow> create_buffer (pst c) (Some a) dup_ok data is_static True = (Some a, st) \<Longrightarrow>
    pool_step c (c\<lparr>pst := st, created := insert a (created c)\<rparr>)"
| insert: "a \<in> created c \<Longrightarrow> is_static = data_is_static (obj_at (pst c) a) \<Longrightarrow>
    insert_section (pst c) item_ok buckets_ok a is_static = (r, st) \<Longrightarrow>
    pool_step c (c\<lparr>pst := st, held := (case r of None \<Rightarrow> held c | Some d \<Rightarrow> (held c)(d := held c d + 1)), created := created c - {a}\<rparr>)"
| unpooled: "objects (pst c) a = None \<Longrightarrow> a \<noteq> 0 \<Longrightarrow> create_buffer (pst c) (Some a) dup_ok data is_static False = (Some a, st) \<Longrightarrow>
    pool_step c (c\<lparr>pst := st, held := (held c)(a := 1)\<rparr>)"
| up_ref: "0 < held c b \<Longrightarrow>
    pool_step c (c\<lparr>pst := CRYPTO_BUFFER_up_ref (pst c) b, held := (held c)(b := held c b + 1)\<rparr>)"
| release: "0 < held c b \<Longrightarrow> CRYPTO_BUFFER_free buckets_ok (pst c) b = Some st \<Longrightarrow>
    pool_step c (c\<lparr>pst := st, held := (held c)(b := held c b - 1)\<rparr>)"

inductive pool_reachable :: "pool_conf \<Rightarrow> bool" where
  start: "CRYPTO_BUFFER_POOL_new m1 m2 m3 = Some t \<Longrightarrow>
    pool_reachable \<lparr>pst = \<lparr>bufs = t, objects = \<lambda>_. None\<rparr>, held = \<lambda>_. 0, created = {}\<rparr>"
| step: "pool_reachable c \<Longrightarrow> pool_step c c' \<Longrightarrow> pool_reachable c'"

definition count_ok :: "crypto_buffer option \<Rightarrow> nat \<Rightarrow> bool \<Rightarrow> bool" where
  "count_ok ob n new =
     (case ob of
        None \<Rightarrow> n = 0 \<and> \<not> new
      | Some b \<Rightarrow> if new then n = 0 \<and> references b = 1 \<and> pooled b
                 else references b \<noteq> 0 \<and> (references b = - 1 \<or> unat (references b) = n))"

definition pool_inv :: "pool_conf \<Rightarrow> bool" where
  "pool_inv c \<longleftrightarrow>
     table_ok (obj_at (pst c)) (bufs (pst c)) \<and>
     (\<forall>x \<in># content (bufs (pst c)). objects (pst c) x \<noteq> None \<and> x \<notin> created c \<and> pooled (obj_at (pst c) x)) \<and>
     objects (pst c) 0 = None \<and>
     (\<forall>b. count_ok (objects (pst c) b) (held c b) (b \<in> created c))"

section \<open>Counting\<close>

lemma inc_count:
  assumes "count_ok (Some b) n False"
  shows "count_ok (Some (b\<lparr>references := CRYPTO_refcount_inc (references b)\<rparr>)) (n + 1) False"
proof (cases "references b = - 1")
  case True
  then show ?thesis by (simp add: count_ok_def CRYPTO_refcount_inc_def)
next
  case False
  then have ne: "1 + references b \<noteq> 0" by (metis add.commute add_eq_0_iff)
  then have "unat (references b + 1) = n + 1"
    using assms False unatSuc [OF ne] by (simp add: count_ok_def add.commute)
  then show ?thesis using ne False by (simp add: count_ok_def CRYPTO_refcount_inc_def add.commute)
qed

lemma dec_count:
  assumes "count_ok (Some b) n False" "0 < n"
  shows "\<exists>zero cnt. CRYPTO_refcount_dec_and_test_zero (references b) = Some (zero, cnt) \<and>
    (if zero then n = 1 else count_ok (Some (b\<lparr>references := cnt\<rparr>)) (n - 1) False)"
proof (cases "references b = - 1")
  case True
  then show ?thesis by (auto simp: count_ok_def CRYPTO_refcount_dec_and_test_zero_def)
next
  case False
  then have u: "unat (references b) = n" "references b \<noteq> 0" using assms(1) by (simp_all add: count_ok_def)
  have m: "unat (references b - 1) = n - 1" using u by (simp add: unat_minus_one)
  have "references b - 1 = 0 \<longleftrightarrow> n = 1" using m assms(2) by (metis Suc_diff_1 diff_Suc_1 One_nat_def unat_eq_zero)
  then show ?thesis using False u(2) m by (auto simp: count_ok_def CRYPTO_refcount_dec_and_test_zero_def)
qed

section \<open>The invariant is kept\<close>

lemma obj_at_upd: "obj_at (set_obj st a (Some b)) = (obj_at st)(a := b)"
  by (auto simp: obj_at_def set_obj_def)

lemma set_obj_simps [simp]: "bufs (set_obj st a b) = bufs st" "objects (set_obj st a b) = (objects st)(a := b)"
  by (simp_all add: set_obj_def)

lemma obj_at_bufs [simp]: "obj_at (st\<lparr>bufs := t\<rparr>) = obj_at st"
  by (rule ext) (simp add: obj_at_def)

lemma pool_invD:
  assumes "pool_inv c"
  shows "table_ok (obj_at (pst c)) (bufs (pst c))"
    "x \<in># content (bufs (pst c)) \<Longrightarrow> objects (pst c) x \<noteq> None \<and> x \<notin> created c \<and> pooled (obj_at (pst c) x)"
    "objects (pst c) 0 = None" "count_ok (objects (pst c) b) (held c b) (b \<in> created c)"
    "held c b > 0 \<Longrightarrow> objects (pst c) b = Some (obj_at (pst c) b) \<and> b \<notin> created c"
    "b \<in> created c \<Longrightarrow> objects (pst c) b = Some (obj_at (pst c) b) \<and> held c b = 0 \<and> references (obj_at (pst c) b) = 1"
proof -
  show "table_ok (obj_at (pst c)) (bufs (pst c))"
    "x \<in># content (bufs (pst c)) \<Longrightarrow> objects (pst c) x \<noteq> None \<and> x \<notin> created c \<and> pooled (obj_at (pst c) x)"
    "objects (pst c) 0 = None" and n: "count_ok (objects (pst c) b) (held c b) (b \<in> created c)"
    using assms by (simp_all add: pool_inv_def)
  show "held c b > 0 \<Longrightarrow> objects (pst c) b = Some (obj_at (pst c) b) \<and> b \<notin> created c"
    "b \<in> created c \<Longrightarrow> objects (pst c) b = Some (obj_at (pst c) b) \<and> held c b = 0 \<and> references (obj_at (pst c) b) = 1"
    using n by (auto simp: count_ok_def obj_at_def split: option.splits if_splits)
qed

text \<open>A change of one object: the table reads only the bytes of the objects in it.\<close>

lemma pool_inv_upd:
  assumes "pool_inv c" "b \<noteq> 0" "pst c' = (pst c)\<lparr>bufs := t, objects := (objects (pst c))(b := ob)\<rparr>"
    "table_ok (obj_at (pst c')) t"
    "\<And>x. x \<in># content t \<Longrightarrow> x \<in># content (bufs (pst c)) \<and> x \<noteq> b \<or> x = b \<and> (\<exists>v. ob = Some v \<and> pooled v) \<and> b \<notin> created c'"
    "\<And>x. x \<noteq> b \<Longrightarrow> x \<in> created c' \<longleftrightarrow> x \<in> created c" "\<And>x. x \<noteq> b \<Longrightarrow> held c' x = held c x"
    "count_ok ob (held c' b) (b \<in> created c')"
  shows "pool_inv c'"
  unfolding pool_inv_def
proof (intro conjI allI ballI)
  show "table_ok (obj_at (pst c')) (bufs (pst c'))" using assms(3, 4) by simp
  show "objects (pst c') 0 = None" using assms(2, 3) pool_invD(3) [OF assms(1)] by simp
  fix x
  show "count_ok (objects (pst c') x) (held c' x) (x \<in> created c')"
    using assms(3, 6-8) pool_invD(4) [OF assms(1), of x] by (cases "x = b") auto
next
  fix x assume "x \<in># content (bufs (pst c'))"
  then have x: "x \<in># content t" using assms(3) by simp
  show "objects (pst c') x \<noteq> None" "x \<notin> created c'" "pooled (obj_at (pst c') x)"
    using assms(5) [OF x] assms(3, 6) pool_invD(2) [OF assms(1), of x] by (auto simp: obj_at_def)
qed

lemma live_nonzero: "pool_inv c \<Longrightarrow> objects (pst c) b \<noteq> None \<Longrightarrow> b \<noteq> 0"
  using pool_invD(3) by metis

lemma inc_inv:
  assumes "pool_inv c" "objects (pst c) b \<noteq> None" "b \<notin> created c"
  shows "pool_inv (c\<lparr>pst := inc_ref (pst c) b, held := (held c)(b := held c b + 1)\<rparr>)"
proof (rule pool_inv_upd [OF assms(1) live_nonzero [OF assms(1, 2)]])
  let ?v = "(obj_at (pst c) b)\<lparr>references := CRYPTO_refcount_inc (references (obj_at (pst c) b))\<rparr>"
  have b: "objects (pst c) b = Some (obj_at (pst c) b)" using assms(2) by (auto simp: obj_at_def)
  show "pst (c\<lparr>pst := inc_ref (pst c) b, held := (held c)(b := held c b + 1)\<rparr>) =
    (pst c)\<lparr>bufs := bufs (pst c), objects := (objects (pst c))(b := Some ?v)\<rparr>"
    by (simp add: inc_ref_def set_obj_def)
  show "table_ok (obj_at (pst (c\<lparr>pst := inc_ref (pst c) b, held := (held c)(b := held c b + 1)\<rparr>))) (bufs (pst c))"
    by (rule table_ok_cong [OF pool_invD(1) [OF assms(1)]]) (simp add: inc_ref_def obj_at_upd)
  show "count_ok (Some ?v) (held (c\<lparr>pst := inc_ref (pst c) b, held := (held c)(b := held c b + 1)\<rparr>) b)
    (b \<in> created (c\<lparr>pst := inc_ref (pst c) b, held := (held c)(b := held c b + 1)\<rparr>))"
    using inc_count [of "obj_at (pst c) b" "held c b"] pool_invD(4) [OF assms(1), of b] assms(3) b by simp
qed (use assms(3) pool_invD(2) [OF assms(1)] in auto)

text \<open>An object that is not in the table is added, changed or freed.\<close>

lemma outside_inv:
  assumes "pool_inv c" "b \<noteq> 0" "b \<notin># content (bufs (pst c))" "pst c' = set_obj (pst c) b ob"
    "\<And>x. x \<noteq> b \<Longrightarrow> x \<in> created c' \<longleftrightarrow> x \<in> created c" "\<And>x. x \<noteq> b \<Longrightarrow> held c' x = held c x"
    "count_ok ob (held c' b) (b \<in> created c')"
  shows "pool_inv c'"
proof (rule pool_inv_upd [OF assms(1, 2)])
  show "pst c' = (pst c)\<lparr>bufs := bufs (pst c), objects := (objects (pst c))(b := ob)\<rparr>"
    using assms(4) by (simp add: set_obj_def)
  show "table_ok (obj_at (pst c')) (bufs (pst c))"
    by (rule table_ok_cong [OF pool_invD(1) [OF assms(1)]]) (use assms(3, 4) in \<open>auto simp: obj_at_def\<close>)
qed (use assms(3, 5-7) in auto)

lemma not_in_table:
  assumes "pool_inv c"
  shows "objects (pst c) a = None \<Longrightarrow> a \<notin># content (bufs (pst c))" "a \<in> created c \<Longrightarrow> a \<notin># content (bufs (pst c))"
    "\<not> pooled (obj_at (pst c) a) \<Longrightarrow> a \<notin># content (bufs (pst c))"
  using pool_invD(2) [OF assms, of a] by auto

lemma drop_created:
  assumes "pool_inv c" "a \<in> created c"
  shows "pool_inv (c\<lparr>pst := crypto_buffer_free_object (pst c) a, created := created c - {a}\<rparr>)"
  by (rule outside_inv [OF assms(1) _ not_in_table(2) [OF assms], where ob = None])
    (use pool_invD(6) [OF assms] live_nonzero [OF assms(1), of a] in \<open>auto simp: crypto_buffer_free_object_def count_ok_def\<close>)

text \<open>What the first section finds is in the table, with the bytes that were asked for.\<close>

lemma lookup_found:
  assumes "pool_inv c" "lookup_section (pst c) data is_static = (Some d, st)"
  shows "d \<in># content (bufs (pst c))" "buf_data (obj_at (pst c) d) = data" "st = inc_ref (pst c) d"
proof -
  let ?obj = "(obj_at (pst c))(0 := \<lparr>pooled = False, buf_data = data, references = 0, data_is_static = False\<rparr>)"
  have z: "0 \<notin># content (bufs (pst c))" by (rule not_in_table(1) [OF assms(1) pool_invD(3) [OF assms(1)]])
  have t: "table_ok ?obj (bufs (pst c))"
    by (rule table_ok_cong [OF pool_invD(1) [OF assms(1)]]) (use z in auto)
  have r: "OPENSSL_lh_retrieve (CRYPTO_BUFFER_hash ?obj) (CRYPTO_BUFFER_cmp ?obj) (bufs (pst c)) 0 = Some d" "st = inc_ref (pst c) d"
    using assms(2) by (auto simp: lookup_section_def Let_def split: option.splits if_splits)
  then show "d \<in># content (bufs (pst c))" "buf_data (obj_at (pst c) d) = data" "st = inc_ref (pst c) d"
    using buffers.retrieve_iff(1) [OF t, of 0 d] z by (auto split: if_splits)
qed

lemma create_inv:
  assumes "pool_inv c" "objects (pst c) a = None" "a \<noteq> 0" "create_buffer (pst c) (Some a) dup_ok data is_static in_pool = (Some a, st)"
  shows "pool_inv (if in_pool then c\<lparr>pst := st, created := insert a (created c)\<rparr> else c\<lparr>pst := st, held := (held c)(a := 1)\<rparr>)"
proof (rule outside_inv [OF assms(1, 3) not_in_table(1) [OF assms(1, 2)]])
  let ?v = "Some \<lparr>pooled = in_pool, buf_data = data, references = 1, data_is_static = is_static\<rparr>"
  have new: "held c a = 0" "a \<notin> created c" using pool_invD(4) [OF assms(1), of a] assms(2) by (auto simp: count_ok_def)
  show "pst (if in_pool then c\<lparr>pst := st, created := insert a (created c)\<rparr> else c\<lparr>pst := st, held := (held c)(a := 1)\<rparr>) =
    set_obj (pst c) a ?v"
    using assms(4) by (auto simp: create_buffer_def split: if_splits)
  show "count_ok ?v (held (if in_pool then c\<lparr>pst := st, created := insert a (created c)\<rparr> else c\<lparr>pst := st, held := (held c)(a := 1)\<rparr>) a)
    (a \<in> created (if in_pool then c\<lparr>pst := st, created := insert a (created c)\<rparr> else c\<lparr>pst := st, held := (held c)(a := 1)\<rparr>))"
    using new by (simp add: count_ok_def)
qed auto

lemma insert_inv:
  assumes "pool_inv c" "a \<in> created c" "insert_section (pst c) item_ok buckets_ok a is_static = (r, st)"
  shows "pool_inv (c\<lparr>pst := st, held := (case r of None \<Rightarrow> held c | Some d \<Rightarrow> (held c)(d := held c d + 1)), created := created c - {a}\<rparr>)"
    (is "pool_inv ?c")
proof -
  let ?obj = "obj_at (pst c)" let ?h = "CRYPTO_BUFFER_hash ?obj" and ?cmp = "CRYPTO_BUFFER_cmp ?obj" and ?t = "bufs (pst c)"
  note t = pool_invD(1) [OF assms(1)] and a = pool_invD(6) [OF assms(1, 2)] and out = not_in_table(2) [OF assms(1, 2)]
  define dup where "dup = (case OPENSSL_lh_retrieve ?h ?cmp ?t a of
      Some d \<Rightarrow> if is_static \<and> \<not> data_is_static (?obj d) then None else Some d | None \<Rightarrow> None)"
  show ?thesis
  proof (cases dup)
    case (Some d)
    then have d: "d \<in># content ?t" using buffers.retrieve_iff(1) [OF t, of a d] by (auto simp: dup_def split: option.splits if_splits)
    then have ne: "d \<noteq> a" using out by auto
    let ?c1 = "c\<lparr>pst := inc_ref (pst c) d, held := (held c)(d := held c d + 1)\<rparr>"
    have "pool_inv ?c1" by (rule inc_inv) (use assms(1) pool_invD(2) [OF assms(1) d] in auto)
    then have "pool_inv (?c1\<lparr>pst := crypto_buffer_free_object (pst ?c1) a, created := created ?c1 - {a}\<rparr>)"
      by (rule drop_created) (use assms(2) in simp)
    moreover have "r = Some d" "st = crypto_buffer_free_object (inc_ref (pst c) d) a"
      using assms(3) Some by (simp_all add: insert_section_def Let_def dup_def)
    ultimately show ?thesis by (cases c) simp
  next
    case None
    obtain ok old t' where i: "OPENSSL_lh_insert ?h ?cmp item_ok buckets_ok ?t a = (ok, old, t')" by (metis prod.exhaust)
    note ins = buffers.insert_content [OF t i]
    have res: "(r, st) = (if ok then (Some a, (pst c)\<lparr>bufs := t'\<rparr>) else (None, crypto_buffer_free_object ((pst c)\<lparr>bufs := t'\<rparr>) a))"
      using assms(3) None i by (simp add: insert_section_def Let_def dup_def)
    show ?thesis
    proof (cases ok)
      case False
      then have "t' = ?t" using ins by simp
      then show ?thesis using drop_created [OF assms(1, 2)] res False by simp
    next
      case True
      have sub: "x = a \<or> x \<in># content ?t" if "x \<in># content t'" for x
        using ins True that by (auto split: option.splits dest: in_diffD)
      show ?thesis
      proof (rule pool_inv_upd [OF assms(1)])
        show "a \<noteq> 0" using live_nonzero [OF assms(1)] a by simp
        show "pst ?c = (pst c)\<lparr>bufs := t', objects := (objects (pst c))(a := objects (pst c) a)\<rparr>" using res True by simp
        show "table_ok (obj_at (pst ?c)) t'" using ins res True by (simp add: obj_at_def)
        show "x \<in># content ?t \<and> x \<noteq> a \<or> x = a \<and> (\<exists>v. objects (pst c) a = Some v \<and> pooled v) \<and> a \<notin> created ?c"
          if "x \<in># content t'" for x
          using sub [OF that] a pool_invD(4) [OF assms(1), of a] assms(2) by (auto simp: count_ok_def)
        show "count_ok (objects (pst c) a) (held ?c a) (a \<in> created ?c)" using a res True by (simp add: count_ok_def)
      qed (use res True in auto)
    qed
  qed
qed

lemma release_ok:
  assumes "pool_inv c" "0 < held c b"
  shows "\<exists>st. CRYPTO_BUFFER_free buckets_ok (pst c) b = Some st \<and> pool_inv (c\<lparr>pst := st, held := (held c)(b := held c b - 1)\<rparr>)"
proof -
  let ?v = "obj_at (pst c) b"
  have b: "objects (pst c) b = Some ?v" "b \<notin> created c" using pool_invD(5) [OF assms] by simp_all
  have nz: "b \<noteq> 0" using live_nonzero [OF assms(1)] b by simp
  have cnt: "count_ok (Some ?v) (held c b) False" using pool_invD(4) [OF assms(1), of b] b by simp
  obtain zero cn where d: "CRYPTO_refcount_dec_and_test_zero (references ?v) = Some (zero, cn)"
    "if zero then held c b = 1 else count_ok (Some (?v\<lparr>references := cn\<rparr>)) (held c b - 1) False"
    using dec_count [OF cnt assms(2)] by blast
  define st1 where "st1 = set_obj (pst c) b (Some (?v\<lparr>references := cn\<rparr>))"
  have t1: "table_ok (obj_at st1) (bufs (pst c))"
    by (rule table_ok_cong [OF pool_invD(1) [OF assms(1)]]) (simp add: st1_def obj_at_upd)
  show ?thesis
  proof (cases zero)
    case False
    have "pool_inv (c\<lparr>pst := st1, held := (held c)(b := held c b - 1)\<rparr>)"
    proof (rule pool_inv_upd [OF assms(1) nz])
      show "pst (c\<lparr>pst := st1, held := (held c)(b := held c b - 1)\<rparr>) =
        (pst c)\<lparr>bufs := bufs (pst c), objects := (objects (pst c))(b := Some (?v\<lparr>references := cn\<rparr>))\<rparr>"
        by (simp add: st1_def set_obj_def)
      show "x \<in># content (bufs (pst c)) \<and> x \<noteq> b \<or>
        x = b \<and> (\<exists>v. Some (?v\<lparr>references := cn\<rparr>) = Some v \<and> pooled v) \<and> b \<notin> created (c\<lparr>pst := st1, held := (held c)(b := held c b - 1)\<rparr>)"
        if "x \<in># content (bufs (pst c))" for x using that pool_invD(2) [OF assms(1) that] b(2) by auto
    qed (use t1 d(2) False b(2) in auto)
    then show ?thesis using d(1) False nz by (simp add: CRYPTO_BUFFER_free_def st1_def)
  next
    case True
    have free: "pool_inv (c\<lparr>pst := crypto_buffer_free_object (st1\<lparr>bufs := t\<rparr>) b, held := (held c)(b := held c b - 1)\<rparr>)"
      if t: "table_ok (obj_at st1) t" "b \<notin># content t" "\<And>x. x \<in># content t \<Longrightarrow> x \<in># content (bufs (pst c))" for t
    proof (rule pool_inv_upd [OF assms(1) nz])
      show "pst (c\<lparr>pst := crypto_buffer_free_object (st1\<lparr>bufs := t\<rparr>) b, held := (held c)(b := held c b - 1)\<rparr>) =
        (pst c)\<lparr>bufs := t, objects := (objects (pst c))(b := None)\<rparr>"
        by (simp add: st1_def set_obj_def crypto_buffer_free_object_def)
      show "table_ok (obj_at (pst (c\<lparr>pst := crypto_buffer_free_object (st1\<lparr>bufs := t\<rparr>) b, held := (held c)(b := held c b - 1)\<rparr>))) t"
        by (rule table_ok_cong [OF t(1)]) (use t(2) in \<open>auto simp: crypto_buffer_free_object_def set_obj_def obj_at_def\<close>)
      show "x \<in># content (bufs (pst c)) \<and> x \<noteq> b \<or> x = b \<and> (\<exists>v. None = Some v \<and> pooled v) \<and>
        b \<notin> created (c\<lparr>pst := crypto_buffer_free_object (st1\<lparr>bufs := t\<rparr>) b, held := (held c)(b := held c b - 1)\<rparr>)"
        if "x \<in># content t" for x using t(2, 3) that by auto
    qed (use d(2) True b(2) in \<open>auto simp: count_ok_def\<close>)
    let ?h = "CRYPTO_BUFFER_hash (obj_at st1)" and ?cmp = "CRYPTO_BUFFER_cmp (obj_at st1)" and ?t = "bufs (pst c)"
    have s1: "bufs st1 = ?t" "st1\<lparr>bufs := ?t\<rparr> = st1" by (simp_all add: st1_def set_obj_def)
    have iff: "OPENSSL_lh_retrieve ?h ?cmp ?t b = Some b \<longleftrightarrow> b \<in># content ?t" using buffers.retrieve_iff(1) [OF t1, of b b] by simp
    show ?thesis
    proof (cases "b \<in># content ?t")
      case False
      then have "CRYPTO_BUFFER_free buckets_ok (pst c) b = Some (crypto_buffer_free_object st1 b)"
        using d(1) True iff s1 nz by (simp add: CRYPTO_BUFFER_free_def st1_def [symmetric] Let_def)
      then show ?thesis using free [OF t1 False] s1 by simp
    next
      case inT: True
      obtain r t where del: "OPENSSL_lh_delete ?h ?cmp buckets_ok ?t b = (r, t)" by (metis prod.exhaust)
      note dc = buffers.delete_content [OF t1 del]
      have r: "r = Some b" using dc iff inT by simp
      have u: "unique ?cmp (content ?t)" using t1 by (simp add: lh_inv_def)
      have ct: "content t = content ?t - {#b#}" using conjunct2 [OF conjunct2 [OF dc]] unfolding r by simp
      have "b \<notin># content t" using ct buffers.unique_remove(2) [OF u inT, of b] by auto
      then have "pool_inv (c\<lparr>pst := crypto_buffer_free_object (st1\<lparr>bufs := t\<rparr>) b, held := (held c)(b := held c b - 1)\<rparr>)"
        using conjunct1 [OF dc] ct by (intro free) (auto dest: in_diffD)
      moreover have "pooled ?v" using pool_invD(2) [OF assms(1) inT] by simp
      ultimately show ?thesis
        using d(1) True iff inT del r s1 nz by (simp add: CRYPTO_BUFFER_free_def st1_def [symmetric] Let_def)
    qed
  qed
qed

section \<open>Safety\<close>

lemma pool_step_inv: "pool_step c c' \<Longrightarrow> pool_inv c \<Longrightarrow> pool_inv c'"
proof (induction rule: pool_step.induct)
  case (found c data is_static d st)
  then show ?case using lookup_found [OF found(2, 1)] inc_inv [OF found(2), of d] pool_invD(2) [OF found(2), of d] by simp
next
  case (create c a dup_ok data is_static st)
  then show ?case using create_inv [OF create(4, 1-3)] by simp
next
  case (insert a c is_static item_ok buckets_ok r st)
  then show ?case using insert_inv [OF insert(4, 1, 3)] by simp
next
  case (unpooled c a dup_ok data is_static st)
  then show ?case using create_inv [OF unpooled(4, 1-3)] by simp
next
  case (up_ref c b)
  then show ?case
    using inc_inv [OF up_ref(2), of b] pool_invD(5) [OF up_ref(2, 1)] by (simp add: CRYPTO_BUFFER_up_ref_def)
next
  case (release c b buckets_ok st)
  then show ?case using release_ok [OF release(3, 1), of buckets_ok] by simp
qed

lemma pool_reachable_inv: "pool_reachable c \<Longrightarrow> pool_inv c"
proof (induction rule: pool_reachable.induct)
  case (start m1 m2 m3 t)
  then have "OPENSSL_lh_new m2 m3 = Some t" by (simp add: CRYPTO_BUFFER_POOL_new_def split: if_splits)
  then show ?case using lh_new_inv [of m2 m3 t] by (simp add: pool_inv_def count_ok_def)
qed (rule pool_step_inv)

text \<open>C27. The pool is memory safe under every interleaving of its locked sections.  In every state that threads
  can reach by looking up, creating, inserting, sharing and releasing buffers, each buffer in the table is
  allocated; each buffer that some thread holds a reference to is allocated, and its count is exact
  unless it has saturated; no two buffers in the table have the same bytes; and releasing a
  reference that is held never aborts.\<close>

theorem pool_memory_safe:
  assumes "pool_reachable c"
  shows "(\<forall>x \<in># content (bufs (pst c)). objects (pst c) x \<noteq> None) \<and>
    (\<forall>b. 0 < held c b \<longrightarrow>
       (\<exists>v. objects (pst c) b = Some v \<and> (references v = - 1 \<or> unat (references v) = held c b)) \<and>
       (\<forall>m. \<exists>st. CRYPTO_BUFFER_free m (pst c) b = Some st)) \<and>
    (\<forall>x \<in># content (bufs (pst c)). \<forall>y \<in># content (bufs (pst c)).
       CRYPTO_BUFFER_data (pst c) x = CRYPTO_BUFFER_data (pst c) y \<longrightarrow> x = y)"
proof (intro conjI allI ballI impI)
  note inv = pool_reachable_inv [OF assms]
  fix x assume x: "x \<in># content (bufs (pst c))"
  show "objects (pst c) x \<noteq> None" using pool_invD(2) [OF inv x] by simp
  fix y assume "y \<in># content (bufs (pst c))" "CRYPTO_BUFFER_data (pst c) x = CRYPTO_BUFFER_data (pst c) y"
  then show "x = y"
    using buffers.unique_eq [OF _ x, of "obj_at (pst c)" y] pool_invD(1) [OF inv] by (simp add: lh_inv_def CRYPTO_BUFFER_data_def)
next
  note inv = pool_reachable_inv [OF assms]
  fix b assume b: "0 < held c b"
  show "\<exists>v. objects (pst c) b = Some v \<and> (references v = - 1 \<or> unat (references v) = held c b)"
    using pool_invD(5) [OF inv b] pool_invD(4) [OF inv, of b] by (auto simp: count_ok_def)
  fix m
  show "\<exists>st. CRYPTO_BUFFER_free m (pst c) b = Some st" using release_ok [OF inv b, of m] by blast
qed

lemma new_pool: "\<exists>t. CRYPTO_BUFFER_POOL_new True True True = Some t"
  by (simp add: CRYPTO_BUFFER_POOL_new_def OPENSSL_lh_new_def)

theorem pool_memory_safe_witness:
  "\<exists>(c :: pool_conf) st. held c 5 = 1 \<and> CRYPTO_BUFFER_data (pst c) 5 = [1, 2] \<and> CRYPTO_BUFFER_free True (pst c) 5 = Some st"
proof -
  obtain t where t: "CRYPTO_BUFFER_POOL_new True True True = Some t" using new_pool by blast
  let ?init = "\<lparr>pst = \<lparr>bufs = t, objects = \<lambda>_. None\<rparr>, held = \<lambda>_. 0, created = {}\<rparr>"
  let ?st = "set_obj (pst ?init) 5 (Some \<lparr>pooled = False, buf_data = [1, 2], references = 1, data_is_static = False\<rparr>)"
  let ?c = "?init\<lparr>pst := ?st, held := (held ?init)(5 := 1)\<rparr>"
  have "create_buffer (pst ?init) (Some 5) True [1, 2] False False = (Some 5, ?st)" by (simp add: create_buffer_def)
  from unpooled [where c = ?init, OF _ _ this] have "pool_step ?init ?c" by simp
  then have r: "pool_reachable ?c" using step [OF start [OF t]] by blast
  have "\<exists>st. CRYPTO_BUFFER_free True (pst ?c) 5 = Some st" using pool_memory_safe [OF r] by (auto simp: all_conj_distrib)
  then obtain st where "CRYPTO_BUFFER_free True (pst ?c) 5 = Some st" ..
  moreover have "held ?c 5 = 1" "CRYPTO_BUFFER_data (pst ?c) 5 = [1, 2]" by (simp_all add: CRYPTO_BUFFER_data_def obj_at_def)
  ultimately show ?thesis by blast
qed

section \<open>Sharing\<close>

lemma inc_ref_simps [simp]: "bufs (inc_ref st d) = bufs st" "buf_data (obj_at (inc_ref st d) x) = buf_data (obj_at st x)"
  by (simp_all add: inc_ref_def obj_at_upd)

lemma lookup_missed:
  assumes "pool_inv c" "lookup_section (pst c) data False = (None, st)"
  shows "st = pst c" "d \<in># content (bufs (pst c)) \<Longrightarrow> buf_data (obj_at (pst c) d) \<noteq> data"
proof -
  let ?obj = "(obj_at (pst c))(0 := \<lparr>pooled = False, buf_data = data, references = 0, data_is_static = False\<rparr>)"
  have z: "0 \<notin># content (bufs (pst c))" by (rule not_in_table(1) [OF assms(1) pool_invD(3) [OF assms(1)]])
  have t: "table_ok ?obj (bufs (pst c))"
    by (rule table_ok_cong [OF pool_invD(1) [OF assms(1)]]) (use z in auto)
  have r: "OPENSSL_lh_retrieve (CRYPTO_BUFFER_hash ?obj) (CRYPTO_BUFFER_cmp ?obj) (bufs (pst c)) 0 = None" "st = pst c"
    using assms(2) by (auto simp: lookup_section_def Let_def split: option.splits if_splits)
  then show "st = pst c" by simp
  have none: "\<forall>x \<in># content (bufs (pst c)). CRYPTO_BUFFER_cmp ?obj x 0 \<noteq> 0"
    by (rule buffers.retrieve_iff(2) [OF t, THEN iffD1]) (rule r(1))
  show "buf_data (obj_at (pst c) d) \<noteq> data" if d: "d \<in># content (bufs (pst c))"
  proof -
    have "d \<noteq> 0" using d z by metis
    then show ?thesis using bspec [OF none d] by simp
  qed
qed

text \<open>A new buffer whose bytes are not in the pool is inserted, unless there is no memory for the entry.\<close>

lemma insert_fresh:
  assumes "pool_inv c" "a \<in> created c" "\<And>d. d \<in># content (bufs (pst c)) \<Longrightarrow> buf_data (obj_at (pst c) d) \<noteq> buf_data (obj_at (pst c) a)"
    "insert_section (pst c) item_ok buckets_ok a is_static = (Some b, st)"
  shows "b = a" "b \<in># content (bufs st)" "buf_data (obj_at st b) = buf_data (obj_at (pst c) a)"
proof -
  let ?obj = "obj_at (pst c)" let ?h = "CRYPTO_BUFFER_hash ?obj" and ?cmp = "CRYPTO_BUFFER_cmp ?obj" and ?t = "bufs (pst c)"
  note t = pool_invD(1) [OF assms(1)]
  obtain ok old t' where i: "OPENSSL_lh_insert ?h ?cmp item_ok buckets_ok ?t a = (ok, old, t')" by (metis prod.exhaust)
  have none: "OPENSSL_lh_retrieve ?h ?cmp ?t a = None" using buffers.retrieve_iff(2) [OF t, of a] assms(3) by simp
  then have r: "ok" "b = a" "st = (pst c)\<lparr>bufs := t'\<rparr>"
    using assms(4) i by (auto simp: insert_section_def Let_def split: if_splits)
  show "b = a" "buf_data (obj_at st b) = buf_data (obj_at (pst c) a)" using r by simp_all
  show "b \<in># content (bufs st)" using buffers.insert_content [OF t i] r by simp
qed

lemma lh_insert_succeeds [simp]: "OPENSSL_lh_insert h cmp True buckets_ok lh d \<noteq> (False, old, t)"
  by (auto simp: OPENSSL_lh_insert_def Let_def case_prod_beta split: option.splits)

lemma new_succeeds: "alloc \<noteq> None \<Longrightarrow> fst (CRYPTO_BUFFER_new st alloc True True buckets_ok data in_pool) \<noteq> None"
  by (auto simp: CRYPTO_BUFFER_new_def crypto_buffer_new_def create_buffer_def insert_section_def Let_def split: prod.split option.split)

lemma new_in_pool:
  assumes "pool_reachable c" "\<forall>a. alloc = Some a \<longrightarrow> objects (pst c) a = None \<and> a \<noteq> 0"
    "CRYPTO_BUFFER_new (pst c) alloc dup_ok item_ok buckets_ok data True = (r, st)"
  shows "(\<forall>d \<in># content (bufs (pst c)). CRYPTO_BUFFER_data (pst c) d = data \<longrightarrow> r = Some d \<and> st = inc_ref (pst c) d) \<and>
    (\<forall>b. r = Some b \<longrightarrow> CRYPTO_BUFFER_data st b = data \<and> b \<in># content (bufs st) \<and>
       (\<exists>c'. pool_reachable c' \<and> pst c' = st \<and> held c' = (held c)(b := held c b + 1)))"
proof -
  note inv = pool_reachable_inv [OF assms(1)]
  obtain f st1 where l: "lookup_section (pst c) data False = (f, st1)" by (cases "lookup_section (pst c) data False")
  show ?thesis
  proof (cases f)
    case (Some d)
    note found' = lookup_found [OF inv l [unfolded Some]]
    have res: "r = Some d" "st = inc_ref (pst c) d"
      using assms(3) l Some found' by (simp_all add: CRYPTO_BUFFER_new_def crypto_buffer_new_def)
    have same: "d' = d" if "d' \<in># content (bufs (pst c))" "CRYPTO_BUFFER_data (pst c) d' = data" for d'
      using buffers.unique_eq [OF _ that(1) found'(1), of "obj_at (pst c)"] pool_invD(1) [OF inv] that(2) found'(2)
      by (simp add: lh_inv_def CRYPTO_BUFFER_data_def)
    have "pool_reachable (c\<lparr>pst := st, held := (held c)(d := held c d + 1)\<rparr>)"
      using step [OF assms(1) found [OF l [unfolded Some]]] found'(3) res(2) by simp
    then have "\<exists>c'. pool_reachable c' \<and> pst c' = st \<and> held c' = (held c)(d := held c d + 1)" by force
    moreover have "CRYPTO_BUFFER_data st d = data" "d \<in># content (bufs st)"
      using res(2) found'(1, 2) by (simp_all add: CRYPTO_BUFFER_data_def)
    ultimately show ?thesis unfolding res(1) using res(2) same by blast
  next
    case None
    note miss = lookup_missed [OF inv l [unfolded None]]
    obtain a' st2 where cr: "create_buffer (pst c) alloc dup_ok data False True = (a', st2)"
      by (cases "create_buffer (pst c) alloc dup_ok data False True")
    have rest: "(r, st) = (case a' of None \<Rightarrow> (None, st2) | Some a \<Rightarrow> insert_section st2 item_ok buckets_ok a False)"
      using assms(3) l None miss(1) cr by (simp add: CRYPTO_BUFFER_new_def crypto_buffer_new_def split: option.splits)
    show ?thesis
    proof (cases "r = None")
      case True
      then show ?thesis using miss(2) by (auto simp: CRYPTO_BUFFER_data_def)
    next
      case False
      then obtain a b where ab: "a' = Some a" "r = Some b" "insert_section st2 item_ok buckets_ok a False = (Some b, st)"
        using rest by (auto split: option.splits)
      have al: "alloc = Some a" "st2 = set_obj (pst c) a (Some \<lparr>pooled = True, buf_data = data, references = 1, data_is_static = False\<rparr>)"
        using cr ab(1) by (auto simp: create_buffer_def split: option.splits if_splits)
      have fresh: "objects (pst c) a = None" "a \<noteq> 0" using assms(2) al(1) by auto
      let ?c1 = "c\<lparr>pst := st2, created := insert a (created c)\<rparr>"
      have r1: "pool_reachable ?c1"
        by (rule step [OF assms(1) create [OF fresh]]) (use cr al(1) ab(1) in simp)
      have out: "a \<notin># content (bufs (pst c))" by (rule not_in_table(1) [OF inv fresh(1)])
      have data: "buf_data (obj_at st2 a) = data" "bufs st2 = bufs (pst c)" "d \<noteq> a \<Longrightarrow> obj_at st2 d = obj_at (pst c) d" for d
        by (simp_all add: al(2) obj_at_upd)
      have "buf_data (obj_at (pst ?c1) d) \<noteq> buf_data (obj_at (pst ?c1) a)" if "d \<in># content (bufs (pst ?c1))" for d
      proof -
        have m: "d \<in># content (bufs (pst c))" using that data(2) by simp
        then have "d \<noteq> a" using out by metis
        then show ?thesis using miss(2) [OF m] data by simp
      qed
      note ins = insert_fresh [OF pool_reachable_inv [OF r1] _ this, of item_ok buckets_ok False b st]
      have i: "b = a" "b \<in># content (bufs st)" "buf_data (obj_at st b) = data" using ins ab(3) data(1) by auto
      let ?c2 = "?c1\<lparr>pst := st, held := (held c)(b := held c b + 1), created := created ?c1 - {a}\<rparr>"
      have "pool_step ?c1 (?c1\<lparr>pst := st, held := (case Some b of None \<Rightarrow> held ?c1 | Some d \<Rightarrow> (held ?c1)(d := held ?c1 d + 1)), created := created ?c1 - {a}\<rparr>)"
        by (rule insert) (use ab(3) in \<open>simp_all add: al(2) obj_at_upd\<close>)
      then have "pool_reachable ?c2" using step [OF r1] by simp
      moreover have "pst ?c2 = st" "held ?c2 = (held c)(b := held c b + 1)" by simp_all
      ultimately have "\<exists>c'. pool_reachable c' \<and> pst c' = st \<and> held c' = (held c)(b := held c b + 1)" by blast
      then show ?thesis using i ab(2) miss(2) by (auto simp: CRYPTO_BUFFER_data_def)
    qed
  qed
qed

text \<open>C28. Buffers are shared.  When a buffer with the same bytes is in the pool, \<open>CRYPTO_BUFFER_new\<close> returns that
  buffer and allocates nothing.  Whatever it returns holds the bytes that were asked for, is in the pool, and
  the caller has one reference more; the state is again one that threads can reach.\<close>

theorem pool_shares_buffers:
  assumes "pool_reachable c" "\<forall>a. alloc = Some a \<longrightarrow> objects (pst c) a = None \<and> a \<noteq> 0"
    "CRYPTO_BUFFER_new (pst c) alloc dup_ok item_ok buckets_ok data True = (r, st)"
  shows "(\<forall>d \<in># content (bufs (pst c)). CRYPTO_BUFFER_data (pst c) d = data \<longrightarrow> r = Some d \<and> st = inc_ref (pst c) d) \<and>
    (\<forall>b. r = Some b \<longrightarrow> CRYPTO_BUFFER_data st b = data \<and> b \<in># content (bufs st) \<and>
       (\<exists>c'. pool_reachable c' \<and> pst c' = st \<and> held c' = (held c)(b := held c b + 1)))"
  by (rule new_in_pool [OF assms])

theorem pool_shares_buffers_witness:
  "\<exists>st1 st2 b. CRYPTO_BUFFER_data st1 b = [1, 2] \<and> b \<in># content (bufs st1) \<and>
     CRYPTO_BUFFER_new st1 None False False False [1, 2] True = (Some b, st2)"
proof -
  obtain t where t: "CRYPTO_BUFFER_POOL_new True True True = Some t" using new_pool by blast
  let ?init = "\<lparr>pst = \<lparr>bufs = t, objects = \<lambda>_. None\<rparr>, held = \<lambda>_. 0, created = {}\<rparr>"
  obtain r st1 where n1: "CRYPTO_BUFFER_new (pst ?init) (Some 5) True True True [1, 2] True = (r, st1)"
    by (cases "CRYPTO_BUFFER_new (pst ?init) (Some 5) True True True [1, 2] True")
  have alloc: "\<forall>a. Some 5 = Some a \<longrightarrow> objects (pst ?init) a = None \<and> a \<noteq> 0" by simp
  obtain b where b: "r = Some b" using new_succeeds [of "Some 5" "pst ?init" True "[1, 2]" True] n1 by auto
  obtain c1 where c1: "pool_reachable c1" "pst c1 = st1" and d: "CRYPTO_BUFFER_data st1 b = [1, 2]" "b \<in># content (bufs st1)"
    using conjunct2 [OF pool_shares_buffers [OF start [OF t] alloc n1]] b by blast
  obtain r' st2 where n2: "CRYPTO_BUFFER_new (pst c1) None False False False [1, 2] True = (r', st2)"
    by (cases "CRYPTO_BUFFER_new (pst c1) None False False False [1, 2] True")
  have "r' = Some b" using conjunct1 [OF pool_shares_buffers [OF c1(1) _ n2]] c1(2) d by simp
  then show ?thesis using n2 c1(2) d by blast
qed

text \<open>When every reference is released and no count has saturated, the assertion of \<open>CRYPTO_BUFFER_POOL_free\<close> holds.\<close>

lemma pool_free_assertion:
  assumes "pool_reachable c" "\<And>b. held c b = 0" "created c = {}" "\<And>b v. objects (pst c) b = Some v \<Longrightarrow> references v \<noteq> - 1"
  shows "CRYPTO_BUFFER_POOL_free ndebug (pst c) = Some ()"
proof -
  note inv = pool_reachable_inv [OF assms(1)]
  have "objects (pst c) b = None" for b
    using pool_invD(4) [OF inv, of b] assms(2) [of b] assms(3) assms(4) [of b]
    by (auto simp: count_ok_def unat_eq_0 split: option.splits)
  then have "content (bufs (pst c)) = {#}" using not_in_table(1) [OF inv] by (metis multi_nonempty_split union_single_eq_member)
  then show ?thesis using pool_invD(1) [OF inv] by (simp add: lh_inv_def CRYPTO_BUFFER_POOL_free_def OPENSSL_lh_num_items_def)
qed

text \<open>A buffer made by \<open>CRYPTO_BUFFER_alloc\<close> is one that \<open>crypto_buffer_new\<close> makes without a pool.\<close>

lemma alloc_is_new: "CRYPTO_BUFFER_alloc st alloc ok data = crypto_buffer_new st alloc ok item_ok buckets_ok data False False"
  by (auto simp: CRYPTO_BUFFER_alloc_def crypto_buffer_new_def create_buffer_def split: option.splits)

end
