(* ===== verification/Sk.thy ===== *)
theory Sk
  imports C_Sort "HOL-Library.Monad_Syntax"
begin

text \<open>
  The stacks of BoringSSL (\<open>crypto/stack/stack.c\<close>): growing arrays of pointers with an optional comparison function.

  An element is an address, 0 for \<open>NULL\<close>; a function pointer \<open>comp\<close> is a number, again 0 for \<open>NULL\<close>, and
  \<open>call_cmp\<close> calls it.  A pointer to a stack is an option, \<open>None\<close> for \<open>NULL\<close>.  An operation that would
  access the array outside of its block, follow a null pointer or fail an assertion returns \<open>None\<close>.  The arguments of type \<open>bool\<close> say
  whether the requests for memory succeed, and \<open>junk\<close> is what new memory holds.
\<close>

section \<open>Arrays\<close>

definition arr_get :: "'a list \<Rightarrow> nat \<Rightarrow> 'a option" where
  "arr_get xs i = (if i < length xs then Some (xs ! i) else None)"

definition arr_set :: "'a list \<Rightarrow> nat \<Rightarrow> 'a \<Rightarrow> 'a list option" where
  "arr_set xs i v = (if i < length xs then Some (xs[i := v]) else None)"

definition arr_move :: "'a list \<Rightarrow> nat \<Rightarrow> nat \<Rightarrow> nat \<Rightarrow> 'a list option" where
  "arr_move xs dst src n =
     (if dst + n \<le> length xs \<and> src + n \<le> length xs
      then Some (take dst xs @ take n (drop src xs) @ drop (dst + n) xs) else None)"

definition arr_fill :: "'a list \<Rightarrow> 'a \<Rightarrow> nat \<Rightarrow> 'a list option" where
  "arr_fill xs v n = (if n \<le> length xs then Some (replicate n v @ drop n xs) else None)"

section \<open>Creation and access\<close>

record stack =
  num :: nat
  data :: "addr list"
  sorted_flag :: bool
  num_alloc :: nat
  cmp_func :: nat

definition kMinSize :: nat where "kMinSize = 4"

definition sk_new :: "bool \<Rightarrow> bool \<Rightarrow> nat \<Rightarrow> stack option" where
  "sk_new ok data_ok cf =
     (if \<not> ok then None
      else if \<not> data_ok then None
      else Some \<lparr>num = 0, data = replicate kMinSize 0, sorted_flag = False, num_alloc = kMinSize, cmp_func = cf\<rparr>)"

definition sk_new_null :: "bool \<Rightarrow> bool \<Rightarrow> stack option" where
  "sk_new_null ok data_ok = sk_new ok data_ok 0"

definition sk_num :: "stack option \<Rightarrow> nat" where
  "sk_num sk = (case sk of None \<Rightarrow> 0 | Some s \<Rightarrow> num s)"

definition sk_zero :: "stack option \<Rightarrow> stack option option" where
  "sk_zero sk =
     (case sk of
        None \<Rightarrow> Some None
      | Some s \<Rightarrow>
          if num s = 0 then Some (Some s)
          else do {
            d \<leftarrow> arr_fill (data s) 0 (num s);
            Some (Some (s\<lparr>data := d, num := 0, sorted_flag := False\<rparr>))
          })"

definition sk_value :: "stack option \<Rightarrow> nat \<Rightarrow> addr option" where
  "sk_value sk i =
     (case sk of
        None \<Rightarrow> Some 0
      | Some s \<Rightarrow> if i \<ge> num s then Some 0 else arr_get (data s) i)"

definition sk_set :: "stack option \<Rightarrow> nat \<Rightarrow> addr \<Rightarrow> (addr \<times> stack option) option" where
  "sk_set sk i v =
     (case sk of
        None \<Rightarrow> Some (0, None)
      | Some s \<Rightarrow>
          if i \<ge> num s then Some (0, Some s)
          else do {
            d \<leftarrow> arr_set (data s) i v;
            Some (v, Some (s\<lparr>data := d\<rparr>))
          })"

text \<open>The loop over the elements that are freed, with the state on which the callback works.\<close>

function free_loop :: "(addr \<Rightarrow> 's \<Rightarrow> 's) \<Rightarrow> addr list \<Rightarrow> nat \<Rightarrow> nat \<Rightarrow> 's \<Rightarrow> 's option" where
  "free_loop free d i n st =
     (if i < n then do {
        e \<leftarrow> arr_get d i;
        free_loop free d (i + 1) n (if e \<noteq> 0 then free e st else st)
      }
      else Some st)"
  by pat_completeness auto
termination by (relation "measure (\<lambda>(_, _, i, n, _). n - i)") auto

declare free_loop.simps [simp del]

definition sk_pop_free_ex :: "(addr \<Rightarrow> 's \<Rightarrow> 's) \<Rightarrow> stack option \<Rightarrow> 's \<Rightarrow> 's option" where
  "sk_pop_free_ex free sk st =
     (case sk of
        None \<Rightarrow> Some st
      | Some s \<Rightarrow> free_loop free (data s) 0 (num s) st)"

section \<open>Insertion and deletion\<close>

text \<open>The growth of the array; \<open>None\<close> is the early return of 0.\<close>

definition sk_grow :: "bool \<Rightarrow> (nat \<Rightarrow> addr) \<Rightarrow> stack \<Rightarrow> stack option" where
  "sk_grow ok junk s =
     (if num_alloc s \<le> (num s + 1) mod 2 ^ 64 then
        let new_alloc = num_alloc s * 2 mod 2 ^ 64;
            alloc_size = new_alloc * 8 mod 2 ^ 64;
            overflow = (new_alloc < num_alloc s \<or> alloc_size div 8 \<noteq> new_alloc);
            new_alloc = (if overflow then (num_alloc s + 1) mod 2 ^ 64 else new_alloc);
            alloc_size = (if overflow then new_alloc * 8 mod 2 ^ 64 else alloc_size)
        in if new_alloc < num_alloc s \<or> alloc_size div 8 \<noteq> new_alloc then None
           else if \<not> ok then None
           else Some (s\<lparr>data := take (alloc_size div 8) (data s) @ map junk [length (data s)..<alloc_size div 8],
                        num_alloc := new_alloc\<rparr>)
      else Some s)"

definition sk_insert :: "bool \<Rightarrow> (nat \<Rightarrow> addr) \<Rightarrow> stack option \<Rightarrow> addr \<Rightarrow> nat \<Rightarrow> (nat \<times> stack option) option" where
  "sk_insert ok junk sk p wh =
     (case sk of
        None \<Rightarrow> Some (0, None)
      | Some s \<Rightarrow>
          (case sk_grow ok junk s of
             None \<Rightarrow> Some (0, Some s)
           | Some s1 \<Rightarrow> do {
               d \<leftarrow> (if wh \<ge> num s1 then arr_set (data s1) (num s1) p
                     else do {
                       d' \<leftarrow> arr_move (data s1) (wh + 1) wh (num s1 - wh);
                       arr_set d' wh p
                     });
               let s2 = s1\<lparr>data := d, num := (num s1 + 1) mod 2 ^ 64, sorted_flag := False\<rparr>;
               Some (num s2, Some s2)
             }))"

definition sk_delete :: "stack option \<Rightarrow> nat \<Rightarrow> (addr \<times> stack option) option" where
  "sk_delete sk wh =
     (case sk of
        None \<Rightarrow> Some (0, None)
      | Some s \<Rightarrow>
          if wh \<ge> num s then Some (0, Some s)
          else do {
            ret \<leftarrow> arr_get (data s) wh;
            d \<leftarrow> (if wh \<noteq> num s - 1 then arr_move (data s) wh (wh + 1) (num s - wh - 1) else Some (data s));
            Some (ret, Some (s\<lparr>data := d, num := num s - 1\<rparr>))
          })"

text \<open>A loop that looks for the first element from \<open>i\<close> on that satisfies \<open>P\<close>.\<close>

function scan :: "(addr \<Rightarrow> bool) \<Rightarrow> addr list \<Rightarrow> nat \<Rightarrow> nat \<Rightarrow> nat option option" where
  "scan P d i n =
     (if i < n then do {
        e \<leftarrow> arr_get d i;
        if P e then Some (Some i) else scan P d (i + 1) n
      }
      else Some None)"
  by pat_completeness auto
termination by (relation "measure (\<lambda>(_, _, i, n). n - i)") auto

declare scan.simps [simp del]

definition sk_delete_ptr :: "stack option \<Rightarrow> addr \<Rightarrow> (addr \<times> stack option) option" where
  "sk_delete_ptr sk p =
     (case sk of
        None \<Rightarrow> Some (0, None)
      | Some s \<Rightarrow> do {
          r \<leftarrow> scan (\<lambda>e. e = p) (data s) 0 (num s);
          (case r of
             None \<Rightarrow> Some (0, Some s)
           | Some i \<Rightarrow> sk_delete (Some s) i)
        })"

definition sk_shift :: "stack option \<Rightarrow> (addr \<times> stack option) option" where
  "sk_shift sk =
     (case sk of
        None \<Rightarrow> Some (0, None)
      | Some s \<Rightarrow> if num s = 0 then Some (0, Some s) else sk_delete (Some s) 0)"

definition sk_push :: "bool \<Rightarrow> (nat \<Rightarrow> addr) \<Rightarrow> stack option \<Rightarrow> addr \<Rightarrow> (nat \<times> stack option) option" where
  "sk_push ok junk sk p =
     (case sk of
        None \<Rightarrow> None
      | Some s \<Rightarrow> sk_insert ok junk (Some s) p (num s))"

definition sk_pop :: "stack option \<Rightarrow> (addr \<times> stack option) option" where
  "sk_pop sk =
     (case sk of
        None \<Rightarrow> Some (0, None)
      | Some s \<Rightarrow> if num s = 0 then Some (0, Some s) else sk_delete (Some s) (num s - 1))"

section \<open>Searching and sorting\<close>

definition sk_is_sorted :: "stack option \<Rightarrow> bool" where
  "sk_is_sorted sk = (case sk of None \<Rightarrow> True | Some s \<Rightarrow> sorted_flag s)"

text \<open>The loop of the binary search, with its three assertions; one that fails is \<open>None\<close>.\<close>

function sk_bsearch :: "('a \<Rightarrow> 'a \<Rightarrow> int) \<Rightarrow> 'a list \<Rightarrow> 'a \<Rightarrow> nat \<Rightarrow> nat \<Rightarrow> nat option option" where
  "sk_bsearch cmp d p lo hi =
     (if lo < hi then
        let mid = lo + (hi - lo - 1) div 2
        in if \<not> (lo \<le> mid \<and> mid < hi) then None
           else do {
             elem \<leftarrow> arr_get d mid;
             let r = cmp p elem;
             if r > 0 then sk_bsearch cmp d p (mid + 1) hi
             else if r < 0 then sk_bsearch cmp d p lo mid
             else if hi - lo = 1 then Some (Some mid)
             else if \<not> mid + 1 < hi then None
             else sk_bsearch cmp d p lo (mid + 1)
           }
      else if lo = hi then Some None else None)"
  by pat_completeness auto
termination by (relation "measure (\<lambda>(_, _, _, lo, hi). hi - lo)") auto

declare sk_bsearch.simps [simp del]

text \<open>The inner \<open>None\<close> is the return value 0; otherwise the value is \<open>*out_index\<close>.\<close>

definition sk_find :: "(nat \<Rightarrow> addr \<Rightarrow> addr \<Rightarrow> int) \<Rightarrow> stack option \<Rightarrow> addr \<Rightarrow> nat option option" where
  "sk_find call_cmp sk p =
     (case sk of
        None \<Rightarrow> Some None
      | Some s \<Rightarrow>
          if cmp_func s = 0 then scan (\<lambda>e. e = p) (data s) 0 (num s)
          else if p = 0 then Some None
          else if \<not> sk_is_sorted (Some s) then scan (\<lambda>e. call_cmp (cmp_func s) p e = 0) (data s) 0 (num s)
          else sk_bsearch (call_cmp (cmp_func s)) (data s) p 0 (num s))"

definition sk_sort ::
  "((addr \<Rightarrow> addr \<Rightarrow> int) \<Rightarrow> addr list \<Rightarrow> addr list) \<Rightarrow> (nat \<Rightarrow> addr \<Rightarrow> addr \<Rightarrow> int) \<Rightarrow> stack option \<Rightarrow> stack option option" where
  "sk_sort qs call_cmp sk =
     (case sk of
        None \<Rightarrow> Some None
      | Some s \<Rightarrow>
          if cmp_func s = 0 \<or> sorted_flag s then Some (Some s)
          else if num s \<ge> 2 then
            if num s \<le> length (data s)
            then Some (Some (s\<lparr>data := qs (call_cmp (cmp_func s)) (take (num s) (data s)) @ drop (num s) (data s),
                               sorted_flag := True\<rparr>))
            else None
          else Some (Some (s\<lparr>sorted_flag := True\<rparr>)))"

definition sk_set_cmp_func :: "stack option \<Rightarrow> nat \<Rightarrow> (nat \<times> stack option) option" where
  "sk_set_cmp_func sk cf =
     (case sk of
        None \<Rightarrow> None
      | Some s \<Rightarrow>
          let s1 = (if cmp_func s \<noteq> cf then s\<lparr>sorted_flag := False\<rparr> else s)
          in Some (cmp_func s, Some (s1\<lparr>cmp_func := cf\<rparr>)))"

section \<open>Copies\<close>

definition sk_dup :: "bool \<Rightarrow> bool \<Rightarrow> (nat \<Rightarrow> addr) \<Rightarrow> stack option \<Rightarrow> stack option option" where
  "sk_dup ok data_ok junk sk =
     (case sk of
        None \<Rightarrow> Some None
      | Some s \<Rightarrow>
          if \<not> ok then Some None
          else if \<not> data_ok then Some None
          else if num s \<le> length (data s) \<and> num s \<le> num_alloc s then
            Some (Some \<lparr>num = num s, data = take (num s) (data s) @ map junk [num s..<num_alloc s],
                        sorted_flag = sorted_flag s, num_alloc = num_alloc s, cmp_func = cmp_func s\<rparr>)
          else None)"

text \<open>The copying function may fail, and then the copies that were made are freed.\<close>

function copy_loop ::
  "(addr \<Rightarrow> 's \<Rightarrow> addr \<times> 's) \<Rightarrow> (addr \<Rightarrow> 's \<Rightarrow> 's) \<Rightarrow> addr list \<Rightarrow> nat \<Rightarrow> nat \<Rightarrow> 's \<Rightarrow> (addr list option \<times> 's) option" where
  "copy_loop copy free d i n st =
     (if i < n then do {
        e \<leftarrow> arr_get d i;
        if e = 0 then copy_loop copy free d (i + 1) n st
        else
          let (c, st1) = copy e st
          in do {
               d1 \<leftarrow> arr_set d i c;
               if c = 0 then do {
                 st2 \<leftarrow> free_loop free d1 0 i st1;
                 Some (None, st2)
               }
               else copy_loop copy free d1 (i + 1) n st1
             }
      }
      else Some (Some d, st))"
  by pat_completeness auto
termination by (relation "measure (\<lambda>(_, _, _, i, n, _). n - i)") auto

declare copy_loop.simps [simp del]

definition sk_deep_copy ::
  "bool \<Rightarrow> bool \<Rightarrow> (nat \<Rightarrow> addr) \<Rightarrow> (addr \<Rightarrow> 's \<Rightarrow> addr \<times> 's) \<Rightarrow> (addr \<Rightarrow> 's \<Rightarrow> 's) \<Rightarrow> stack option \<Rightarrow> 's
     \<Rightarrow> (stack option \<times> 's) option" where
  "sk_deep_copy ok data_ok junk copy free sk st = do {
     r \<leftarrow> sk_dup ok data_ok junk sk;
     (case r of
        None \<Rightarrow> Some (None, st)
      | Some ret \<Rightarrow> do {
          (d, st1) \<leftarrow> copy_loop copy free (data ret) 0 (num ret) st;
          Some (map_option (\<lambda>d'. ret\<lparr>data := d'\<rparr>) d, st1)
        })
   }"

end
