(* ===== verification/Sk_Find.thy ===== *)
theory Sk_Find
  imports Sk_List
begin

text \<open>
  Stacks as a state machine: any sequence of operations acts on the list of the elements, and a search finds
  the first match, unless \<open>sk_set\<close> has put an element out of order.
\<close>

section \<open>Sequences of operations\<close>

datatype sk_op =
  Op_insert addr nat bool "nat \<Rightarrow> addr"
| Op_push addr bool "nat \<Rightarrow> addr"
| Op_delete nat
| Op_delete_ptr addr
| Op_pop
| Op_shift
| Op_set nat addr
| Op_zero
| Op_sort
| Op_set_cmp nat

definition stk :: "('r \<times> stack option) option \<Rightarrow> ('r \<times> stack) option" where
  "stk x = do { (r, s) \<leftarrow> x; map_option (\<lambda>s'. (r, s')) s }"

fun sk_exec ::
  "((addr \<Rightarrow> addr \<Rightarrow> int) \<Rightarrow> addr list \<Rightarrow> addr list) \<Rightarrow> (nat \<Rightarrow> addr \<Rightarrow> addr \<Rightarrow> int) \<Rightarrow> sk_op \<Rightarrow> stack \<Rightarrow> (nat \<times> stack) option" where
  "sk_exec qs call_cmp (Op_insert p w ok junk) s = stk (sk_insert ok junk (Some s) p w)"
| "sk_exec qs call_cmp (Op_push p ok junk) s = stk (sk_push ok junk (Some s) p)"
| "sk_exec qs call_cmp (Op_delete w) s = stk (sk_delete (Some s) w)"
| "sk_exec qs call_cmp (Op_delete_ptr p) s = stk (sk_delete_ptr (Some s) p)"
| "sk_exec qs call_cmp Op_pop s = stk (sk_pop (Some s))"
| "sk_exec qs call_cmp Op_shift s = stk (sk_shift (Some s))"
| "sk_exec qs call_cmp (Op_set i v) s = stk (sk_set (Some s) i v)"
| "sk_exec qs call_cmp Op_zero s = stk (map_option (\<lambda>x. (0, x)) (sk_zero (Some s)))"
| "sk_exec qs call_cmp Op_sort s = stk (map_option (\<lambda>x. (0, x)) (sk_sort qs call_cmp (Some s)))"
| "sk_exec qs call_cmp (Op_set_cmp k) s = stk (sk_set_cmp_func (Some s) k)"

text \<open>What the same operation does to the list of elements, the flag and the comparison function.\<close>

type_synonym sk_view = "addr list \<times> bool \<times> nat"

definition view :: "stack \<Rightarrow> sk_view" where
  "view s = (elems s, sorted_flag s, cmp_func s)"

definition inserted :: "addr \<Rightarrow> nat \<Rightarrow> bool \<Rightarrow> sk_view \<Rightarrow> nat \<Rightarrow> sk_view \<Rightarrow> bool" where
  "inserted p w ok v r v' \<longleftrightarrow>
     (case v of (xs, f, c) \<Rightarrow>
        r = length xs + 1 \<and> v' = (insert_at w p xs, False, c) \<or>
        r = 0 \<and> v' = v \<and> \<not> (ok \<and> length xs + 2 < 2 ^ 61))"

fun list_step :: "(nat \<Rightarrow> addr \<Rightarrow> addr \<Rightarrow> int) \<Rightarrow> sk_op \<Rightarrow> sk_view \<Rightarrow> nat \<Rightarrow> sk_view \<Rightarrow> bool" where
  "list_step call_cmp (Op_insert p w ok junk) v r v' = inserted p w ok v r v'"
| "list_step call_cmp (Op_push p ok junk) v r v' = inserted p (length (fst v)) ok v r v'"
| "list_step call_cmp (Op_delete w) (xs, f, c) r v' \<longleftrightarrow>
     (if w < length xs then r = xs ! w \<and> v' = (delete_at w xs, f, c) else r = 0 \<and> v' = (xs, f, c))"
| "list_step call_cmp (Op_delete_ptr p) (xs, f, c) r v' \<longleftrightarrow> r = (if p \<in> set xs then p else 0) \<and> v' = (remove1 p xs, f, c)"
| "list_step call_cmp Op_pop (xs, f, c) r v' \<longleftrightarrow> r = (if xs = [] then 0 else last xs) \<and> v' = (butlast xs, f, c)"
| "list_step call_cmp Op_shift (xs, f, c) r v' \<longleftrightarrow> r = (if xs = [] then 0 else hd xs) \<and> v' = (tl xs, f, c)"
| "list_step call_cmp (Op_set i p) (xs, f, c) r v' \<longleftrightarrow> r = (if i < length xs then p else 0) \<and> v' = (xs[i := p], f, c)"
| "list_step call_cmp Op_zero (xs, f, c) r v' \<longleftrightarrow> r = 0 \<and> v' = ([], f \<and> xs = [], c)"
| "list_step call_cmp Op_sort (xs, f, c) r v' \<longleftrightarrow> r = 0 \<and>
     (if c = 0 \<or> f then v' = (xs, f, c)
      else \<exists>ys. v' = (ys, True, c) \<and> mset ys = mset xs \<and>
        (total_cmp (call_cmp c) \<longrightarrow> sorted_wrt (\<lambda>a b. call_cmp c a b \<le> 0) ys))"
| "list_step call_cmp (Op_set_cmp k) (xs, f, c) r v' \<longleftrightarrow> r = c \<and> v' = (xs, f \<and> c = k, k)"

inductive sk_reachable ::
  "((addr \<Rightarrow> addr \<Rightarrow> int) \<Rightarrow> addr list \<Rightarrow> addr list) \<Rightarrow> (nat \<Rightarrow> addr \<Rightarrow> addr \<Rightarrow> int) \<Rightarrow> (sk_op \<Rightarrow> bool) \<Rightarrow> stack \<Rightarrow> bool"
  for qs call_cmp allowed where
  sk_start: "sk_new ok data_ok cf = Some s \<Longrightarrow> sk_reachable qs call_cmp allowed s"
| sk_step: "sk_reachable qs call_cmp allowed s \<Longrightarrow> allowed op \<Longrightarrow> sk_exec qs call_cmp op s = Some (r, s') \<Longrightarrow>
    sk_reachable qs call_cmp allowed s'"

lemma stk_Some [simp]: "stk (Some (r, Some s)) = Some (r, s)"
  by (simp add: stk_def)

lemma delete_at_ends: "xs \<noteq> [] \<Longrightarrow> delete_at (length xs - Suc 0) xs = butlast xs" "xs \<noteq> [] \<Longrightarrow> delete_at 0 xs = tl xs"
  by (simp_all add: delete_at_def butlast_conv_take drop_Suc)

lemma sk_exec_ok:
  assumes "c_qsort qs" "sk_ok s"
  shows "\<exists>r s'. sk_exec qs call_cmp op s = Some (r, s') \<and> sk_ok s' \<and> list_step call_cmp op (view s) r (view s')"
proof (cases op)
  case (Op_insert p w ok junk)
  then show ?thesis using sk_insert_elems [OF assms(2), of ok junk p w] by (auto simp: view_def inserted_def)
next
  case (Op_push p ok junk)
  then show ?thesis
    using sk_insert_elems [OF assms(2), of ok junk p "num s"] elems_length [OF assms(2)] by (auto simp: view_def inserted_def sk_push_def)
next
  case (Op_delete w)
  then show ?thesis using sk_delete_elems [OF assms(2), of w] by (cases "w < length (elems s)") (auto simp: view_def)
next
  case (Op_delete_ptr p)
  then show ?thesis using sk_delete_ptr_elems [OF assms(2), of p] by (auto simp: view_def)
next
  case Op_pop
  show ?thesis
  proof (cases "num s = 0")
    case True
    then show ?thesis using Op_pop assms(2) by (simp add: sk_pop_def view_def elems_def)
  next
    case False
    then have ne: "elems s \<noteq> []" "num s - 1 = length (elems s) - 1" using elems_length [OF assms(2)] by auto
    obtain s' where "sk_delete (Some s) (num s - 1) = Some (last (elems s), Some s')" "sk_ok s'" "cmp_func s' = cmp_func s"
      "sorted_flag s' = sorted_flag s" "elems s' = butlast (elems s)"
      using sk_delete_elems [OF assms(2), of "num s - 1"] ne by (auto simp: last_conv_nth delete_at_ends)
    then show ?thesis using Op_pop False ne(1) by (simp add: sk_pop_def view_def)
  qed
next
  case Op_shift
  show ?thesis
  proof (cases "num s = 0")
    case True
    then show ?thesis using Op_shift assms(2) by (simp add: sk_shift_def view_def elems_def)
  next
    case False
    then have ne: "elems s \<noteq> []" using elems_length [OF assms(2)] by auto
    obtain s' where "sk_delete (Some s) 0 = Some (hd (elems s), Some s')" "sk_ok s'" "cmp_func s' = cmp_func s"
      "sorted_flag s' = sorted_flag s" "elems s' = tl (elems s)"
      using sk_delete_elems [OF assms(2), of 0] ne by (auto simp: hd_conv_nth delete_at_ends)
    then show ?thesis using Op_shift False ne by (simp add: sk_shift_def view_def)
  qed
next
  case (Op_set i v)
  then show ?thesis using sk_set_elems [OF assms(2), of i v] by (auto simp: view_def)
next
  case Op_zero
  then show ?thesis using sk_zero_elems [OF assms(2)] by (auto simp: view_def)
next
  case Op_sort
  then show ?thesis using sk_sort_elems [OF assms(2, 1), of call_cmp] by (auto simp: view_def)
next
  case (Op_set_cmp k)
  then show ?thesis using sk_set_cmp_elems [OF assms(2), of k] by (auto simp: view_def)
qed

lemma sk_reachable_ok: "sk_reachable qs call_cmp allowed s \<Longrightarrow> c_qsort qs \<Longrightarrow> sk_ok s"
proof (induction rule: sk_reachable.induct)
  case (sk_start ok data_ok cf s)
  then show ?case using sk_new_ok by blast
next
  case (sk_step s op r s')
  then show ?case using sk_exec_ok [of qs s call_cmp op] by auto
qed

text \<open>C31. A stack is a list.  After any sequence of operations from \<open>sk_new\<close> on, each operation stays inside the array
  and returns; it returns and leaves what the operation on lists does, the flag \<open>sorted\<close> and the comparison
  function included.  An insertion fails only without memory or when the size of the array would overflow, and
  then leaves the stack as it was; sorting, with any \<open>qsort\<close> that keeps its contract, gives a permutation, in
  ascending order when the comparison function is total and transitive.  (\<open>c_qsort\<close> takes it that \<open>qsort\<close> permutes the
  array whatever the comparison; the C standard promises it for consistent ones.)\<close>

theorem stack_refines_list:
  assumes "c_qsort qs" "sk_reachable qs call_cmp allowed s"
  shows "\<exists>r s'. sk_exec qs call_cmp op s = Some (r, s') \<and> list_step call_cmp op (view s) r (view s')"
  using sk_exec_ok [OF assms(1) sk_reachable_ok [OF assms(2, 1)]] by blast

theorem stack_refines_list_witness:
  "\<exists>s r s'. sk_new True True 1 = Some s \<and> sk_exec qsort (\<lambda>_ a b. int a - int b) (Op_push 7 True (\<lambda>_. 0)) s = Some (r, s') \<and>
     r = 1 \<and> elems s' = [7]"
proof -
  obtain s where s: "sk_new True True 1 = Some s" by (simp add: sk_new_def)
  let ?op = "Op_push 7 True (\<lambda>_. 0)"
  obtain r s' where e: "sk_exec qsort (\<lambda>_ a b. int a - int b) ?op s = Some (r, s')"
    "list_step (\<lambda>_ a b. int a - int b) ?op (view s) r (view s')"
    using stack_refines_list [OF insertion.c_qsort_axioms sk_start [OF s], where op = ?op] by blast
  have "elems s = []" using sk_new_ok [OF s] by simp
  then have "r = 1 \<and> elems s' = [7]" using e(2) by (simp add: view_def inserted_def insert_at_def)
  with s e(1) show ?thesis by blast
qed

section \<open>Searching\<close>

context total_cmp
begin

lemma bsearch_first:
  assumes "sorted_wrt (\<lambda>a b. cmp a b \<le> 0) (take n d)" "n \<le> length d" "lo \<le> hi" "hi \<le> n"
    "\<And>j. j < lo \<Longrightarrow> cmp p (d ! j) > 0"
    "\<And>j. hi \<le> j \<Longrightarrow> j < n \<Longrightarrow> cmp p (d ! j) = 0 \<Longrightarrow> \<exists>i. lo \<le> i \<and> i < hi \<and> cmp p (d ! i) = 0"
  shows "sk_bsearch cmp d p lo hi = Some (first_index (\<lambda>e. cmp p e = 0) (take n d))"
  using assms(3-)
proof (induction "hi - lo" arbitrary: lo hi rule: less_induct)
  case less
  let ?xs = "take n d"
  have le: "cmp (d ! i) (d ! j) \<le> 0" if "i < j" "j < n" for i j
    using sorted_wrt_nth_less [OF assms(1), of i j] that assms(2) by simp
  show ?case
  proof (cases "lo < hi")
    case False
    then have "\<forall>j < n. cmp p (d ! j) \<noteq> 0" using less.prems by (metis leD le_less_linear less_irrefl order_trans)
    then have "first_index (\<lambda>e. cmp p e = 0) ?xs = None" using assms(2) by (auto simp: first_index_None in_set_conv_nth)
    then show ?thesis using False less.prems(1) by (simp add: sk_bsearch.simps)
  next
    case True
    define mid where "mid = lo + (hi - lo - 1) div 2"
    have mid: "lo \<le> mid" "mid < hi" "mid < n" "mid < length d" "hi - lo \<noteq> 1 \<longrightarrow> mid + 1 < hi"
      using True less.prems assms(2) by (auto simp: mid_def)
    have low: "cmp p (d ! j) > 0" if "j \<le> mid" "cmp p (d ! mid) > 0" for j
      using that le [of j mid] mid cmp_trans [of p "d ! j" "d ! mid"] by (cases "j = mid") fastforce+
    have high: "cmp p (d ! j) \<noteq> 0" if "mid \<le> j" "j < n" "cmp p (d ! mid) < 0" for j
    proof (cases "j = mid")
      case False
      show ?thesis
      proof
        assume "cmp p (d ! j) = 0"
        then have j: "cmp (d ! j) p \<le> 0" using cmp_zero_flip [of p "d ! j"] by simp
        have "cmp (d ! mid) (d ! j) \<le> 0" by (rule le) (use that False in auto)
        then have "cmp (d ! mid) p \<le> 0" using j by (rule cmp_trans)
        then show False using cmp_flip [of "d ! mid" p] that(3) by simp
      qed
    qed (use that in simp)
    have unfold: "sk_bsearch cmp d p lo hi =
        (if cmp p (d ! mid) > 0 then sk_bsearch cmp d p (mid + 1) hi
         else if cmp p (d ! mid) < 0 then sk_bsearch cmp d p lo mid
         else if hi - lo = 1 then Some (Some mid) else sk_bsearch cmp d p lo (mid + 1))"
      unfolding sk_bsearch.simps [of cmp d p lo hi] Let_def mid_def [symmetric]
      using True mid(1, 2, 4, 5) by (simp add: arr_get_def)
    consider "cmp p (d ! mid) > 0" | "cmp p (d ! mid) < 0" | "cmp p (d ! mid) = 0" by linarith
    then show ?thesis
    proof cases
      case 1
      have "sk_bsearch cmp d p (mid + 1) hi = Some (first_index (\<lambda>e. cmp p e = 0) ?xs)"
      proof (rule less.hyps)
        show "\<exists>i. mid + 1 \<le> i \<and> i < hi \<and> cmp p (d ! i) = 0" if "hi \<le> j" "j < n" "cmp p (d ! j) = 0" for j
          using less.prems(4) [OF that] low [OF _ 1] by (metis Suc_eq_plus1 less_irrefl not_less_eq_eq)
      qed (use mid less.prems low [OF _ 1] in auto)
      then show ?thesis using unfold 1 by simp
    next
      case 2
      have "sk_bsearch cmp d p lo mid = Some (first_index (\<lambda>e. cmp p e = 0) ?xs)"
        by (rule less.hyps) (use mid less.prems high [OF _ _ 2] in auto)
      then show ?thesis using unfold 2 by simp
    next
      case 3
      show ?thesis
      proof (cases "hi - lo = 1")
        case one: True
        then have "mid = lo" using True by (simp add: mid_def)
        then have "first_index (\<lambda>e. cmp p e = 0) ?xs = Some mid"
          using 3 mid less.prems(3) assms(2) by (fastforce simp: first_index_Some)
        then show ?thesis using unfold 3 one by simp
      next
        case False
        have "sk_bsearch cmp d p lo (mid + 1) = Some (first_index (\<lambda>e. cmp p e = 0) ?xs)"
          by (rule less.hyps) (use False mid less.prems 3 in auto)
        then show ?thesis using unfold 3 False by simp
      qed
    qed
  qed
qed

end

text \<open>As long as \<open>sk_set\<close> is not called, the flag says that the elements are in order.\<close>

definition no_set :: "sk_op \<Rightarrow> bool" where
  "no_set op = (case op of Op_set _ _ \<Rightarrow> False | _ \<Rightarrow> True)"

definition in_order :: "(nat \<Rightarrow> addr \<Rightarrow> addr \<Rightarrow> int) \<Rightarrow> sk_view \<Rightarrow> bool" where
  "in_order call_cmp v \<longleftrightarrow> (case v of (xs, f, c) \<Rightarrow> f \<longrightarrow> sorted_wrt (\<lambda>a b. call_cmp c a b \<le> 0) xs)"

lemma sorted_wrt_delete: "sorted_wrt P xs \<Longrightarrow> sorted_wrt P (delete_at i xs)"
  by (cases "i < length xs") (auto simp: delete_at_def sorted_wrt_append sorted_wrt_iff_nth_less nth_append)

lemma sorted_wrt_remove1: "sorted_wrt P xs \<Longrightarrow> sorted_wrt P (remove1 x xs)"
  by (induction xs) (auto dest: notin_set_remove1 in_set_remove1 set_remove1_subset [THEN subsetD])

lemma list_step_order:
  assumes "list_step call_cmp op v r v'" "no_set op" "in_order call_cmp v" "\<And>k. k \<noteq> 0 \<Longrightarrow> total_cmp (call_cmp k)"
  shows "in_order call_cmp v'"
proof -
  obtain xs f c where v: "v = (xs, f, c)" by (cases v)
  show ?thesis
    using assms sorted_wrt_delete [of "\<lambda>a b. call_cmp c a b \<le> 0" xs] sorted_wrt_remove1 [of "\<lambda>a b. call_cmp c a b \<le> 0" xs]
    by (cases op) (auto simp: v no_set_def in_order_def inserted_def delete_at_ends [symmetric] split: if_splits)
qed

lemma reachable_order:
  assumes "sk_reachable qs call_cmp no_set s" "c_qsort qs" "\<And>k. k \<noteq> 0 \<Longrightarrow> total_cmp (call_cmp k)"
  shows "in_order call_cmp (view s)"
  using assms(1)
proof (induction rule: sk_reachable.induct)
  case (sk_start ok data_ok cf s)
  then show ?case using sk_new_ok by (simp add: in_order_def view_def)
next
  case (sk_step s op r s')
  have "list_step call_cmp op (view s) r (view s')"
    using sk_exec_ok [OF assms(2) sk_reachable_ok [OF sk_step.hyps(1) assms(2)], of call_cmp op] sk_step.hyps(3) by auto
  then show ?case using list_step_order sk_step.hyps(2) sk_step.IH assms(3) by blast
qed

text \<open>An example: numbers pushed out of order and sorted.\<close>

abbreviation (input) by_value :: "nat \<Rightarrow> addr \<Rightarrow> addr \<Rightarrow> int" where
  "by_value \<equiv> \<lambda>_ a b. int a - int b"

lemma total_by_value: "total_cmp (by_value k)"
  by unfold_locales auto

definition example :: stack where
  "example = \<lparr>num = 3, data = [3, 5, 5, 0], sorted_flag = True, num_alloc = 4, cmp_func = 1\<rparr>"

lemma push_room:
  assumes "sk_ok s" "num s + 1 < num_alloc s"
  shows "sk_exec qs call_cmp (Op_push p ok junk) s =
    Some (num s + 1, s\<lparr>data := (data s)[num s := p], num := num s + 1, sorted_flag := False\<rparr>)"
  using assms by (simp add: sk_push_def sk_insert_def sk_grow_def arr_set_def sk_ok_def Let_def)

lemma example_reachable:
  assumes "\<And>op. no_set op \<Longrightarrow> allowed op"
  shows "sk_reachable qsort by_value allowed example"
proof -
  let ?s = "\<lambda>n d. \<lparr>num = n, data = d, sorted_flag = False, num_alloc = 4, cmp_func = 1\<rparr>"
  let ?push = "\<lambda>p. Op_push p True (\<lambda>_. 0)"
  have "sk_new True True 1 = Some (?s 0 [0, 0, 0, 0])" by (simp add: sk_new_def kMinSize_def eval_nat_numeral)
  then have r0: "sk_reachable qsort by_value allowed (?s 0 [0, 0, 0, 0])" by (rule sk_start)
  have "sk_exec qsort by_value (?push 5) (?s 0 [0, 0, 0, 0]) = Some (1, ?s 1 [5, 0, 0, 0])" by (simp add: push_room sk_ok_def del: sk_exec.simps)
  then have r1: "sk_reachable qsort by_value allowed (?s 1 [5, 0, 0, 0])" by (rule sk_step [OF r0 assms, rotated]) (simp add: no_set_def)
  have "sk_exec qsort by_value (?push 3) (?s 1 [5, 0, 0, 0]) = Some (2, ?s 2 [5, 3, 0, 0])" by (simp add: push_room sk_ok_def del: sk_exec.simps)
  then have r2: "sk_reachable qsort by_value allowed (?s 2 [5, 3, 0, 0])" by (rule sk_step [OF r1 assms, rotated]) (simp add: no_set_def)
  have "sk_exec qsort by_value (?push 5) (?s 2 [5, 3, 0, 0]) = Some (3, ?s 3 [5, 3, 5, 0])" by (simp add: push_room sk_ok_def del: sk_exec.simps)
  then have r3: "sk_reachable qsort by_value allowed (?s 3 [5, 3, 5, 0])" by (rule sk_step [OF r2 assms, rotated]) (simp add: no_set_def)
  have "sk_exec qsort by_value Op_sort (?s 3 [5, 3, 5, 0]) = Some (0, example)"
    by (simp add: sk_sort_def qsort_def example_def numeral_3_eq_3)
  then show ?thesis by (rule sk_step [OF r3 assms, rotated]) (simp add: no_set_def)
qed

text \<open>C30. Searching a stack.  After any sequence of operations without \<open>sk_set\<close>, \<open>sk_find\<close> returns the index of the first
  element that is equal to the given one, and 0 exactly when there is none: the binary search that is used on a
  sorted stack ends and agrees with the search from the front, with duplicates as well, for every comparison
  function that is a total order up to equivalence.  A null pointer is never found on a stack that has a
  comparison function: \<open>sk_find\<close> returns 0 for it before it compares.  The assertions of the loop hold.\<close>

theorem sk_find_exact:
  assumes "c_qsort qs" "\<forall>k. k \<noteq> 0 \<longrightarrow> total_cmp (call_cmp k)" "sk_reachable qs call_cmp no_set s"
  shows "sk_find call_cmp (Some s) p =
    Some (first_index (\<lambda>e. if cmp_func s = 0 then e = p else p \<noteq> 0 \<and> call_cmp (cmp_func s) p e = 0) (elems s))"
proof -
  have ok: "sk_ok s" by (rule sk_reachable_ok [OF assms(3, 1)])
  have "sk_bsearch (call_cmp (cmp_func s)) (data s) p 0 (num s) = Some (first_index (\<lambda>e. call_cmp (cmp_func s) p e = 0) (elems s))"
    if "cmp_func s \<noteq> 0" "sorted_flag s"
    unfolding elems_def
  proof (rule total_cmp.bsearch_first)
    show "total_cmp (call_cmp (cmp_func s))" using assms(2) that(1) by simp
    show "sorted_wrt (\<lambda>a b. call_cmp (cmp_func s) a b \<le> 0) (take (num s) (data s))"
      using reachable_order [OF assms(3, 1)] assms(2) that(2) by (simp add: in_order_def view_def elems_def)
  qed (use ok in \<open>auto simp: sk_ok_def\<close>)
  moreover have "first_index (\<lambda>e. False) (elems s) = None" by (simp add: first_index_None)
  ultimately show ?thesis by (auto simp: sk_find_def sk_is_sorted_def scan_elems [OF ok])
qed

theorem sk_find_exact_witness: "sk_find by_value (Some example) 5 = Some (Some 1)"
proof -
  have "\<forall>k. k \<noteq> 0 \<longrightarrow> total_cmp (by_value k)" using total_by_value by blast
  from sk_find_exact [OF insertion.c_qsort_axioms this example_reachable, of 5]
  show ?thesis by (simp add: example_def elems_def numeral_3_eq_3)
qed

text \<open>C32. An element that is in the stack and not found.  \<open>sk_set\<close> writes an element without clearing the flag \<open>sorted\<close>, so that
  the next search is a binary search on elements that are out of order: on a sorted stack with the elements 3, 5
  and 5, setting the first one to 9 gives a stack that holds 9 and in which \<open>sk_find\<close> does not find 9, although the
  comparison function is a total order.\<close>

theorem sk_set_hides_element:
  "\<exists>s. sk_set (Some example) 0 9 = Some (9, Some s) \<and> sk_reachable qsort by_value (\<lambda>_. True) s \<and> total_cmp (by_value (cmp_func s)) \<and>
     9 \<in> set (elems s) \<and> sk_is_sorted (Some s) \<and> sk_find by_value (Some s) 9 = Some None"
proof -
  let ?s = "example\<lparr>data := [9, 5, 5, 0]\<rparr>"
  have set: "sk_set (Some example) 0 9 = Some (9, Some ?s)" by (simp add: sk_set_def arr_set_def example_def)
  then have "sk_exec qsort by_value (Op_set 0 9) example = Some (9, ?s)" by simp
  then have "sk_reachable qsort by_value (\<lambda>_. True) ?s" by (rule sk_step [OF example_reachable, rotated 2]) simp_all
  moreover have "sk_find by_value (Some ?s) 9 = Some None"
    by (simp add: sk_find_def sk_is_sorted_def example_def sk_bsearch.simps arr_get_def Let_def)
  moreover have "9 \<in> set (elems ?s)" "sk_is_sorted (Some ?s)" by (simp_all add: example_def elems_def sk_is_sorted_def)
  ultimately show ?thesis using set total_by_value by blast
qed

end
