(* ===== verification/Uv_Heap.thy ===== *)
theory Uv_Heap
  imports Prelude
begin

text \<open>
  The pointer heap of libuv (\<open>heap-inl.h\<close>): a binary min heap whose nodes are linked by \<open>left\<close>, \<open>right\<close>
  and \<open>parent\<close> and live inside the objects that they order.

  The store maps the address of a node to its three links.  A pointer to a link, as \<open>heap_insert\<close>
  and \<open>heap_remove\<close> use to descend, is a value of \<open>link\<close>.  The loops that walk up and down are
  partial functions in the option monad, whose result \<open>None\<close> also stands for reading through a null
  pointer: a theorem that an operation returns \<open>Some\<close> state shows that it ends and never does that.
\<close>

section \<open>Nodes and links\<close>

type_synonym node = nat

record heap_node =
  left :: "node option"
  right :: "node option"
  parent :: "node option"

record heap =
  hmin :: "node option"
  nelts :: nat
  mem :: "node \<Rightarrow> heap_node"

datatype link = Min_link | Left_link node | Right_link node

fun get_link :: "heap \<Rightarrow> link \<Rightarrow> node option" where
  "get_link s Min_link = hmin s"
| "get_link s (Left_link x) = left (mem s x)"
| "get_link s (Right_link x) = right (mem s x)"

fun set_link :: "heap \<Rightarrow> link \<Rightarrow> node option \<Rightarrow> heap" where
  "set_link s Min_link v = s\<lparr>hmin := v\<rparr>"
| "set_link s (Left_link x) v = s\<lparr>mem := (mem s)(x := (mem s x)\<lparr>left := v\<rparr>)\<rparr>"
| "set_link s (Right_link x) v = s\<lparr>mem := (mem s)(x := (mem s x)\<lparr>right := v\<rparr>)\<rparr>"

text \<open>An assignment to the \<open>parent\<close> of a node that may be null, then nothing happens.\<close>

definition set_parent :: "heap \<Rightarrow> node option \<Rightarrow> node option \<Rightarrow> heap" where
  "set_parent s x v = (case x of None \<Rightarrow> s | Some y \<Rightarrow> s\<lparr>mem := (mem s)(y := (mem s y)\<lparr>parent := v\<rparr>)\<rparr>)"

abbreviation (input) uint_mod :: nat where "uint_mod \<equiv> 2 ^ 32"

section \<open>Operations\<close>

definition heap_init :: "heap \<Rightarrow> heap" where
  "heap_init s = s\<lparr>hmin := None, nelts := 0\<rparr>"

definition heap_min :: "heap \<Rightarrow> node option" where
  "heap_min s = hmin s"

definition heap_node_swap :: "heap \<Rightarrow> node \<Rightarrow> node \<Rightarrow> heap" where
  "heap_node_swap s p c =
     (let t = mem s p;
          s1 = s\<lparr>mem := (mem s)(p := mem s c)\<rparr>;
          s2 = s1\<lparr>mem := (mem s1)(c := t)\<rparr>;
          s3 = set_parent s2 (Some p) (Some c);
          lft = (left (mem s3 c) = Some c);
          s4 = set_link s3 (if lft then Left_link c else Right_link c) (Some p);
          sibling = (if lft then right (mem s4 c) else left (mem s4 c));
          s5 = set_parent s4 sibling (Some c);
          s6 = set_parent s5 (left (mem s5 p)) (Some p);
          s7 = set_parent s6 (right (mem s6 p)) (Some p)
      in case parent (mem s7 c) of
           None \<Rightarrow> set_link s7 Min_link (Some c)
         | Some g \<Rightarrow>
             if left (mem s7 g) = Some p then set_link s7 (Left_link g) (Some c)
             else set_link s7 (Right_link g) (Some c))"

text \<open>The path from the root to position \<open>n\<close>, counted from one: the bits of \<open>n\<close> below the highest.\<close>

fun heap_path :: "nat \<Rightarrow> nat \<Rightarrow> nat \<Rightarrow> nat \<times> nat" where
  "heap_path path k n =
     (if n \<ge> 2 then heap_path ((path * 2 mod uint_mod) + n mod 2) (k + 1) (n div 2) else (path, k))"

declare heap_path.simps [simp del]

text \<open>The descent keeps the last two links; \<open>None\<close> where the code would follow a null pointer.\<close>

fun heap_walk :: "heap \<Rightarrow> link \<Rightarrow> link \<Rightarrow> nat \<Rightarrow> nat \<Rightarrow> (link \<times> link) option" where
  "heap_walk s par child path 0 = Some (par, child)"
| "heap_walk s par child path (Suc k) =
     (case get_link s child of
        None \<Rightarrow> None
      | Some x \<Rightarrow> heap_walk s child (if path mod 2 = 1 then Right_link x else Left_link x) (path div 2) k)"

partial_function (option) heap_up :: "(node \<Rightarrow> node \<Rightarrow> bool) \<Rightarrow> heap \<Rightarrow> node \<Rightarrow> heap option" where
  "heap_up lt s x =
     (case parent (mem s x) of
        None \<Rightarrow> Some s
      | Some p \<Rightarrow> if lt x p then heap_up lt (heap_node_swap s p x) x else Some s)"

definition heap_insert :: "(node \<Rightarrow> node \<Rightarrow> bool) \<Rightarrow> heap \<Rightarrow> node \<Rightarrow> heap option" where
  "heap_insert lt s newnode =
     (let s1 = s\<lparr>mem := (mem s)(newnode := \<lparr>left = None, right = None, parent = None\<rparr>)\<rparr>;
          (path, k) = heap_path 0 0 ((1 + nelts s1) mod uint_mod)
      in case heap_walk s1 Min_link Min_link path k of
           None \<Rightarrow> None
         | Some (par, child) \<Rightarrow>
             let s2 = set_parent s1 (Some newnode) (get_link s1 par);
                 s3 = set_link s2 child (Some newnode);
                 s4 = s3\<lparr>nelts := (nelts s3 + 1) mod uint_mod\<rparr>
             in heap_up lt s4 newnode)"

partial_function (option) heap_down :: "(node \<Rightarrow> node \<Rightarrow> bool) \<Rightarrow> heap \<Rightarrow> node \<Rightarrow> heap option" where
  "heap_down lt s child =
     (let smallest1 = (case left (mem s child) of
            None \<Rightarrow> child | Some l \<Rightarrow> if lt l child then l else child);
          smallest = (case right (mem s child) of
            None \<Rightarrow> smallest1 | Some r \<Rightarrow> if lt r smallest1 then r else smallest1)
      in if smallest = child then Some s
         else heap_down lt (heap_node_swap s child smallest) child)"

text \<open>The part of \<open>heap_remove\<close> that puts \<open>child\<close> in the place of the node.\<close>

definition heap_replace :: "heap \<Rightarrow> node \<Rightarrow> node \<Rightarrow> heap" where
  "heap_replace s nd child =
     (let s1 = s\<lparr>mem := (mem s)(child := mem s nd)\<rparr>;
          s2 = set_parent s1 (left (mem s1 child)) (Some child);
          s3 = set_parent s2 (right (mem s2 child)) (Some child)
      in case parent (mem s3 nd) of
           None \<Rightarrow> set_link s3 Min_link (Some child)
         | Some g \<Rightarrow>
             if left (mem s3 g) = Some nd then set_link s3 (Left_link g) (Some child)
             else set_link s3 (Right_link g) (Some child))"

definition heap_remove :: "(node \<Rightarrow> node \<Rightarrow> bool) \<Rightarrow> heap \<Rightarrow> node \<Rightarrow> heap option" where
  "heap_remove lt s nd =
     (if nelts s = 0 then Some s
      else
        let (path, k) = heap_path 0 0 (nelts s) in
        (case heap_walk s Min_link Min_link path k of
           None \<Rightarrow> None
         | Some (_, last_link) \<Rightarrow>
             let s1 = s\<lparr>nelts := nelts s - 1\<rparr>;
                 s2 = set_link s1 last_link None
             in (case get_link s1 last_link of
                   None \<Rightarrow> None
                 | Some child \<Rightarrow>
                     if child = nd then
                       Some (if hmin s2 = Some child then set_link s2 Min_link None else s2)
                     else
                       (case heap_down lt (heap_replace s2 nd child) child of
                          None \<Rightarrow> None
                        | Some s3 \<Rightarrow> heap_up lt s3 child))))"

definition heap_dequeue :: "(node \<Rightarrow> node \<Rightarrow> bool) \<Rightarrow> heap \<Rightarrow> heap option" where
  "heap_dequeue lt s =
     (case hmin s of
        None \<Rightarrow> if nelts s = 0 then Some s else if nelts s = 1 then Some (s\<lparr>nelts := 0\<rparr>) else None
      | Some x \<Rightarrow> heap_remove lt s x)"

section \<open>The heap as an array\<close>

text \<open>\<open>at xs i\<close> is the node at position \<open>i\<close>; \<open>heap_rep s xs\<close> says that the links in \<open>s\<close> form the complete
  binary tree whose nodes, row by row, are \<open>xs\<close>.\<close>

definition at :: "node list \<Rightarrow> nat \<Rightarrow> node option" where
  "at xs i = (if i < length xs then Some (xs ! i) else None)"

definition parent_pos :: "nat \<Rightarrow> nat" where
  "parent_pos i = (i - 1) div 2"

definition links_at :: "node list \<Rightarrow> nat \<Rightarrow> heap_node" where
  "links_at xs i =
     \<lparr>left = at xs (2 * i + 1), right = at xs (2 * i + 2), parent = (if i = 0 then None else at xs (parent_pos i))\<rparr>"

definition heap_rep :: "heap \<Rightarrow> node list \<Rightarrow> bool" where
  "heap_rep s xs \<longleftrightarrow>
     distinct xs \<and> nelts s = length xs \<and> hmin s = at xs 0 \<and> (\<forall>i < length xs. mem s (xs ! i) = links_at xs i)"

definition swap :: "'a list \<Rightarrow> nat \<Rightarrow> nat \<Rightarrow> 'a list" where
  "swap xs i j = xs[i := xs ! j, j := xs ! i]"

section \<open>Swapping a node with its parent\<close>

text \<open>Links that agree with each other, as far as the swap needs it.\<close>

definition linked :: "(node \<Rightarrow> heap_node) \<Rightarrow> node set \<Rightarrow> bool" where
  "linked m N \<longleftrightarrow>
     (\<forall>x \<in> N. \<forall>y. left (m x) = Some y \<longrightarrow> y \<in> N \<and> parent (m y) = Some x \<and> right (m x) \<noteq> Some y) \<and>
     (\<forall>x \<in> N. \<forall>y. right (m x) = Some y \<longrightarrow> y \<in> N \<and> parent (m y) = Some x) \<and>
     (\<forall>y \<in> N. \<forall>x. parent (m y) = Some x \<longrightarrow>
        x \<in> N \<and> (left (m x) = Some y \<or> right (m x) = Some y) \<and> x \<noteq> y \<and> parent (m x) \<noteq> Some y)"

definition ren :: "node \<Rightarrow> node \<Rightarrow> node \<Rightarrow> node" where
  "ren p c x = (if x = p then c else if x = c then p else x)"

definition ren_node :: "node \<Rightarrow> node \<Rightarrow> heap_node \<Rightarrow> heap_node" where
  "ren_node p c v = \<lparr>left = map_option (ren p c) (left v), right = map_option (ren p c) (right v),
     parent = map_option (ren p c) (parent v)\<rparr>"

lemma set_parent_simps [simp]:
  "mem (set_parent s y v) x = (if y = Some x then (mem s x)\<lparr>parent := v\<rparr> else mem s x)"
  "hmin (set_parent s y v) = hmin s" "nelts (set_parent s y v) = nelts s"
  by (auto simp: set_parent_def split: option.splits)

lemma set_link_simps [simp]:
  "nelts (set_link s l v) = nelts s"
  "hmin (set_link s (Left_link x) v) = hmin s" "hmin (set_link s (Right_link x) v) = hmin s"
  by (cases l) simp_all

lemma swap_mem:
  assumes "mem s p = \<lparr>left = L, right = R, parent = G\<rparr>" "mem s c = \<lparr>left = l, right = r, parent = Some p\<rparr>"
    "p \<noteq> c" "G \<noteq> Some p" "G \<noteq> Some c" "sib = (if L = Some c then R else L)"
    "sib \<noteq> Some p" "sib \<noteq> Some c" "l \<noteq> Some p" "l \<noteq> Some c" "r \<noteq> Some p" "r \<noteq> Some c"
  shows "mem (heap_node_swap s p c) x =
    (if x = p then \<lparr>left = l, right = r, parent = Some c\<rparr>
     else if x = c then
       (if L = Some c then \<lparr>left = Some p, right = R, parent = G\<rparr> else \<lparr>left = L, right = Some p, parent = G\<rparr>)
     else \<lparr>left = (if G = Some x \<and> left (mem s x) = Some p then Some c else left (mem s x)),
           right = (if G = Some x \<and> left (mem s x) \<noteq> Some p then Some c else right (mem s x)),
           parent = (if l = Some x \<or> r = Some x then Some p else if sib = Some x then Some c else parent (mem s x))\<rparr>)"
    (is "_ = ?rhs")
    and "hmin (heap_node_swap s p c) = (if G = None then Some c else hmin s)"
    and "nelts (heap_node_swap s p c) = nelts s"
proof -
  let ?s3 = "s\<lparr>mem := (mem s)(p := (mem s c)\<lparr>parent := Some c\<rparr>, c := mem s p)\<rparr>"
  let ?s4 = "set_link ?s3 (if L = Some c then Left_link c else Right_link c) (Some p)"
  let ?s7 = "set_parent (set_parent (set_parent ?s4 sib (Some c)) l (Some p)) r (Some p)"
  have s4: "mem ?s4 x =
    (if x = p then \<lparr>left = l, right = r, parent = Some c\<rparr>
     else if x = c then
       (if L = Some c then \<lparr>left = Some p, right = R, parent = G\<rparr> else \<lparr>left = L, right = Some p, parent = G\<rparr>)
     else mem s x)" for x
    using assms(1-3) by simp
  have swap: "heap_node_swap s p c =
    (case G of
       None \<Rightarrow> set_link ?s7 Min_link (Some c)
     | Some g \<Rightarrow> if left (mem ?s7 g) = Some p then set_link ?s7 (Left_link g) (Some c)
                else set_link ?s7 (Right_link g) (Some c))"
  proof -
    let ?s1 = "s\<lparr>mem := (mem s)(p := mem s c)\<rparr>"
    have s3: "set_parent (?s1\<lparr>mem := (mem ?s1)(c := mem s p)\<rparr>) (Some p) (Some c) = ?s3"
      using assms(3) by (simp add: set_parent_def fun_upd_twist)
    have lft: "left (mem ?s3 c) = L" using assms(1) by simp
    have sib: "(if L = Some c then right (mem ?s4 c) else left (mem ?s4 c)) = sib"
      unfolding s4 using assms(3, 6) by simp
    have l: "left (mem (set_parent ?s4 sib (Some c)) p) = l" using s4 [of p] assms(7) by simp
    have r: "right (mem (set_parent (set_parent ?s4 sib (Some c)) l (Some p)) p) = r" using s4 [of p] assms(7, 9) by simp
    have g: "parent (mem ?s7 c) = G" using s4 [of c] assms(3, 8, 10, 12) by simp
    show ?thesis
      unfolding heap_node_swap_def Let_def s3 lft sib l r g ..
  qed
  show "mem (heap_node_swap s p c) x = ?rhs"
  proof -
    define t where "t = ?s7"
    have t: "mem t x = (if l = Some x \<or> r = Some x then (mem ?s4 x)\<lparr>parent := Some p\<rparr>
      else if sib = Some x then (mem ?s4 x)\<lparr>parent := Some c\<rparr> else mem ?s4 x)" for x
      by (simp add: t_def)
    have tp: "mem t p = \<lparr>left = l, right = r, parent = Some c\<rparr>" using assms(7, 9, 11) by (simp add: t s4)
    have tc: "mem t c = (if L = Some c then \<lparr>left = Some p, right = R, parent = G\<rparr> else \<lparr>left = L, right = Some p, parent = G\<rparr>)"
      using assms(3, 8, 10, 12) by (simp add: t s4)
    have tx: "mem t x = (mem s x)\<lparr>parent := if l = Some x \<or> r = Some x then Some p else if sib = Some x then Some c
      else parent (mem s x)\<rparr>" if "x \<noteq> p" "x \<noteq> c" for x using that by (simp add: t s4)
    have links: "mem (set_link t (Left_link g) v) x = (if x = g then (mem t g)\<lparr>left := v\<rparr> else mem t x)"
      "mem (set_link t (Right_link g) v) x = (if x = g then (mem t g)\<lparr>right := v\<rparr> else mem t x)"
      "mem (set_link t Min_link v) x = mem t x" for g v x by simp_all
    consider "x = p" | "x = c" | "x \<noteq> p" "x \<noteq> c" by blast
    then show ?thesis
    proof cases
      case 1
      then show ?thesis unfolding swap t_def [symmetric] using tp assms(3, 4) by (cases G) (auto simp: links simp del: set_link.simps)
    next
      case 2
      then show ?thesis unfolding swap t_def [symmetric] using tc assms(3, 5) by (cases G) (auto simp: links simp del: set_link.simps)
    next
      case 3
      show ?thesis
      proof (cases "G = Some x")
        case True
        then show ?thesis unfolding swap t_def [symmetric] using tx [OF 3] 3 by (simp add: links del: set_link.simps)
      next
        case False
        then have "mem (heap_node_swap s p c) x = mem t x"
          unfolding swap t_def [symmetric] by (cases G) (auto simp: links simp del: set_link.simps)
        then show ?thesis using tx [OF 3] 3 False by simp
      qed
    qed
  qed
  show "hmin (heap_node_swap s p c) = (if G = None then Some c else hmin s)"
    unfolding swap by (simp split: option.split)
  show "nelts (heap_node_swap s p c) = nelts s"
    unfolding swap by (simp split: option.split)
qed

lemma ren_option: "map_option (ren p c) y = (if y = Some p then Some c else if y = Some c then Some p else y)"
  by (cases y) (auto simp: ren_def)

lemma linkedD:
  assumes "linked m N"
  shows "x \<in> N \<Longrightarrow> left (m x) = Some y \<Longrightarrow> y \<in> N \<and> parent (m y) = Some x \<and> right (m x) \<noteq> Some y"
    and "x \<in> N \<Longrightarrow> right (m x) = Some y \<Longrightarrow> y \<in> N \<and> parent (m y) = Some x \<and> left (m x) \<noteq> Some y"
    and "y \<in> N \<Longrightarrow> parent (m y) = Some x \<Longrightarrow> x \<in> N \<and> (left (m x) = Some y \<or> right (m x) = Some y) \<and> x \<noteq> y \<and> parent (m x) \<noteq> Some y"
  using assms unfolding linked_def by metis+

lemma swap_renames:
  assumes "linked (mem s) N" "c \<in> N" "parent (mem s c) = Some p"
  shows "x \<in> N \<Longrightarrow> mem (heap_node_swap s p c) x = ren_node p c (mem s (ren p c x))"
    and "hmin (heap_node_swap s p c) = (if parent (mem s p) = None then Some c else hmin s)"
    and "nelts (heap_node_swap s p c) = nelts s"
proof -
  note D = linkedD [OF assms(1)]
  obtain L R G where p: "mem s p = \<lparr>left = L, right = R, parent = G\<rparr>" by (cases "mem s p") simp
  obtain l r where c: "mem s c = \<lparr>left = l, right = r, parent = Some p\<rparr>" using assms(3) by (cases "mem s c") simp
  define sib where "sib = (if L = Some c then R else L)"
  have pN: "p \<in> N" "p \<noteq> c" "G \<noteq> Some c" using D(3) [OF assms(2, 3)] p by auto
  have G: "G \<noteq> Some p" using D(3) [OF pN(1), of p] p by auto
  have LR: "L = Some c \<and> R = sib \<or> R = Some c \<and> L = sib" "sib \<noteq> Some c"
    using D(1, 2) [of p c] D(3) [OF assms(2, 3)] pN(1) p by (auto simp: sib_def)
  have sib: "sib \<noteq> Some p" using D(1-3) [of p p] pN(1) p LR by auto
  have l: "l \<noteq> Some p" "l \<noteq> Some c" using D(1) [OF assms(2), of p] D(1, 3) [of c c] assms(2) c p pN by auto
  have r: "r \<noteq> Some p" "r \<noteq> Some c" using D(2) [OF assms(2), of p] D(2, 3) [of c c] assms(2) c p pN by auto
  note swap = swap_mem [OF p c pN(2) G pN(3) sib_def sib LR(2) l r]
  show "hmin (heap_node_swap s p c) = (if parent (mem s p) = None then Some c else hmin s)"
    "nelts (heap_node_swap s p c) = nelts s" using swap(2, 3) p by simp_all
  show "mem (heap_node_swap s p c) x = ren_node p c (mem s (ren p c x))" if xN: "x \<in> N"
  proof (cases "x = p \<or> x = c")
    case True
    then show ?thesis
      using swap(1) [of x] p c pN G LR sib l r by (auto simp: ren_node_def ren_option ren_def)
  next
    case False
    then have ren: "ren p c x = x" by (simp add: ren_def)
    have left: "left (mem s x) \<noteq> Some c" "left (mem s x) = Some p \<Longrightarrow> G = Some x"
      using D(1) [OF xN, of c] D(1) [OF xN, of p] c p False by auto
    have right: "right (mem s x) \<noteq> Some c" "right (mem s x) = Some p \<longleftrightarrow> G = Some x \<and> left (mem s x) \<noteq> Some p"
      using D(2) [OF xN, of c] D(2) [OF xN, of p] D(3) [OF pN(1), of x] c p False by auto
    have up: "parent (mem s x) = Some p \<longleftrightarrow> sib = Some x" "parent (mem s x) = Some c \<longleftrightarrow> l = Some x \<or> r = Some x"
      using D(3) [OF xN, of p] D(3) [OF xN, of c] D(1, 2) [of p x] D(1, 2) [of c x] assms(2) pN(1) c p LR False by auto
    show ?thesis
      unfolding swap(1) ren ren_node_def ren_option using False left right up pN(2)
      by (cases "mem s x") auto
  qed
qed

section \<open>The swap on the array\<close>

lemma parent_pos_less: "0 < i \<Longrightarrow> parent_pos i < i"
  by (auto simp: parent_pos_def)

lemma parent_pos_child: "parent_pos (2 * i + 1) = i" "parent_pos (2 * i + 2) = i"
  by (simp_all add: parent_pos_def)

lemma child_parent_pos: "0 < i \<Longrightarrow> i = 2 * parent_pos i + 1 \<or> i = 2 * parent_pos i + 2"
  by (simp add: parent_pos_def) presburger

lemma length_swap [simp]: "length (swap xs i j) = length xs"
  by (simp add: swap_def)

lemma at_Some: "at xs i = Some x \<longleftrightarrow> i < length xs \<and> x = xs ! i"
  by (auto simp: at_def)

lemma at_eq: "distinct xs \<Longrightarrow> j < length xs \<Longrightarrow> at xs i = Some (xs ! j) \<longleftrightarrow> i = j"
  by (auto simp: at_def nth_eq_iff_index_eq)

lemma rep_mem: "heap_rep s xs \<Longrightarrow> i < length xs \<Longrightarrow> mem s (xs ! i) = links_at xs i"
  by (simp add: heap_rep_def)

lemma rep_parent: "heap_rep s xs \<Longrightarrow> i < length xs \<Longrightarrow> parent (mem s (xs ! i)) = (if i = 0 then None else Some (xs ! parent_pos i))"
  using parent_pos_less [of i] by (cases "i = 0") (auto simp: rep_mem links_at_def at_def)

lemma rep_linked:
  assumes "heap_rep s xs"
  shows "linked (mem s) (set xs)"
proof -
  have d: "distinct xs" using assms by (simp add: heap_rep_def)
  note m = rep_mem [OF assms] and p = rep_parent [OF assms]
  have left: "y \<in> set xs \<and> parent (mem s y) = Some x \<and> right (mem s x) \<noteq> Some y"
    if x: "x \<in> set xs" "left (mem s x) = Some y" for x y
  proof -
    obtain i where i: "i < length xs" "x = xs ! i" using x(1) by (auto simp: in_set_conv_nth)
    then have y: "2 * i + 1 < length xs" "y = xs ! (2 * i + 1)" using x(2) m by (auto simp: links_at_def at_Some)
    then show ?thesis using i p [OF y(1)] m [OF i(1)] at_eq [OF d y(1)] parent_pos_child(1) [of i] by (simp add: links_at_def)
  qed
  have right: "y \<in> set xs \<and> parent (mem s y) = Some x" if x: "x \<in> set xs" "right (mem s x) = Some y" for x y
  proof -
    obtain i where i: "i < length xs" "x = xs ! i" using x(1) by (auto simp: in_set_conv_nth)
    then have y: "2 * i + 2 < length xs" "y = xs ! (2 * i + 2)" using x(2) m by (auto simp: links_at_def at_Some)
    then show ?thesis using i p [OF y(1)] parent_pos_child(2) [of i] by simp
  qed
  have up: "x \<in> set xs \<and> (left (mem s x) = Some y \<or> right (mem s x) = Some y) \<and> x \<noteq> y \<and> parent (mem s x) \<noteq> Some y"
    if y: "y \<in> set xs" "parent (mem s y) = Some x" for x y
  proof -
    obtain j where j: "j < length xs" "y = xs ! j" using y(1) by (auto simp: in_set_conv_nth)
    then have x: "0 < j" "x = xs ! parent_pos j" using y(2) p by (auto split: if_splits)
    note ab = parent_pos_less [OF x(1)]
    have "xs ! parent_pos j \<noteq> xs ! j" "parent_pos j \<noteq> 0 \<Longrightarrow> xs ! parent_pos (parent_pos j) \<noteq> xs ! j"
      using d ab j(1) parent_pos_less [of "parent_pos j"] by (auto simp: nth_eq_iff_index_eq)
    moreover have "left (mem s x) = Some y \<or> right (mem s x) = Some y"
    proof -
      have "left (mem s x) = at xs (2 * parent_pos j + 1)" "right (mem s x) = at xs (2 * parent_pos j + 2)"
        using m [of "parent_pos j"] ab j(1) x(2) by (simp_all add: links_at_def)
      moreover have "at xs j = Some y" using j by (simp add: at_def)
      ultimately show ?thesis using child_parent_pos [OF x(1)] by metis
    qed
    ultimately show ?thesis using p [of "parent_pos j"] ab j x(2) by auto
  qed
  show ?thesis unfolding linked_def using left right up by blast
qed

lemma swap_map:
  assumes "distinct xs" "i < length xs" "j < length xs"
  shows "swap xs i j = map (ren (xs ! i) (xs ! j)) xs"
proof (rule nth_equalityI)
  show "length (swap xs i j) = length (map (ren (xs ! i) (xs ! j)) xs)" by simp
  show "swap xs i j ! k = map (ren (xs ! i) (xs ! j)) xs ! k" if "k < length (swap xs i j)" for k
    using assms that by (auto simp: swap_def ren_def nth_list_update nth_eq_iff_index_eq)
qed

lemma at_map: "at (map f xs) i = map_option f (at xs i)"
  by (simp add: at_def)

lemma rep_swap:
  assumes "heap_rep s xs" "0 < j" "j < length xs"
  shows "heap_rep (heap_node_swap s (xs ! parent_pos j) (xs ! j)) (swap xs (parent_pos j) j)"
proof -
  let ?i = "parent_pos j" let ?f = "ren (xs ! ?i) (xs ! j)" and ?s = "heap_node_swap s (xs ! parent_pos j) (xs ! j)"
  have d: "distinct xs" using assms(1) by (simp add: heap_rep_def)
  have i: "?i < j" "?i < length xs" using parent_pos_less [OF assms(2)] assms(3) by auto
  have ys: "swap xs ?i j = map ?f xs" by (rule swap_map [OF d i(2) assms(3)])
  have par: "parent (mem s (xs ! j)) = Some (xs ! ?i)" using rep_parent [OF assms(1, 3)] assms(2) by simp
  note sw = swap_renames [OF rep_linked [OF assms(1)] nth_mem [OF assms(3)] par]
  have inv: "?f (?f x) = x" for x by (auto simp: ren_def)
  have mem: "mem ?s (map ?f xs ! k) = links_at (map ?f xs) k" if "k < length xs" for k
  proof -
    have "?f (xs ! k) \<in> set xs" using that i assms(3) by (auto simp: ren_def)
    then have "mem ?s (?f (xs ! k)) = ren_node (xs ! ?i) (xs ! j) (links_at xs k)"
      using sw(1) inv rep_mem [OF assms(1) that] by simp
    then show ?thesis using that by (auto simp: links_at_def ren_node_def at_map)
  qed
  have "hmin ?s = at (map ?f xs) 0"
    using sw(2) rep_parent [OF assms(1) i(2)] assms d i
    by (auto simp: heap_rep_def at_def ren_def nth_eq_iff_index_eq)
  moreover have "distinct (map ?f xs)" using d by (simp add: distinct_map inj_on_inverseI [where g = ?f] inv)
  moreover have "nelts ?s = length xs" using sw(3) assms(1) by (simp add: heap_rep_def)
  ultimately show ?thesis unfolding ys heap_rep_def using mem by simp
qed

section \<open>Walking up and down\<close>

function sift_up :: "('a \<Rightarrow> 'a \<Rightarrow> bool) \<Rightarrow> 'a list \<Rightarrow> nat \<Rightarrow> 'a list" where
  "sift_up lt xs j =
     (if 0 < j \<and> lt (xs ! j) (xs ! parent_pos j) then sift_up lt (swap xs (parent_pos j) j) (parent_pos j) else xs)"
  by pat_completeness auto

termination
  by (relation "measure (\<lambda>(_, _, j). j)") (auto simp: parent_pos_less)

definition smaller_child :: "('a \<Rightarrow> 'a \<Rightarrow> bool) \<Rightarrow> 'a list \<Rightarrow> nat \<Rightarrow> nat" where
  "smaller_child lt xs i =
     (let m = (if 2 * i + 1 < length xs \<and> lt (xs ! (2 * i + 1)) (xs ! i) then 2 * i + 1 else i)
      in if 2 * i + 2 < length xs \<and> lt (xs ! (2 * i + 2)) (xs ! m) then 2 * i + 2 else m)"

lemma smaller_child_cases:
  "smaller_child lt xs i = i \<or> (smaller_child lt xs i < length xs \<and> i < smaller_child lt xs i \<and> parent_pos (smaller_child lt xs i) = i)"
  by (auto simp: smaller_child_def Let_def parent_pos_def)

function sift_down :: "('a \<Rightarrow> 'a \<Rightarrow> bool) \<Rightarrow> 'a list \<Rightarrow> nat \<Rightarrow> 'a list \<times> nat" where
  "sift_down lt xs i =
     (let m = smaller_child lt xs i in if m = i then (xs, i) else sift_down lt (swap xs i m) m)"
  by pat_completeness auto

termination
proof (relation "measure (\<lambda>(_, xs, i). length xs - i)", goal_cases)
  case (2 lt xs i m)
  then show ?case using smaller_child_cases [of lt xs i] by auto
qed simp

declare sift_up.simps [simp del] sift_down.simps [simp del]

lemma heap_up_rep:
  "heap_rep s xs \<Longrightarrow> j < length xs \<Longrightarrow> \<exists>s'. heap_up lt s (xs ! j) = Some s' \<and> heap_rep s' (sift_up lt xs j)"
proof (induction lt xs j arbitrary: s rule: sift_up.induct)
  case (1 lt xs j)
  note par = rep_parent [OF 1(2, 3)]
  show ?case
  proof (cases "0 < j \<and> lt (xs ! j) (xs ! parent_pos j)")
    case True
    then have j: "0 < j" "parent_pos j < j" using parent_pos_less by auto
    have "swap xs (parent_pos j) j ! parent_pos j = xs ! j" using 1(3) j by (simp add: swap_def nth_list_update)
    then have "\<exists>s'. heap_up lt (heap_node_swap s (xs ! parent_pos j) (xs ! j)) (xs ! j) = Some s' \<and>
      heap_rep s' (sift_up lt (swap xs (parent_pos j) j) (parent_pos j))"
      using 1(1) [OF True rep_swap [OF 1(2) j(1) 1(3)]] j 1(3) by simp
    then show ?thesis using True par by (simp add: heap_up.simps [of lt s] sift_up.simps [of lt xs])
  next
    case False
    then show ?thesis using par 1(2) by (auto simp: heap_up.simps [of lt s] sift_up.simps [of lt xs])
  qed
qed

lemma heap_down_rep:
  "heap_rep s xs \<Longrightarrow> i < length xs \<Longrightarrow>
   \<exists>s'. heap_down lt s (xs ! i) = Some s' \<and> heap_rep s' (fst (sift_down lt xs i)) \<and>
     snd (sift_down lt xs i) < length xs \<and> fst (sift_down lt xs i) ! snd (sift_down lt xs i) = xs ! i \<and>
     length (fst (sift_down lt xs i)) = length xs"
proof (induction lt xs i arbitrary: s rule: sift_down.induct)
  case (1 lt xs i)
  have d: "distinct xs" using 1(2) by (simp add: heap_rep_def)
  let ?m = "smaller_child lt xs i"
  have links: "left (mem s (xs ! i)) = at xs (2 * i + 1)" "right (mem s (xs ! i)) = at xs (2 * i + 2)"
    using rep_mem [OF 1(2, 3)] by (simp_all add: links_at_def)
  have "(let smallest1 = (case at xs (2 * i + 1) of
            None \<Rightarrow> xs ! i | Some l \<Rightarrow> if lt l (xs ! i) then l else xs ! i)
      in case at xs (2 * i + 2) of
           None \<Rightarrow> smallest1 | Some r \<Rightarrow> if lt r smallest1 then r else smallest1) = xs ! ?m"
    by (simp add: at_def smaller_child_def Let_def)
  then have step: "heap_down lt s (xs ! i) =
    (if xs ! ?m = xs ! i then Some s else heap_down lt (heap_node_swap s (xs ! i) (xs ! ?m)) (xs ! i))"
    unfolding heap_down.simps [of lt s] links by (simp add: Let_def)
  show ?case
  proof (cases "?m = i")
    case True
    then show ?thesis using step 1(2, 3) by (simp add: sift_down.simps [of lt xs])
  next
    case False
    then have m: "?m < length xs" "i < ?m" "parent_pos ?m = i" using smaller_child_cases [of lt xs i] by auto
    have ne: "xs ! ?m \<noteq> xs ! i" using d m 1(3) by (simp add: nth_eq_iff_index_eq)
    have rep: "heap_rep (heap_node_swap s (xs ! i) (xs ! ?m)) (swap xs i ?m)"
      using rep_swap [OF 1(2), of ?m] m by simp
    have "swap xs i ?m ! ?m = xs ! i" using m by (simp add: swap_def)
    then show ?thesis
      using 1(1) [OF refl False rep] m(1) False by (simp add: step ne sift_down.simps [of lt xs i] Let_def)
  qed
qed

section \<open>Finding the last position\<close>

fun apply_path :: "nat \<Rightarrow> nat \<Rightarrow> nat \<Rightarrow> nat" where
  "apply_path m path 0 = m"
| "apply_path m path (Suc k) = apply_path (2 * m + path mod 2) (path div 2) k"

lemma heap_path_correct:
  "path < 2 ^ k \<Longrightarrow> n * 2 ^ k < uint_mod \<Longrightarrow> 1 \<le> n \<Longrightarrow>
   case heap_path path k n of (path', k') \<Rightarrow> apply_path 1 path' k' = apply_path n path k"
proof (induction path k n rule: heap_path.induct)
  case (1 path k n)
  show ?case
  proof (cases "2 \<le> n")
    case True
    have "2 * 2 ^ k \<le> n * 2 ^ k" using True by simp
    then have "path * 2 < uint_mod" using 1(2, 3) by linarith
    then have m: "path * 2 mod uint_mod + n mod 2 = path * 2 + n mod 2" by simp
    have "path * 2 + n mod 2 < 2 ^ Suc k" using 1(2) by simp
    moreover have "n div 2 * 2 ^ Suc k \<le> n * 2 ^ k" by simp
    then have "n div 2 * 2 ^ Suc k < uint_mod" using 1(3) by linarith
    moreover have "1 \<le> n div 2" using True by simp
    ultimately have "case heap_path (path * 2 + n mod 2) (Suc k) (n div 2) of (path', k') \<Rightarrow>
        apply_path 1 path' k' = apply_path (n div 2) (path * 2 + n mod 2) (Suc k)"
      using 1(1) [OF True] m by simp
    then show ?thesis using True m by (simp add: heap_path.simps [of path k n])
  next
    case False
    then have "n = 1" using 1(4) by simp
    then show ?thesis by (simp add: heap_path.simps [of path k "Suc 0"])
  qed
qed

text \<open>The link that leads to position \<open>i\<close>.\<close>

definition link_at :: "node list \<Rightarrow> nat \<Rightarrow> link" where
  "link_at xs i = (if i = 0 then Min_link else if odd i then Left_link (xs ! parent_pos i) else Right_link (xs ! parent_pos i))"

lemma link_at_child:
  "link_at xs (2 * i + 1) = Left_link (xs ! i)" "link_at xs (2 * i + 2) = Right_link (xs ! i)"
  by (simp_all add: link_at_def parent_pos_child [simplified])

lemma get_link_at:
  assumes "heap_rep s xs" "i = 0 \<or> parent_pos i < length xs"
  shows "get_link s (link_at xs i) = at xs i"
proof (cases "i = 0")
  case True
  then show ?thesis using assms(1) by (simp add: link_at_def heap_rep_def)
next
  case False
  then have a: "parent_pos i < length xs" using assms(2) by simp
  from child_parent_pos [OF False [unfolded neq0_conv]] show ?thesis
  proof (elim disjE)
    assume "i = 2 * parent_pos i + 1"
    then show ?thesis using rep_mem [OF assms(1) a] link_at_child(1) [of xs "parent_pos i"]
      by (metis get_link.simps(2) heap_node.select_convs(1) links_at_def)
  next
    assume "i = 2 * parent_pos i + 2"
    then show ?thesis using rep_mem [OF assms(1) a] link_at_child(2) [of xs "parent_pos i"]
      by (metis get_link.simps(3) heap_node.select_convs(2) links_at_def)
  qed
qed

lemma apply_path_ge: "m * 2 ^ k \<le> apply_path m path k"
proof (induction k arbitrary: m path)
  case (Suc k)
  have "m * 2 ^ Suc k \<le> (2 * m + path mod 2) * 2 ^ k" by simp
  also have "\<dots> \<le> apply_path (2 * m + path mod 2) (path div 2) k" by (rule Suc.IH)
  finally show ?case by simp
qed simp

lemma heap_walk_rep:
  assumes "heap_rep s xs" "1 \<le> m" "apply_path m path k \<le> length xs + 1"
  shows "heap_walk s par (link_at xs (m - 1)) path k =
    Some (if k = 0 then par else link_at xs (parent_pos (apply_path m path k - 1)), link_at xs (apply_path m path k - 1))"
  using assms(2, 3)
proof (induction k arbitrary: m path par)
  case (Suc k)
  let ?m = "2 * m + path mod 2"
  have "?m * 1 \<le> ?m * 2 ^ k" by (intro mult_le_mono2) simp
  also have "\<dots> \<le> apply_path ?m (path div 2) k" by (rule apply_path_ge)
  finally have "?m \<le> length xs + 1" using Suc.prems(2) by simp
  then have m: "m \<le> length xs" "parent_pos (m - 1) < length xs" using Suc.prems(1) by (auto simp: parent_pos_def)
  then have get: "get_link s (link_at xs (m - 1)) = Some (xs ! (m - 1))"
    using get_link_at [OF assms(1), of "m - 1"] Suc.prems(1) by (auto simp: at_def)
  have link: "(if path mod 2 = 1 then Right_link (xs ! (m - 1)) else Left_link (xs ! (m - 1))) = link_at xs (?m - 1)"
  proof -
    have "2 * m - 1 = 2 * (m - 1) + 1" "2 * m = 2 * (m - 1) + 2" using Suc.prems(1) by simp_all
    then show ?thesis using link_at_child [of xs "m - 1"] by (cases "path mod 2 = 1") auto
  qed
  have parent_pos: "parent_pos (?m - 1) = m - 1" using Suc.prems(1) by (auto simp: parent_pos_def)
  show ?case
    using Suc.IH [of ?m "path div 2" "link_at xs (m - 1)"] Suc.prems get link parent_pos by (cases "k = 0") auto
qed simp

lemma heap_path_walk:
  assumes "heap_rep s xs" "1 \<le> n" "n \<le> length xs + 1" "n < uint_mod"
  obtains path k where "heap_path 0 0 n = (path, k)" "n = 1 \<longleftrightarrow> k = 0"
    "heap_walk s Min_link Min_link path k =
       Some (if k = 0 then Min_link else link_at xs (parent_pos (n - 1)), link_at xs (n - 1))"
proof -
  obtain path k where p: "heap_path 0 0 n = (path, k)" by force
  then have a: "apply_path 1 path k = n" using heap_path_correct [of 0 0 n] assms(2, 4) by simp
  have "n = 1 \<longleftrightarrow> k = 0"
  proof
    show "k = 0 \<Longrightarrow> n = 1" using a by simp
    have "2 ^ k \<le> n" using apply_path_ge [of 1 k path] a by simp
    then show "k = 0" if "n = 1" using that less_exp [of k] by linarith
  qed
  moreover have "link_at xs 0 = Min_link" by (simp add: link_at_def)
  ultimately show thesis using that [OF p] heap_walk_rep [OF assms(1), of 1 path k Min_link] a assms(3) by simp
qed

section \<open>Insertion\<close>

lemma rep_other: "heap_rep s xs \<Longrightarrow> x \<notin> set xs \<Longrightarrow> heap_rep (s\<lparr>mem := (mem s)(x := v)\<rparr>) xs"
  by (auto simp: heap_rep_def)

text \<open>A store whose links are those of the array, node by node.\<close>

lemma rep_append:
  assumes "heap_rep s xs" "x \<notin> set xs" "mem s x = \<lparr>left = None, right = None, parent = None\<rparr>"
  shows "heap_rep ((set_link (set_parent s (Some x) (if xs = [] then None else Some (xs ! parent_pos (length xs))))
      (link_at xs (length xs)) (Some x))\<lparr>nelts := length xs + 1\<rparr>) (xs @ [x])" (is "heap_rep ?t _")
proof -
  let ?n = "length xs" and ?par = "if xs = [] then None else Some (xs ! parent_pos (length xs))"
  let ?s = "set_parent s (Some x) ?par"
  have s: "mem ?s y = (if y = x then \<lparr>left = None, right = None, parent = ?par\<rparr> else mem s y)" for y
    using assms(3) by auto
  have d: "distinct (xs @ [x])" using assms(1, 2) by (simp add: heap_rep_def)
  have at: "at (xs @ [x]) k = (if k = ?n then Some x else at xs k)" for k by (auto simp: at_def nth_append)
  show ?thesis
  proof (cases "xs = []")
    case True
    then show ?thesis using assms by (simp add: heap_rep_def link_at_def links_at_def at_def)
  next
    case False
    then have n: "0 < ?n" and a: "parent_pos ?n < ?n" using parent_pos_less by auto
    have x: "xs ! k \<noteq> x" if "k < ?n" for k using that assms(2) by auto
    have t: "mem ?t y = (if y = xs ! parent_pos ?n then
        (if odd ?n then (mem s y)\<lparr>left := Some x\<rparr> else (mem s y)\<lparr>right := Some x\<rparr>) else mem ?s y)" for y
      using n x [OF a] by (auto simp: link_at_def)
    have "mem ?t ((xs @ [x]) ! k) = links_at (xs @ [x]) k" if "k < ?n + 1" for k
    proof (cases "k = ?n")
      case True
      then show ?thesis using t [of x] s [of x] x [OF a] n a by (auto simp: links_at_def at at_def nth_append)
    next
      case k: False
      then have k': "k < ?n" using that by simp
      have old: "mem s (xs ! k) = links_at xs k" by (rule rep_mem [OF assms(1) k'])
      have par: "(if k = 0 then None else at (xs @ [x]) (parent_pos k)) = (if k = 0 then None else at xs (parent_pos k))"
        using parent_pos_less [of k] k' by (auto simp: at)
      show ?thesis
      proof (cases "k = parent_pos ?n")
        case True
        have mem: "mem ?t (xs ! k) = (if odd ?n then (links_at xs k)\<lparr>left := Some x\<rparr> else (links_at xs k)\<lparr>right := Some x\<rparr>)"
          using t [of "xs ! k"] old by (simp only: True refl if_True)
        have "?n = 2 * k + 1 \<or> ?n = 2 * k + 2" using child_parent_pos [OF n] True by metis
        then show ?thesis
        proof (elim disjE)
          assume e: "?n = 2 * k + 1"
          then have "at (xs @ [x]) (2 * k + 1) = Some x" "at (xs @ [x]) (2 * k + 2) = at xs (2 * k + 2)" "odd ?n" by (simp_all add: at)
          then show ?thesis using mem par k' by (simp add: links_at_def nth_append)
        next
          assume e: "?n = 2 * k + 2"
          then have "at (xs @ [x]) (2 * k + 1) = at xs (2 * k + 1)" "at (xs @ [x]) (2 * k + 2) = Some x" "even ?n" by (simp_all add: at)
          then show ?thesis using mem par k' by (simp add: links_at_def nth_append)
        qed
      next
        case False
        then have "2 * k + 1 \<noteq> ?n" "2 * k + 2 \<noteq> ?n" using parent_pos_child by metis+
        moreover have "xs ! k \<noteq> xs ! parent_pos ?n" using False k' a assms(1) by (simp add: heap_rep_def nth_eq_iff_index_eq)
        ultimately show ?thesis using t [of "xs ! k"] s [of "xs ! k"] x [OF k'] old par k'
          by (simp add: links_at_def at nth_append)
      qed
    qed
    moreover have "hmin ?t = at (xs @ [x]) 0"
      using False assms(1) n by (auto simp: at link_at_def heap_rep_def)
    ultimately show ?thesis unfolding heap_rep_def using d by simp
  qed
qed

lemma heap_insert_rep:
  assumes "heap_rep s xs" "x \<notin> set xs" "length xs + 1 < uint_mod"
  shows "\<exists>s'. heap_insert lt s x = Some s' \<and> heap_rep s' (sift_up lt (xs @ [x]) (length xs))"
proof -
  let ?s1 = "s\<lparr>mem := (mem s)(x := \<lparr>left = None, right = None, parent = None\<rparr>)\<rparr>"
  have rep: "heap_rep ?s1 xs" by (rule rep_other [OF assms(1, 2)])
  have n: "nelts ?s1 = length xs" using rep by (simp add: heap_rep_def)
  obtain path k where p: "heap_path 0 0 (length xs + 1) = (path, k)" "length xs + 1 = 1 \<longleftrightarrow> k = 0"
    and w: "heap_walk ?s1 Min_link Min_link path k =
      Some (if k = 0 then Min_link else link_at xs (parent_pos (length xs + 1 - 1)), link_at xs (length xs + 1 - 1))"
    using heap_path_walk [OF rep _ _ assms(3)] by (metis le_add2 order_refl)
  let ?par = "if k = 0 then Min_link else link_at xs (parent_pos (length xs))"
  have par: "get_link ?s1 ?par = (if xs = [] then None else Some (xs ! parent_pos (length xs)))"
  proof (cases "xs = []")
    case True
    then show ?thesis using p(2) rep by (simp add: heap_rep_def at_def)
  next
    case False
    then have "parent_pos (length xs) < length xs" using parent_pos_less by simp
    moreover from this have "parent_pos (parent_pos (length xs)) < length xs" using parent_pos_less [of "parent_pos (length xs)"] by (auto simp: parent_pos_def)
    ultimately show ?thesis using get_link_at [OF rep, of "parent_pos (length xs)"] False p(2) by (simp add: at_def)
  qed
  let ?s2 = "set_parent ?s1 (Some x) (if xs = [] then None else Some (xs ! parent_pos (length xs)))"
  let ?s4 = "(set_link ?s2 (link_at xs (length xs)) (Some x))\<lparr>nelts := length xs + 1\<rparr>"
  have "(1 + length xs) mod uint_mod = length xs + 1" using assms(3) by simp
  moreover have "nelts (set_link ?s2 l v) = length xs" for l v using n by simp
  ultimately have "heap_insert lt s x = heap_up lt ?s4 x"
    unfolding heap_insert_def Let_def n using assms(3)
    by (simp only: p(1) w par prod.case option.case add_diff_cancel_right' mod_less)
  moreover have "heap_rep ?s4 (xs @ [x])" by (rule rep_append [OF rep assms(2)]) simp
  ultimately show ?thesis using heap_up_rep [of ?s4 "xs @ [x]" "length xs" lt] by simp
qed

section \<open>Removal\<close>

lemma rep_butlast:
  assumes "heap_rep s xs" "xs \<noteq> []"
  shows "heap_rep (set_link (s\<lparr>nelts := length xs - 1\<rparr>) (link_at xs (length xs - 1)) None) (butlast xs)" (is "heap_rep ?t _")
proof -
  let ?n = "length xs - 1"
  have d: "distinct xs" using assms(1) by (simp add: heap_rep_def)
  have at: "at (butlast xs) k = (if k = ?n then None else at xs k)" for k by (auto simp: at_def nth_butlast)
  have t: "mem ?t y = (if 0 < ?n \<and> y = xs ! parent_pos ?n then
      (if odd ?n then (mem s y)\<lparr>left := None\<rparr> else (mem s y)\<lparr>right := None\<rparr>) else mem s y)" for y
    by (simp add: link_at_def)
  have "mem ?t (butlast xs ! k) = links_at (butlast xs) k" if k: "k < ?n" for k
  proof -
    have old: "mem s (xs ! k) = links_at xs k" using rep_mem [OF assms(1)] k by simp
    have par: "(if k = 0 then None else at (butlast xs) (parent_pos k)) = (if k = 0 then None else at xs (parent_pos k))"
      using parent_pos_less [of k] k by (auto simp: at)
    have nth: "butlast xs ! k = xs ! k" using k by (simp add: nth_butlast)
    have n: "0 < ?n" using k by simp
    show ?thesis
    proof (cases "k = parent_pos ?n")
      case True
      have mem: "mem ?t (xs ! k) = (if odd ?n then (links_at xs k)\<lparr>left := None\<rparr> else (links_at xs k)\<lparr>right := None\<rparr>)"
        using t [of "xs ! k"] old n by (simp only: True refl if_True simp_thms)
      have "?n = 2 * k + 1 \<or> ?n = 2 * k + 2" using child_parent_pos [OF n] True by metis
      then show ?thesis
      proof (elim disjE)
        assume e: "?n = 2 * k + 1"
        then have "at (butlast xs) (2 * k + 1) = None" "at (butlast xs) (2 * k + 2) = at xs (2 * k + 2)" "odd ?n"
          by (simp_all add: at)
        then show ?thesis using mem par nth by (simp add: links_at_def)
      next
        assume e: "?n = 2 * k + 2"
        then have "at (butlast xs) (2 * k + 1) = at xs (2 * k + 1)" "at (butlast xs) (2 * k + 2) = None" "even ?n"
          by (simp_all add: at)
        then show ?thesis using mem par nth by (simp add: links_at_def)
      qed
    next
      case False
      then have "2 * k + 1 \<noteq> ?n" "2 * k + 2 \<noteq> ?n" using parent_pos_child by metis+
      moreover have "xs ! k \<noteq> xs ! parent_pos ?n"
        using False k d parent_pos_less [OF n] by (simp add: nth_eq_iff_index_eq)
      ultimately show ?thesis using t [of "xs ! k"] old par nth by (simp add: links_at_def at)
    qed
  qed
  moreover have "hmin ?t = at (butlast xs) 0" using assms(1) by (auto simp: at link_at_def heap_rep_def)
  ultimately show ?thesis unfolding heap_rep_def using d by (simp add: distinct_butlast)
qed

lemma replace_mem:
  assumes "mem s nd = \<lparr>left = L, right = R, parent = G\<rparr>" "nd \<noteq> c" "G \<noteq> Some c"
    "L \<noteq> Some nd" "L \<noteq> Some c" "R \<noteq> Some nd" "R \<noteq> Some c"
  shows "mem (heap_replace s nd c) x =
    (if x = c then \<lparr>left = L, right = R, parent = G\<rparr>
     else \<lparr>left = (if G = Some x \<and> left (mem s x) = Some nd then Some c else left (mem s x)),
           right = (if G = Some x \<and> left (mem s x) \<noteq> Some nd then Some c else right (mem s x)),
           parent = (if L = Some x \<or> R = Some x then Some c else parent (mem s x))\<rparr>)" (is "_ = ?rhs")
    and "hmin (heap_replace s nd c) = (if G = None then Some c else hmin s)"
    and "nelts (heap_replace s nd c) = nelts s"
proof -
  let ?s1 = "s\<lparr>mem := (mem s)(c := mem s nd)\<rparr>"
  define t where "t = set_parent (set_parent ?s1 L (Some c)) R (Some c)"
  have t: "mem t y = (if y = c then \<lparr>left = L, right = R, parent = G\<rparr>
    else (mem s y)\<lparr>parent := if L = Some y \<or> R = Some y then Some c else parent (mem s y)\<rparr>)" for y
    using assms by (simp add: t_def)
  have l: "left (mem ?s1 c) = L" using assms(1) by simp
  have r: "right (mem (set_parent ?s1 L (Some c)) c) = R" using assms(1, 5) by simp
  have g: "parent (mem t nd) = G" using assms(1, 2, 4, 6) by (simp add: t)
  have rep: "heap_replace s nd c =
    (case G of
       None \<Rightarrow> set_link t Min_link (Some c)
     | Some g \<Rightarrow> if left (mem t g) = Some nd then set_link t (Left_link g) (Some c) else set_link t (Right_link g) (Some c))"
    unfolding heap_replace_def Let_def l r t_def [symmetric] g ..
  have links: "mem (set_link t (Left_link g) v) x = (if x = g then (mem t g)\<lparr>left := v\<rparr> else mem t x)"
    "mem (set_link t (Right_link g) v) x = (if x = g then (mem t g)\<lparr>right := v\<rparr> else mem t x)"
    "mem (set_link t Min_link v) x = mem t x" for g v x by simp_all
  show "mem (heap_replace s nd c) x = ?rhs"
  proof (cases "x = c")
    case True
    then show ?thesis unfolding rep using t [of c] assms(3) by (cases G) (auto simp: links simp del: set_link.simps)
  next
    case x: False
    show ?thesis
    proof (cases "G = Some x")
      case True
      then show ?thesis unfolding rep using t [of x] x by (simp add: links del: set_link.simps)
    next
      case False
      then have "mem (heap_replace s nd c) x = mem t x"
        unfolding rep by (cases G) (auto simp: links simp del: set_link.simps)
      then show ?thesis using t [of x] x False by simp
    qed
  qed
  have "hmin t = hmin s" "nelts t = nelts s" by (simp_all add: t_def)
  then show "hmin (heap_replace s nd c) = (if G = None then Some c else hmin s)" "nelts (heap_replace s nd c) = nelts s"
    unfolding rep by (simp_all split: option.split)
qed

lemma rep_replace:
  assumes "heap_rep s xs" "i < length xs" "c \<notin> set xs"
  shows "heap_rep (heap_replace s (xs ! i) c) (xs[i := c])"
proof -
  let ?nd = "xs ! i" and ?t = "heap_replace s (xs ! i) c"
  let ?f = "\<lambda>x. if x = ?nd then c else x"
  note D = linkedD [OF rep_linked [OF assms(1)]]
  have d: "distinct xs" using assms(1) by (simp add: heap_rep_def)
  have nd: "?nd \<in> set xs" "?nd \<noteq> c" using assms(2, 3) by auto
  obtain L R G where m: "mem s ?nd = \<lparr>left = L, right = R, parent = G\<rparr>" by (cases "mem s ?nd") simp
  have self: "parent (mem s ?nd) \<noteq> Some ?nd" using D(3) [OF nd(1), of ?nd] by blast
  have LRG: "L \<noteq> Some ?nd" "L \<noteq> Some c" "R \<noteq> Some ?nd" "R \<noteq> Some c" "G \<noteq> Some c" "G \<noteq> Some ?nd"
  proof -
    have links: "left (mem s ?nd) = L" "right (mem s ?nd) = R" "parent (mem s ?nd) = G" using m by simp_all
    show "L \<noteq> Some ?nd" "L \<noteq> Some c" using D(1) [OF nd(1)] links self assms(3) by metis+
    show "R \<noteq> Some ?nd" "R \<noteq> Some c" using D(2) [OF nd(1)] links self assms(3) by metis+
    show "G \<noteq> Some c" "G \<noteq> Some ?nd" using D(3) [OF nd(1)] links self assms(3) by metis+
  qed
  note rep = replace_mem [OF m nd(2) LRG(5) LRG(1-4)]
  have ys: "xs[i := c] = map ?f xs"
    using d assms(2) by (intro nth_equalityI) (auto simp: nth_list_update nth_eq_iff_index_eq)
  have mem: "mem ?t (?f x) = \<lparr>left = map_option ?f (left (mem s x)), right = map_option ?f (right (mem s x)),
      parent = map_option ?f (parent (mem s x))\<rparr>" if x: "x \<in> set xs" for x
  proof (cases "x = ?nd")
    case True
    have "map_option ?f y = y" if "y \<noteq> Some ?nd" for y using that by (cases y) auto
    then show ?thesis using rep(1) [of c] m LRG True by simp
  next
    case False
    have opt: "map_option ?f y = (if y = Some ?nd then Some c else y)" for y by (cases y) auto
    have xc: "x \<noteq> c" using x assms(3) by auto
    have "left (mem s x) = Some ?nd \<Longrightarrow> G = Some x"
      "right (mem s x) = Some ?nd \<longleftrightarrow> G = Some x \<and> left (mem s x) \<noteq> Some ?nd"
      "parent (mem s x) = Some ?nd \<longleftrightarrow> L = Some x \<or> R = Some x"
      using D(1, 2) [OF x, of ?nd] D(3) [OF nd(1), of x] D(3) [OF x, of ?nd] D(1, 2) [OF nd(1), of x] m by auto
    then show ?thesis unfolding opt using rep(1) [of x] False xc by (cases "mem s x") auto
  qed
  have "mem ?t (map ?f xs ! k) = links_at (map ?f xs) k" if "k < length xs" for k
    using mem [OF nth_mem [OF that]] rep_mem [OF assms(1) that] that by (simp add: links_at_def at_map)
  moreover have "hmin ?t = at (map ?f xs) 0"
    using rep(2) rep_parent [OF assms(1, 2)] m assms(1, 2) d by (auto simp: heap_rep_def at_def nth_eq_iff_index_eq)
  moreover have "inj_on ?f (set xs)" using assms(3) by (auto simp: inj_on_def)
  then have "distinct (map ?f xs)" using d by (simp add: distinct_map)
  moreover have "nelts ?t = length xs" using rep(3) assms(1) by (simp add: heap_rep_def)
  ultimately show ?thesis unfolding ys heap_rep_def by simp
qed

text \<open>Removal of the node at position \<open>i\<close>, on the array.\<close>

definition array_remove :: "('a \<Rightarrow> 'a \<Rightarrow> bool) \<Rightarrow> 'a list \<Rightarrow> nat \<Rightarrow> 'a list" where
  "array_remove lt xs i =
     (if i = length xs - 1 then butlast xs
      else case sift_down lt ((butlast xs)[i := last xs]) i of (ys, j) \<Rightarrow> sift_up lt ys j)"

lemma heap_remove_rep:
  assumes "heap_rep s xs" "i < length xs" "length xs < uint_mod"
  shows "\<exists>s'. heap_remove lt s (xs ! i) = Some s' \<and> heap_rep s' (array_remove lt xs i)"
proof -
  let ?n = "length xs - 1"
  have ne: "xs \<noteq> []" "length xs \<noteq> 0" and d: "distinct xs" and len: "nelts s = length xs"
    using assms(1, 2) by (auto simp: heap_rep_def)
  obtain path k where p: "heap_path 0 0 (length xs) = (path, k)"
    and w: "heap_walk s Min_link Min_link path k = Some (if k = 0 then Min_link else link_at xs (parent_pos ?n), link_at xs ?n)"
    using heap_path_walk [OF assms(1) _ _ assms(3)] ne(2) by (metis One_nat_def Suc_leI le_add1 neq0_conv)
  let ?s1 = "s\<lparr>nelts := ?n\<rparr>" let ?s2 = "set_link ?s1 (link_at xs ?n) None"
  have rep: "heap_rep ?s2 (butlast xs)" by (rule rep_butlast [OF assms(1) ne(1)])
  have "?n = 0 \<or> parent_pos ?n < length xs" using parent_pos_less [of ?n] by fastforce
  then have "get_link s (link_at xs ?n) = at xs ?n" by (rule get_link_at [OF assms(1)])
  moreover have "get_link ?s1 l = get_link s l" for l by (cases l) simp_all
  ultimately have child: "get_link ?s1 (link_at xs ?n) = Some (last xs)"
    using ne by (simp add: at_def last_conv_nth)
  have fresh: "last xs \<notin> set (butlast xs)"
    using d ne(1) by (metis append_butlast_last_id distinct_append disjoint_insert(2) list.set(2))
  have step: "heap_remove lt s nd =
    (if last xs = nd then Some (if hmin ?s2 = Some (last xs) then set_link ?s2 Min_link None else ?s2)
     else case heap_down lt (heap_replace ?s2 nd (last xs)) (last xs) of
            None \<Rightarrow> None | Some s3 \<Rightarrow> heap_up lt s3 (last xs))" for nd
    unfolding heap_remove_def Let_def len p prod.case w option.case child using ne(2) by simp
  show ?thesis
  proof (cases "i = ?n")
    case True
    then have "last xs = xs ! i" using ne by (simp add: last_conv_nth)
    moreover have "hmin ?s2 = at (butlast xs) 0" using rep by (simp add: heap_rep_def)
    then have "hmin ?s2 \<noteq> Some (last xs)" using fresh nth_mem [of 0 "butlast xs"] unfolding at_def by (metis option.inject option.distinct(1))
    ultimately show ?thesis using step [of "xs ! i"] rep True by (simp add: array_remove_def)
  next
    case False
    then have i: "i < length (butlast xs)" "xs ! i = butlast xs ! i" using assms(2) by (auto simp: nth_butlast)
    let ?ys = "(butlast xs)[i := last xs]"
    have "heap_rep (heap_replace ?s2 (xs ! i) (last xs)) ?ys" using rep_replace [OF rep i(1) fresh] i(2) by simp
    moreover have ysi: "?ys ! i = last xs" "i < length ?ys" using i(1) by simp_all
    ultimately obtain s3 where s3: "heap_down lt (heap_replace ?s2 (xs ! i) (last xs)) (last xs) = Some s3"
      "heap_rep s3 (fst (sift_down lt ?ys i))" "snd (sift_down lt ?ys i) < length ?ys"
      "fst (sift_down lt ?ys i) ! snd (sift_down lt ?ys i) = last xs" "length (fst (sift_down lt ?ys i)) = length ?ys"
      using heap_down_rep by metis
    obtain s4 where "heap_up lt s3 (last xs) = Some s4"
      "heap_rep s4 (sift_up lt (fst (sift_down lt ?ys i)) (snd (sift_down lt ?ys i)))"
      using heap_up_rep [OF s3(2), of "snd (sift_down lt ?ys i)"] s3(3-5) by metis
    moreover have "last xs \<noteq> xs ! i" using fresh i nth_mem by metis
    ultimately show ?thesis using step [of "xs ! i"] s3(1) False by (simp add: array_remove_def split_beta)
  qed
qed

end
