(* ===== verification/Uv_Heap_Order.thy ===== *)
theory Uv_Heap_Order
  imports Uv_Heap "HOL-Library.Multiset"
begin

text \<open>
  The order of the pointer heap.  A comparison is a strict weak order, the locale \<open>heap_order\<close>; inside
  it the walks up and down restore the order of the array that the links stand for.  The result is the
  contract of a priority queue, the locale \<open>node_queue\<close>, which \<open>heap-inl.h\<close> meets for every such order.
\<close>

section \<open>Ordered arrays\<close>

locale heap_order =
  fixes lt :: "'a \<Rightarrow> 'a \<Rightarrow> bool"
  assumes asym: "lt a b \<Longrightarrow> \<not> lt b a"
    and neg_trans: "\<not> lt a b \<Longrightarrow> \<not> lt b c \<Longrightarrow> \<not> lt a c"

definition edge_ok :: "('a \<Rightarrow> 'a \<Rightarrow> bool) \<Rightarrow> 'a list \<Rightarrow> nat \<Rightarrow> bool" where
  "edge_ok lt xs k \<longleftrightarrow> \<not> lt (xs ! k) (xs ! parent_pos k)"

definition heap_ok :: "('a \<Rightarrow> 'a \<Rightarrow> bool) \<Rightarrow> 'a list \<Rightarrow> bool" where
  "heap_ok lt xs \<longleftrightarrow> (\<forall>k. 0 < k \<longrightarrow> k < length xs \<longrightarrow> edge_ok lt xs k)"

text \<open>The order may fail between \<open>j\<close> and its parent only; then also at \<open>i\<close> towards both sides.\<close>

definition skips :: "('a \<Rightarrow> 'a \<Rightarrow> bool) \<Rightarrow> 'a list \<Rightarrow> nat \<Rightarrow> bool" where
  "skips lt xs j \<longleftrightarrow> (\<forall>k. 0 < j \<longrightarrow> 0 < k \<longrightarrow> k < length xs \<longrightarrow> parent_pos k = j \<longrightarrow> \<not> lt (xs ! k) (xs ! parent_pos j))"

definition up_ok :: "('a \<Rightarrow> 'a \<Rightarrow> bool) \<Rightarrow> 'a list \<Rightarrow> nat \<Rightarrow> bool" where
  "up_ok lt xs j \<longleftrightarrow> (\<forall>k. 0 < k \<longrightarrow> k < length xs \<longrightarrow> k \<noteq> j \<longrightarrow> edge_ok lt xs k) \<and> skips lt xs j"

definition down_ok :: "('a \<Rightarrow> 'a \<Rightarrow> bool) \<Rightarrow> 'a list \<Rightarrow> nat \<Rightarrow> bool" where
  "down_ok lt xs i \<longleftrightarrow>
     (\<forall>k. 0 < k \<longrightarrow> k < length xs \<longrightarrow> k \<noteq> i \<longrightarrow> parent_pos k \<noteq> i \<longrightarrow> edge_ok lt xs k) \<and> skips lt xs i"

lemma nth_swap:
  assumes "i < length xs" "j < length xs" "k < length xs"
  shows "swap xs i j ! k = (if k = j then xs ! i else if k = i then xs ! j else xs ! k)"
  using assms by (auto simp: swap_def nth_list_update)

lemma mset_swap_eq: "i < length xs \<Longrightarrow> j < length xs \<Longrightarrow> mset (swap xs i j) = mset xs"
  by (simp add: swap_def mset_swap)

lemma mset_sift_up: "j < length xs \<Longrightarrow> mset (sift_up lt xs j) = mset xs"
proof (induction lt xs j rule: sift_up.induct)
  case (1 lt xs j)
  then show ?case
    using parent_pos_less [of j] by (subst sift_up.simps) (auto simp: mset_swap_eq)
qed

lemma mset_sift_down: "i < length xs \<Longrightarrow> mset (fst (sift_down lt xs i)) = mset xs \<and> snd (sift_down lt xs i) < length xs"
proof (induction lt xs i rule: sift_down.induct)
  case (1 lt xs i)
  then show ?case
    using smaller_child_cases [of lt xs i] by (subst (1 2) sift_down.simps) (auto simp: Let_def mset_swap_eq)
qed

context heap_order
begin

lemma irrefl: "\<not> lt a a"
  using asym by blast

lemma less_trans: "lt a b \<Longrightarrow> lt b c \<Longrightarrow> lt a c"
  using asym neg_trans by blast

text \<open>The root is least.\<close>

lemma root_least: "heap_ok lt xs \<Longrightarrow> k < length xs \<Longrightarrow> \<not> lt (xs ! k) (xs ! 0)"
proof (induction k rule: less_induct)
  case (less k)
  show ?case
  proof (cases "k = 0")
    case True
    then show ?thesis by (simp add: irrefl)
  next
    case False
    then have "parent_pos k < k" using parent_pos_less by simp
    then have "\<not> lt (xs ! parent_pos k) (xs ! 0)" using less by simp
    moreover have "\<not> lt (xs ! k) (xs ! parent_pos k)" using less.prems False by (simp add: heap_ok_def edge_ok_def)
    ultimately show ?thesis using neg_trans by blast
  qed
qed

lemma up_step:
  assumes "up_ok lt xs j" "0 < j" "j < length xs" "lt (xs ! j) (xs ! parent_pos j)"
  shows "up_ok lt (swap xs (parent_pos j) j) (parent_pos j)"
proof -
  let ?i = "parent_pos j" let ?ys = "swap xs ?i j"
  have i: "?i < j" "?i < length xs" using parent_pos_less [OF assms(2)] assms(3) by auto
  note nth = nth_swap [OF i(2) assms(3)]
  have old: "\<not> lt (xs ! k) (xs ! parent_pos k)" if "0 < k" "k < length xs" "k \<noteq> j" for k
    using assms(1) that by (simp add: up_ok_def edge_ok_def)
  have gap: "\<not> lt (xs ! k) (xs ! ?i)" if "0 < k" "k < length xs" "parent_pos k = j" for k
    using assms(1, 2) that by (simp add: up_ok_def skips_def)
  have below: "\<not> lt (xs ! k) (xs ! j)" if "0 < k" "k < length xs" "parent_pos k = ?i" "k \<noteq> j" for k
    using old [of k] that asym [OF assms(4)] neg_trans by metis
  have "edge_ok lt ?ys k" if k: "0 < k" "k < length xs" "k \<noteq> ?i" for k
  proof -
    have p: "parent_pos k < length xs" "parent_pos k \<noteq> k" using parent_pos_less [OF k(1)] k(2) by auto
    consider "k = j" | "k \<noteq> j" "parent_pos k = j" | "k \<noteq> j" "parent_pos k = ?i" | "k \<noteq> j" "parent_pos k \<noteq> j" "parent_pos k \<noteq> ?i" by blast
    then show ?thesis
    proof cases
      case 1
      then show ?thesis using asym [OF assms(4)] i by (simp add: edge_ok_def nth assms(3))
    next
      case 2
      then show ?thesis using gap [OF k(1, 2)] k p by (simp add: edge_ok_def nth)
    next
      case 3
      then show ?thesis using below [OF k(1, 2)] k i by (simp add: edge_ok_def nth)
    next
      case 4
      then show ?thesis using old [OF k(1, 2)] k p by (simp add: edge_ok_def nth)
    qed
  qed
  moreover have "\<not> lt (?ys ! k) (?ys ! parent_pos ?i)" if k: "0 < ?i" "0 < k" "k < length xs" "parent_pos k = ?i" for k
  proof -
    have p: "parent_pos ?i < ?i" using parent_pos_less [OF k(1)] .
    have top: "\<not> lt (xs ! ?i) (xs ! parent_pos ?i)" using old [OF k(1) i(2)] i by simp
    have "k \<noteq> ?i" using parent_pos_less [OF k(2)] k(4) by auto
    then show ?thesis
      using top old [of k] k p i neg_trans [of "xs ! k" "xs ! ?i"] by (auto simp: nth)
  qed
  ultimately show ?thesis by (simp add: up_ok_def skips_def)
qed

lemma sift_up_ok: "up_ok lt xs j \<Longrightarrow> j < length xs \<Longrightarrow> heap_ok lt (sift_up lt xs j)"
proof (induction j arbitrary: xs rule: less_induct)
  case (less j)
  show ?case
  proof (cases "0 < j \<and> lt (xs ! j) (xs ! parent_pos j)")
    case True
    then have "up_ok lt (swap xs (parent_pos j) j) (parent_pos j)" using up_step less.prems by blast
    then show ?thesis
      using less.IH [of "parent_pos j"] parent_pos_less [of j] less.prems(2) True by (simp add: sift_up.simps [of lt xs j])
  next
    case False
    then have "heap_ok lt xs" using less.prems(1) by (auto simp: heap_ok_def up_ok_def edge_ok_def)
    then show ?thesis using False by (auto simp: sift_up.simps [of lt xs j])
  qed
qed

lemma smaller_child_lt: "smaller_child lt xs i \<noteq> i \<Longrightarrow> lt (xs ! smaller_child lt xs i) (xs ! i)"
proof -
  let ?l = "2 * i + 1" and ?r = "2 * i + 2"
  let ?m = "if ?l < length xs \<and> lt (xs ! ?l) (xs ! i) then ?l else i"
  assume ne: "smaller_child lt xs i \<noteq> i"
  have m: "?m = i \<or> lt (xs ! ?m) (xs ! i)" by simp
  have "smaller_child lt xs i = ?m \<or> smaller_child lt xs i = ?r \<and> lt (xs ! ?r) (xs ! ?m)"
    by (simp add: smaller_child_def Let_def)
  then consider "smaller_child lt xs i = ?m" | "smaller_child lt xs i = ?r" "lt (xs ! ?r) (xs ! ?m)" by blast
  then show ?thesis
  proof cases
    case 1
    then show ?thesis using m ne by simp
  next
    case 2
    from m have "lt (xs ! ?r) (xs ! i)"
    proof
      assume "?m = i"
      then show ?thesis using 2(2) by simp
    next
      assume "lt (xs ! ?m) (xs ! i)"
      then show ?thesis by (rule less_trans [OF 2(2)])
    qed
    then show ?thesis using 2(1) by simp
  qed
qed

lemma smaller_child_least:
  assumes "0 < k" "k < length xs" "parent_pos k = i"
  shows "\<not> lt (xs ! k) (xs ! smaller_child lt xs i)"
proof -
  let ?l = "2 * i + 1" and ?r = "2 * i + 2" and ?m = "smaller_child lt xs i"
  have m: "?m = (if ?r < length xs \<and> lt (xs ! ?r) (xs ! (if ?l < length xs \<and> lt (xs ! ?l) (xs ! i) then ?l else i)) then ?r
    else if ?l < length xs \<and> lt (xs ! ?l) (xs ! i) then ?l else i)" by (simp add: smaller_child_def Let_def)
  have "\<not> lt (xs ! ?l) (xs ! ?m) \<and> (?r < length xs \<longrightarrow> \<not> lt (xs ! ?r) (xs ! ?m))" if l: "?l < length xs"
  proof (cases "lt (xs ! ?l) (xs ! i)")
    case True
    then have "?m = (if ?r < length xs \<and> lt (xs ! ?r) (xs ! ?l) then ?r else ?l)" using m l by simp
    then show ?thesis using asym irrefl by auto
  next
    case False
    then have "?m = (if ?r < length xs \<and> lt (xs ! ?r) (xs ! i) then ?r else i)" using m l by simp
    then show ?thesis using False asym [of "xs ! ?r" "xs ! i"] neg_trans [of "xs ! ?l" "xs ! i" "xs ! ?r"] irrefl by auto
  qed
  moreover have "k = ?l \<or> k = ?r" using child_parent_pos [OF assms(1)] assms(3) by simp
  ultimately show ?thesis using assms(2) by auto
qed

lemma down_step:
  assumes "down_ok lt xs i" "i < length xs" "smaller_child lt xs i \<noteq> i"
  shows "down_ok lt (swap xs i (smaller_child lt xs i)) (smaller_child lt xs i)"
proof -
  let ?m = "smaller_child lt xs i" let ?ys = "swap xs i ?m"
  have m: "?m < length xs" "i < ?m" "parent_pos ?m = i" using smaller_child_cases [of lt xs i] assms(3) by auto
  note nth = nth_swap [OF assms(2) m(1)]
  have old: "\<not> lt (xs ! k) (xs ! parent_pos k)" if "0 < k" "k < length xs" "k \<noteq> i" "parent_pos k \<noteq> i" for k
    using assms(1) that by (simp add: down_ok_def edge_ok_def)
  have gap: "\<not> lt (xs ! k) (xs ! parent_pos i)" if "0 < i" "0 < k" "k < length xs" "parent_pos k = i" for k
    using assms(1) that by (simp add: down_ok_def skips_def)
  have "edge_ok lt ?ys k" if k: "0 < k" "k < length xs" "k \<noteq> ?m" "parent_pos k \<noteq> ?m" for k
  proof -
    have p: "parent_pos k < length xs" "parent_pos k \<noteq> k" using parent_pos_less [OF k(1)] k(2) by auto
    consider "k = i" | "k \<noteq> i" "parent_pos k = i" | "k \<noteq> i" "parent_pos k \<noteq> i" by blast
    then show ?thesis
    proof cases
      case 1
      then show ?thesis using gap [of ?m] m k p by (simp add: edge_ok_def nth)
    next
      case 2
      then show ?thesis using smaller_child_least [OF k(1, 2)] k p m by (simp add: edge_ok_def nth)
    next
      case 3
      then show ?thesis using old [OF k(1, 2)] k p by (simp add: edge_ok_def nth)
    qed
  qed
  moreover have "\<not> lt (?ys ! k) (?ys ! parent_pos ?m)" if k: "0 < k" "k < length xs" "parent_pos k = ?m" for k
  proof -
    have "?m < k" using parent_pos_less [OF k(1)] k(3) by simp
    then show ?thesis using old [OF k(1, 2)] k m assms(2) by (simp add: nth)
  qed
  ultimately show ?thesis by (simp add: down_ok_def skips_def)
qed

lemma sift_down_ok: "down_ok lt xs i \<Longrightarrow> i < length xs \<Longrightarrow> up_ok lt (fst (sift_down lt xs i)) (snd (sift_down lt xs i))"
proof (induction "length xs - i" arbitrary: xs i rule: less_induct)
  case less
  show ?case
  proof (cases "smaller_child lt xs i = i")
    case True
    have "up_ok lt xs i"
      using less.prems smaller_child_least [of _ xs i] True by (auto simp: up_ok_def down_ok_def edge_ok_def)
    then show ?thesis using True by (simp add: sift_down.simps [of lt xs i])
  next
    case False
    then have "smaller_child lt xs i < length xs" "i < smaller_child lt xs i" using smaller_child_cases [of lt xs i] by auto
    then show ?thesis
      using less.hyps [of "swap xs i (smaller_child lt xs i)" "smaller_child lt xs i"] down_step [OF less.prems False] False
      by (simp add: sift_down.simps [of lt xs i] Let_def)
  qed
qed

section \<open>Insertion and removal\<close>

lemma insert_ok:
  assumes "heap_ok lt xs"
  shows "heap_ok lt (sift_up lt (xs @ [x]) (length xs))"
proof (rule sift_up_ok)
  have "edge_ok lt (xs @ [x]) k" if "0 < k" "k < length xs" for k
    using assms that parent_pos_less [of k] by (auto simp: heap_ok_def edge_ok_def nth_append)
  moreover have "parent_pos k \<noteq> length xs" if "0 < k" "k < length xs + 1" for k using parent_pos_less [of k] that by auto
  ultimately show "up_ok lt (xs @ [x]) (length xs)" by (auto simp: up_ok_def skips_def)
qed simp

lemma remove_ok:
  assumes "heap_ok lt xs" "i < length xs"
  shows "heap_ok lt (array_remove lt xs i)"
proof (cases "i = length xs - 1")
  case True
  have "edge_ok lt (butlast xs) k" if "0 < k" "k < length xs - 1" for k
    using assms that parent_pos_less [of k] by (auto simp: heap_ok_def edge_ok_def nth_butlast)
  then show ?thesis using True by (simp add: array_remove_def heap_ok_def)
next
  case False
  let ?ys = "(butlast xs)[i := last xs]"
  have old: "\<not> lt (xs ! k) (xs ! parent_pos k)" if "0 < k" "k < length xs" for k
    using assms(1) that by (simp add: heap_ok_def edge_ok_def)
  have nth: "?ys ! k = (if k = i then last xs else xs ! k)" if "k < length xs - 1" for k
    using that False assms(2) by (simp add: nth_list_update nth_butlast)
  have "edge_ok lt ?ys k" if "0 < k" "k < length xs - 1" "k \<noteq> i" "parent_pos k \<noteq> i" for k
    using old [of k] nth [of k] nth [of "parent_pos k"] that parent_pos_less [of k] by (auto simp: edge_ok_def)
  moreover have "\<not> lt (?ys ! k) (?ys ! parent_pos i)"
    if "0 < i" "0 < k" "k < length xs - 1" "parent_pos k = i" for k
    using old [of k] old [of i] nth [of k] nth [of "parent_pos i"] that parent_pos_less [of k] parent_pos_less [of i]
      neg_trans [of "xs ! k" "xs ! i"] by auto
  ultimately have "down_ok lt ?ys i" by (simp add: down_ok_def skips_def)
  moreover have i: "i < length ?ys" using assms(2) False by simp
  ultimately have "up_ok lt (fst (sift_down lt ?ys i)) (snd (sift_down lt ?ys i))" by (rule sift_down_ok)
  moreover have "length (fst (sift_down lt ?ys i)) = length ?ys" "snd (sift_down lt ?ys i) < length ?ys"
    using mset_sift_down [OF i, of lt] mset_eq_length by (blast, blast)
  ultimately show ?thesis using sift_up_ok False by (simp add: array_remove_def split_beta)
qed

end

lemma mset_array_remove:
  assumes "i < length xs"
  shows "mset (array_remove lt xs i) = mset xs - {#xs ! i#}"
proof -
  have xs: "mset xs = add_mset (last xs) (mset (butlast xs))" using assms by (cases xs rule: rev_cases) simp_all
  show ?thesis
  proof (cases "i = length xs - 1")
    case True
    moreover have "xs \<noteq> []" using assms by auto
    ultimately have "last xs = xs ! i" by (simp add: last_conv_nth)
    then show ?thesis using xs True by (simp add: array_remove_def)
  next
    case False
    let ?ys = "(butlast xs)[i := last xs]"
    have i: "i < length (butlast xs)" "i < length ?ys" using assms False by simp_all
    have "mset (fst (sift_down lt ?ys i)) = mset ?ys" "snd (sift_down lt ?ys i) < length ?ys"
      using mset_sift_down [OF i(2)] by blast+
    then have "mset (array_remove lt xs i) = mset ?ys"
      using mset_sift_up [of "snd (sift_down lt ?ys i)" "fst (sift_down lt ?ys i)" lt] False
      by (metis array_remove_def mset_eq_length split_beta)
    also have "\<dots> = add_mset (last xs) (mset (butlast xs) - {#xs ! i#})"
      using i(1) by (simp add: mset_update nth_butlast)
    also have "xs ! i \<in># mset (butlast xs)" using i(1) nth_mem [OF i(1)] by (simp add: nth_butlast)
    then have "add_mset (last xs) (mset (butlast xs) - {#xs ! i#}) = mset xs - {#xs ! i#}"
      unfolding xs by (simp add: multiset_eq_iff)
    finally show ?thesis .
  qed
qed

section \<open>The contract of a queue\<close>

text \<open>\<open>heap_inv lt s N\<close>: the links in \<open>s\<close> form a complete tree over the nodes \<open>N\<close>, ordered by \<open>lt\<close>.\<close>

definition heap_inv :: "(node \<Rightarrow> node \<Rightarrow> bool) \<Rightarrow> heap \<Rightarrow> node set \<Rightarrow> bool" where
  "heap_inv lt s N \<longleftrightarrow> (\<exists>xs. heap_rep s xs \<and> heap_ok lt xs \<and> set xs = N \<and> length xs < 2 ^ 32)"

locale node_queue =
  fixes ord :: "(node \<Rightarrow> node \<Rightarrow> bool) \<Rightarrow> bool"
    and inv :: "(node \<Rightarrow> node \<Rightarrow> bool) \<Rightarrow> 'q \<Rightarrow> node set \<Rightarrow> bool"
    and first :: "'q \<Rightarrow> node option"
    and ins :: "(node \<Rightarrow> node \<Rightarrow> bool) \<Rightarrow> 'q \<Rightarrow> node \<Rightarrow> 'q option"
    and del :: "(node \<Rightarrow> node \<Rightarrow> bool) \<Rightarrow> 'q \<Rightarrow> node \<Rightarrow> 'q option"
    and room :: nat
  assumes inv_finite: "inv lt q N \<Longrightarrow> finite N \<and> card N < room"
    and inv_cong: "inv lt q N \<Longrightarrow> (\<And>x y. x \<in> N \<Longrightarrow> y \<in> N \<Longrightarrow> lt x y = lt' x y) \<Longrightarrow> inv lt' q N"
    and first_None: "inv lt q N \<Longrightarrow> first q = None \<longleftrightarrow> N = {}"
    and first_Some: "ord lt \<Longrightarrow> inv lt q N \<Longrightarrow> first q = Some x \<Longrightarrow> x \<in> N \<and> (\<forall>y \<in> N. \<not> lt y x)"
    and ins_ok: "ord lt \<Longrightarrow> inv lt q N \<Longrightarrow> x \<notin> N \<Longrightarrow> card N + 1 < room \<Longrightarrow> \<exists>q'. ins lt q x = Some q' \<and> inv lt q' (insert x N)"
    and del_ok: "ord lt \<Longrightarrow> inv lt q N \<Longrightarrow> x \<in> N \<Longrightarrow> \<exists>q'. del lt q x = Some q' \<and> inv lt q' (N - {x})"

interpretation uv_heap: node_queue heap_order heap_inv heap_min heap_insert heap_remove "2 ^ 32"
proof
  fix lt lt' :: "node \<Rightarrow> node \<Rightarrow> bool" and q N x
  assume "heap_inv lt q N"
  then obtain xs where xs: "heap_rep q xs" "heap_ok lt xs" "set xs = N" "length xs < 2 ^ 32"
    by (auto simp: heap_inv_def)
  then have d: "distinct xs" and card: "card N = length xs" by (auto simp: heap_rep_def distinct_card)
  show "finite N \<and> card N < 2 ^ 32" using xs(3, 4) card by auto
  show "heap_inv lt' q N" if "\<And>x y. x \<in> N \<Longrightarrow> y \<in> N \<Longrightarrow> lt x y = lt' x y"
  proof -
    have "heap_ok lt' xs"
      unfolding heap_ok_def edge_ok_def
    proof (intro allI impI)
      fix k assume k: "0 < k" "k < length xs"
      then have "xs ! k \<in> N" "xs ! parent_pos k \<in> N" using xs(3) parent_pos_less [of k] by auto
      then show "\<not> lt' (xs ! k) (xs ! parent_pos k)" using xs(2) k that by (auto simp: heap_ok_def edge_ok_def)
    qed
    then show ?thesis using xs by (auto simp: heap_inv_def)
  qed
  show "heap_min q = None \<longleftrightarrow> N = {}" using xs(1, 3) by (auto simp: heap_min_def heap_rep_def at_def)
  assume ord: "heap_order lt"
  show "x \<in> N \<and> (\<forall>y \<in> N. \<not> lt y x)" if "heap_min q = Some x"
  proof -
    have "at xs 0 = Some x" using that xs(1) by (simp add: heap_min_def heap_rep_def)
    then have "0 < length xs" "x = xs ! 0" by (auto simp: at_Some)
    moreover from this have "x \<in> N" using xs(3) by auto
    ultimately show ?thesis using heap_order.root_least [OF ord xs(2)] xs(3) by (metis in_set_conv_nth)
  qed
  show "\<exists>q'. heap_insert lt q x = Some q' \<and> heap_inv lt q' (insert x N)" if x: "x \<notin> N" "card N + 1 < 2 ^ 32"
  proof -
    let ?ys = "sift_up lt (xs @ [x]) (length xs)"
    have m: "mset ?ys = mset (xs @ [x])" by (rule mset_sift_up) simp
    then have "set ?ys = insert x N" "length ?ys = length xs + 1"
      using xs(3) mset_eq_setD [OF m] mset_eq_length [OF m] by auto
    moreover have "heap_ok lt ?ys" by (rule heap_order.insert_ok [OF ord xs(2)])
    moreover obtain s' where "heap_insert lt q x = Some s'" "heap_rep s' ?ys"
      using heap_insert_rep [OF xs(1), of x lt] x xs(3) card by auto
    ultimately show ?thesis
      unfolding heap_inv_def using x(2) card by (intro exI [of _ s'] conjI exI [of _ ?ys]) simp_all
  qed
  show "\<exists>q'. heap_remove lt q x = Some q' \<and> heap_inv lt q' (N - {x})" if xN: "x \<in> N"
  proof -
    obtain i where i: "i < length xs" "x = xs ! i" using xN xs(3) by (auto simp: in_set_conv_nth)
    let ?ys = "array_remove lt xs i"
    have m: "mset ?ys = mset (remove1 x xs)" using mset_array_remove [OF i(1), of lt] i(2) by simp
    have "set ?ys = N - {x}" using mset_eq_setD [OF m] set_remove1_eq [OF d] xs(3) by simp
    moreover have "length ?ys < 2 ^ 32" using mset_eq_length [OF m] xs(4) by (simp add: length_remove1 split: if_splits)
    moreover have "heap_ok lt ?ys" by (rule heap_order.remove_ok [OF ord xs(2) i(1)])
    moreover obtain s' where "heap_remove lt q x = Some s'" "heap_rep s' ?ys"
      using heap_remove_rep [OF xs(1) i(1) xs(4), of lt] i(2) by auto
    ultimately show ?thesis
      unfolding heap_inv_def by (intro exI [of _ s'] conjI exI [of _ ?ys]) simp_all
  qed
qed

lemma heap_init_inv: "heap_inv lt (heap_init s) {}"
  by (auto simp: heap_inv_def heap_init_def heap_rep_def heap_ok_def at_def)

text \<open>C37. Insertion into the pointer heap: into a complete, ordered tree over the nodes \<open>N\<close>,
  \<open>heap_insert\<close> links a new node, never follows a null pointer, ends, and leaves a complete, ordered
  tree over \<open>N\<close> and the node; the least node is then at the root.  The number of nodes stays below \<open>2 ^ 32\<close>, the
  range of \<open>nelts\<close>.\<close>

theorem heap_insert_refines:
  assumes "heap_order lt" "heap_inv lt s N" "x \<notin> N" "card N + 1 < 2 ^ 32"
  shows "\<exists>s' y. heap_insert lt s x = Some s' \<and> heap_inv lt s' (insert x N) \<and>
    heap_min s' = Some y \<and> y \<in> insert x N \<and> (\<forall>z \<in> insert x N. \<not> lt z y)"
proof -
  obtain s' where s': "heap_insert lt s x = Some s'" "heap_inv lt s' (insert x N)" using uv_heap.ins_ok [OF assms] by blast
  then obtain y where "heap_min s' = Some y" using uv_heap.first_None [OF s'(2)] by (cases "heap_min s'") auto
  then show ?thesis using s' uv_heap.first_Some [OF assms(1) s'(2)] by blast
qed

theorem heap_insert_refines_witness:
  "\<exists>s' y. heap_insert (<) (heap_init \<lparr>hmin = None, nelts = 0, mem = \<lambda>_. \<lparr>left = None, right = None, parent = None\<rparr>\<rparr>) 7 =
     Some s' \<and> heap_inv (<) s' {7} \<and> heap_min s' = Some y \<and> y \<in> {7} \<and> (\<forall>z \<in> {7}. \<not> z < y)"
proof -
  have "heap_order ((<) :: node \<Rightarrow> node \<Rightarrow> bool)" by unfold_locales auto
  then show ?thesis using heap_insert_refines [OF _ heap_init_inv, of "(<)" 7] by simp
qed

text \<open>C38. Removal from the pointer heap: \<open>heap_remove\<close> of any node of the tree, wherever it is, unlinks
  exactly that node, never follows a null pointer, ends, and leaves a complete, ordered tree over the
  remaining nodes.\<close>

theorem heap_remove_refines:
  assumes "heap_order lt" "heap_inv lt s N" "x \<in> N"
  shows "\<exists>s'. heap_remove lt s x = Some s' \<and> heap_inv lt s' (N - {x}) \<and> (heap_min s' = None \<longleftrightarrow> N = {x})"
proof -
  obtain s' where s': "heap_remove lt s x = Some s'" "heap_inv lt s' (N - {x})" using uv_heap.del_ok [OF assms] by blast
  then show ?thesis using uv_heap.first_None [OF s'(2)] assms(3) by auto
qed

theorem heap_remove_refines_witness:
  "\<exists>s s'. heap_insert (<) (heap_init \<lparr>hmin = None, nelts = 0, mem = \<lambda>_. \<lparr>left = None, right = None, parent = None\<rparr>\<rparr>) 7 = Some s \<and>
     heap_remove (<) s 7 = Some s' \<and> heap_inv (<) s' {} \<and> heap_min s' = None"
proof -
  have ord: "heap_order ((<) :: node \<Rightarrow> node \<Rightarrow> bool)" by unfold_locales auto
  obtain s where s: "heap_insert (<) (heap_init \<lparr>hmin = None, nelts = 0, mem = \<lambda>_. \<lparr>left = None, right = None, parent = None\<rparr>\<rparr>) 7 = Some s"
    "heap_inv (<) s {7}"
    using uv_heap.ins_ok [OF ord heap_init_inv, of 7] by auto
  then show ?thesis using heap_remove_refines [OF ord s(2), of 7] by auto
qed

end
