(* ===== verification/Uv_Timer.thy ===== *)
theory Uv_Timer
  imports Uv_Heap_Order "HOL-Library.Word" "HOL-Library.Monad_Syntax"
begin

unbundle bit_operations_syntax

text \<open>
  The timers of libuv (\<open>timer.c\<close>) and the handle macros that they use (\<open>uv-common.h\<close>), for one loop.

  A handle is known by its address, which is also the address of the heap node inside it: the macro
  \<open>container_of\<close> is the identity.  Operations return \<open>None\<close> where the pointer heap does, that is, where
  the code would follow a null pointer or not return; the code of the return value is kept as an \<open>int\<close>.
  A timer callback is code of the caller: the parameter \<open>run_cb\<close> of \<open>uv__run_timers\<close>.
\<close>

section \<open>State\<close>

record uv_timer =
  flags :: "32 word"
  timer_cb :: "nat option"
  timeout :: "64 word"
  repeat :: "64 word"
  start_id :: "64 word"

record uv_loop =
  time :: "64 word"
  timer_counter :: "64 word"
  active_handles :: "32 word"
  timer_heap :: heap
  handles :: "node \<Rightarrow> uv_timer"
  handle_queue :: "node list"
  closing_handles :: "node list"

definition UV_HANDLE_CLOSING :: "32 word" where "UV_HANDLE_CLOSING = 0x00000001"

definition UV_HANDLE_CLOSED :: "32 word" where "UV_HANDLE_CLOSED = 0x00000002"

definition UV_HANDLE_ACTIVE :: "32 word" where "UV_HANDLE_ACTIVE = 0x00000004"

definition UV_HANDLE_REF :: "32 word" where "UV_HANDLE_REF = 0x00000008"

definition UV_EINVAL :: int where "UV_EINVAL = - 22"

definition INT_MAX :: "64 word" where "INT_MAX = 2147483647"

section \<open>Handles\<close>

definition set_handle :: "uv_loop \<Rightarrow> node \<Rightarrow> uv_timer \<Rightarrow> uv_loop" where
  "set_handle l h t = l\<lparr>handles := (handles l)(h := t)\<rparr>"

definition set_flags :: "uv_loop \<Rightarrow> node \<Rightarrow> 32 word \<Rightarrow> uv_loop" where
  "set_flags l h f = set_handle l h ((handles l h)\<lparr>flags := f\<rparr>)"

definition uv__is_active :: "uv_loop \<Rightarrow> node \<Rightarrow> bool" where
  "uv__is_active l h \<longleftrightarrow> flags (handles l h) AND UV_HANDLE_ACTIVE \<noteq> 0"

definition uv__is_closing :: "uv_loop \<Rightarrow> node \<Rightarrow> bool" where
  "uv__is_closing l h \<longleftrightarrow> flags (handles l h) AND (UV_HANDLE_CLOSING OR UV_HANDLE_CLOSED) \<noteq> 0"

definition uv__has_ref :: "uv_loop \<Rightarrow> node \<Rightarrow> bool" where
  "uv__has_ref l h \<longleftrightarrow> flags (handles l h) AND UV_HANDLE_REF \<noteq> 0"

definition uv__active_handle_add :: "uv_loop \<Rightarrow> uv_loop" where
  "uv__active_handle_add l = l\<lparr>active_handles := active_handles l + 1\<rparr>"

definition uv__active_handle_rm :: "uv_loop \<Rightarrow> uv_loop" where
  "uv__active_handle_rm l = l\<lparr>active_handles := active_handles l - 1\<rparr>"

definition uv__handle_start :: "uv_loop \<Rightarrow> node \<Rightarrow> uv_loop" where
  "uv__handle_start l h =
     (if flags (handles l h) AND UV_HANDLE_ACTIVE \<noteq> 0 then l
      else
        let l1 = set_flags l h (flags (handles l h) OR UV_HANDLE_ACTIVE)
        in if flags (handles l1 h) AND UV_HANDLE_REF \<noteq> 0 then uv__active_handle_add l1 else l1)"

definition uv__handle_stop :: "uv_loop \<Rightarrow> node \<Rightarrow> uv_loop" where
  "uv__handle_stop l h =
     (if flags (handles l h) AND UV_HANDLE_ACTIVE = 0 then l
      else
        let l1 = set_flags l h (flags (handles l h) AND NOT UV_HANDLE_ACTIVE)
        in if flags (handles l1 h) AND UV_HANDLE_REF \<noteq> 0 then uv__active_handle_rm l1 else l1)"

definition uv__handle_ref :: "uv_loop \<Rightarrow> node \<Rightarrow> uv_loop" where
  "uv__handle_ref l h =
     (if flags (handles l h) AND UV_HANDLE_REF \<noteq> 0 then l
      else
        let l1 = set_flags l h (flags (handles l h) OR UV_HANDLE_REF)
        in if flags (handles l1 h) AND UV_HANDLE_CLOSING \<noteq> 0 then l1
           else if flags (handles l1 h) AND UV_HANDLE_ACTIVE \<noteq> 0 then uv__active_handle_add l1 else l1)"

definition uv__handle_unref :: "uv_loop \<Rightarrow> node \<Rightarrow> uv_loop" where
  "uv__handle_unref l h =
     (if flags (handles l h) AND UV_HANDLE_REF = 0 then l
      else
        let l1 = set_flags l h (flags (handles l h) AND NOT UV_HANDLE_REF)
        in if flags (handles l1 h) AND UV_HANDLE_CLOSING \<noteq> 0 then l1
           else if flags (handles l1 h) AND UV_HANDLE_ACTIVE \<noteq> 0 then uv__active_handle_rm l1 else l1)"

definition uv_ref :: "uv_loop \<Rightarrow> node \<Rightarrow> uv_loop" where
  "uv_ref l h = uv__handle_ref l h"

definition uv_unref :: "uv_loop \<Rightarrow> node \<Rightarrow> uv_loop" where
  "uv_unref l h = uv__handle_unref l h"

definition uv_has_ref :: "uv_loop \<Rightarrow> node \<Rightarrow> bool" where
  "uv_has_ref l h = uv__has_ref l h"

definition uv_is_active :: "uv_loop \<Rightarrow> node \<Rightarrow> bool" where
  "uv_is_active l h = uv__is_active l h"

definition uv_is_closing :: "uv_loop \<Rightarrow> node \<Rightarrow> bool" where
  "uv_is_closing l h = uv__is_closing l h"

definition uv__handle_init :: "uv_loop \<Rightarrow> node \<Rightarrow> uv_loop" where
  "uv__handle_init l h =
     (let l1 = set_flags l h UV_HANDLE_REF in l1\<lparr>handle_queue := handle_queue l1 @ [h]\<rparr>)"

text \<open>The part of \<open>uv_loop_init\<close> that the timers use, and the clock; \<open>hr\<close> is the time of the system in
  nanoseconds.\<close>

definition uv__update_time :: "uv_loop \<Rightarrow> 64 word \<Rightarrow> uv_loop" where
  "uv__update_time l hr = l\<lparr>time := hr div 1000000\<rparr>"

definition uv_loop_init_timers :: "uv_loop \<Rightarrow> 64 word \<Rightarrow> uv_loop" where
  "uv_loop_init_timers l hr =
     (let l1 = l\<lparr>timer_heap := heap_init (timer_heap l), handle_queue := [], active_handles := 0, closing_handles := []\<rparr>
      in (uv__update_time l1 hr)\<lparr>timer_counter := 0\<rparr>)"

section \<open>Timers\<close>

definition timer_less_than :: "(node \<Rightarrow> uv_timer) \<Rightarrow> node \<Rightarrow> node \<Rightarrow> bool" where
  "timer_less_than hs a b =
     (if timeout (hs a) < timeout (hs b) then True
      else if timeout (hs b) < timeout (hs a) then False
      else start_id (hs a) < start_id (hs b))"

definition uv_timer_init :: "uv_loop \<Rightarrow> node \<Rightarrow> int \<times> uv_loop" where
  "uv_timer_init l h =
     (let l1 = uv__handle_init l h in (0, set_handle l1 h ((handles l1 h)\<lparr>timer_cb := None, repeat := 0\<rparr>)))"

definition uv_timer_stop :: "uv_loop \<Rightarrow> node \<Rightarrow> (int \<times> uv_loop) option" where
  "uv_timer_stop l h =
     (if \<not> uv__is_active l h then Some (0, l)
      else
        do {
          s \<leftarrow> heap_remove (timer_less_than (handles l)) (timer_heap l) h;
          Some (0, uv__handle_stop (l\<lparr>timer_heap := s\<rparr>) h)
        })"

definition uv_timer_start :: "uv_loop \<Rightarrow> node \<Rightarrow> nat option \<Rightarrow> 64 word \<Rightarrow> 64 word \<Rightarrow> (int \<times> uv_loop) option" where
  "uv_timer_start l h cb tmo rep =
     (if uv__is_closing l h \<or> cb = None then Some (UV_EINVAL, l)
      else
        do {
          (_, l1) \<leftarrow> (if uv__is_active l h then uv_timer_stop l h else Some (0, l));
          let clamped = time l1 + tmo;
          let clamped_timeout = (if clamped < tmo then - 1 else clamped);
          let l2 = set_handle l1 h ((handles l1 h)\<lparr>timer_cb := cb, timeout := clamped_timeout, repeat := rep,
            start_id := timer_counter l1\<rparr>);
          let l3 = l2\<lparr>timer_counter := timer_counter l2 + 1\<rparr>;
          s \<leftarrow> heap_insert (timer_less_than (handles l3)) (timer_heap l3) h;
          Some (0, uv__handle_start (l3\<lparr>timer_heap := s\<rparr>) h)
        })"

definition uv_timer_again :: "uv_loop \<Rightarrow> node \<Rightarrow> (int \<times> uv_loop) option" where
  "uv_timer_again l h =
     (if timer_cb (handles l h) = None then Some (UV_EINVAL, l)
      else if repeat (handles l h) \<noteq> 0 then
        do {
          (_, l1) \<leftarrow> uv_timer_stop l h;
          (_, l2) \<leftarrow> uv_timer_start l1 h (timer_cb (handles l1 h)) (repeat (handles l1 h)) (repeat (handles l1 h));
          Some (0, l2)
        }
      else Some (0, l))"

definition uv_timer_set_repeat :: "uv_loop \<Rightarrow> node \<Rightarrow> 64 word \<Rightarrow> uv_loop" where
  "uv_timer_set_repeat l h rep = set_handle l h ((handles l h)\<lparr>repeat := rep\<rparr>)"

definition uv_timer_get_repeat :: "uv_loop \<Rightarrow> node \<Rightarrow> 64 word" where
  "uv_timer_get_repeat l h = repeat (handles l h)"

definition uv__next_timeout :: "uv_loop \<Rightarrow> int" where
  "uv__next_timeout l =
     (case heap_min (timer_heap l) of
        None \<Rightarrow> - 1
      | Some h \<Rightarrow>
          if timeout (handles l h) \<le> time l then 0
          else
            let diff = timeout (handles l h) - time l;
                diff = (if diff > INT_MAX then INT_MAX else diff)
            in uint diff)"

text \<open>The list in the result of \<open>uv__run_timers\<close> records the handles whose callback ran, in order.\<close>

partial_function (option) uv__run_timers ::
  "(nat \<Rightarrow> node \<Rightarrow> uv_loop \<Rightarrow> uv_loop option) \<Rightarrow> uv_loop \<Rightarrow> (node list \<times> uv_loop) option" where
  "uv__run_timers run_cb l =
     (case heap_min (timer_heap l) of
        None \<Rightarrow> Some ([], l)
      | Some h \<Rightarrow>
          if timeout (handles l h) > time l then Some ([], l)
          else
            do {
              (_, l1) \<leftarrow> uv_timer_stop l h;
              (_, l2) \<leftarrow> uv_timer_again l1 h;
              cb \<leftarrow> timer_cb (handles l2 h);
              l3 \<leftarrow> run_cb cb h l2;
              (fired, l4) \<leftarrow> uv__run_timers run_cb l3;
              Some (h # fired, l4)
            })"

definition uv__timer_close :: "uv_loop \<Rightarrow> node \<Rightarrow> uv_loop option" where
  "uv__timer_close l h = map_option snd (uv_timer_stop l h)"

definition uv__make_close_pending :: "uv_loop \<Rightarrow> node \<Rightarrow> uv_loop option" where
  "uv__make_close_pending l h =
     (if flags (handles l h) AND UV_HANDLE_CLOSING = 0 \<or> flags (handles l h) AND UV_HANDLE_CLOSED \<noteq> 0 then None
      else Some (l\<lparr>closing_handles := h # closing_handles l\<rparr>))"

text \<open>The branch of \<open>uv_close\<close> for a timer; a failed assertion is \<open>None\<close>.\<close>

definition uv_close_timer :: "uv_loop \<Rightarrow> node \<Rightarrow> uv_loop option" where
  "uv_close_timer l h =
     (if uv__is_closing l h then None
      else
        do {
          l1 \<leftarrow> uv__timer_close (set_flags l h (flags (handles l h) OR UV_HANDLE_CLOSING)) h;
          uv__make_close_pending l1 h
        })"

end
