(* ===== verification/Uv_Timer_Inv.thy ===== *)
theory Uv_Timer_Inv
  imports Uv_Timer
begin

unbundle bit_operations_syntax

text \<open>
  What the timers of a loop keep: the handles with the active flag are the nodes of the heap, ordered by
  time and then by the order in which they were started, and the loop counts those that are referenced.
\<close>

section \<open>Flags\<close>

named_theorems uv_flags

lemma flag_values: "UV_HANDLE_CLOSING = 2 ^ 0" "UV_HANDLE_CLOSED = 2 ^ 1" "UV_HANDLE_ACTIVE = 2 ^ 2" "UV_HANDLE_REF = 2 ^ 3"
  by (simp_all add: UV_HANDLE_CLOSING_def UV_HANDLE_CLOSED_def UV_HANDLE_ACTIVE_def UV_HANDLE_REF_def)

lemma flag_bit [uv_flags]:
  "f AND UV_HANDLE_CLOSING = 0 \<longleftrightarrow> \<not> bit f 0" "f AND UV_HANDLE_CLOSED = 0 \<longleftrightarrow> \<not> bit f 1"
  "f AND UV_HANDLE_ACTIVE = 0 \<longleftrightarrow> \<not> bit f 2" "f AND UV_HANDLE_REF = 0 \<longleftrightarrow> \<not> bit f 3"
  unfolding flag_values by (simp_all only: and_exp_eq_0_iff_not_bit)

lemma bit_flag [uv_flags]:
  "bit UV_HANDLE_CLOSING n \<longleftrightarrow> n = 0" "bit UV_HANDLE_CLOSED n \<longleftrightarrow> n = 1"
  "bit UV_HANDLE_ACTIVE n \<longleftrightarrow> n = 2" "bit UV_HANDLE_REF n \<longleftrightarrow> n = 3"
  unfolding flag_values bit_exp_iff possible_bit_word by auto

lemma closing_bits [uv_flags]: "f AND (UV_HANDLE_CLOSING OR UV_HANDLE_CLOSED) = 0 \<longleftrightarrow> \<not> bit f 0 \<and> \<not> bit f 1"
proof -
  have "f AND (UV_HANDLE_CLOSING OR UV_HANDLE_CLOSED) = 0 \<longleftrightarrow> f AND UV_HANDLE_CLOSING = 0 \<and> f AND UV_HANDLE_CLOSED = 0"
    by (simp add: bit.conj_disj_distrib or_eq_0_iff)
  then show ?thesis by (simp only: flag_bit)
qed

lemma bit_not_flag [uv_flags]:
  "n < 4 \<Longrightarrow> bit (NOT UV_HANDLE_ACTIVE) n \<longleftrightarrow> n \<noteq> 2" "n < 4 \<Longrightarrow> bit (NOT UV_HANDLE_REF) n \<longleftrightarrow> n \<noteq> 3"
  by (auto simp: bit_not_iff uv_flags)

lemmas flag_simps = uv_flags bit_or_iff bit_and_iff set_flags_def set_handle_def

section \<open>The invariant\<close>

definition active_set :: "(node \<Rightarrow> uv_timer) \<Rightarrow> node set" where
  "active_set hs = {h. bit (flags (hs h)) 2}"

definition ref_count :: "(node \<Rightarrow> uv_timer) \<Rightarrow> 32 word" where
  "ref_count hs = of_nat (card {h \<in> active_set hs. bit (flags (hs h)) 3})"

text \<open>\<open>queued\<close> is what holds also while a handle is being closed.\<close>

definition queued :: "uv_loop \<Rightarrow> bool" where
  "queued l \<longleftrightarrow>
     heap_inv (timer_less_than (handles l)) (timer_heap l) (active_set (handles l)) \<and>
     (\<forall>h \<in> active_set (handles l). timer_cb (handles l h) \<noteq> None \<and> start_id (handles l h) < timer_counter l) \<and>
     inj_on (\<lambda>h. start_id (handles l h)) (active_set (handles l)) \<and>
     active_handles l = ref_count (handles l)"

definition timer_inv :: "uv_loop \<Rightarrow> bool" where
  "timer_inv l \<longleftrightarrow> queued l \<and> (\<forall>h. uv__is_active l h \<longrightarrow> \<not> uv__is_closing l h)"

lemma active_iff: "uv__is_active l h \<longleftrightarrow> h \<in> active_set (handles l)"
  by (simp add: uv__is_active_def active_set_def uv_flags)

lemma closing_iff: "uv__is_closing l h \<longleftrightarrow> bit (flags (handles l h)) 0 \<or> bit (flags (handles l h)) 1"
  by (auto simp: uv__is_closing_def uv_flags)

lemma has_ref_iff: "uv__has_ref l h \<longleftrightarrow> bit (flags (handles l h)) 3"
  by (simp add: uv__has_ref_def uv_flags)

interpretation timer_order: heap_order "timer_less_than hs" for hs
  by unfold_locales (auto simp: timer_less_than_def split: if_splits)

lemma timer_less_than_cong:
  "hs a = hs' a \<Longrightarrow> hs b = hs' b \<Longrightarrow> timer_less_than hs a b = timer_less_than hs' a b"
  by (simp add: timer_less_than_def)

text \<open>The fields of a handle that the order and the invariant read.\<close>

definition same_key :: "uv_timer \<Rightarrow> uv_timer \<Rightarrow> bool" where
  "same_key t u \<longleftrightarrow> timeout t = timeout u \<and> start_id t = start_id u"

lemma timer_less_than_key:
  "same_key (hs a) (hs' a) \<Longrightarrow> same_key (hs b) (hs' b) \<Longrightarrow> timer_less_than hs a b = timer_less_than hs' a b"
  by (simp add: timer_less_than_def same_key_def)

text \<open>A change of the handles that keeps keys and active flags keeps the heap.\<close>

lemma heap_inv_same_keys:
  assumes "heap_inv (timer_less_than hs) s N" "\<And>h. h \<in> N \<Longrightarrow> same_key (hs h) (hs' h)"
  shows "heap_inv (timer_less_than hs') s N"
  by (rule uv_heap.inv_cong [OF assms(1)]) (rule timer_less_than_key; simp add: assms(2))

lemma queued_finite: "queued l \<Longrightarrow> finite (active_set (handles l)) \<and> card (active_set (handles l)) < 2 ^ 32"
  unfolding queued_def using uv_heap.inv_finite by blast

section \<open>Stopping\<close>

lemma count_insert:
  assumes "finite A" "h \<notin> A"
  shows "(of_nat (card {x \<in> insert h A. P x}) :: 'a :: ring_1) = of_nat (card {x \<in> A. P x}) + (if P h then 1 else 0)"
proof -
  have "{x \<in> insert h A. P x} = (if P h then insert h {x \<in> A. P x} else {x \<in> A. P x})" by auto
  then show ?thesis using assms by simp
qed

definition stopped :: "uv_timer \<Rightarrow> uv_timer" where
  "stopped t = t\<lparr>flags := flags t AND NOT UV_HANDLE_ACTIVE\<rparr>"

lemma stopped_simps [simp]:
  "timer_cb (stopped t) = timer_cb t" "timeout (stopped t) = timeout t" "repeat (stopped t) = repeat t"
  "start_id (stopped t) = start_id t"
  by (simp_all add: stopped_def)

lemma bit_stopped: "n < 4 \<Longrightarrow> bit (flags (stopped t)) n \<longleftrightarrow> bit (flags t) n \<and> n \<noteq> 2"
  by (auto simp: stopped_def bit_and_iff uv_flags)

lemma stopped_id: "\<not> bit (flags t) 2 \<Longrightarrow> stopped t = t"
proof -
  assume "\<not> bit (flags t) 2"
  then have "flags t AND NOT UV_HANDLE_ACTIVE = flags t"
    by (intro bit_word_eqI) (auto simp: bit_and_iff bit_not_iff uv_flags)
  then show ?thesis by (simp add: stopped_def)
qed

lemma active_set_stopped: "active_set (hs(h := stopped t)) = active_set hs - {h}"
  by (auto simp: active_set_def bit_stopped)

lemma active_set_upd: "active_set (hs(h := t)) = (if bit (flags t) 2 then insert h (active_set hs) else active_set hs - {h})"
  by (auto simp: active_set_def)

lemma ref_count_insert:
  assumes "finite (active_set hs)" "h \<notin> active_set hs" "bit (flags t) 2"
  shows "ref_count (hs(h := t)) = ref_count hs + (if bit (flags t) 3 then 1 else 0)"
proof -
  have "{x \<in> active_set (hs(h := t)). bit (flags ((hs(h := t)) x)) 3}
    = {x \<in> insert h (active_set hs). if x = h then bit (flags t) 3 else bit (flags (hs x)) 3}"
    using assms(3) by (auto simp: active_set_upd)
  moreover have "{x \<in> active_set hs. if x = h then bit (flags t) 3 else bit (flags (hs x)) 3}
    = {x \<in> active_set hs. bit (flags (hs x)) 3}" using assms(2) by auto
  ultimately show ?thesis
    unfolding ref_count_def using count_insert [OF assms(1, 2), where P = "\<lambda>x. if x = h then bit (flags t) 3 else bit (flags (hs x)) 3"]
    by simp
qed

lemma ref_count_stopped:
  assumes "finite (active_set hs)" "h \<in> active_set hs"
  shows "ref_count (hs(h := stopped (hs h))) = ref_count hs - (if bit (flags (hs h)) 3 then 1 else 0)"
proof -
  let ?hs = "hs(h := stopped (hs h))"
  have "ref_count (?hs(h := hs h)) = ref_count ?hs + (if bit (flags (hs h)) 3 then 1 else 0)"
    using assms by (intro ref_count_insert) (simp_all add: active_set_stopped, simp add: active_set_def)
  then show ?thesis by simp
qed

lemma uv__handle_stop_eq:
  "uv__is_active l h \<Longrightarrow> uv__handle_stop l h =
    l\<lparr>handles := (handles l)(h := stopped (handles l h)),
      active_handles := active_handles l - (if uv__has_ref l h then 1 else 0)\<rparr>"
  by (simp add: uv__handle_stop_def uv__is_active_def has_ref_iff Let_def flag_simps stopped_def uv__active_handle_rm_def)

lemma stop_ok:
  assumes "queued l"
  shows "\<exists>l'. uv_timer_stop l h = Some (0, l') \<and> queued l' \<and> handles l' = (handles l)(h := stopped (handles l h)) \<and>
    time l' = time l \<and> timer_counter l' = timer_counter l \<and> handle_queue l' = handle_queue l \<and>
    closing_handles l' = closing_handles l"
proof (cases "uv__is_active l h")
  case False
  then have "handles l = (handles l)(h := stopped (handles l h))"
    using stopped_id by (simp add: active_iff active_set_def)
  then show ?thesis using False assms by (simp add: uv_timer_stop_def)
next
  case True
  let ?A = "active_set (handles l)" and ?hs = "(handles l)(h := stopped (handles l h))"
  have h: "h \<in> ?A" using True by (simp add: active_iff)
  obtain s where s: "heap_remove (timer_less_than (handles l)) (timer_heap l) h = Some s"
    "heap_inv (timer_less_than (handles l)) s (?A - {h})"
    using uv_heap.del_ok [OF timer_order.heap_order_axioms _ h] assms unfolding queued_def by blast
  have "heap_inv (timer_less_than ?hs) s (?A - {h})"
    by (rule heap_inv_same_keys [OF s(2)]) (simp add: same_key_def)
  moreover have "inj_on (\<lambda>x. start_id (?hs x)) (?A - {h})"
    using assms unfolding queued_def by (auto simp: inj_on_def)
  ultimately have "queued (uv__handle_stop (l\<lparr>timer_heap := s\<rparr>) h)"
    using assms queued_finite [OF assms] h uv__handle_stop_eq [of "l\<lparr>timer_heap := s\<rparr>" h] True
    by (simp add: queued_def active_set_stopped ref_count_stopped uv__is_active_def uv__has_ref_def uv_flags)
  then show ?thesis
    using s(1) True uv__handle_stop_eq [of "l\<lparr>timer_heap := s\<rparr>" h] by (simp add: uv_timer_stop_def uv__is_active_def)
qed

section \<open>Starting\<close>

lemma word_less_inc: "w \<noteq> - 1 \<Longrightarrow> w < w + 1" for w :: "64 word"
proof -
  assume "w \<noteq> - 1"
  then have "1 + w \<noteq> 0" by (metis add.commute add_eq_0_iff)
  then have "unat (1 + w) = Suc (unat w)" by (rule unatSuc)
  then show ?thesis by (simp add: word_less_nat_alt add.commute)
qed

definition deadline :: "64 word \<Rightarrow> 64 word \<Rightarrow> 64 word" where
  "deadline now d = (if now + d < d then - 1 else now + d)"

lemma unat_max_word64: "unat (- 1 :: 64 word) = 2 ^ 64 - 1"
  by (simp add: unsigned_minus_1_eq_mask mask_eq_exp_minus_1)

lemma unat_deadline: "unat (deadline now d) = min (2 ^ 64 - 1) (unat now + unat d)"
proof -
  have d: "unat d < 2 ^ 64" "unat now < 2 ^ 64" using unsigned_less [of d] unsigned_less [of now] by simp_all
  have sum: "unat (now + d) = (unat now + unat d) mod 2 ^ 64" by (simp add: unat_word_ariths)
  show ?thesis
  proof (cases "unat now + unat d < 2 ^ 64")
    case True
    then show ?thesis using sum by (simp add: deadline_def word_less_nat_alt)
  next
    case False
    then have "unat (now + d) = unat now + unat d - 2 ^ 64" using sum d by (simp add: mod_if)
    then have "now + d < d" using d False by (simp add: word_less_nat_alt)
    then show ?thesis using False by (simp add: deadline_def unat_max_word64)
  qed
qed

definition started :: "uv_loop \<Rightarrow> nat option \<Rightarrow> 64 word \<Rightarrow> 64 word \<Rightarrow> uv_timer \<Rightarrow> uv_timer" where
  "started l cb tmo rep t =
     t\<lparr>flags := flags t OR UV_HANDLE_ACTIVE, timer_cb := cb, timeout := deadline (time l) tmo, repeat := rep,
       start_id := timer_counter l\<rparr>"

lemma started_simps [simp]:
  "timer_cb (started l cb tmo rep t) = cb" "timeout (started l cb tmo rep t) = deadline (time l) tmo"
  "repeat (started l cb tmo rep t) = rep" "start_id (started l cb tmo rep t) = timer_counter l"
  by (simp_all add: started_def)

lemma bit_started: "bit (flags (started l cb tmo rep t)) n \<longleftrightarrow> bit (flags t) n \<or> n = 2"
  by (auto simp: started_def bit_or_iff uv_flags)

lemma started_stopped: "started l cb tmo rep (stopped t) = started l cb tmo rep t"
proof -
  have "flags t AND NOT UV_HANDLE_ACTIVE OR UV_HANDLE_ACTIVE = flags t OR UV_HANDLE_ACTIVE"
    by (intro bit_word_eqI) (auto simp: bit_or_iff bit_and_iff bit_not_iff)
  then show ?thesis by (simp add: started_def stopped_def)
qed

lemma uv__handle_start_eq:
  "\<not> uv__is_active l h \<Longrightarrow> uv__handle_start l h =
    l\<lparr>handles := (handles l)(h := (handles l h)\<lparr>flags := flags (handles l h) OR UV_HANDLE_ACTIVE\<rparr>),
      active_handles := active_handles l + (if uv__has_ref l h then 1 else 0)\<rparr>"
  by (simp add: uv__handle_start_def uv__is_active_def has_ref_iff Let_def flag_simps uv__active_handle_add_def)

text \<open>The second half of \<open>uv_timer_start\<close>: the handle is not in the heap.\<close>

lemma start_inactive:
  assumes "queued l" "\<not> uv__is_active l h" "\<not> uv__is_closing l h" "cb \<noteq> None" "timer_counter l \<noteq> - 1"
    "card (active_set (handles l)) + 1 < 2 ^ 32"
  shows "\<exists>l'. uv_timer_start l h cb tmo rep = Some (0, l') \<and> queued l' \<and>
    handles l' = (handles l)(h := started l cb tmo rep (handles l h)) \<and>
    time l' = time l \<and> timer_counter l' = timer_counter l + 1"
proof -
  let ?A = "active_set (handles l)"
  define k where "k = (handles l)(h := (handles l h)\<lparr>timer_cb := cb, timeout := deadline (time l) tmo, repeat := rep,
    start_id := timer_counter l\<rparr>)"
  define l3 where "l3 = l\<lparr>handles := k, timer_counter := timer_counter l + 1\<rparr>"
  have h: "h \<notin> ?A" using assms(2) by (simp add: active_iff)
  have "heap_inv (timer_less_than k) (timer_heap l) ?A"
    by (rule heap_inv_same_keys [where hs = "handles l"])
      (use assms(1) h in \<open>auto simp: queued_def k_def same_key_def\<close>)
  then obtain s where s: "heap_insert (timer_less_than k) (timer_heap l) h = Some s"
    "heap_inv (timer_less_than k) s (insert h ?A)"
    using uv_heap.ins_ok [OF timer_order.heap_order_axioms _ h assms(6)] by blast
  define l' where "l' = uv__handle_start (l3\<lparr>timer_heap := s\<rparr>) h"
  have run: "uv_timer_start l h cb tmo rep = Some (0, l')"
    using assms(2-4) s(1) by (auto simp: uv_timer_start_def deadline_def set_handle_def l'_def l3_def k_def Let_def)
  have kh: "(k h)\<lparr>flags := flags (k h) OR UV_HANDLE_ACTIVE\<rparr> = started l cb tmo rep (handles l h)"
    by (simp add: k_def started_def)
  have l': "l' = l3\<lparr>timer_heap := s, handles := (handles l)(h := started l cb tmo rep (handles l h)),
    active_handles := active_handles l + (if uv__has_ref l h then 1 else 0)\<rparr>"
  proof -
    have "\<not> uv__is_active (l3\<lparr>timer_heap := s\<rparr>) h" "uv__has_ref (l3\<lparr>timer_heap := s\<rparr>) h = uv__has_ref l h"
      using assms(2) by (simp_all add: uv__is_active_def uv__has_ref_def l3_def k_def)
    moreover have "k(h := t) = (handles l)(h := t)" for t by (simp add: k_def)
    ultimately show ?thesis unfolding l'_def by (simp add: uv__handle_start_eq kh l3_def)
  qed
  let ?hs = "(handles l)(h := started l cb tmo rep (handles l h))"
  have A': "active_set ?hs = insert h ?A" by (simp add: active_set_upd bit_started)
  have less: "start_id (handles l x) < timer_counter l" if "x \<in> ?A" for x using assms(1) that by (simp add: queued_def)
  have less1: "timer_counter l < timer_counter l + 1" by (rule word_less_inc [OF assms(5)])
  have "heap_inv (timer_less_than ?hs) s (insert h ?A)"
    by (rule heap_inv_same_keys [OF s(2)]) (simp add: k_def same_key_def)
  moreover have "inj_on (\<lambda>x. start_id (?hs x)) (insert h ?A)"
  proof -
    have "inj_on (\<lambda>x. start_id (?hs x)) ?A = inj_on (\<lambda>x. start_id (handles l x)) ?A" by (rule inj_on_cong) (use h in auto)
    moreover have "start_id (?hs h) \<notin> (\<lambda>x. start_id (?hs x)) ` (?A - {h})"
    proof
      assume "start_id (?hs h) \<in> (\<lambda>x. start_id (?hs x)) ` (?A - {h})"
      then obtain x where "x \<in> ?A" "x \<noteq> h" "start_id (?hs h) = start_id (?hs x)" by blast
      then show False using less [of x] by simp
    qed
    ultimately show ?thesis using assms(1) unfolding queued_def inj_on_insert by simp
  qed
  moreover have "ref_count ?hs = ref_count (handles l) + (if uv__has_ref l h then 1 else 0)"
    using queued_finite [OF assms(1)] h by (simp add: ref_count_insert bit_started has_ref_iff)
  moreover have "timer_cb (handles l x) \<noteq> None" if "x \<in> ?A" for x using assms(1) that by (simp add: queued_def)
  ultimately have "queued l'"
    using assms(1, 4) less1 order.strict_trans [OF less less1] by (simp add: queued_def l' l3_def A')
  then show ?thesis using run by (simp add: l' l3_def)
qed

lemma start_ok:
  assumes "timer_inv l" "\<not> uv__is_closing l h" "cb \<noteq> None" "timer_counter l \<noteq> - 1"
    "card (active_set (handles l) - {h}) + 1 < 2 ^ 32"
  shows "\<exists>l'. uv_timer_start l h cb tmo rep = Some (0, l') \<and> timer_inv l' \<and>
    handles l' = (handles l)(h := started l cb tmo rep (handles l h)) \<and>
    time l' = time l \<and> timer_counter l' = timer_counter l + 1"
proof -
  have q: "queued l" using assms(1) by (simp add: timer_inv_def)
  obtain l1 where l1: "uv_timer_stop l h = Some (0, l1)" "queued l1"
    "handles l1 = (handles l)(h := stopped (handles l h))" "time l1 = time l" "timer_counter l1 = timer_counter l"
    using stop_ok [OF q, of h] by blast
  have "uv_timer_start l h cb tmo rep = uv_timer_start l1 h cb tmo rep"
  proof -
    have "\<not> uv__is_active l1 h" "\<not> uv__is_closing l1 h"
      using assms(2) l1(3) by (simp_all add: active_iff active_set_stopped closing_iff bit_stopped)
    moreover have "(if uv__is_active l h then uv_timer_stop l h else Some (0, l)) = Some (0, l1)"
      using l1(1) by (cases "uv__is_active l h") (simp_all add: uv_timer_stop_def)
    ultimately show ?thesis using assms(2, 3) unfolding uv_timer_start_def by (cases cb) simp_all
  qed
  moreover have "\<exists>l'. uv_timer_start l1 h cb tmo rep = Some (0, l') \<and> queued l' \<and>
    handles l' = (handles l1)(h := started l1 cb tmo rep (handles l1 h)) \<and>
    time l' = time l1 \<and> timer_counter l' = timer_counter l1 + 1"
    by (rule start_inactive [OF l1(2)])
      (use assms l1(3, 5) in \<open>simp_all add: active_iff active_set_stopped closing_iff bit_stopped\<close>)
  moreover have "started l1 cb tmo rep = started l cb tmo rep" using l1(4, 5) by (simp add: started_def fun_eq_iff)
  ultimately obtain l' where l': "uv_timer_start l h cb tmo rep = Some (0, l')" "queued l'"
    "handles l' = (handles l)(h := started l cb tmo rep (handles l h))"
    "time l' = time l" "timer_counter l' = timer_counter l + 1"
    using l1(3-5) by (auto simp: started_stopped)
  moreover have "timer_inv l'"
    using l'(2, 3) assms(1, 2) by (auto simp: timer_inv_def active_iff active_set_upd bit_started closing_iff split: if_splits)
  ultimately show ?thesis by blast
qed

lemma start_einval: "uv__is_closing l h \<or> cb = None \<Longrightarrow> uv_timer_start l h cb tmo rep = Some (UV_EINVAL, l)"
  by (simp add: uv_timer_start_def)

lemma stop_inv:
  assumes "timer_inv l"
  shows "\<exists>l'. uv_timer_stop l h = Some (0, l') \<and> timer_inv l' \<and> handles l' = (handles l)(h := stopped (handles l h)) \<and>
    time l' = time l \<and> timer_counter l' = timer_counter l"
proof -
  obtain l' where l': "uv_timer_stop l h = Some (0, l')" "queued l'"
    "handles l' = (handles l)(h := stopped (handles l h))" "time l' = time l" "timer_counter l' = timer_counter l"
    using stop_ok assms unfolding timer_inv_def by blast
  moreover have "timer_inv l'"
    using l'(2, 3) assms by (auto simp: timer_inv_def active_iff active_set_stopped closing_iff)
  ultimately show ?thesis by blast
qed

section \<open>Starting again\<close>

lemma again_ok:
  assumes "timer_inv l" "timer_counter l \<noteq> - 1" "card (active_set (handles l) - {h}) + 1 < 2 ^ 32"
  shows "\<exists>l' c. uv_timer_again l h = Some (c, l') \<and> timer_inv l' \<and> time l' = time l \<and>
    (if timer_cb (handles l h) \<noteq> None \<and> repeat (handles l h) \<noteq> 0 \<and> \<not> uv__is_closing l h then
       handles l' = (handles l)(h := started l (timer_cb (handles l h)) (repeat (handles l h)) (repeat (handles l h)) (handles l h)) \<and>
       timer_counter l' = timer_counter l + 1
     else handles l' = handles l \<and> timer_counter l' = timer_counter l)"
proof (cases "timer_cb (handles l h) \<noteq> None \<and> repeat (handles l h) \<noteq> 0")
  case False
  then show ?thesis using assms(1) by (auto simp: uv_timer_again_def)
next
  case True
  let ?t = "handles l h"
  obtain l1 where l1: "uv_timer_stop l h = Some (0, l1)" "timer_inv l1"
    "handles l1 = (handles l)(h := stopped ?t)" "time l1 = time l" "timer_counter l1 = timer_counter l"
    using stop_inv [OF assms(1), of h] by blast
  have closing: "uv__is_closing l1 h = uv__is_closing l h" using l1(3) by (simp add: closing_iff bit_stopped)
  show ?thesis
  proof (cases "uv__is_closing l h")
    case c: True
    then have "\<not> bit (flags ?t) 2" using assms(1) by (auto simp: timer_inv_def active_iff active_set_def)
    then have "handles l1 = handles l" using l1(3) by (simp add: stopped_id)
    then show ?thesis using True c closing l1 by (auto simp: uv_timer_again_def start_einval)
  next
    case False
    have "\<exists>l'. uv_timer_start l1 h (timer_cb ?t) (repeat ?t) (repeat ?t) = Some (0, l') \<and> timer_inv l' \<and>
      handles l' = (handles l1)(h := started l1 (timer_cb ?t) (repeat ?t) (repeat ?t) (handles l1 h)) \<and>
      time l' = time l1 \<and> timer_counter l' = timer_counter l1 + 1"
      by (rule start_ok [OF l1(2)])
        (use assms True False closing l1(3, 5) in \<open>simp_all add: active_set_stopped\<close>)
    moreover have "started l1 cb tmo rep = started l cb tmo rep" for cb tmo rep
      using l1(4, 5) by (simp add: started_def fun_eq_iff)
    ultimately show ?thesis
      using True False l1 by (auto simp: uv_timer_again_def started_stopped)
  qed
qed

section \<open>The other operations on a handle\<close>

text \<open>A new value \<open>t\<close> for a handle that is not in the heap, and for one that stays there.\<close>

lemma inactive_upd:
  assumes "timer_inv l" "h \<notin> active_set (handles l)" "\<not> bit (flags t) 2" "handles l' = (handles l)(h := t)"
    "timer_heap l' = timer_heap l" "active_handles l' = active_handles l" "timer_counter l' = timer_counter l"
  shows "timer_inv l'"
proof -
  have A: "active_set (handles l') = active_set (handles l)" using assms(2-4) by (simp add: active_set_upd)
  have same: "handles l' x = handles l x" if "x \<in> active_set (handles l)" for x using that assms(2, 4) by auto
  have "heap_inv (timer_less_than (handles l')) (timer_heap l) (active_set (handles l))"
    by (rule heap_inv_same_keys [where hs = "handles l"]) (use assms(1) same in \<open>auto simp: timer_inv_def queued_def same_key_def\<close>)
  moreover have "ref_count (handles l') = ref_count (handles l)"
    unfolding ref_count_def A using same by (intro arg_cong [where f = "\<lambda>S. of_nat (card S)"]) auto
  moreover have "inj_on (\<lambda>x. start_id (handles l' x)) (active_set (handles l)) = inj_on (\<lambda>x. start_id (handles l x)) (active_set (handles l))"
    by (rule inj_on_cong) (simp add: same)
  ultimately show ?thesis
    using assms(1, 5-7) same by (simp add: timer_inv_def queued_def A active_iff closing_iff)
qed

lemma ref_count_upd:
  assumes "finite (active_set hs)" "h \<in> active_set hs" "bit (flags t) 2"
  shows "ref_count (hs(h := t)) = ref_count hs - (if bit (flags (hs h)) 3 then 1 else 0) + (if bit (flags t) 3 then 1 else 0)"
proof -
  have "ref_count ((hs(h := stopped (hs h)))(h := t)) =
    ref_count (hs(h := stopped (hs h))) + (if bit (flags t) 3 then 1 else 0)"
    by (rule ref_count_insert) (simp_all add: active_set_stopped assms)
  then show ?thesis using ref_count_stopped [OF assms(1, 2)] by simp
qed

lemma active_upd:
  assumes "timer_inv l" "h \<in> active_set (handles l)" "handles l' = (handles l)(h := t)"
    "same_key (handles l h) t" "timer_cb t = timer_cb (handles l h)" "\<And>n. n < 3 \<Longrightarrow> bit (flags t) n = bit (flags (handles l h)) n"
    "active_handles l' = active_handles l - (if bit (flags (handles l h)) 3 then 1 else 0) + (if bit (flags t) 3 then 1 else 0)"
    "timer_heap l' = timer_heap l" "timer_counter l' = timer_counter l"
  shows "timer_inv l'"
proof -
  have b: "bit (flags t) 2" "bit (flags t) 0 = bit (flags (handles l h)) 0" "bit (flags t) 1 = bit (flags (handles l h)) 1"
    using assms(2, 6) by (simp_all add: active_set_def)
  have A: "active_set (handles l') = active_set (handles l)" using assms(2, 3) b(1) by (auto simp: active_set_upd)
  have key: "same_key (handles l x) (handles l' x)" "timer_cb (handles l' x) = timer_cb (handles l x)"
    "uv__is_closing l' x = uv__is_closing l x" for x
    using assms(3-5) b(2, 3) by (simp_all add: same_key_def closing_iff)
  have id: "start_id (handles l' x) = start_id (handles l x)" for x using key(1) [of x] by (simp add: same_key_def)
  have "heap_inv (timer_less_than (handles l')) (timer_heap l) (active_set (handles l))"
    by (rule heap_inv_same_keys [where hs = "handles l"]) (use assms(1) key(1) in \<open>auto simp: timer_inv_def queued_def\<close>)
  moreover have "finite (active_set (handles l))" using assms(1) queued_finite timer_inv_def by blast
  moreover from this have "active_handles l' = ref_count (handles l')"
    using assms(1, 7) ref_count_upd [OF _ assms(2) b(1)] by (simp add: assms(3) timer_inv_def queued_def)
  ultimately show ?thesis
    using assms(1, 8, 9) by (simp add: timer_inv_def queued_def A active_iff key id)
qed

lemma init_inv: "timer_inv l \<Longrightarrow> \<not> uv__is_active l h \<Longrightarrow> timer_inv (snd (uv_timer_init l h))"
  by (rule inactive_upd [where l = l and h = h and t = "(handles l h)\<lparr>flags := UV_HANDLE_REF, timer_cb := None, repeat := 0\<rparr>"])
    (simp_all add: uv_timer_init_def uv__handle_init_def Let_def flag_simps active_iff)

lemma set_repeat_inv:
  assumes "timer_inv l"
  shows "timer_inv (uv_timer_set_repeat l h r)"
proof (cases "h \<in> active_set (handles l)")
  case True
  show ?thesis
    by (rule active_upd [OF assms True, where t = "(handles l h)\<lparr>repeat := r\<rparr>"])
      (simp_all add: uv_timer_set_repeat_def set_handle_def same_key_def)
next
  case False
  show ?thesis
    by (rule inactive_upd [OF assms False, where t = "(handles l h)\<lparr>repeat := r\<rparr>"])
      (use False in \<open>simp_all add: uv_timer_set_repeat_def set_handle_def active_set_def\<close>)
qed

lemma ref_inv:
  assumes "timer_inv l"
  shows "timer_inv (uv_ref l h)"
proof -
  let ?t = "(handles l h)\<lparr>flags := flags (handles l h) OR UV_HANDLE_REF\<rparr>"
  consider "bit (flags (handles l h)) 3" | "\<not> bit (flags (handles l h)) 3" "h \<in> active_set (handles l)"
    | "\<not> bit (flags (handles l h)) 3" "h \<notin> active_set (handles l)" by blast
  then show ?thesis
  proof cases
    case 1
    then show ?thesis using assms by (simp add: uv_ref_def uv__handle_ref_def uv_flags)
  next
    case 2
    moreover have "\<not> bit (flags (handles l h)) 0" using assms 2(2) by (auto simp: timer_inv_def active_iff closing_iff)
    ultimately show ?thesis
      by (intro active_upd [OF assms 2(2), where t = ?t])
        (simp_all add: uv_ref_def uv__handle_ref_def Let_def flag_simps same_key_def active_set_def uv__active_handle_add_def)
  next
    case 3
    then show ?thesis
      by (intro inactive_upd [OF assms 3(2), where t = ?t])
        (simp_all add: uv_ref_def uv__handle_ref_def Let_def flag_simps active_set_def)
  qed
qed

lemma unref_inv:
  assumes "timer_inv l"
  shows "timer_inv (uv_unref l h)"
proof -
  let ?t = "(handles l h)\<lparr>flags := flags (handles l h) AND NOT UV_HANDLE_REF\<rparr>"
  consider "\<not> bit (flags (handles l h)) 3" | "bit (flags (handles l h)) 3" "h \<in> active_set (handles l)"
    | "bit (flags (handles l h)) 3" "h \<notin> active_set (handles l)" by blast
  then show ?thesis
  proof cases
    case 1
    then show ?thesis using assms by (simp add: uv_unref_def uv__handle_unref_def uv_flags)
  next
    case 2
    moreover have "\<not> bit (flags (handles l h)) 0" using assms 2(2) by (auto simp: timer_inv_def active_iff closing_iff)
    ultimately show ?thesis
      by (intro active_upd [OF assms 2(2), where t = ?t])
        (simp_all add: uv_unref_def uv__handle_unref_def Let_def flag_simps same_key_def active_set_def uv__active_handle_rm_def)
  next
    case 3
    then show ?thesis
      by (intro inactive_upd [OF assms 3(2), where t = ?t])
        (simp_all add: uv_unref_def uv__handle_unref_def Let_def flag_simps active_set_def)
  qed
qed

text \<open>Closing: the handle is marked before it is stopped, so the invariant fails in between.\<close>

lemma mark_closing_queued:
  assumes "queued l"
  shows "queued (set_flags l h (flags (handles l h) OR UV_HANDLE_CLOSING))"
proof -
  let ?hs = "(handles l)(h := (handles l h)\<lparr>flags := flags (handles l h) OR UV_HANDLE_CLOSING\<rparr>)"
  have A: "active_set ?hs = active_set (handles l)" by (auto simp: active_set_def flag_simps)
  have "heap_inv (timer_less_than ?hs) (timer_heap l) (active_set (handles l))"
    by (rule heap_inv_same_keys [where hs = "handles l"]) (use assms in \<open>auto simp: queued_def same_key_def\<close>)
  moreover have "bit (flags (?hs x)) 3 = bit (flags (handles l x)) 3" "start_id (?hs x) = start_id (handles l x)"
    "timer_cb (?hs x) = timer_cb (handles l x)" for x by (simp_all add: flag_simps)
  ultimately show ?thesis
    using assms unfolding queued_def ref_count_def set_flags_def set_handle_def by (simp add: A del: fun_upd_apply)
qed

lemma close_ok:
  assumes "timer_inv l" "\<not> uv__is_closing l h"
  shows "\<exists>l'. uv_close_timer l h = Some l' \<and> timer_inv l' \<and> active_set (handles l') = active_set (handles l) - {h} \<and>
    uv__is_closing l' h \<and> closing_handles l' = h # closing_handles l"
proof -
  let ?l0 = "set_flags l h (flags (handles l h) OR UV_HANDLE_CLOSING)"
  have q: "queued ?l0" using assms(1) mark_closing_queued by (simp add: timer_inv_def)
  obtain l1 where l1: "uv_timer_stop ?l0 h = Some (0, l1)" "queued l1"
    "handles l1 = (handles ?l0)(h := stopped (handles ?l0 h))" "closing_handles l1 = closing_handles ?l0"
    using stop_ok [OF q, of h] by blast
  have b: "bit (flags (handles l1 h)) 0" "\<not> bit (flags (handles l1 h)) 1"
    using assms(2) l1(3) by (simp_all add: bit_stopped closing_iff flag_simps)
  have A: "active_set (handles l1) = active_set (handles l) - {h}"
    using l1(3) by (auto simp: active_set_def bit_stopped flag_simps)
  have "uv__is_closing l1 x = uv__is_closing l x" if "x \<noteq> h" for x using that l1(3) by (simp add: closing_iff flag_simps)
  then have "timer_inv l1" using assms(1) l1(2) A by (auto simp: timer_inv_def active_iff)
  then have "timer_inv (l1\<lparr>closing_handles := h # closing_handles l1\<rparr>)"
    by (simp add: timer_inv_def queued_def active_iff closing_iff)
  moreover have "uv_close_timer l h = Some (l1\<lparr>closing_handles := h # closing_handles l1\<rparr>)"
    using assms(2) l1(1) b by (simp add: uv_close_timer_def uv__timer_close_def uv__make_close_pending_def uv_flags)
  ultimately show ?thesis using A b l1(4) by (simp add: closing_iff set_flags_def set_handle_def)
qed

end
