(* ===== verification/Uv_Timer_Run.thy ===== *)
theory Uv_Timer_Run
  imports Uv_Timer_Inv
begin

text \<open>
  The timers of a loop as a state machine, and what a run of the expired timers does: every timer that is
  due fires once, in the order of the deadlines.
\<close>

section \<open>Reachable loops\<close>

text \<open>Any sequence of calls on timers, and of readings of the clock.  A handle is initialised only while
  it is stopped, a handle is closed once, and neither the counter of starts nor the size of the heap
  reaches the end of its range.\<close>

inductive timer_step :: "uv_loop \<Rightarrow> uv_loop \<Rightarrow> bool" where
  init: "\<not> uv__is_active l h \<Longrightarrow> timer_step l (snd (uv_timer_init l h))"
| start: "uv_timer_start l h cb tmo rep = Some (c, l') \<Longrightarrow> timer_counter l \<noteq> - 1 \<Longrightarrow>
    card {x. uv__is_active l x \<and> x \<noteq> h} + 1 < 2 ^ 32 \<Longrightarrow> timer_step l l'"
| stop: "uv_timer_stop l h = Some (c, l') \<Longrightarrow> timer_step l l'"
| again: "uv_timer_again l h = Some (c, l') \<Longrightarrow> timer_counter l \<noteq> - 1 \<Longrightarrow>
    card {x. uv__is_active l x \<and> x \<noteq> h} + 1 < 2 ^ 32 \<Longrightarrow> timer_step l l'"
| set_repeat: "timer_step l (uv_timer_set_repeat l h rep)"
| ref: "timer_step l (uv_ref l h)"
| unref: "timer_step l (uv_unref l h)"
| close: "uv_close_timer l h = Some l' \<Longrightarrow> timer_step l l'"
| clock: "timer_step l (uv__update_time l hr)"

inductive reachable_loop :: "uv_loop \<Rightarrow> bool" where
  fresh: "(\<And>h. \<not> uv__is_active l h) \<Longrightarrow> reachable_loop (uv_loop_init_timers l hr)"
| step: "reachable_loop l \<Longrightarrow> timer_step l l' \<Longrightarrow> reachable_loop l'"

inductive_cases timer_stepE: "timer_step l l'"

lemma others_eq: "{x. uv__is_active l x \<and> x \<noteq> h} = active_set (handles l) - {h}"
  by (auto simp: active_iff)

lemma fresh_inv:
  assumes "\<And>h. \<not> uv__is_active l h"
  shows "timer_inv (uv_loop_init_timers l hr)"
proof -
  have A: "active_set (handles l) = {}" using assms by (auto simp: active_iff)
  then show ?thesis
    by (simp add: uv_loop_init_timers_def uv__update_time_def timer_inv_def queued_def active_iff heap_init_inv ref_count_def)
qed

lemma step_inv:
  assumes "timer_step l l'" "timer_inv l"
  shows "timer_inv l'"
  using assms
proof cases
  case (start h cb tmo rep c)
  show ?thesis
  proof (cases "uv__is_closing l h \<or> cb = None")
    case True
    then show ?thesis using start(1) start_einval [of l h cb tmo rep] assms(2) by auto
  next
    case False
    then show ?thesis using start start_ok [OF assms(2), of h cb tmo rep] by (auto simp: others_eq)
  qed
next
  case (stop h c)
  then show ?thesis using stop_inv [OF assms(2), of h] by auto
next
  case (again h c)
  then show ?thesis using again_ok [OF assms(2), of h] by (auto simp: others_eq)
next
  case (close h)
  then have "\<not> uv__is_closing l h" by (auto simp: uv_close_timer_def)
  then show ?thesis using close close_ok [OF assms(2), of h] by auto
next
  case (clock hr)
  then show ?thesis using assms(2) by (simp add: uv__update_time_def timer_inv_def queued_def active_iff closing_iff)
qed (auto simp: assms(2) init_inv set_repeat_inv ref_inv unref_inv)

lemma reachable_inv: "reachable_loop l \<Longrightarrow> timer_inv l"
  by (induction rule: reachable_loop.induct) (auto intro: fresh_inv step_inv)

text \<open>C36. The invariant of the timers.  After any sequence of calls, the handles with the active flag are
  exactly the nodes of the heap, which is a complete tree ordered by deadline and then by order of
  start; each has a callback and none is closing; the loop's count of active handles is the number of those
  that are referenced, modulo the width of the counter; and stopping any handle succeeds.  The sequences leave out
  what the documentation rules out or no run gets to: \<open>uv_timer_init\<close> on an active handle, the start of
  more timers than the 64-bit counter of starts or the 32-bit counter of nodes can number.\<close>

theorem timer_invariant:
  assumes "reachable_loop l"
  shows "heap_inv (timer_less_than (handles l)) (timer_heap l) {h. uv__is_active l h} \<and>
    (\<forall>h. uv__is_active l h \<longrightarrow>
       timer_cb (handles l h) \<noteq> None \<and> \<not> uv__is_closing l h \<and> start_id (handles l h) < timer_counter l) \<and>
    active_handles l = of_nat (card {h. uv__is_active l h \<and> uv__has_ref l h}) \<and>
    (\<forall>h. \<exists>l'. uv_timer_stop l h = Some (0, l') \<and> {x. uv__is_active l' x} = {x. uv__is_active l x} - {h})"
proof (intro conjI)
  note inv = reachable_inv [OF assms]
  have A: "{h. uv__is_active l h} = active_set (handles l)" for l by (auto simp: active_iff)
  show "heap_inv (timer_less_than (handles l)) (timer_heap l) {h. uv__is_active l h}"
    "\<forall>h. uv__is_active l h \<longrightarrow>
       timer_cb (handles l h) \<noteq> None \<and> \<not> uv__is_closing l h \<and> start_id (handles l h) < timer_counter l"
    "active_handles l = of_nat (card {h. uv__is_active l h \<and> uv__has_ref l h})"
    using inv by (simp_all add: timer_inv_def queued_def active_iff A has_ref_iff ref_count_def)
  show "\<forall>h. \<exists>l'. uv_timer_stop l h = Some (0, l') \<and> {x. uv__is_active l' x} = {x. uv__is_active l x} - {h}"
    using stop_inv [OF inv] unfolding A by (metis active_set_stopped)
qed

text \<open>A loop for the examples: no handle is active, the clock reads 5 ms.\<close>

definition quiet_loop :: uv_loop where
  "quiet_loop = uv_loop_init_timers
     \<lparr>time = 0, timer_counter = 0, active_handles = 0,
       timer_heap = \<lparr>hmin = None, nelts = 0, mem = \<lambda>_. \<lparr>left = None, right = None, parent = None\<rparr>\<rparr>,
       handles = \<lambda>_. \<lparr>flags = 0, timer_cb = None, timeout = 0, repeat = 0, start_id = 0\<rparr>,
       handle_queue = [], closing_handles = []\<rparr> 5000000"

lemma quiet_loop_reachable: "reachable_loop quiet_loop"
  unfolding quiet_loop_def by (rule fresh) (simp add: uv__is_active_def)

lemma quiet_loop_simps [simp]:
  "active_set (handles quiet_loop) = {}" "timer_counter quiet_loop = 0" "time quiet_loop = 5"
  "handles quiet_loop h = \<lparr>flags = 0, timer_cb = None, timeout = 0, repeat = 0, start_id = 0\<rparr>"
  by (simp_all add: quiet_loop_def uv_loop_init_timers_def uv__update_time_def active_set_def Let_def)

lemma quiet_loop_idle [simp]: "\<not> uv__is_active quiet_loop h" "\<not> uv__is_closing quiet_loop h"
  by (simp_all add: active_iff closing_iff)

text \<open>The loop after one timer was started on it.\<close>

lemma quiet_loop_start:
  "cb \<noteq> None \<Longrightarrow> \<exists>l'. uv_timer_start quiet_loop h cb tmo rep = Some (0, l') \<and> timer_inv l' \<and>
    handles l' = (handles quiet_loop)(h := started quiet_loop cb tmo rep (handles quiet_loop h)) \<and>
    time l' = 5 \<and> timer_counter l' = 1"
  using start_ok [OF reachable_inv [OF quiet_loop_reachable], of h cb tmo rep] by simp

theorem timer_invariant_witness:
  "\<exists>l. uv_timer_start quiet_loop 2 (Some 7) 10 0 = Some (0, l) \<and> active_handles l = 0 \<and>
    heap_inv (timer_less_than (handles l)) (timer_heap l) {2} \<and>
    (\<exists>l'. uv_timer_stop l 2 = Some (0, l') \<and> {x. uv__is_active l' x} = {})"
proof -
  obtain l where l: "uv_timer_start quiet_loop 2 (Some 7) 10 0 = Some (0, l)"
    "handles l = (handles quiet_loop)(2 := started quiet_loop (Some 7) 10 0 (handles quiet_loop 2))"
    using quiet_loop_start [of "Some 7" 2 10 0] by blast
  have "reachable_loop l" by (rule step [OF quiet_loop_reachable start [OF l(1)]]) (simp_all)
  note inv = timer_invariant [OF this]
  have A: "{x. uv__is_active l x} = {2}"
    using l(2) by (auto simp: active_iff active_set_upd bit_started split: if_splits)
  have R: "{x. uv__is_active l x \<and> uv__has_ref l x} = {}"
    using l(2) by (auto simp: active_iff active_set_upd bit_started has_ref_iff split: if_splits)
  have "heap_inv (timer_less_than (handles l)) (timer_heap l) {2}" "active_handles l = 0"
    using inv unfolding A R by simp_all
  moreover have "\<exists>l'. uv_timer_stop l 2 = Some (0, l') \<and> {x. uv__is_active l' x} = {2} - {2}"
    using inv unfolding A by blast
  ultimately show ?thesis using l(1) by auto
qed

text \<open>C39. Starting a timer.  On a handle that is closing, or with no callback, the call is refused and the
  loop does not change.  Otherwise the handle is put into the heap, whether it was there or not, with
  the deadline \<open>now + timeout\<close> held at the largest value instead of wrapping; every timer that has
  the same deadline comes before it, and no other handle changes.  The counter of starts has not reached its last value,
  and there are fewer than \<open>2 ^ 32\<close> timers.\<close>

theorem timer_start_exact:
  assumes "reachable_loop l" "timer_counter l \<noteq> - 1" "card {x. uv__is_active l x \<and> x \<noteq> h} + 1 < 2 ^ 32"
  shows "if uv__is_closing l h \<or> cb = None then uv_timer_start l h cb tmo rep = Some (UV_EINVAL, l)
    else \<exists>l'. uv_timer_start l h cb tmo rep = Some (0, l') \<and> reachable_loop l' \<and>
      {x. uv__is_active l' x} = insert h {x. uv__is_active l x} \<and>
      unat (timeout (handles l' h)) = min (2 ^ 64 - 1) (unat (time l) + unat tmo) \<and>
      timer_cb (handles l' h) = cb \<and> repeat (handles l' h) = rep \<and>
      (\<forall>x. x \<noteq> h \<longrightarrow> handles l' x = handles l x) \<and>
      (\<forall>x. uv__is_active l x \<and> x \<noteq> h \<and> timeout (handles l x) = timeout (handles l' h) \<longrightarrow> timer_less_than (handles l') x h)"
proof (cases "uv__is_closing l h \<or> cb = None")
  case True
  then show ?thesis by (simp add: start_einval)
next
  case False
  note inv = reachable_inv [OF assms(1)]
  obtain l' where l': "uv_timer_start l h cb tmo rep = Some (0, l')"
    "handles l' = (handles l)(h := started l cb tmo rep (handles l h))"
    using start_ok [OF inv, of h cb tmo rep] False assms(2, 3) by (auto simp: others_eq)
  have "reachable_loop l'" by (rule step [OF assms(1) start [OF l'(1) assms(2, 3)]])
  moreover have "start_id (handles l x) < timer_counter l" if "uv__is_active l x" for x
    using inv that by (simp add: timer_inv_def queued_def active_iff)
  ultimately show ?thesis
    using False l' by (auto simp: active_iff active_set_upd bit_started unat_deadline timer_less_than_def)
qed

theorem timer_start_exact_witness:
  "\<exists>l'. uv_timer_start quiet_loop 3 (Some 7) (- 2) 1 = Some (0, l') \<and> {x. uv__is_active l' x} = {3} \<and>
    unat (timeout (handles l' 3)) = 2 ^ 64 - 1"
proof -
  have "unat (- 2 :: 64 word) = 2 ^ 64 - 2" by simp
  then show ?thesis using timer_start_exact [OF quiet_loop_reachable, of 3 "Some 7" "- 2" 1] by auto
qed

section \<open>The next timeout\<close>

lemma heap_min_least:
  assumes "timer_inv l" "heap_min (timer_heap l) = Some h"
  shows "h \<in> active_set (handles l)" "\<And>x. x \<in> active_set (handles l) \<Longrightarrow> \<not> timer_less_than (handles l) x h"
  using assms uv_heap.first_Some [OF timer_order.heap_order_axioms] unfolding timer_inv_def queued_def by blast+

lemma heap_min_none: "timer_inv l \<Longrightarrow> heap_min (timer_heap l) = None \<longleftrightarrow> active_set (handles l) = {}"
  using uv_heap.first_None unfolding timer_inv_def queued_def by blast

lemma least_timeout:
  assumes "timer_inv l" "heap_min (timer_heap l) = Some h" "x \<in> active_set (handles l)"
  shows "timeout (handles l h) \<le> timeout (handles l x)"
  using heap_min_least(2) [OF assms] by (simp add: timer_less_than_def not_less split: if_splits)

text \<open>C40. The time to sleep.  \<open>uv__next_timeout\<close> is minus one exactly when no timer is active;
  otherwise it is the time to the earliest deadline, zero when that has passed, held at the largest
  \<open>int\<close>: the subtraction of unsigned numbers never wraps and the conversion never changes the value.\<close>

theorem next_timeout_exact:
  assumes "reachable_loop l"
  shows "uv__next_timeout l =
    (if {h. uv__is_active l h} = {} then - 1
     else min (2 ^ 31 - 1) (max 0 (uint (Min {timeout (handles l h) |h. uv__is_active l h}) - uint (time l))))"
proof -
  note inv = reachable_inv [OF assms]
  have A: "{h. uv__is_active l h} = active_set (handles l)" by (auto simp: active_iff)
  have img: "{timeout (handles l h) |h. uv__is_active l h} = (\<lambda>h. timeout (handles l h)) ` active_set (handles l)"
    by (auto simp: active_iff)
  show ?thesis
  proof (cases "heap_min (timer_heap l)")
    case None
    then show ?thesis using heap_min_none [OF inv] by (simp add: uv__next_timeout_def A)
  next
    case (Some h)
    let ?t = "timeout (handles l h)"
    have fin: "finite (active_set (handles l))" using inv queued_finite timer_inv_def by blast
    note h = heap_min_least(1) [OF inv Some]
    have Min: "Min {timeout (handles l h) |h. uv__is_active l h} = ?t"
      unfolding img using fin h least_timeout [OF inv Some] by (intro Min_eqI) auto
    have diff: "uint (?t - time l) = uint ?t - uint (time l)" if "\<not> ?t \<le> time l"
      using that by (simp add: uint_minus_simple_alt [symmetric] word_le_def)
    have big: "?t - time l > INT_MAX \<longleftrightarrow> uint ?t - uint (time l) > 2147483647" if "\<not> ?t \<le> time l"
      using diff [OF that] by (simp add: INT_MAX_def word_less_def)
    show ?thesis
      using Some Min h diff big by (auto simp: uv__next_timeout_def A INT_MAX_def word_le_def Let_def)
  qed
qed

theorem next_timeout_exact_witness:
  "\<exists>l. uv_timer_start quiet_loop 2 (Some 7) 10 0 = Some (0, l) \<and> uv__next_timeout l = 10"
proof -
  obtain l where l: "uv_timer_start quiet_loop 2 (Some 7) 10 0 = Some (0, l)" "time l = 5"
    "handles l = (handles quiet_loop)(2 := started quiet_loop (Some 7) 10 0 (handles quiet_loop 2))"
    using quiet_loop_start [of "Some 7" 2 10 0] by blast
  have r: "reachable_loop l" by (rule step [OF quiet_loop_reachable start [OF l(1)]]) simp_all
  have active: "uv__is_active l h \<longleftrightarrow> h = 2" for h using l(3) by (simp add: active_iff active_set_upd bit_started)
  moreover have "timeout (handles l 2) = 15" using l(3) by (simp add: deadline_def)
  ultimately show ?thesis using next_timeout_exact [OF r] l(1, 2) by simp
qed

section \<open>Running the timers that are due\<close>

definition due :: "uv_loop \<Rightarrow> node set" where
  "due l = {h. uv__is_active l h \<and> timeout (handles l h) \<le> time l}"

text \<open>A callback that leaves the due timers alone and starts at most \<open>B\<close> timers: it may stop, close or
  restart the others, and change what is repeated.\<close>

definition leaves_due :: "nat \<Rightarrow> (nat \<Rightarrow> node \<Rightarrow> uv_loop \<Rightarrow> uv_loop option) \<Rightarrow> bool" where
  "leaves_due B run_cb \<longleftrightarrow>
     (\<forall>c h l. timer_inv l \<and> unat (timer_counter l) + B < 2 ^ 64 \<longrightarrow>
        (\<exists>l'. run_cb c h l = Some l' \<and> timer_inv l' \<and> time l' = time l \<and>
          unat (timer_counter l') \<le> unat (timer_counter l) + B \<and> due l' = due l \<and>
          (\<forall>x \<in> due l. same_key (handles l x) (handles l' x))))"

lemma due_active: "due l = {h \<in> active_set (handles l). timeout (handles l h) \<le> time l}"
  by (auto simp: due_def active_iff)

lemma due_finite: "timer_inv l \<Longrightarrow> finite (due l)"
  using queued_finite by (auto simp: due_active timer_inv_def)

lemma unat_less_64: "unat w < 2 ^ 64" for w :: "64 word"
  using unsigned_less [of w] by simp

lemma deadline_future: "now \<noteq> - 1 \<Longrightarrow> d \<noteq> 0 \<Longrightarrow> now < deadline now d"
proof -
  assume a: "now \<noteq> - 1" "d \<noteq> 0"
  have "unat now < 2 ^ 64 - 1" using word_less_inc [OF a(1)] unat_less_64 [of "now + 1"] by (simp add: word_less_nat_alt)
  moreover have "0 < unat d" using a(2) by (simp add: unat_gt_0)
  ultimately show ?thesis by (simp add: word_less_nat_alt unat_deadline)
qed

text \<open>One round of the loop: the first timer is stopped, and put back when it repeats.\<close>

lemma round_ok:
  assumes "timer_inv l" "h \<in> due l" "time l \<noteq> - 1" "timer_counter l \<noteq> - 1"
  shows "\<exists>c l1 l2 cb. uv_timer_stop l h = Some (0, l1) \<and> uv_timer_again l1 h = Some (c, l2) \<and> timer_cb (handles l2 h) = Some cb \<and>
    timer_inv l2 \<and> time l2 = time l \<and> unat (timer_counter l2) \<le> unat (timer_counter l) + 1 \<and> due l2 = due l - {h} \<and>
    (\<forall>x. x \<noteq> h \<longrightarrow> handles l2 x = handles l x)"
proof -
  obtain l1 where l1: "uv_timer_stop l h = Some (0, l1)" "timer_inv l1"
    "handles l1 = (handles l)(h := stopped (handles l h))" "time l1 = time l" "timer_counter l1 = timer_counter l"
    using stop_inv [OF assms(1), of h] by blast
  have A: "active_set (handles l1) = active_set (handles l) - {h}" using l1(3) by (simp add: active_set_stopped)
  have h: "h \<in> active_set (handles l)" using assms(2) by (simp add: due_active)
  then have "card (active_set (handles l1) - {h}) + 1 < 2 ^ 32"
    using A assms(1) queued_finite [of l] card_Suc_Diff1 [of "active_set (handles l)" h] by (simp add: timer_inv_def)
  then obtain c l2 where l2: "uv_timer_again l1 h = Some (c, l2)" "timer_inv l2" "time l2 = time l"
    "if timer_cb (handles l h) \<noteq> None \<and> repeat (handles l h) \<noteq> 0 \<and> \<not> uv__is_closing l1 h then
       handles l2 = (handles l1)(h := started l1 (timer_cb (handles l h)) (repeat (handles l h)) (repeat (handles l h)) (handles l1 h)) \<and>
       timer_counter l2 = timer_counter l1 + 1
     else handles l2 = handles l1 \<and> timer_counter l2 = timer_counter l1"
    using again_ok [OF l1(2), of h] assms(4) l1(3-5) by auto
  obtain cb where cb: "timer_cb (handles l h) = Some cb" using assms(1) h by (auto simp: timer_inv_def queued_def)
  have "unat (timer_counter l + 1) \<le> unat (timer_counter l) + 1" by (simp add: unat_word_ariths)
  moreover have "time l < deadline (time l1) (repeat (handles l h))" if "repeat (handles l h) \<noteq> 0"
    using deadline_future [OF assms(3) that] l1(4) by simp
  ultimately have "timer_cb (handles l2 h) = Some cb \<and> unat (timer_counter l2) \<le> unat (timer_counter l) + 1 \<and>
    due l2 = due l - {h} \<and> (\<forall>x. x \<noteq> h \<longrightarrow> handles l2 x = handles l x)"
    using l2(3, 4) l1(3, 5) cb A
    by (auto simp: due_active active_set_upd bit_started active_set_stopped not_le split: if_splits)
  then show ?thesis using l1(1) l2(1-3) by blast
qed

lemma due_first:
  assumes "timer_inv l" "heap_min (timer_heap l) = Some h" "x \<in> due l"
  shows "h \<in> due l" "x \<noteq> h \<Longrightarrow> timer_less_than (handles l) h x"
proof -
  have x: "x \<in> active_set (handles l)" "timeout (handles l x) \<le> time l" using assms(3) by (simp_all add: due_active)
  note h = heap_min_least [OF assms(1, 2)] and le = least_timeout [OF assms(1, 2) x(1)]
  show "h \<in> due l" using h(1) le x(2) by (simp add: due_active)
  show "timer_less_than (handles l) h x" if "x \<noteq> h"
  proof -
    have "start_id (handles l x) \<noteq> start_id (handles l h)"
      using assms(1) x(1) h(1) that by (auto simp: timer_inv_def queued_def inj_on_def)
    then show ?thesis using h(2) [OF x(1)] by (auto simp: timer_less_than_def split: if_splits)
  qed
qed

lemma run_timers_ok:
  assumes "leaves_due B run_cb" "timer_inv l" "time l \<noteq> - 1"
    "unat (timer_counter l) + (B + 1) * card (due l) < 2 ^ 64"
  shows "\<exists>fired l'. uv__run_timers run_cb l = Some (fired, l') \<and> timer_inv l' \<and> due l' = {} \<and> set fired = due l \<and>
    sorted_wrt (timer_less_than (handles l)) fired"
  using assms(2-)
proof (induction "card (due l)" arbitrary: l)
  case 0
  then have none: "due l = {}" using due_finite [of l] by simp
  then have "uv__run_timers run_cb l = Some ([], l)"
    using heap_min_least(1) [OF 0(2)] by (subst uv__run_timers.simps) (auto simp: due_active split: option.split)
  then show ?case using none 0(2) by simp
next
  case (Suc n)
  have ne: "due l \<noteq> {}" using Suc(2) by auto
  then obtain h where h: "heap_min (timer_heap l) = Some h"
    using heap_min_none [OF Suc(3)] by (auto simp: due_active)
  then have hd: "h \<in> due l" using ne due_first(1) [OF Suc(3) h] by auto
  have card: "unat (timer_counter l) + (B + 1) * (n + 1) < 2 ^ 64" using Suc(2, 5) by simp
  have max: "timer_counter l \<noteq> - 1" using card unat_max_word64 by (auto simp: add_mult_distrib)
  obtain c l1 l2 cb where r: "uv_timer_stop l h = Some (0, l1)" "uv_timer_again l1 h = Some (c, l2)"
    "timer_cb (handles l2 h) = Some cb" "timer_inv l2" "time l2 = time l"
    "unat (timer_counter l2) \<le> unat (timer_counter l) + 1" "due l2 = due l - {h}" "\<And>x. x \<noteq> h \<Longrightarrow> handles l2 x = handles l x"
    using round_ok [OF Suc(3) hd Suc(4) max] by blast
  have "unat (timer_counter l2) + B < 2 ^ 64" using card r(6) by (simp add: add_mult_distrib)
  then obtain l3 where l3: "run_cb cb h l2 = Some l3" "timer_inv l3" "time l3 = time l2"
    "unat (timer_counter l3) \<le> unat (timer_counter l2) + B" "due l3 = due l2"
    "\<And>x. x \<in> due l2 \<Longrightarrow> same_key (handles l2 x) (handles l3 x)"
    using assms(1) r(4) unfolding leaves_due_def by blast
  have n: "n = card (due l3)" using Suc(2) hd due_finite [OF Suc(3)] l3(5) r(7) by simp
  have bound: "unat (timer_counter l3) + (B + 1) * card (due l3) < 2 ^ 64"
    using card l3(4) r(6) by (simp add: n [symmetric] add_mult_distrib)
  have now: "time l3 \<noteq> - 1" using Suc(4) l3(3) r(5) by simp
  obtain fired l' where f: "uv__run_timers run_cb l3 = Some (fired, l')" "timer_inv l'" "due l' = {}"
    "set fired = due l3" "sorted_wrt (timer_less_than (handles l3)) fired"
    using Suc(1) [OF n l3(2) now bound] by blast
  have key: "same_key (handles l x) (handles l3 x)" if "x \<in> set fired" for x
    using that f(4) l3(5, 6) r(7, 8) by auto
  have "sorted_wrt (timer_less_than (handles l)) fired"
    by (rule sorted_wrt_mono_rel [OF _ f(5)]) (use key timer_less_than_key in blast)
  moreover have "\<forall>x \<in> set fired. timer_less_than (handles l) h x"
    using due_first(2) [OF Suc(3) h] f(4) l3(5) r(7) by auto
  moreover have "uv__run_timers run_cb l = Some (h # fired, l')"
    using h hd r(1-3) l3(1) f(1) by (subst uv__run_timers.simps) (simp add: due_active not_less)
  ultimately show ?case using f(2-4) l3(5) r(7) hd by auto
qed

text \<open>C35. The expired timers.  When the callbacks leave the due timers alone and the counter of starts has
  room, \<open>uv__run_timers\<close> returns: it has run the callback of every timer that was due, once each, by
  deadline and by order of start where deadlines are equal; no due timer is left, repeating ones
  included, because these are put back with a deadline in the future.\<close>

theorem timers_fire_in_order:
  assumes "reachable_loop l" "leaves_due B run_cb" "time l < - 1"
    "unat (timer_counter l) + (B + 1) * card (due l) < 2 ^ 64"
  shows "\<exists>fired l'. uv__run_timers run_cb l = Some (fired, l') \<and> set fired = due l \<and> distinct fired \<and>
    sorted_wrt (timer_less_than (handles l)) fired \<and> due l' = {} \<and> timer_inv l'"
proof -
  have "time l \<noteq> - 1" using assms(3) by auto
  then obtain fired l' where f: "uv__run_timers run_cb l = Some (fired, l')" "timer_inv l'" "due l' = {}"
    "set fired = due l" "sorted_wrt (timer_less_than (handles l)) fired"
    using run_timers_ok [OF assms(2) reachable_inv [OF assms(1)] _ assms(4)] by blast
  moreover have "distinct fired" using f(5) by (induction fired) (auto simp: timer_order.irrefl)
  ultimately show ?thesis by blast
qed

lemma set_repeat_leaves_due: "leaves_due 0 (\<lambda>_ h l. Some (uv_timer_set_repeat l h 0))"
proof -
  have "handles (uv_timer_set_repeat l h 0) x = (handles l x)\<lparr>repeat := if x = h then 0 else repeat (handles l x)\<rparr>" for l h x
    by (simp add: uv_timer_set_repeat_def set_handle_def)
  then have "due (uv_timer_set_repeat l h 0) = due l \<and> (\<forall>x \<in> due l. same_key (handles l x) (handles (uv_timer_set_repeat l h 0) x))" for l h
    by (auto simp: due_active active_set_def same_key_def uv_timer_set_repeat_def set_handle_def)
  then show ?thesis
    by (auto simp: leaves_due_def set_repeat_inv) (auto simp: uv_timer_set_repeat_def set_handle_def)
qed

theorem timers_fire_in_order_witness:
  "\<exists>l fired l'. uv_timer_start quiet_loop 2 (Some 7) 0 4 = Some (0, l) \<and>
    uv__run_timers (\<lambda>_ h l. Some (uv_timer_set_repeat l h 0)) l = Some (fired, l') \<and> set fired = {2} \<and> due l' = {}"
proof -
  obtain l where l: "uv_timer_start quiet_loop 2 (Some 7) 0 4 = Some (0, l)" "time l = 5" "timer_counter l = 1"
    "handles l = (handles quiet_loop)(2 := started quiet_loop (Some 7) 0 4 (handles quiet_loop 2))"
    using quiet_loop_start [of "Some 7" 2 0 4] by blast
  have r: "reachable_loop l" by (rule step [OF quiet_loop_reachable start [OF l(1)]]) simp_all
  have "due l = {2}" using l(2, 4) by (auto simp: due_active active_set_upd bit_started deadline_def split: if_splits)
  then show ?thesis
    using timers_fire_in_order [OF r set_repeat_leaves_due] l(1-3) by (auto simp: word_less_nat_alt unat_max_word64)
qed

end
