(* ===== verification/Spec2Isabelle.thy ===== *)
theory Spec2Isabelle
  imports Prelude Pb_Istream Pb_Ostream Pb_Wire Pb_Field Pb_Encode Pb_Encode_Size Pb_Decode
    Pb_Decode_Stream Pb_Decode_Static Der Cbs Cbs_Der Cbs_Codec Cbb Cbb_Flush Cbb_Build Cbb_Values
    Cbb_Tree Cbb_Inv Cbb_Oid Ber Ber_Convert Ber_Der
    Unicode Const_Time Base64 Base64_Quad Base64_Stream Lhash Lhash_Map Pool Pool_Inv C_Sort Sk Sk_List Sk_Find
    Uv_Heap Uv_Heap_Order Uv_Timer Uv_Timer_Inv Uv_Timer_Run
begin

text \<open>
  A verification library for the C code under \<open>src/collection/Pods\<close> on which the app rests.

  \<^bold>\<open>The program.\<close>  GloboCollection is an iOS app written in Swift that stores its data in Firestore.  Its own
  sources are view controllers and calls of the Firebase SDK; the C code of the repository is below that SDK.
  Firestore encodes and decodes its messages with nanopb.  The connection to the server is gRPC, which takes
  TLS from BoringSSL and, on the platforms where it is configured to, its event loop from libuv.  The
  parts modelled here are the ones that read untrusted bytes or keep the shared state of these libraries:

  \<^item> nanopb: streams, wire format, field descriptors, encoder and decoder;
  \<^item> BoringSSL: the parser \<open>CBS\<close> and the builder \<open>CBB\<close> of byte strings with DER and BER, code points, base64,
    the constant-time primitives, the hash table, the stacks, the pool of shared buffers with its reference counts;
  \<^item> libuv: the pointer heap and the timers that are kept in it.

  \<^bold>\<open>Conventions.\<close>  \<open>Prelude\<close> fixes the platform: 64-bit pointers, little-endian, a byte is an 8-bit word.  A C
  function keeps its name.  A function that may fail returns an option or a flag beside the changed state, and the
  state of the failing call is part of the result.  Sizes that move only under a guard are natural numbers; where
  the code wraps, the reduction is written out or the value is a word.  A function of the C library that
  the code calls (\<open>memcmp\<close>, \<open>qsort\<close>, \<open>realloc\<close>) is modelled by its specification or is a parameter.  What
  lies outside of the C code is a parameter: the allocator (which requests succeed, where a block is placed, what its bytes
  are), callbacks of the application, descriptors that are generated from message definitions, the hash and
  comparison functions of a table.  Hypotheses on them are named (\<open>env_within\<close>, \<open>env_predictable\<close>, \<open>layout_ok\<close>,
  \<open>heap_order\<close>, \<open>lh_keys\<close>, \<open>leaves_due\<close>), and each property that has one comes with an instance.

  \<^bold>\<open>nanopb\<close> (\<open>nanopb/pb_common.c\<close>, \<open>pb_decode.c\<close>, \<open>pb_encode.c\<close>, \<open>pb.h\<close>; the build sets
  \<open>PB_FIELD_32BIT\<close>, \<open>PB_NO_PACKED_STRUCTS\<close> and \<open>PB_ENABLE_MALLOC\<close>).

  \<^item> \<open>Pb_Istream\<close> and \<open>Pb_Ostream\<close>: \<open>pb_istream_t\<close> and \<open>pb_ostream_t\<close> as records, \<open>pb_read\<close>, \<open>pb_write\<close>, varints,
    tags, fixed-width values, skipping, substreams.  The locale \<open>stream_op\<close> is the contract that a reader stays within
    its stream; it is interpreted on every reader.
  \<^item> \<open>Pb_Wire\<close>: what the writers produce, the readers accept.  The locale \<open>wire_codec\<close> carries one value to sequences of
    values; it is interpreted on the varint, zigzag, fixed-width and tag codecs.
  \<^item> \<open>Pb_Field\<close>: \<open>pb_field_t\<close>, the iterator with its pointer arithmetic, the search by tag.
  \<^item> \<open>Pb_Encode\<close>, \<open>Pb_Encode_Size\<close>: the encoder, and that the sizing pass predicts the writing pass.
  \<^item> \<open>Pb_Decode\<close>, \<open>Pb_Decode_Stream\<close>, \<open>Pb_Decode_Static\<close>: the decoder on a memory and a heap, for static, pointer,
    callback and extension fields; it never reads past the end of its input, whether the run returns or not, and with
    static fields it ends and writes only inside the structure.

  The encoder and the decoder call themselves through tables of functions.  The fuel of \<open>pb_encode\<close> and \<open>pb_decode\<close>
  bounds the nesting of messages (and the lists of extensions); the memory-safety theorem shows that for static
  fields any fuel above the nesting depth of the descriptors gives a result.  A run of the decoder is \<open>Done\<close> with
  its result, or \<open>Stuck\<close> with the stream as it was where the fuel ended or C leaves the next operation
  undefined; the theorem on the bounds of the input covers both.

  \<^bold>\<open>BoringSSL byte strings\<close> (\<open>BoringSSL-GRPC/src/crypto/bytestring\<close>).

  \<^item> \<open>Der\<close>: the distinguished encoding of tags, lengths and elements, as a specification.
  \<^item> \<open>Cbs\<close>, \<open>Cbs_Der\<close>, \<open>Cbs_Codec\<close>: \<open>cbs.c\<close>.  A parser accepts exactly the one encoding of a value: the locale
    \<open>prefix_codec\<close>, interpreted on the readers of integers, length-prefixed strings, tags, elements, ASN.1 integers and
    booleans, and in \<open>Unicode\<close> of code points.
  \<^item> \<open>Cbb\<close>, \<open>Cbb_Flush\<close>, \<open>Cbb_Build\<close>, \<open>Cbb_Values\<close>, \<open>Cbb_Tree\<close>, \<open>Cbb_Inv\<close>, \<open>Cbb_Oid\<close>: \<open>cbb.c\<close>.  A \<open>CBB\<close> is a
    buffer with a chain of open children; a store outside the buffer would set a flag, and the
    invariant says that it is never set.  The locale \<open>appender\<close> is the contract of the writers (it extends to \<open>filler\<close>), and
    \<open>round_trip\<close> joins it with \<open>prefix_codec\<close>.  Nested values come out as DER; object identifiers go
    from text to bytes and back; \<open>CBB_flush_asn1_set_of\<close> sorts; errors stick.
  \<^item> \<open>Ber\<close>, \<open>Ber_Convert\<close>, \<open>Ber_Der\<close>: \<open>ber.c\<close> and \<open>asn1_compat.c\<close>.  The conversion from BER to DER against a grammar of
    BER.  The fuel of \<open>cbs_convert_ber\<close> is one more than the length of the input, which is proved to be enough.
  \<^item> \<open>Unicode\<close>: \<open>unicode.c\<close>, four encodings of code points.

  \<^bold>\<open>BoringSSL base64 and constant time\<close> (\<open>crypto/base64/base64.c\<close>, \<open>crypto/internal.h\<close>).

  \<^item> \<open>Const_Time\<close>: the masks and selections compute the comparisons they stand for.
  \<^item> \<open>Base64\<close>, \<open>Base64_Quad\<close>, \<open>Base64_Stream\<close>: the block and the streaming functions.  The conversions of characters, which have no
    branches, are the table of RFC 4648; the encoder produces the encoding that \<open>rfc4648\<close> states in numbers, in
    lines of 64 characters; decoding undoes encoding however input and text are cut up.

  \<^bold>\<open>BoringSSL hash table and buffer pool\<close> (\<open>crypto/lhash/lhash.c\<close>, \<open>crypto/pool/pool.c\<close>, \<open>crypto/refcount_c11.c\<close>).

  \<^item> \<open>Lhash\<close>, \<open>Lhash_Map\<close>: the chains, resizing included.  The locale \<open>lh_keys\<close> has the laws of hash and comparison; by a
    sublocale a table is a \<open>key_map\<close>, the contract of a finite map, for any sequence of operations and any
    failures of the allocator.
  \<^item> \<open>Pool\<close>, \<open>Pool_Inv\<close>: the pool on the table (\<open>lh_keys\<close> interpreted on \<open>CRYPTO_BUFFER_hash\<close> and
    \<open>CRYPTO_BUFFER_cmp\<close>).  The sections under the lock are the steps of a transition relation, so that threads interleave between them.
    No reachable state has a freed buffer in the table or in the hands of a thread, and counts are exact until
    they saturate.  The theorem of this theory joins builder, pool and parser.

  \<^bold>\<open>BoringSSL stacks\<close> (\<open>crypto/stack/stack.c\<close>).

  \<^item> \<open>C_Sort\<close>: the locale \<open>total_cmp\<close> is the contract of a comparison function (interpreted on the order of a SET OF), and \<open>c_qsort\<close> that
    of the \<open>qsort\<close> of the C library, which may leave equal elements in any order.
  \<^item> \<open>Sk\<close>, \<open>Sk_List\<close>, \<open>Sk_Find\<close>: growing arrays of pointers.  An access outside of the array is \<open>None\<close>, and no sequence of
    operations leads to one.  The operations are those on lists; the binary search finds the first match, as the
    search from the front does, as long as \<open>sk_set\<close> is not used.

  \<^bold>\<open>libuv\<close> (\<open>Libuv-gRPC/src/heap-inl.h\<close>, \<open>timer.c\<close>, \<open>uv-common.h\<close>).

  \<^item> \<open>Uv_Heap\<close>, \<open>Uv_Heap_Order\<close>: nodes linked by pointers in an explicit store; \<open>heap_inv\<close> says that the links form
    a complete, ordered tree over a set of nodes.  The loops are partial functions whose value \<open>None\<close> is a null pointer followed or a
    loop that does not end; insertion and removal are proved to return.  The locale \<open>heap_order\<close> is a strict weak
    order, interpreted on \<open>timer_less_than\<close>; \<open>node_queue\<close> is the contract of a priority queue, interpreted on the heap.
  \<^item> \<open>Uv_Timer\<close>, \<open>Uv_Timer_Inv\<close>, \<open>Uv_Timer_Run\<close>: the operations on timers as a state machine, its invariant, and that
    \<open>uv__run_timers\<close> returns having fired each due timer once, in order of the deadlines.

  \<^bold>\<open>What the proofs found.\<close>  \<open>cbs_find_ber\<close> forgets BER inside an element that is followed by another
  (\<open>find_ber_forgets_nested\<close>); \<open>pb_decode_varint32_eof\<close> accepts varints of any length and may read a value from their far end
  (\<open>varint32_overlong_accepted\<close>); a fixed-count array without a count of its own makes \<open>pb_field_set_to_default\<close> write outside
  of the field (\<open>fixed_count_default_overflows\<close>); a message without fields accepts the field number 0
  (\<open>empty_message_accepts_tag_zero\<close>); \<open>sk_set\<close> leaves the flag \<open>sorted\<close> set, after which \<open>sk_find\<close> may miss an element
  (\<open>sk_set_hides_element\<close>).

  \<^bold>\<open>Not modelled.\<close>  The Swift app and the Objective-C and Swift SDKs, which hold no C code; gRPC, Abseil, leveldb and the
  Firestore client, which are C++; the cryptography of BoringSSL, which is assembly, tables and arithmetic on
  curves, and its TLS state machine; X.509 and the ASN.1 templates, which macros generate; the system
  calls of libuv.  Of the modelled files these parts are left out: functions that only release memory; the memory orders of the
  atomic operations, since each update of a count is one step; iteration over a table whose callback changes the table;
  and libuv handles other than timers.
\<close>

section \<open>From the builder through the pool to the parser\<close>

text \<open>C5. An element that is built, pooled and parsed.  A client builds an ASN.1 value of any depth, finishes the
  builder, hands the bytes to the pool with \<open>CRYPTO_BUFFER_new_from_CBS\<close> and parses the shared buffer through
  \<open>CRYPTO_BUFFER_init_CBS\<close>: in every state that the threads of the pool can reach, and with memory, each call
  succeeds, the parser returns the tag and the contents of the value and nothing is left over; the client
  then holds a reference to the buffer, and the pool is in a state that its threads can reach.\<close>

theorem pooled_element_round_trip:
  assumes "\<forall>k. can_alloc h k" "n < size_mod" "sized x" "der x = Some w" "length w < size_mod"
    "pool_reachable c" "objects (pst c) a = None" "a \<noteq> 0"
  shows "\<exists>s s' s'' b m r st. CBB_init h n = (True, s) \<and> build h 0 s x = (True, s') \<and>
    CBB_finish h 0 s' True True = (Some (b, m), s'') \<and>
    CRYPTO_BUFFER_new_from_CBS (pst c) (Some a) True True buckets_ok (CBS_init b m) True = (Some r, st) \<and>
    (\<exists>t v. w = der_element t v \<and> CBS_get_any_asn1 (CRYPTO_BUFFER_init_CBS st r) = (Some (v, t), [])) \<and>
    (\<exists>c'. pool_reachable c' \<and> pst c' = st \<and> 0 < held c' r)"
proof -
  obtain s s' s'' b where cbb: "CBB_init h n = (True, s)" "build h 0 s x = (True, s')"
    "CBB_finish h 0 s' True True = (Some (b, length w), s'')" "take (length w) b = w"
    using build_finish [OF assms(1-5)] by blast
  obtain r' st where new: "CRYPTO_BUFFER_new (pst c) (Some a) True True buckets_ok w True = (r', st)"
    by (cases "CRYPTO_BUFFER_new (pst c) (Some a) True True buckets_ok w True")
  then obtain r where r: "r' = Some r" using new_succeeds [of "Some a" "pst c" buckets_ok w True] by auto
  have "CBS_init b (length w) = w" using cbb(4) by (simp add: CBS_init_def)
  then have cbs: "CRYPTO_BUFFER_new_from_CBS (pst c) (Some a) True True buckets_ok (CBS_init b (length w)) True = (Some r, st)"
    using new r by (simp add: CRYPTO_BUFFER_new_from_CBS_def CBS_len_def)
  have "\<forall>k. Some a = Some k \<longrightarrow> objects (pst c) k = None \<and> k \<noteq> 0" using assms(7, 8) by simp
  from conjunct2 [OF new_in_pool [OF assms(6) this new]] obtain c'
    where c': "CRYPTO_BUFFER_data st r = w" "pool_reachable c'" "pst c' = st" "held c' = (held c)(r := held c r + 1)"
    using r by blast
  obtain v t where p: "w = der_element t v" "CBS_get_any_asn1 w = (Some (v, t), [])" using der_parses [OF assms(4)] by blast
  have "CRYPTO_BUFFER_init_CBS st r = w"
    using c'(1) by (simp add: CRYPTO_BUFFER_init_CBS_def CBS_init_def CRYPTO_BUFFER_len_def CRYPTO_BUFFER_data_def)
  with p have "\<exists>t v. w = der_element t v \<and> CBS_get_any_asn1 (CRYPTO_BUFFER_init_CBS st r) = (Some (v, t), [])" by metis
  moreover have "0 < held c' r" using c'(4) by simp
  ultimately show ?thesis using cbb(1-3) cbs c'(2, 3) by blast
qed

theorem pooled_element_round_trip_witness:
  "\<exists>t r st. CRYPTO_BUFFER_POOL_new True True True = Some t \<and>
     CBS_get_any_asn1 (CRYPTO_BUFFER_init_CBS st r) = (Some ([5], 2), [])"
proof -
  let ?h = "\<lparr>can_alloc = \<lambda>_. True, junk = \<lambda>_. 0\<rparr>"
  obtain t where t: "CRYPTO_BUFFER_POOL_new True True True = Some t" using new_pool by blast
  have "der_tag 2 = [2]" by code_simp
  then have e: "der_element 2 [5] = [2, 1, 5]" by (simp add: der_element_def der_header_def der_length_def)
  have pre: "\<forall>k. can_alloc ?h k" "0 < size_mod" "sized (Primitive 2 [5])" "der (Primitive 2 [5]) = Some (der_element 2 [5])"
    "length (der_element 2 [5]) < size_mod"
    by (simp_all add: size_mod_def e)
  from pooled_element_round_trip [OF pre pool_reachable.start [OF t], of 5 True] obtain r st v k
    where "der_element 2 [5] = der_element k v" "CBS_get_any_asn1 (CRYPTO_BUFFER_init_CBS st r) = (Some (v, k), [])"
    by auto
  then have "CBS_get_any_asn1 (CRYPTO_BUFFER_init_CBS st r) = (Some ([5], 2), [])" by (simp add: CBS_get_any_asn1_iff)
  with t show ?thesis by blast
qed

end
